(* ===== verification/Prelude.thy ===== *)
theory Prelude
  imports Main "HOL-Library.Word" "HOL-Library.Monad_Syntax"
begin

text \<open>
  Shared vocabulary of the development: the C integer types at their widths, the error numbers
  of \<^verbatim>\<open>kernel/api/errno.h\<close>, the \<^verbatim>\<open>ASSERT\<close> of \<^verbatim>\<open>common/panic.h\<close>, checked access to arrays, the rounding macros
  of \<^verbatim>\<open>common/extra.h\<close>, and the generic lemmas on lists, options and words that the components use.

  Conventions. A C function that may panic (a failed \<^verbatim>\<open>ASSERT\<close>, \<^verbatim>\<open>UNREACHABLE\<close>) or that may touch
  memory outside the object it works on returns an \<open>option\<close>: \<open>None\<close> is that abnormal end, and it
  propagates through the option monad. An error number handed back to the caller is not abnormal:
  it is the \<open>Inl\<close> side of a sum \<open>errno + 'a\<close>. State is passed explicitly.
\<close>

unbundle bit_operations_syntax

named_theorems panic_simps \<open>unfolding rules of the panic and bounds checks\<close>

section \<open>Machine integers\<close>

type_synonym u8 = "8 word"
type_synonym u16 = "16 word"
type_synonym u32 = "32 word"
type_synonym u64 = "64 word"

section \<open>Error numbers\<close>

text \<open>The error numbers that the kernel sources return, and their values. \<open>ERESTARTSYS\<close> never leaves the kernel: the system
  call is made again or ends with \<open>EINTR\<close>.\<close>

datatype errno =
    EPERM | ENOENT | ESRCH | EINTR | EIO | ENXIO | E2BIG | ENOEXEC | EBADF | ECHILD | EAGAIN
  | ENOMEM | EACCES | EFAULT | ENOTBLK | EBUSY | EEXIST | EXDEV | ENODEV | ENOTDIR | EISDIR
  | EINVAL | ENFILE | EMFILE | ENOTTY | ETXTBSY | EFBIG | ENOSPC | ESPIPE | EROFS | EMLINK
  | EPIPE | EDOM | ERANGE | EDEADLK | ENAMETOOLONG | ENOLCK | ENOSYS | ENOTEMPTY | ELOOP
  | EOVERFLOW | ENOTSOCK | EOPNOTSUPP | EAFNOSUPPORT | EADDRINUSE | EISCONN | ENOTCONN | ECONNREFUSED | ERESTARTSYS

fun errno_val :: "errno \<Rightarrow> int" where
  "errno_val EPERM = 1"
| "errno_val ENOENT = 2"
| "errno_val ESRCH = 3"
| "errno_val EINTR = 4"
| "errno_val EIO = 5"
| "errno_val ENXIO = 6"
| "errno_val E2BIG = 7"
| "errno_val ENOEXEC = 8"
| "errno_val EBADF = 9"
| "errno_val ECHILD = 10"
| "errno_val EAGAIN = 11"
| "errno_val ENOMEM = 12"
| "errno_val EACCES = 13"
| "errno_val EFAULT = 14"
| "errno_val ENOTBLK = 15"
| "errno_val EBUSY = 16"
| "errno_val EEXIST = 17"
| "errno_val EXDEV = 18"
| "errno_val ENODEV = 19"
| "errno_val ENOTDIR = 20"
| "errno_val EISDIR = 21"
| "errno_val EINVAL = 22"
| "errno_val ENFILE = 23"
| "errno_val EMFILE = 24"
| "errno_val ENOTTY = 25"
| "errno_val ETXTBSY = 26"
| "errno_val EFBIG = 27"
| "errno_val ENOSPC = 28"
| "errno_val ESPIPE = 29"
| "errno_val EROFS = 30"
| "errno_val EMLINK = 31"
| "errno_val EPIPE = 32"
| "errno_val EDOM = 33"
| "errno_val ERANGE = 34"
| "errno_val EDEADLK = 35"
| "errno_val ENAMETOOLONG = 36"
| "errno_val ENOLCK = 37"
| "errno_val ENOSYS = 38"
| "errno_val ENOTEMPTY = 39"
| "errno_val ELOOP = 40"
| "errno_val EOVERFLOW = 75"
| "errno_val ENOTSOCK = 88"
| "errno_val EOPNOTSUPP = 95"
| "errno_val EAFNOSUPPORT = 97"
| "errno_val EADDRINUSE = 98"
| "errno_val EISCONN = 106"
| "errno_val ENOTCONN = 107"
| "errno_val ECONNREFUSED = 111"
| "errno_val ERESTARTSYS = 512"

type_synonym 'a result = "errno + 'a"

section \<open>Panics and checked array access\<close>

text \<open>\<^verbatim>\<open>ASSERT(cond)\<close>: the kernel stops when the condition is false.\<close>

definition c_assert :: "bool \<Rightarrow> unit option" where
  "c_assert c = (if c then Some () else None)"

text \<open>Reading and writing an element of a C array, with the bounds written out.\<close>

definition arr_get :: "'a list \<Rightarrow> nat \<Rightarrow> 'a option" where
  "arr_get xs i = (if i < length xs then Some (xs ! i) else None)"

definition arr_set :: "'a list \<Rightarrow> nat \<Rightarrow> 'a \<Rightarrow> 'a list option" where
  "arr_set xs i v = (if i < length xs then Some (xs[i := v]) else None)"

lemma c_assert_simps [simp, panic_simps]:
  "c_assert True = Some ()"
  "c_assert False = None"
  by (simp_all add: c_assert_def)

lemma c_assert_eq_Some [simp]: "c_assert c = Some u \<longleftrightarrow> c"
  by (simp add: c_assert_def)

lemma c_assert_eq_None [simp]: "c_assert c = None \<longleftrightarrow> \<not> c"
  by (simp add: c_assert_def)

lemma c_assert_bind [simp]: "Option.bind (c_assert c) f = (if c then f () else None)"
  by (simp add: c_assert_def)

lemma arr_get_in [simp, panic_simps]: "i < length xs \<Longrightarrow> arr_get xs i = Some (xs ! i)"
  by (simp add: arr_get_def)

lemma arr_get_out [simp]: "length xs \<le> i \<Longrightarrow> arr_get xs i = None"
  by (simp add: arr_get_def)

lemma arr_set_in [simp, panic_simps]: "i < length xs \<Longrightarrow> arr_set xs i v = Some (xs[i := v])"
  by (simp add: arr_set_def)

lemma arr_set_out [simp]: "length xs \<le> i \<Longrightarrow> arr_set xs i v = None"
  by (simp add: arr_set_def)

lemma arr_get_eq_Some: "arr_get xs i = Some x \<longleftrightarrow> i < length xs \<and> xs ! i = x"
  by (auto simp: arr_get_def)

lemma arr_set_eq_Some: "arr_set xs i v = Some ys \<longleftrightarrow> i < length xs \<and> xs[i := v] = ys"
  by (auto simp: arr_set_def)

section \<open>Rounding macros\<close>

text \<open>
  \<^verbatim>\<open>ROUND_UP\<close>, \<^verbatim>\<open>ROUND_DOWN\<close> and \<^verbatim>\<open>DIV_CEIL\<close> of \<^verbatim>\<open>common/extra.h\<close> on 32-bit operands, with the
  wrap-around that the additions have in C.
\<close>

definition ROUND_UP :: "u32 \<Rightarrow> u32 \<Rightarrow> u32" where
  "ROUND_UP x align = (x + (align - 1)) AND NOT (align - 1)"

definition ROUND_DOWN :: "u32 \<Rightarrow> u32 \<Rightarrow> u32" where
  "ROUND_DOWN x align = x AND NOT (align - 1)"

definition DIV_CEIL :: "u32 \<Rightarrow> u32 \<Rightarrow> u32" where
  "DIV_CEIL lhs rhs = (lhs + rhs - 1) div rhs"

section \<open>Generic lemmas\<close>

lemma mod_add_less_self: "(a::nat) < n \<Longrightarrow> k < n \<Longrightarrow> (a + k) mod n = (if a + k < n then a + k else a + k - n)"
  by (simp add: mod_if)

lemma Suc_mod_less: "a < n \<Longrightarrow> Suc a mod n = (if Suc a = n then 0 else Suc a)"
  by (cases "Suc a = n") auto

lemma mod_Suc_add: "(Suc a mod n + k) mod n = (a + Suc k) mod (n::nat)"
  by (simp add: mod_add_left_eq)

lemma option_bind_Some_iff:
  "Option.bind m f = Some y \<longleftrightarrow> (\<exists>x. m = Some x \<and> f x = Some y)"
  by (cases m) auto

section \<open>Bit search\<close>

text \<open>\<^verbatim>\<open>__builtin_ffs\<close>: one plus the index of the lowest set bit, 0 when there is none.\<close>

definition ffs :: "u32 \<Rightarrow> nat" where
  "ffs w = (case find (\<lambda>i. bit w i) [0..<32] of None \<Rightarrow> 0 | Some i \<Rightarrow> Suc i)"

lemma ffs_0_iff: "ffs w = 0 \<longleftrightarrow> w = 0"
proof
  assume "ffs w = 0"
  then have "\<not> bit w i" if "i < 32" for i
    using that by (auto simp: ffs_def find_None_iff split: option.splits)
  then show "w = 0" by (intro bit_word_eqI) simp
next
  assume "w = 0"
  then have "find (\<lambda>i. bit w i) [0..<32] = None" by (simp add: find_None_iff)
  then show "ffs w = 0" by (simp add: ffs_def)
qed

lemma ffs_SucD:
  assumes "ffs w = Suc i"
  shows "bit w i" "i < 32" "\<And>j. j < i \<Longrightarrow> \<not> bit w j"
  using assms by (auto simp: ffs_def find_Some_iff split: option.splits)

lemma unat_u32_less: "unat (x::u32) < 2 ^ 32"
  using unsigned_less [of x] by simp

lemma of_nat_u32_inj: "i < 2 ^ 32 \<Longrightarrow> j < 2 ^ 32 \<Longrightarrow> (of_nat i :: u32) = of_nat j \<longleftrightarrow> i = j"
  by (auto dest: arg_cong [of _ _ unat] simp: unat_of_nat)

lemma unat_of_nat_u32: "i < 2 ^ 32 \<Longrightarrow> unat (of_nat i :: u32) = i"
  by (simp add: unat_of_nat)

end
