(* ===== verification/User_Mem.thy ===== *)
theory User_Mem
  imports Prelude
begin

text \<open>
  Access to untrusted pointers: \<^verbatim>\<open>kernel/safe_string.c\<close> and the range checks of \<^verbatim>\<open>kernel/memory/memory.h\<close>.

  Memory is a partial map from 32-bit addresses to a byte and a flag that says whether a store to it
  succeeds. An access outside the map, or a store to a byte whose flag is false, is a page fault;
  \<^verbatim>\<open>safe_string_handle_page_fault\<close> then moves the instruction pointer to the \<^verbatim>\<open>on_fault\<close> label, which the
  loops below have as their early exit. The string instructions (\<^verbatim>\<open>rep movsb\<close>, \<^verbatim>\<open>rep stosb\<close>) work byte by
  byte and leave what they stored before the fault in place.
\<close>

section \<open>Address ranges\<close>

type_synonym mem = "u32 \<rightharpoonup> u8 \<times> bool"

definition KERNEL_VIRT_ADDR :: u32 where
  "KERNEL_VIRT_ADDR = 0xc0000000"

definition is_user_address :: "u32 \<Rightarrow> bool" where
  "is_user_address addr \<longleftrightarrow> addr \<noteq> 0 \<and> addr < KERNEL_VIRT_ADDR"

definition is_user_range :: "u32 \<Rightarrow> u32 \<Rightarrow> bool" where
  "is_user_range addr sz \<longleftrightarrow>
     (if \<not> is_user_address addr then False
      else let e = addr + sz in addr \<le> e \<and> e \<le> KERNEL_VIRT_ADDR)"

definition is_kernel_address :: "u32 \<Rightarrow> bool" where
  "is_kernel_address addr \<longleftrightarrow> addr \<noteq> 0 \<and> addr \<ge> KERNEL_VIRT_ADDR"

definition is_kernel_range :: "u32 \<Rightarrow> u32 \<Rightarrow> bool" where
  "is_kernel_range addr sz \<longleftrightarrow> is_kernel_address addr \<and> addr \<le> addr + sz"

section \<open>The loops\<close>

text \<open>\<^verbatim>\<open>rep movsb\<close> with \<open>n\<close> in \<^verbatim>\<open>ecx\<close>: the first component is what is left in \<^verbatim>\<open>ecx\<close>, 0 unless a fault occurred.\<close>

fun rep_movsb :: "mem \<Rightarrow> u32 \<Rightarrow> u32 \<Rightarrow> nat \<Rightarrow> nat \<times> mem" where
  "rep_movsb m dest src 0 = (0, m)"
| "rep_movsb m dest src (Suc n) =
     (case m src of
        None \<Rightarrow> (Suc n, m)
      | Some (x, _) \<Rightarrow>
          (case m dest of
             Some (_, True) \<Rightarrow> rep_movsb (m(dest \<mapsto> (x, True))) (dest + 1) (src + 1) n
           | _ \<Rightarrow> (Suc n, m)))"

fun rep_stosb :: "mem \<Rightarrow> u32 \<Rightarrow> u8 \<Rightarrow> nat \<Rightarrow> nat \<times> mem" where
  "rep_stosb m dest c 0 = (0, m)"
| "rep_stosb m dest c (Suc n) =
     (case m dest of
        Some (_, True) \<Rightarrow> rep_stosb (m(dest \<mapsto> (c, True))) (dest + 1) c n
      | _ \<Rightarrow> (Suc n, m))"

text \<open>The loop of \<^verbatim>\<open>safe_strnlen\<close>: \<open>n\<close> is \<^verbatim>\<open>edx\<close>, the result is \<^verbatim>\<open>ecx\<close>.\<close>

fun strnlen_loop :: "mem \<Rightarrow> u32 \<Rightarrow> u32 \<Rightarrow> nat \<Rightarrow> u32" where
  "strnlen_loop m str count 0 = count"
| "strnlen_loop m str count (Suc n) =
     (case m (str + count) of
        None \<Rightarrow> - 1
      | Some (x, _) \<Rightarrow> if x = 0 then count else strnlen_loop m str (count + 1) n)"

text \<open>
  The loop of \<^verbatim>\<open>safe_strncpy\<close>, entered with \<open>n > 0\<close> bytes to go: it reads a byte, stops at the
  terminator, stores the byte and stops when the count is reached.
\<close>

fun strncpy_loop :: "mem \<Rightarrow> u32 \<Rightarrow> u32 \<Rightarrow> u32 \<Rightarrow> nat \<Rightarrow> u32 \<times> mem" where
  "strncpy_loop m dest src count 0 = (count, m)"
| "strncpy_loop m dest src count (Suc n) =
     (case m (src + count) of
        None \<Rightarrow> (- 1, m)
      | Some (x, _) \<Rightarrow>
          if x = 0 then (count, m)
          else (case m (dest + count) of
                  Some (_, True) \<Rightarrow> strncpy_loop (m(dest + count \<mapsto> (x, True))) dest src (count + 1) n
                | _ \<Rightarrow> (- 1, m)))"

section \<open>The safe string functions\<close>

definition safe_memcpy :: "mem \<Rightarrow> u32 \<Rightarrow> u32 \<Rightarrow> u32 \<Rightarrow> unit result \<times> mem" where
  "safe_memcpy m dest src n =
     (if dest = 0 \<or> src = 0 then (Inl EFAULT, m)
      else let (remainder, m') = rep_movsb m dest src (unat n)
           in (if remainder = 0 then Inr () else Inl EFAULT, m'))"

definition safe_memset :: "mem \<Rightarrow> u32 \<Rightarrow> u8 \<Rightarrow> u32 \<Rightarrow> unit result \<times> mem" where
  "safe_memset m s c n =
     (if s = 0 then (Inl EFAULT, m)
      else let (remainder, m') = rep_stosb m s c (unat n)
           in (if remainder = 0 then Inr () else Inl EFAULT, m'))"

definition safe_strnlen :: "mem \<Rightarrow> u32 \<Rightarrow> u32 \<Rightarrow> u32 result" where
  "safe_strnlen m str n =
     (if str = 0 then Inl EFAULT
      else let count = strnlen_loop m str 0 (unat n)
           in if sint count < 0 then Inl EFAULT else Inr count)"

definition safe_strncpy :: "mem \<Rightarrow> u32 \<Rightarrow> u32 \<Rightarrow> u32 \<Rightarrow> u32 result \<times> mem" where
  "safe_strncpy m dest src n =
     (if dest = 0 \<or> src = 0 then (Inl EFAULT, m)
      else if n = 0 then (Inr 0, m)
      else let (num_copied, m') = strncpy_loop m dest src 0 (unat n)
           in if sint num_copied < 0 then (Inl EFAULT, m')
              else (case safe_memset m' (dest + num_copied) 0 (n - num_copied) of
                      (Inl e, m'') \<Rightarrow> (Inl e, m'')
                    | (Inr _, m'') \<Rightarrow> (Inr num_copied, m'')))"

definition copy_from_user :: "mem \<Rightarrow> u32 \<Rightarrow> u32 \<Rightarrow> u32 \<Rightarrow> (unit result \<times> mem) option" where
  "copy_from_user m to user_from n =
     do {
       c_assert (is_kernel_address to);
       Some (if is_kernel_range to n \<and> is_user_range user_from n then safe_memcpy m to user_from n
             else (Inl EFAULT, m))
     }"

definition copy_to_user :: "mem \<Rightarrow> u32 \<Rightarrow> u32 \<Rightarrow> u32 \<Rightarrow> (unit result \<times> mem) option" where
  "copy_to_user m user_to from n =
     do {
       c_assert (is_kernel_address from);
       Some (if is_user_range user_to n \<and> is_kernel_range from n then safe_memcpy m user_to from n
             else (Inl EFAULT, m))
     }"

definition clear_user :: "mem \<Rightarrow> u32 \<Rightarrow> u32 \<Rightarrow> unit result \<times> mem" where
  "clear_user m user_to n = (if is_user_range user_to n then safe_memset m user_to 0 n else (Inl EFAULT, m))"

definition strnlen_user :: "mem \<Rightarrow> u32 \<Rightarrow> u32 \<Rightarrow> u32 result" where
  "strnlen_user m user_str n = (if is_user_range user_str n then safe_strnlen m user_str n else Inl EFAULT)"

definition strncpy_from_user :: "mem \<Rightarrow> u32 \<Rightarrow> u32 \<Rightarrow> u32 \<Rightarrow> (u32 result \<times> mem) option" where
  "strncpy_from_user m dest user_src n =
     do {
       c_assert (is_kernel_address dest);
       Some (if is_kernel_range dest n \<and> is_user_range user_src n then safe_strncpy m dest user_src n
             else (Inl EFAULT, m))
     }"

section \<open>Reading and writing runs of bytes\<close>

text \<open>The bytes of a range, \<open>None\<close> when one of them is not mapped; and a run of stores.\<close>

fun load_bytes :: "mem \<Rightarrow> u32 \<Rightarrow> nat \<Rightarrow> u8 list option" where
  "load_bytes m a 0 = Some []"
| "load_bytes m a (Suc n) =
     do { (x, _) \<leftarrow> m a; xs \<leftarrow> load_bytes m (a + 1) n; Some (x # xs) }"

fun store_bytes :: "mem \<Rightarrow> u32 \<Rightarrow> u8 list \<Rightarrow> mem" where
  "store_bytes m a [] = m"
| "store_bytes m a (x # xs) = store_bytes (m(a \<mapsto> (x, True))) (a + 1) xs"

fun writable_bytes :: "mem \<Rightarrow> u32 \<Rightarrow> nat \<Rightarrow> bool" where
  "writable_bytes m a 0 \<longleftrightarrow> True"
| "writable_bytes m a (Suc n) \<longleftrightarrow> (\<exists>x. m a = Some (x, True)) \<and> writable_bytes m (a + 1) n"

lemmas byte_loop_numeral [simp] =
  rep_movsb.simps(2) [of _ _ _ "pred_numeral k" for k, folded numeral_eq_Suc]
  rep_stosb.simps(2) [of _ _ _ "pred_numeral k" for k, folded numeral_eq_Suc]
  load_bytes.simps(2) [of _ _ "pred_numeral k" for k, folded numeral_eq_Suc]
  writable_bytes.simps(2) [of _ _ "pred_numeral k" for k, folded numeral_eq_Suc]

definition in_range :: "u32 \<Rightarrow> nat \<Rightarrow> u32 \<Rightarrow> bool" where
  "in_range a n x \<longleftrightarrow> (\<exists>i<n. x = a + of_nat i)"

lemma in_range_0 [simp]: "\<not> in_range a 0 x"
  by (simp add: in_range_def)

lemma in_range_Suc: "in_range a (Suc n) x \<longleftrightarrow> x = a \<or> in_range (a + 1) n x"
  by (auto simp: in_range_def less_Suc_eq_0_disj algebra_simps)

lemma in_range_self: "0 < n \<Longrightarrow> in_range a n a"
  by (auto simp: in_range_def intro: exI [of _ 0])

lemma in_range_mono: "in_range a n x \<Longrightarrow> n \<le> k \<Longrightarrow> in_range a k x"
  unfolding in_range_def using less_le_trans by blast

lemma not_in_range_next: "n < 2 ^ 32 \<Longrightarrow> \<not> in_range (a + 1) n a"
proof
  assume n: "n < 2 ^ 32" and "in_range (a + 1) n a"
  then obtain i where i: "i < n" "a = a + 1 + of_nat i" by (auto simp: in_range_def)
  then have "of_nat (Suc i) = (0::u32)" by (simp add: add.assoc)
  then have "2 ^ 32 dvd Suc i" by (simp only: word_of_nat_eq_0_iff) simp
  with i n show False by (auto dest: dvd_imp_le)
qed

lemma store_bytes_other [simp]: "\<not> in_range a (length xs) x \<Longrightarrow> store_bytes m a xs x = m x"
  by (induction m a xs rule: store_bytes.induct) (auto simp: in_range_Suc)

lemma load_bytes_cong: "(\<And>x. in_range a n x \<Longrightarrow> m x = m' x) \<Longrightarrow> load_bytes m a n = load_bytes m' a n"
  by (induction n arbitrary: a) (auto simp: in_range_Suc split: option.splits)

lemma load_bytes_length: "load_bytes m a n = Some xs \<Longrightarrow> length xs = n"
  by (induction n arbitrary: a xs) (auto simp: option_bind_Some_iff)

lemma load_store_bytes: "length xs \<le> 2 ^ 32 \<Longrightarrow> load_bytes (store_bytes m a xs) a (length xs) = Some xs"
proof (induction xs arbitrary: m a)
  case (Cons x xs)
  then have "store_bytes (m(a \<mapsto> (x, True))) (a + 1) xs a = Some (x, True)"
    using not_in_range_next [of "length xs" a] by simp
  with Cons show ?case by simp
qed simp

lemma load_store_disjoint:
  "(\<And>x. in_range a n x \<Longrightarrow> \<not> in_range b (length xs) x) \<Longrightarrow> load_bytes (store_bytes m b xs) a n = load_bytes m a n"
  by (rule load_bytes_cong) auto

lemma writable_store: "writable_bytes m a n \<Longrightarrow> writable_bytes (store_bytes m b xs) a n"
proof (induction m b xs rule: store_bytes.induct)
  case (2 m b x xs)
  have "writable_bytes (m(b \<mapsto> (x, True))) a n"
    using 2(2) by (induction n arbitrary: a) auto
  with 2 show ?case by (simp add: fun_upd_def)
qed simp

text \<open>\<^verbatim>\<open>rep movsb\<close> between disjoint ranges copies the bytes; whatever happens it only stores inside the destination.\<close>

lemma rep_movsb_copies:
  assumes "load_bytes m src n = Some xs" "writable_bytes m dest n"
    and "\<And>x. in_range src n x \<Longrightarrow> \<not> in_range dest n x"
  shows "rep_movsb m dest src n = (0, store_bytes m dest xs)"
  using assms
proof (induction n arbitrary: m dest src xs)
  case (Suc n)
  from Suc.prems(1) obtain x w ys where x: "m src = Some (x, w)" and ys: "load_bytes m (src + 1) n = Some ys"
    and xs: "xs = x # ys" by (auto simp: option_bind_Some_iff)
  let ?m = "m(dest \<mapsto> (x, True))"
  have "load_bytes ?m (src + 1) n = Some ys"
    using ys Suc.prems(3) load_bytes_cong [of "src + 1" n m ?m] by (auto simp: in_range_Suc)
  moreover have "writable_bytes ?m (dest + 1) n"
    using writable_store [of m "dest + 1" n dest "[x]"] Suc.prems(2) by simp
  ultimately have "rep_movsb ?m (dest + 1) (src + 1) n = (0, store_bytes ?m (dest + 1) ys)"
    using Suc.prems(3) by (intro Suc.IH) (auto simp: in_range_Suc fun_upd_def)
  with x xs Suc.prems(2) show ?case by auto
qed simp

lemma rep_movsb_frame: "\<not> in_range dest n x \<Longrightarrow> snd (rep_movsb m dest src n) x = m x"
  by (induction m dest src n rule: rep_movsb.induct) (auto simp: in_range_Suc split: option.splits bool.splits)

lemma rep_stosb_frame: "\<not> in_range dest n x \<Longrightarrow> snd (rep_stosb m dest c n) x = m x"
  by (induction m dest c n rule: rep_stosb.induct) (auto simp: in_range_Suc split: option.splits bool.splits)

lemma rep_stosb_fills:
  "writable_bytes m dest n \<Longrightarrow> rep_stosb m dest c n = (0, store_bytes m dest (replicate n c))"
proof (induction n arbitrary: m dest)
  case (Suc n)
  then have "writable_bytes (m(dest \<mapsto> (c, True))) (dest + 1) n"
    using writable_store [of m "dest + 1" n dest "[c]"] by simp
  from Suc.IH [OF this] Suc.prems show ?case by (auto simp: fun_upd_def)
qed simp

lemma range_no_wrap:
  assumes "a \<le> a + n" "in_range a (unat n) x"
  shows "unat a \<le> unat x" "unat x < unat a + unat n"
proof -
  have sum: "unat (a + n) = unat a + unat n"
    using assms(1) by (simp add: unat_plus_simple)
  obtain i where i: "i < unat n" "x = a + of_nat i" using assms(2) by (auto simp: in_range_def)
  have "unat a + i < 2 ^ 32"
    using sum i unat_u32_less [of "a + n"] by simp
  then have "unat x = unat a + i"
    using i by (simp add: unat_word_ariths unat_of_nat)
  with i show "unat a \<le> unat x" "unat x < unat a + unat n" by simp_all
qed

lemma user_range_below_kernel:
  assumes "is_user_range a n" "in_range a (unat n) x"
  shows "x < KERNEL_VIRT_ADDR"
proof -
  have r: "a \<le> a + n" "a + n \<le> KERNEL_VIRT_ADDR"
    using assms(1) by (auto simp: is_user_range_def Let_def split: if_splits)
  have "unat x < unat (a + n)"
    using range_no_wrap [OF r(1) assms(2)] r(1) by (simp add: unat_plus_simple)
  with r(2) show ?thesis by (simp add: word_less_nat_alt word_le_nat_alt)
qed

lemma kernel_range_above_user:
  assumes "is_kernel_range a n" "in_range a (unat n) x"
  shows "KERNEL_VIRT_ADDR \<le> x"
proof -
  have r: "a \<le> a + n" "KERNEL_VIRT_ADDR \<le> a"
    using assms(1) by (auto simp: is_kernel_range_def is_kernel_address_def)
  show ?thesis
    using range_no_wrap [OF r(1) assms(2)] r(2) by (simp add: word_le_nat_alt)
qed

lemma user_kernel_disjoint:
  "is_user_range a n \<Longrightarrow> is_kernel_range b k \<Longrightarrow> in_range a (unat n) x \<Longrightarrow> \<not> in_range b (unat k) x"
  using user_range_below_kernel kernel_range_above_user by (meson leD)

lemma store_bytes_append:
  "store_bytes m a (xs @ ys) = store_bytes (store_bytes m a xs) (a + of_nat (length xs)) ys"
  by (induction m a xs rule: store_bytes.induct) (auto simp: algebra_simps fun_upd_def)

lemma writable_bytes_split:
  "writable_bytes m a (i + j) \<longleftrightarrow> writable_bytes m a i \<and> writable_bytes m (a + of_nat i) j"
  by (induction i arbitrary: a) (auto simp: algebra_simps)

text \<open>
  The loop of \<^verbatim>\<open>safe_strncpy\<close> on a source that has \<open>xs\<close> (no terminator inside) and then either the
  terminator or the end of the count.
\<close>

lemma strncpy_loop_copies:
  assumes "load_bytes m (src + c) (length xs) = Some xs" "0 \<notin> set xs" "length xs \<le> n"
    and "length xs < n \<longrightarrow> (\<exists>w. m (src + c + of_nat (length xs)) = Some (0, w))"
    and "writable_bytes m (dest + c) (length xs)"
    and "\<And>x. in_range (src + c) n x \<Longrightarrow> \<not> in_range (dest + c) n x"
  shows "strncpy_loop m dest src c n = (c + of_nat (length xs), store_bytes m (dest + c) xs)"
  using assms
proof (induction xs arbitrary: m c n)
  case Nil
  then show ?case by (cases n) (auto split: option.splits)
next
  case (Cons x xs)
  from Cons.prems(3) obtain k where n: "n = Suc k" by (cases n) auto
  let ?m = "m(dest + c \<mapsto> (x, True))"
  have disj: "\<And>y. in_range (src + c) (Suc k) y \<Longrightarrow> \<not> in_range (dest + c) (Suc k) y"
    using Cons.prems(6) n by simp
  have eq: "m y = ?m y" if "in_range (src + c) (Suc k) y" for y
    using disj [OF that] by (auto simp: in_range_Suc)
  have x: "\<exists>w. m (src + c) = Some (x, w)" and xs: "load_bytes m (src + (c + 1)) (length xs) = Some xs"
    using Cons.prems(1) by (auto simp: option_bind_Some_iff algebra_simps)
  have "strncpy_loop ?m dest src (c + 1) k = (c + 1 + of_nat (length xs), store_bytes ?m (dest + (c + 1)) xs)"
  proof (rule Cons.IH)
    show "load_bytes ?m (src + (c + 1)) (length xs) = Some xs"
      using xs Cons.prems(3) n eq load_bytes_cong [of "src + (c + 1)" "length xs" m ?m]
        in_range_mono [of "src + (c + 1)" "length xs" _ k]
      by (simp add: in_range_Suc add.assoc)
    show "length xs < k \<longrightarrow> (\<exists>w. ?m (src + (c + 1) + of_nat (length xs)) = Some (0, w))"
    proof
      assume k: "length xs < k"
      then have "in_range (src + c) (Suc k) (src + (c + 1) + of_nat (length xs))"
        unfolding in_range_def by (intro exI [of _ "Suc (length xs)"]) (simp add: algebra_simps)
      from eq [OF this] Cons.prems(4) n k show "\<exists>w. ?m (src + (c + 1) + of_nat (length xs)) = Some (0, w)"
        by (auto simp: algebra_simps)
    qed
    show "writable_bytes ?m (dest + (c + 1)) (length xs)"
      using writable_store [of m "dest + (c + 1)" "length xs" "dest + c" "[x]"] Cons.prems(5)
      by (simp add: add.assoc)
    show "\<not> in_range (dest + (c + 1)) k y" if "in_range (src + (c + 1)) k y" for y
      using that disj [of y] by (simp add: in_range_Suc add.assoc)
  qed (use Cons.prems n in auto)
  with x Cons.prems(2,5) n show ?case by (auto simp: algebra_simps)
qed

lemma sint_u32_nonneg: "k < 2 ^ 31 \<Longrightarrow> \<not> sint (of_nat k :: u32) < 0"
  by (simp add: sint_uint signed_take_bit_int_eq_self unsigned_of_nat take_bit_nat_eq_self)

section \<open>Kernel objects and user memory\<close>

text \<open>
  The callers hand a kernel object to the copy routines. \<open>put_user\<close> and \<open>get_user\<close> are those calls with
  the object as its list of bytes; \<open>copy_to_user_object\<close> and \<open>copy_from_user_object\<close> relate them to the
  routines.
\<close>

fun put_loop :: "mem \<Rightarrow> u32 \<Rightarrow> u8 list \<Rightarrow> bool \<times> mem" where
  "put_loop m dest [] = (True, m)"
| "put_loop m dest (x # xs) =
     (case m dest of
        Some (_, True) \<Rightarrow> put_loop (m(dest \<mapsto> (x, True))) (dest + 1) xs
      | _ \<Rightarrow> (False, m))"

definition put_user :: "mem \<Rightarrow> u32 \<Rightarrow> u8 list \<Rightarrow> unit result \<times> mem" where
  "put_user m to bytes =
     (if is_user_range to (of_nat (length bytes))
      then let (done, m') = put_loop m to bytes in (if done then Inr () else Inl EFAULT, m')
      else (Inl EFAULT, m))"

definition get_user :: "mem \<Rightarrow> u32 \<Rightarrow> nat \<Rightarrow> u8 list result" where
  "get_user m from n =
     (if is_user_range from (of_nat n)
      then (case load_bytes m from n of Some bytes \<Rightarrow> Inr bytes | None \<Rightarrow> Inl EFAULT)
      else Inl EFAULT)"

lemma rep_movsb_put_loop:
  assumes "load_bytes m src (length xs) = Some xs"
    and "\<And>x. in_range src (length xs) x \<Longrightarrow> \<not> in_range dest (length xs) x"
  shows "(fst (rep_movsb m dest src (length xs)) = 0) = fst (put_loop m dest xs)"
    and "snd (rep_movsb m dest src (length xs)) = snd (put_loop m dest xs)"
proof -
  have "(fst (rep_movsb m dest src (length xs)) = 0) = fst (put_loop m dest xs)
      \<and> snd (rep_movsb m dest src (length xs)) = snd (put_loop m dest xs)"
    using assms
  proof (induction xs arbitrary: m dest src)
    case (Cons x xs)
    let ?m = "m(dest \<mapsto> (x, True))"
    have ne: "src \<noteq> dest" and x: "\<exists>w. m src = Some (x, w)"
      and xs: "load_bytes m (src + 1) (length xs) = Some xs"
      using Cons.prems by (auto simp: option_bind_Some_iff in_range_Suc)
    have "load_bytes ?m (src + 1) (length xs) = Some xs"
      using xs Cons.prems(2) load_bytes_cong [of "src + 1" "length xs" m ?m] by (auto simp: in_range_Suc)
    then have "(fst (rep_movsb ?m (dest + 1) (src + 1) (length xs)) = 0) = fst (put_loop ?m (dest + 1) xs)
      \<and> snd (rep_movsb ?m (dest + 1) (src + 1) (length xs)) = snd (put_loop ?m (dest + 1) xs)"
      using Cons.prems(2) by (intro Cons.IH) (auto simp: in_range_Suc fun_upd_def)
    with x show ?case by (auto split: option.splits bool.splits)
  qed simp
  then show "(fst (rep_movsb m dest src (length xs)) = 0) = fst (put_loop m dest xs)"
    and "snd (rep_movsb m dest src (length xs)) = snd (put_loop m dest xs)" by simp_all
qed

lemma copy_to_user_object:
  assumes "is_kernel_range src (of_nat (length bytes))" "length bytes < 2 ^ 32"
    and "load_bytes m src (length bytes) = Some bytes"
  shows "copy_to_user m to src (of_nat (length bytes)) = Some (put_user m to bytes)"
proof -
  have len: "unat (of_nat (length bytes) :: u32) = length bytes"
    using assms(2) by (simp add: unat_of_nat)
  have k: "is_kernel_address src" "src \<noteq> 0"
    using assms(1) by (auto simp: is_kernel_range_def is_kernel_address_def)
  show ?thesis
  proof (cases "is_user_range to (of_nat (length bytes))")
    case True
    then have "to \<noteq> 0" by (auto simp: is_user_range_def is_user_address_def split: if_splits)
    moreover have "\<And>x. in_range src (length bytes) x \<Longrightarrow> \<not> in_range to (length bytes) x"
      using user_kernel_disjoint [OF True assms(1)] len by auto
    note rep_movsb_put_loop [OF assms(3) this]
    ultimately show ?thesis
      using True k assms(1) len
      by (auto simp: copy_to_user_def put_user_def safe_memcpy_def split: prod.splits)
  qed (use k in \<open>simp add: copy_to_user_def put_user_def\<close>)
qed

lemma put_loop_store: "writable_bytes m a (length xs) \<Longrightarrow> put_loop m a xs = (True, store_bytes m a xs)"
proof (induction xs arbitrary: m a)
  case (Cons x xs)
  then have "writable_bytes (m(a \<mapsto> (x, True))) (a + 1) (length xs)"
    using writable_store [of m "a + 1" "length xs" a "[x]"] by simp
  from Cons.IH [OF this] Cons.prems show ?case by (auto simp: fun_upd_def)
qed simp

lemma put_user_store:
  "is_user_range a (of_nat (length xs)) \<Longrightarrow> writable_bytes m a (length xs) \<Longrightarrow>
   put_user m a xs = (Inr (), store_bytes m a xs)"
  by (simp add: put_user_def put_loop_store)

lemma rep_movsb_unmapped:
  assumes "load_bytes m src n = None" "writable_bytes m dest n"
    and "\<And>x. in_range src n x \<Longrightarrow> \<not> in_range dest n x"
  shows "fst (rep_movsb m dest src n) \<noteq> 0"
  using assms
proof (induction n arbitrary: m dest src)
  case (Suc n)
  show ?case
  proof (cases "m src")
    case (Some p)
    obtain x w where x: "m src = Some (x, w)" using Some by (cases p) auto
    let ?m = "m(dest \<mapsto> (x, True))"
    have "load_bytes m (src + 1) n = None"
      using Suc.prems(1) x by (cases "load_bytes m (src + 1) n") auto
    then have "load_bytes ?m (src + 1) n = None"
      using Suc.prems(3) load_bytes_cong [of "src + 1" n m ?m] by (auto simp: in_range_Suc)
    moreover have "writable_bytes ?m (dest + 1) n"
      using writable_store [of m "dest + 1" n dest "[x]"] Suc.prems(2) by simp
    ultimately have "fst (rep_movsb ?m (dest + 1) (src + 1) n) \<noteq> 0"
      using Suc.prems(3) by (intro Suc.IH) (auto simp: in_range_Suc fun_upd_def)
    with x Suc.prems(2) show ?thesis by auto
  qed simp
qed simp

lemma copy_from_user_object:
  assumes "is_kernel_range to (of_nat n)" "n < 2 ^ 32" "writable_bytes m to n"
  shows "get_user m src n = Inr bytes \<Longrightarrow>
           copy_from_user m to src (of_nat n) = Some (Inr (), store_bytes m to bytes)"
    and "get_user m src n = Inl e \<Longrightarrow> e = EFAULT \<and> (\<exists>m'. copy_from_user m to src (of_nat n) = Some (Inl EFAULT, m'))"
proof -
  have len: "unat (of_nat n :: u32) = n"
    using assms(2) by (simp add: unat_of_nat)
  have k: "is_kernel_address to" "to \<noteq> 0"
    using assms(1) by (auto simp: is_kernel_range_def is_kernel_address_def)
  have disj: "\<And>x. in_range src n x \<Longrightarrow> \<not> in_range to n x" if "is_user_range src (of_nat n)"
    using user_kernel_disjoint [OF that assms(1)] len by auto
  have nz: "src \<noteq> 0" if "is_user_range src (of_nat n)"
    using that by (auto simp: is_user_range_def is_user_address_def split: if_splits)
  show "copy_from_user m to src (of_nat n) = Some (Inr (), store_bytes m to bytes)"
    if "get_user m src n = Inr bytes"
    using that k assms(1) len nz rep_movsb_copies [OF _ assms(3) disj]
    by (auto simp: get_user_def copy_from_user_def safe_memcpy_def split: if_splits option.splits)
  show "e = EFAULT \<and> (\<exists>m'. copy_from_user m to src (of_nat n) = Some (Inl EFAULT, m'))"
    if "get_user m src n = Inl e"
  proof (cases "is_user_range src (of_nat n)")
    case True
    then have "load_bytes m src n = None" "e = EFAULT"
      using that by (auto simp: get_user_def split: option.splits)
    with rep_movsb_unmapped [OF this(1) assms(3) disj [OF True]] True k assms(1) len nz show ?thesis
      by (auto simp: copy_from_user_def safe_memcpy_def split: prod.splits)
  qed (use that k in \<open>auto simp: get_user_def copy_from_user_def\<close>)
qed

section \<open>Properties\<close>

text \<open>
  C3. Whatever address a task passes, \<^verbatim>\<open>copy_to_user\<close> never stores into kernel memory: a byte that the
  call changes lies in the \<open>n\<close> bytes from \<open>user_to\<close> on and below \<^verbatim>\<open>KERNEL_VIRT_ADDR\<close>, also when the copy
  faults halfway.
\<close>

theorem copy_to_user_confined:
  assumes "copy_to_user m user_to src n = Some (r, m')" and "m' a \<noteq> m a"
  shows "in_range user_to (unat n) a \<and> a < KERNEL_VIRT_ADDR"
proof -
  have u: "is_user_range user_to n"
    using assms by (auto simp: copy_to_user_def split: if_splits)
  have "in_range user_to (unat n) a"
    using assms rep_movsb_frame [of user_to "unat n" a m src]
    by (auto simp: copy_to_user_def safe_memcpy_def split: if_splits prod.splits)
  with user_range_below_kernel [OF u] show ?thesis by simp
qed

definition example_mem :: mem where
  "example_mem = [0x1000 \<mapsto> (104, True), 0x1001 \<mapsto> (105, True), 0x1002 \<mapsto> (0, False),
     0xc0000000 \<mapsto> (1, True), 0xc0000001 \<mapsto> (2, True), 0xc0000002 \<mapsto> (3, True), 0xc0000003 \<mapsto> (4, True)]"

lemma example_mem_bytes [simp]:
  "example_mem 0x1000 = Some (104, True)" "example_mem 0x1001 = Some (105, True)"
  "example_mem 0x1002 = Some (0, False)"
  "example_mem 0xc0000000 = Some (1, True)" "example_mem 0xc0000001 = Some (2, True)"
  "example_mem 0xc0000002 = Some (3, True)" "example_mem 0xc0000003 = Some (4, True)"
  by (simp_all add: example_mem_def)

theorem copy_to_user_confined_witness:
  "\<exists>m'. copy_to_user example_mem 0x1001 0xc0000000 2 = Some (Inl EFAULT, m') \<and> m' 0x1001 \<noteq> example_mem 0x1001
     \<and> in_range 0x1001 (unat (2::u32)) 0x1001 \<and> (0x1001::u32) < KERNEL_VIRT_ADDR"
proof -
  have run: "copy_to_user example_mem 0x1001 0xc0000000 2 = Some (Inl EFAULT, example_mem(0x1001 \<mapsto> (1, True)))"
    by (simp add: copy_to_user_def safe_memcpy_def is_user_range_def is_user_address_def
        is_kernel_range_def is_kernel_address_def KERNEL_VIRT_ADDR_def)
  show ?thesis
    using run copy_to_user_confined [OF run, of "0x1001"] by simp
qed

text \<open>
  C4. \<^verbatim>\<open>strncpy_from_user\<close> on a user string: it returns the shorter of the string length and \<open>n\<close>, copies
  that many bytes and zeroes the rest of the \<open>n\<close> bytes of the destination; no other byte changes.
\<close>

theorem strncpy_from_user_copies:
  assumes "is_kernel_range dest n" "is_user_range src n" "unat n < 2 ^ 31"
    and "writable_bytes m dest (unat n)"
    and "load_bytes m src (length str) = Some str" "0 \<notin> set str" "length str \<le> unat n"
    and "length str < unat n \<longrightarrow> (\<exists>w. m (src + of_nat (length str)) = Some (0, w))"
  shows "strncpy_from_user m dest src n =
    Some (Inr (of_nat (length str)), store_bytes m dest (str @ replicate (unat n - length str) 0))"
proof -
  let ?k = "length str"
  have k: "is_kernel_address dest" "dest \<noteq> 0" "src \<noteq> 0"
    using assms(1,2) by (auto simp: is_kernel_range_def is_kernel_address_def is_user_range_def
        is_user_address_def split: if_splits)
  show ?thesis
  proof (cases "n = 0")
    case True
    with k assms(1,2,7) show ?thesis
      by (simp add: strncpy_from_user_def safe_strncpy_def)
  next
    case False
    have w: "writable_bytes m dest ?k" "writable_bytes m (dest + of_nat ?k) (unat n - ?k)"
      using assms(4,7) writable_bytes_split [of m dest ?k "unat n - ?k"] by simp_all
    have loop: "strncpy_loop m dest src 0 (unat n) = (of_nat ?k, store_bytes m dest str)"
      using strncpy_loop_copies [of m src 0 str "unat n" dest] assms w(1)
        user_kernel_disjoint [OF assms(2,1)] by simp
    have rest: "unat (n - of_nat ?k) = unat n - ?k"
      using assms(3,7) by (simp add: unat_sub_if' unat_of_nat)
    have "rep_stosb (store_bytes m dest str) (dest + of_nat ?k) 0 (unat n - ?k)
        = (0, store_bytes m dest (str @ replicate (unat n - ?k) 0))"
      using rep_stosb_fills [OF writable_store [OF w(2)]] by (simp add: store_bytes_append)
    moreover have "dest + of_nat ?k \<noteq> 0"
    proof -
      have "dest \<le> dest + n" "KERNEL_VIRT_ADDR \<le> dest"
        using assms(1) by (auto simp: is_kernel_range_def is_kernel_address_def)
      then have "unat dest + unat n < 2 ^ 32" "0 < unat dest"
        using unat_u32_less [of "dest + n"] k(2) by (simp_all add: unat_plus_simple unat_gt_0)
      then have "unat (dest + of_nat ?k) \<noteq> 0"
        using assms(3,7) by (simp add: unat_word_ariths unat_of_nat)
      then show ?thesis by auto
    qed
    moreover have "\<not> sint (of_nat ?k :: u32) < 0"
      using assms(3,7) by (intro sint_u32_nonneg) simp
    ultimately show ?thesis
      using False k assms(1,2) loop rest
      by (simp add: strncpy_from_user_def safe_strncpy_def safe_memset_def)
  qed
qed

theorem strncpy_from_user_copies_witness:
  "strncpy_from_user example_mem 0xc0000000 0x1000 4 =
     Some (Inr 2, store_bytes example_mem 0xc0000000 [104, 105, 0, 0])"
proof -
  have "replicate 2 (0::u8) = [0, 0]" by (simp add: numeral_2_eq_2)
  then show ?thesis
    using strncpy_from_user_copies [of "0xc0000000" 4 "0x1000" example_mem "[104, 105]"]
    by (simp add: is_user_range_def is_user_address_def is_kernel_range_def ex_bool_eq
        is_kernel_address_def KERNEL_VIRT_ADDR_def)
qed

end
