(* ===== verification/Task.thy ===== *)
theory Task
  imports User_Mem
begin

text \<open>
  Tasks of \<^verbatim>\<open>kernel/task.c\<close>: the task table, the reference-counted objects that tasks share, sending a
  signal, and the end of a task.

  Pointers to kernel objects are addresses (\<open>nat\<close>); the record \<open>kernel\<close> has one heap per kind of object.
  An address that a heap does not map is a freed or never allocated object, and following it is the
  abnormal end \<open>None\<close>. Spinlocks and mutexes make each function below one step; the locks themselves
  are the subject of the theory \<open>Lock\<close>.
\<close>

section \<open>Signals\<close>

text \<open>\<^verbatim>\<open>ENUMERATE_SIGNALS\<close> numbers the signals from 0 (\<^verbatim>\<open>SIGINVALID\<close>).\<close>

abbreviation (input) SIGHUP :: nat where "SIGHUP \<equiv> 1"
abbreviation (input) SIGINT :: nat where "SIGINT \<equiv> 2"
abbreviation (input) SIGQUIT :: nat where "SIGQUIT \<equiv> 3"
abbreviation (input) SIGILL :: nat where "SIGILL \<equiv> 4"
abbreviation (input) SIGTRAP :: nat where "SIGTRAP \<equiv> 5"
abbreviation (input) SIGABRT :: nat where "SIGABRT \<equiv> 6"
abbreviation (input) SIGBUS :: nat where "SIGBUS \<equiv> 7"
abbreviation (input) SIGFPE :: nat where "SIGFPE \<equiv> 8"
abbreviation (input) SIGKILL :: nat where "SIGKILL \<equiv> 9"
abbreviation (input) SIGUSR1 :: nat where "SIGUSR1 \<equiv> 10"
abbreviation (input) SIGSEGV :: nat where "SIGSEGV \<equiv> 11"
abbreviation (input) SIGUSR2 :: nat where "SIGUSR2 \<equiv> 12"
abbreviation (input) SIGPIPE :: nat where "SIGPIPE \<equiv> 13"
abbreviation (input) SIGALRM :: nat where "SIGALRM \<equiv> 14"
abbreviation (input) SIGTERM :: nat where "SIGTERM \<equiv> 15"
abbreviation (input) SIGSTKFLT :: nat where "SIGSTKFLT \<equiv> 16"
abbreviation (input) SIGCHLD :: nat where "SIGCHLD \<equiv> 17"
abbreviation (input) SIGCONT :: nat where "SIGCONT \<equiv> 18"
abbreviation (input) SIGSTOP :: nat where "SIGSTOP \<equiv> 19"
abbreviation (input) SIGTSTP :: nat where "SIGTSTP \<equiv> 20"
abbreviation (input) SIGTTIN :: nat where "SIGTTIN \<equiv> 21"
abbreviation (input) SIGTTOU :: nat where "SIGTTOU \<equiv> 22"
abbreviation (input) SIGURG :: nat where "SIGURG \<equiv> 23"
abbreviation (input) SIGXCPU :: nat where "SIGXCPU \<equiv> 24"
abbreviation (input) SIGXFSZ :: nat where "SIGXFSZ \<equiv> 25"
abbreviation (input) SIGVTALRM :: nat where "SIGVTALRM \<equiv> 26"
abbreviation (input) SIGPROF :: nat where "SIGPROF \<equiv> 27"
abbreviation (input) SIGWINCH :: nat where "SIGWINCH \<equiv> 28"
abbreviation (input) SIGIO :: nat where "SIGIO \<equiv> 29"
abbreviation (input) SIGPWR :: nat where "SIGPWR \<equiv> 30"
abbreviation (input) SIGSYS :: nat where "SIGSYS \<equiv> 31"
abbreviation (input) NSIG :: nat where "NSIG \<equiv> 32"

definition sigmask :: "nat \<Rightarrow> u32" where
  "sigmask sig = push_bit (sig - 1) 1"

abbreviation (input) SIG_DFL :: u32 where "SIG_DFL \<equiv> 0"
abbreviation (input) SIG_IGN :: u32 where "SIG_IGN \<equiv> 1"

record sigaction =
  sa_handler :: u32
  sa_mask :: u32
  sa_flags :: u32
  sa_restorer :: u32

datatype disposition = DISP_TERM | DISP_IGN | DISP_CORE | DISP_STOP | DISP_CONT

text \<open>The table \<^verbatim>\<open>default_dispositions\<close>, in the order of the signal numbers; entry 0 is not initialised and so is 0.\<close>

definition default_dispositions :: "disposition list" where
  "default_dispositions =
     [DISP_TERM, \<comment> \<open>0\<close>
      DISP_TERM, \<comment> \<open>SIGHUP\<close>
      DISP_TERM, \<comment> \<open>SIGINT\<close>
      DISP_CORE, \<comment> \<open>SIGQUIT\<close>
      DISP_CORE, \<comment> \<open>SIGILL\<close>
      DISP_CORE, \<comment> \<open>SIGTRAP\<close>
      DISP_CORE, \<comment> \<open>SIGABRT\<close>
      DISP_CORE, \<comment> \<open>SIGBUS\<close>
      DISP_CORE, \<comment> \<open>SIGFPE\<close>
      DISP_TERM, \<comment> \<open>SIGKILL\<close>
      DISP_TERM, \<comment> \<open>SIGUSR1\<close>
      DISP_CORE, \<comment> \<open>SIGSEGV\<close>
      DISP_TERM, \<comment> \<open>SIGUSR2\<close>
      DISP_TERM, \<comment> \<open>SIGPIPE\<close>
      DISP_TERM, \<comment> \<open>SIGALRM\<close>
      DISP_TERM, \<comment> \<open>SIGTERM\<close>
      DISP_TERM, \<comment> \<open>SIGSTKFLT\<close>
      DISP_IGN,  \<comment> \<open>SIGCHLD\<close>
      DISP_CONT, \<comment> \<open>SIGCONT\<close>
      DISP_STOP, \<comment> \<open>SIGSTOP\<close>
      DISP_STOP, \<comment> \<open>SIGTSTP\<close>
      DISP_STOP, \<comment> \<open>SIGTTIN\<close>
      DISP_STOP, \<comment> \<open>SIGTTOU\<close>
      DISP_IGN,  \<comment> \<open>SIGURG\<close>
      DISP_CORE, \<comment> \<open>SIGXCPU\<close>
      DISP_CORE, \<comment> \<open>SIGXFSZ\<close>
      DISP_TERM, \<comment> \<open>SIGVTALRM\<close>
      DISP_TERM, \<comment> \<open>SIGPROF\<close>
      DISP_IGN,  \<comment> \<open>SIGWINCH\<close>
      DISP_TERM, \<comment> \<open>SIGIO\<close>
      DISP_TERM, \<comment> \<open>SIGPWR\<close>
      DISP_CORE  \<comment> \<open>SIGSYS\<close>]"

section \<open>The task table\<close>

datatype task_state = TASK_RUNNING | TASK_UNINTERRUPTIBLE | TASK_INTERRUPTIBLE | TASK_DEAD

text \<open>
  \<^verbatim>\<open>struct task\<close>. Not carried over: the saved registers and FPU state, the kernel stack and the argument
  area, which only the assembly of the context switch and \<^verbatim>\<open>execve\<close> use. \<open>unblock\<close> names the condition the
  task waits for.
\<close>

record task =
  tid :: int
  tgid :: int
  pgid :: int
  ppid :: int
  state :: task_state
  exit_status :: int
  comm :: "u8 list"
  task_vm :: "nat option"
  task_fs :: "nat option"
  task_files :: "nat option"
  task_sighand :: "nat option"
  exit_signal :: nat
  pending_signals :: u32
  blocked_signals :: u32
  unblock :: "nat option"
  interrupted :: bool
  task_group :: "nat option"
  user_ticks :: u32
  kernel_ticks :: u32
  task_ref_count :: nat

record sighand =
  actions :: "sigaction list"
  sighand_ref_count :: nat

record files =
  entries :: "nat option list"
  files_ref_count :: nat

record fs =
  cwd :: nat
  fs_ref_count :: nat

record thread_group =
  num_running :: nat
  group_ref_count :: nat

record kernel =
  tasks :: "nat \<rightharpoonup> task"
  sighands :: "nat \<rightharpoonup> sighand"
  file_tables :: "nat \<rightharpoonup> files"
  fss :: "nat \<rightharpoonup> fs"
  groups :: "nat \<rightharpoonup> thread_group"
  all_tasks :: "nat list"
  current :: nat
  next_tid :: int

definition update_task :: "kernel \<Rightarrow> nat \<Rightarrow> (task \<Rightarrow> task) \<Rightarrow> kernel" where
  "update_task k a f = k\<lparr>tasks := (tasks k)(a := map_option f (tasks k a))\<rparr>"

definition update_current :: "kernel \<Rightarrow> (task \<Rightarrow> task) \<Rightarrow> kernel" where
  "update_current k f = update_task k (current k) f"

lemma tasks_update_task [simp]: "tasks (update_task k a f) = (tasks k)(a := map_option f (tasks k a))"
  by (simp add: update_task_def)

lemma update_task_select [simp]:
  "sighands (update_task k a f) = sighands k" "file_tables (update_task k a f) = file_tables k"
  "fss (update_task k a f) = fss k" "groups (update_task k a f) = groups k"
  "all_tasks (update_task k a f) = all_tasks k" "current (update_task k a f) = current k"
  "next_tid (update_task k a f) = next_tid k"
  by (simp_all add: update_task_def)

section \<open>Sending a signal\<close>

definition do_send_signal :: "kernel \<Rightarrow> nat \<Rightarrow> nat \<Rightarrow> kernel option" where
  "do_send_signal k a signum =
     do {
       t \<leftarrow> tasks k a;
       case task_sighand t of
         None \<Rightarrow> Some k \<comment> \<open>the task is already dead\<close>
       | Some h \<Rightarrow>
           do {
             disp \<leftarrow> arr_get default_dispositions signum;
             let cleared = sigmask signum OR
               (case disp of
                  DISP_CONT \<Rightarrow> sigmask SIGSTOP OR sigmask SIGTSTP OR sigmask SIGTTIN OR sigmask SIGTTOU
                | DISP_STOP \<Rightarrow> sigmask SIGCONT
                | _ \<Rightarrow> 0);
             let pending = pending_signals t AND NOT cleared;
             sh \<leftarrow> sighands k h;
             act \<leftarrow> arr_get (actions sh) (signum - 1);
             let handler = sa_handler act;
             let ignored = (handler = SIG_IGN \<or> (handler = SIG_DFL \<and> disp = DISP_IGN));
             Some (update_task k a (\<lambda>t. t\<lparr>pending_signals :=
               if ignored then pending else pending OR sigmask signum\<rparr>))
           }
     }"

abbreviation (input) SIGNAL_DEST_ALL_USER_TASKS :: u32 where "SIGNAL_DEST_ALL_USER_TASKS \<equiv> 1"
abbreviation (input) SIGNAL_DEST_THREAD_GROUP :: u32 where "SIGNAL_DEST_THREAD_GROUP \<equiv> 2"
abbreviation (input) SIGNAL_DEST_PROCESS_GROUP :: u32 where "SIGNAL_DEST_PROCESS_GROUP \<equiv> 4"
abbreviation (input) SIGNAL_DEST_EXCLUDE_CURRENT :: u32 where "SIGNAL_DEST_EXCLUDE_CURRENT \<equiv> 8"

text \<open>Whether the loop of \<^verbatim>\<open>task_send_signal\<close> reaches \<^verbatim>\<open>found_dest = true\<close> for the task at address \<open>a\<close>.\<close>

definition is_signal_dest :: "nat \<Rightarrow> nat \<Rightarrow> task \<Rightarrow> int \<Rightarrow> u32 \<Rightarrow> bool" where
  "is_signal_dest cur a t pid flags \<longleftrightarrow>
     (if flags AND SIGNAL_DEST_ALL_USER_TASKS \<noteq> 0 then \<not> tid t \<le> 1
      else if flags AND SIGNAL_DEST_THREAD_GROUP \<noteq> 0 then tgid t = pid
      else if flags AND SIGNAL_DEST_PROCESS_GROUP \<noteq> 0 then pgid t = pid
      else tid t = pid)
     \<and> \<not> (flags AND SIGNAL_DEST_EXCLUDE_CURRENT \<noteq> 0 \<and> a = cur)"

fun send_loop :: "kernel \<Rightarrow> nat list \<Rightarrow> int \<Rightarrow> nat \<Rightarrow> u32 \<Rightarrow> bool \<Rightarrow> (bool \<times> kernel) option" where
  "send_loop k [] pid signum flags found_dest = Some (found_dest, k)"
| "send_loop k (a # as) pid signum flags found_dest =
     do {
       t \<leftarrow> tasks k a;
       if \<not> is_signal_dest (current k) a t pid flags then send_loop k as pid signum flags found_dest
       else if signum = 0 then send_loop k as pid signum flags True
       else do {
         k' \<leftarrow> do_send_signal k a signum;
         send_loop k' as pid signum flags True
       }
     }"

definition task_send_signal :: "kernel \<Rightarrow> int \<Rightarrow> int \<Rightarrow> u32 \<Rightarrow> (unit result \<times> kernel) option" where
  "task_send_signal k pid signum flags =
     do {
       c_assert (pid \<ge> 0);
       let num_group_flags =
         of_bool (flags AND SIGNAL_DEST_ALL_USER_TASKS \<noteq> 0) + of_bool (flags AND SIGNAL_DEST_THREAD_GROUP \<noteq> 0)
         + (of_bool (flags AND SIGNAL_DEST_PROCESS_GROUP \<noteq> 0) :: nat);
       c_assert (num_group_flags \<le> 1);
       if signum < 0 \<or> signum \<ge> int NSIG then Some (Inl EINVAL, k)
       else do {
         (found_dest, k') \<leftarrow> send_loop k (all_tasks k) pid (nat signum) flags False;
         Some (if found_dest then Inr () else Inl ESRCH, k')
       }
     }"

section \<open>Shared objects and their reference counts\<close>

text \<open>
  Calls out of this component that the end of a task makes: the open files and the directory path of
  a freed table are handed to \<^verbatim>\<open>file_close\<close> and \<^verbatim>\<open>path_destroy_recursive\<close>. The functions below return the
  calls they make, in order.
\<close>

datatype release = FileClose nat | PathDestroy nat

text \<open>\<open>None\<close> in the place of a reference stands for the null pointer.\<close>

definition fs_ref :: "kernel \<Rightarrow> nat option \<Rightarrow> kernel option" where
  "fs_ref k r = do { a \<leftarrow> r; f \<leftarrow> fss k a; Some (k\<lparr>fss := (fss k)(a \<mapsto> f\<lparr>fs_ref_count := fs_ref_count f + 1\<rparr>)\<rparr>) }"

definition fs_unref :: "kernel \<Rightarrow> nat option \<Rightarrow> (release list \<times> kernel) option" where
  "fs_unref k r =
     (case r of
        None \<Rightarrow> Some ([], k)
      | Some a \<Rightarrow>
          do {
            f \<leftarrow> fss k a;
            c_assert (fs_ref_count f > 0);
            let n = fs_ref_count f - 1;
            Some (if n > 0 then ([], k\<lparr>fss := (fss k)(a \<mapsto> f\<lparr>fs_ref_count := n\<rparr>)\<rparr>)
                  else ([PathDestroy (cwd f)], k\<lparr>fss := (fss k)(a := None)\<rparr>))
          })"

definition files_ref :: "kernel \<Rightarrow> nat option \<Rightarrow> kernel option" where
  "files_ref k r =
     do { a \<leftarrow> r; f \<leftarrow> file_tables k a;
          Some (k\<lparr>file_tables := (file_tables k)(a \<mapsto> f\<lparr>files_ref_count := files_ref_count f + 1\<rparr>)\<rparr>) }"

definition files_unref :: "kernel \<Rightarrow> nat option \<Rightarrow> (release list \<times> kernel) option" where
  "files_unref k r =
     (case r of
        None \<Rightarrow> Some ([], k)
      | Some a \<Rightarrow>
          do {
            f \<leftarrow> file_tables k a;
            c_assert (files_ref_count f > 0);
            let n = files_ref_count f - 1;
            Some (if n > 0 then ([], k\<lparr>file_tables := (file_tables k)(a \<mapsto> f\<lparr>files_ref_count := n\<rparr>)\<rparr>)
                  else (map FileClose (List.map_filter id (entries f)), k\<lparr>file_tables := (file_tables k)(a := None)\<rparr>))
          })"

definition sighand_ref :: "kernel \<Rightarrow> nat option \<Rightarrow> kernel option" where
  "sighand_ref k r =
     do { a \<leftarrow> r; h \<leftarrow> sighands k a;
          Some (k\<lparr>sighands := (sighands k)(a \<mapsto> h\<lparr>sighand_ref_count := sighand_ref_count h + 1\<rparr>)\<rparr>) }"

definition sighand_unref :: "kernel \<Rightarrow> nat option \<Rightarrow> kernel option" where
  "sighand_unref k r =
     (case r of
        None \<Rightarrow> Some k
      | Some a \<Rightarrow>
          do {
            h \<leftarrow> sighands k a;
            c_assert (sighand_ref_count h > 0);
            let n = sighand_ref_count h - 1;
            Some (k\<lparr>sighands := (if n > 0 then (sighands k)(a \<mapsto> h\<lparr>sighand_ref_count := n\<rparr>)
                                 else (sighands k)(a := None))\<rparr>)
          })"

definition thread_group_ref :: "kernel \<Rightarrow> nat option \<Rightarrow> kernel option" where
  "thread_group_ref k r =
     do { a \<leftarrow> r; g \<leftarrow> groups k a;
          Some (k\<lparr>groups := (groups k)(a \<mapsto> g\<lparr>group_ref_count := group_ref_count g + 1\<rparr>)\<rparr>) }"

definition thread_group_unref :: "kernel \<Rightarrow> nat option \<Rightarrow> kernel option" where
  "thread_group_unref k r =
     (case r of
        None \<Rightarrow> Some k
      | Some a \<Rightarrow>
          do {
            g \<leftarrow> groups k a;
            c_assert (group_ref_count g > 0);
            let n = group_ref_count g - 1;
            Some (k\<lparr>groups := (if n > 0 then (groups k)(a \<mapsto> g\<lparr>group_ref_count := n\<rparr>)
                               else (groups k)(a := None))\<rparr>)
          })"

text \<open>\<^verbatim>\<open>task_ref\<close> and \<^verbatim>\<open>task_find_by_tid\<close>, which takes a reference on the task it returns.\<close>

definition task_ref :: "kernel \<Rightarrow> nat \<Rightarrow> kernel" where
  "task_ref k a = update_task k a (\<lambda>t. t\<lparr>task_ref_count := task_ref_count t + 1\<rparr>)"

fun find_tid :: "kernel \<Rightarrow> nat list \<Rightarrow> int \<Rightarrow> nat option option" where
  "find_tid k [] i = Some None"
| "find_tid k (a # as) i =
     do { t \<leftarrow> tasks k a; if tid t = i then Some (Some a) else find_tid k as i }"

definition task_find_by_tid :: "kernel \<Rightarrow> int \<Rightarrow> (nat option \<times> kernel) option" where
  "task_find_by_tid k i =
     do {
       it \<leftarrow> find_tid k (all_tasks k) i;
       Some (it, case it of None \<Rightarrow> k | Some a \<Rightarrow> task_ref k a)
     }"

text \<open>
  \<^verbatim>\<open>task_unref\<close>: the last reference frees the task and what it still holds. The virtual memory of the
  task, which \<^verbatim>\<open>vm_unref\<close> would free, is not part of this state.
\<close>

definition task_unref :: "kernel \<Rightarrow> nat option \<Rightarrow> (release list \<times> kernel) option" where
  "task_unref k r =
     (case r of
        None \<Rightarrow> Some ([], k)
      | Some a \<Rightarrow>
          do {
            t \<leftarrow> tasks k a;
            c_assert (task_ref_count t > 0);
            let n = task_ref_count t - 1;
            let k0 = update_task k a (\<lambda>t. t\<lparr>task_ref_count := n\<rparr>);
            if n > 0 then Some ([], k0)
            else if tid t = 0 then Some ([], k0)
            else do {
              c_assert (a \<noteq> current k);
              k1 \<leftarrow> thread_group_unref k0 (task_group t);
              k2 \<leftarrow> sighand_unref k1 (task_sighand t);
              (rs, k3) \<leftarrow> files_unref k2 (task_files t);
              (rs', k4) \<leftarrow> fs_unref k3 (task_fs t);
              Some (rs @ rs', k4\<lparr>tasks := (tasks k4)(a := None)\<rparr>)
            }
          })"

section \<open>The end of a task\<close>

definition adopt_orphans :: "kernel \<Rightarrow> int \<Rightarrow> kernel" where
  "adopt_orphans k parent =
     k\<lparr>tasks := (\<lambda>a. if a \<in> set (all_tasks k)
        then map_option (\<lambda>t. if ppid t = parent then t\<lparr>ppid := 1\<rparr> else t) (tasks k a) else tasks k a)\<rparr>"

text \<open>
  \<^verbatim>\<open>exit\<close> up to the final \<^verbatim>\<open>sched_yield(false)\<close>, from which it does not return. The first test is the
  panic "init task exited".
\<close>

definition task_do_exit :: "kernel \<Rightarrow> int \<Rightarrow> (release list \<times> kernel) option" where
  "task_do_exit k status =
     do {
       cur \<leftarrow> tasks k (current k);
       c_assert (tid cur \<noteq> 1);
       let k0 = update_current k (\<lambda>t. t\<lparr>exit_status := status\<rparr>);
       ga \<leftarrow> task_group cur;
       g \<leftarrow> groups k0 ga;
       c_assert (num_running g > 0);
       let k1 = k0\<lparr>groups := (groups k0)(ga \<mapsto> g\<lparr>num_running := num_running g - 1\<rparr>)\<rparr>;
       k2 \<leftarrow> (if num_running g - 1 = 0 \<and> ppid cur \<noteq> 0 \<and> exit_signal cur \<noteq> 0
              then do {
                (rc, k') \<leftarrow> task_send_signal k1 (ppid cur) (int (exit_signal cur)) 0;
                c_assert (\<not> isl rc);
                Some k'
              }
              else Some k1);
       k3 \<leftarrow> thread_group_unref k2 (task_group cur);
       let k3 = update_current k3 (\<lambda>t. t\<lparr>task_group := None\<rparr>);
       k4 \<leftarrow> sighand_unref k3 (task_sighand cur);
       let k4 = update_current k4 (\<lambda>t. t\<lparr>task_sighand := None\<rparr>);
       (rs, k5) \<leftarrow> files_unref k4 (task_files cur);
       let k5 = update_current k5 (\<lambda>t. t\<lparr>task_files := None\<rparr>);
       (rs', k6) \<leftarrow> fs_unref k5 (task_fs cur);
       let k6 = update_current k6 (\<lambda>t. t\<lparr>task_fs := None\<rparr>);
       let k7 = adopt_orphans k6 (tgid cur);
       Some (rs @ rs', update_current k7 (\<lambda>t. t\<lparr>state := TASK_DEAD\<rparr>))
     }"

definition exit_code :: "int \<Rightarrow> int" where
  "exit_code status = push_bit 8 (status AND 0xff)"

definition task_exit :: "kernel \<Rightarrow> int \<Rightarrow> (release list \<times> kernel) option" where
  "task_exit k status = task_do_exit k (exit_code status)"

definition do_exit_thread_group :: "kernel \<Rightarrow> int \<Rightarrow> (release list \<times> kernel) option" where
  "do_exit_thread_group k status =
     do {
       cur \<leftarrow> tasks k (current k);
       (rc, k') \<leftarrow> task_send_signal k (tgid cur) (int SIGKILL) (SIGNAL_DEST_THREAD_GROUP OR SIGNAL_DEST_EXCLUDE_CURRENT);
       c_assert (rc = Inr () \<or> rc = Inl ESRCH);
       task_do_exit k' status
     }"

definition task_exit_thread_group :: "kernel \<Rightarrow> int \<Rightarrow> (release list \<times> kernel) option" where
  "task_exit_thread_group k status = do_exit_thread_group k (exit_code status)"

definition task_crash :: "kernel \<Rightarrow> int \<Rightarrow> (release list \<times> kernel) option" where
  "task_crash k signum =
     do { c_assert (0 < signum \<and> signum < int NSIG); do_exit_thread_group k signum }"

section \<open>File descriptors\<close>

definition OPEN_MAX :: nat where
  "OPEN_MAX = 1024"

definition current_files :: "kernel \<Rightarrow> (nat \<times> files) option" where
  "current_files k = do { t \<leftarrow> tasks k (current k); a \<leftarrow> task_files t; f \<leftarrow> file_tables k a; Some (a, f) }"

text \<open>The search for the lowest free slot from index \<open>i\<close> on; \<open>n\<close> slots are left.\<close>

fun find_free_fd :: "nat option list \<Rightarrow> nat \<Rightarrow> nat \<Rightarrow> nat option option" where
  "find_free_fd es i 0 = Some None"
| "find_free_fd es i (Suc n) =
     do { e \<leftarrow> arr_get es i; if e \<noteq> None then find_free_fd es (Suc i) n else Some (Some i) }"

definition task_alloc_file_descriptor :: "kernel \<Rightarrow> int \<Rightarrow> nat \<Rightarrow> (nat result \<times> kernel) option" where
  "task_alloc_file_descriptor k fd file =
     (if fd \<ge> int OPEN_MAX then Some (Inl EBADF, k)
      else do {
        (a, f) \<leftarrow> current_files k;
        let store = (\<lambda>i. do { es \<leftarrow> arr_set (entries f) i (Some file);
                              Some (Inr i, k\<lparr>file_tables := (file_tables k)(a \<mapsto> f\<lparr>entries := es\<rparr>)\<rparr>) });
        if fd \<ge> 0 then do {
          e \<leftarrow> arr_get (entries f) (nat fd);
          if e \<noteq> None then Some (Inl EEXIST, k) else store (nat fd)
        }
        else do {
          i \<leftarrow> find_free_fd (entries f) 0 OPEN_MAX;
          case i of None \<Rightarrow> Some (Inl EMFILE, k) | Some i \<Rightarrow> store i
        }
      })"

definition task_free_file_descriptor :: "kernel \<Rightarrow> int \<Rightarrow> (unit result \<times> kernel) option" where
  "task_free_file_descriptor k fd =
     (if fd < 0 \<or> int OPEN_MAX \<le> fd then Some (Inl EBADF, k)
      else do {
        (a, f) \<leftarrow> current_files k;
        e \<leftarrow> arr_get (entries f) (nat fd);
        if e = None then Some (Inl EBADF, k)
        else do {
          es \<leftarrow> arr_set (entries f) (nat fd) None;
          Some (Inr (), k\<lparr>file_tables := (file_tables k)(a \<mapsto> f\<lparr>entries := es\<rparr>)\<rparr>)
        }
      })"

definition task_get_file :: "kernel \<Rightarrow> int \<Rightarrow> nat result option" where
  "task_get_file k fd =
     (if fd < 0 \<or> int OPEN_MAX \<le> fd then Some (Inl EBADF)
      else do {
        (a, f) \<leftarrow> current_files k;
        e \<leftarrow> arr_get (entries f) (nat fd);
        Some (case e of None \<Rightarrow> Inl EBADF | Some file \<Rightarrow> Inr file)
      })"

section \<open>Well-formed task tables\<close>

definition sighand_ok :: "kernel \<Rightarrow> task \<Rightarrow> bool" where
  "sighand_ok k t \<longleftrightarrow>
     (case task_sighand t of None \<Rightarrow> True
      | Some h \<Rightarrow> (case sighands k h of None \<Rightarrow> False | Some sh \<Rightarrow> length (actions sh) = NSIG - 1))"

definition kernel_wf :: "kernel \<Rightarrow> bool" where
  "kernel_wf k \<longleftrightarrow> distinct (all_tasks k)
     \<and> list_all (\<lambda>a. case tasks k a of None \<Rightarrow> False | Some t \<Rightarrow> sighand_ok k t) (all_tasks k)"

lemma kernel_wf_task:
  assumes "kernel_wf k" "a \<in> set (all_tasks k)"
  obtains t where "tasks k a = Some t" "sighand_ok k t"
  using assms by (auto simp: kernel_wf_def list_all_iff split: option.splits)

section \<open>Signal delivery\<close>

lemma bit_sigmask [simp]: "0 < s \<Longrightarrow> s \<le> 32 \<Longrightarrow> i < 32 \<Longrightarrow> bit (sigmask s) i \<longleftrightarrow> i = s - 1"
  by (auto simp: sigmask_def bit_simps)

text \<open>What one delivery does to the pending set, bit by bit: bit \<open>i\<close> stands for signal \<open>i + 1\<close>.\<close>

definition ignores :: "kernel \<Rightarrow> task \<Rightarrow> nat \<Rightarrow> bool" where
  "ignores k t signum \<longleftrightarrow>
     (case task_sighand t of
        None \<Rightarrow> False
      | Some h \<Rightarrow>
          (let handler = sa_handler (actions (the (sighands k h)) ! (signum - 1))
           in handler = SIG_IGN \<or> (handler = SIG_DFL \<and> default_dispositions ! signum = DISP_IGN)))"

definition stop_signals :: "nat set" where
  "stop_signals = {SIGSTOP, SIGTSTP, SIGTTIN, SIGTTOU}"

definition delivered :: "kernel \<Rightarrow> task \<Rightarrow> nat \<Rightarrow> nat \<Rightarrow> bool" where
  "delivered k t signum s \<longleftrightarrow>
     (if task_sighand t = None then bit (pending_signals t) (s - 1)
      else if s = signum then \<not> ignores k t signum
      else if signum = SIGCONT \<and> s \<in> stop_signals then False
      else if signum \<in> stop_signals \<and> s = SIGCONT then False
      else bit (pending_signals t) (s - 1))"

lemma dispositions_table:
  "list_all (\<lambda>s. (default_dispositions ! s = DISP_CONT \<longleftrightarrow> s = SIGCONT)
     \<and> (default_dispositions ! s = DISP_STOP \<longleftrightarrow> s \<in> stop_signals)) [1..<NSIG]"
  by code_simp

lemma default_dispositions_nth:
  assumes "0 < s" "s < NSIG"
  shows "default_dispositions ! s = DISP_CONT \<longleftrightarrow> s = SIGCONT"
    and "default_dispositions ! s = DISP_STOP \<longleftrightarrow> s \<in> stop_signals"
  using dispositions_table assms by (simp_all add: list_all_iff)

lemma length_default_dispositions [simp]: "length default_dispositions = NSIG"
  by (simp add: default_dispositions_def)

definition cleared_signals :: "nat \<Rightarrow> disposition \<Rightarrow> u32" where
  "cleared_signals signum disp = sigmask signum OR
     (case disp of
        DISP_CONT \<Rightarrow> sigmask SIGSTOP OR sigmask SIGTSTP OR sigmask SIGTTIN OR sigmask SIGTTOU
      | DISP_STOP \<Rightarrow> sigmask SIGCONT
      | _ \<Rightarrow> 0)"

lemma bit_cleared_signals:
  assumes "0 < signum" "signum < NSIG" "i < 32"
  shows "bit (cleared_signals signum disp) i \<longleftrightarrow>
     i = signum - 1 \<or> (disp = DISP_CONT \<and> Suc i \<in> stop_signals) \<or> (disp = DISP_STOP \<and> Suc i = SIGCONT)"
  using assms by (cases disp) (auto simp: cleared_signals_def bit_or_iff stop_signals_def)

lemma do_send_signal_delivers:
  assumes "tasks k a = Some t" "sighand_ok k t" "0 < signum" "signum < NSIG"
  shows "\<exists>p. do_send_signal k a signum = Some (update_task k a (\<lambda>t. t\<lparr>pending_signals := p\<rparr>))
     \<and> (\<forall>s. 0 < s \<longrightarrow> s \<le> 32 \<longrightarrow> bit p (s - 1) = delivered k t signum s)"
proof (cases "task_sighand t")
  case None
  have "update_task k a (\<lambda>t'. t'\<lparr>pending_signals := pending_signals t\<rparr>) = k"
    using assms(1) by (simp add: update_task_def fun_upd_idem)
  with None assms(1) show ?thesis
    by (intro exI [of _ "pending_signals t"]) (simp add: do_send_signal_def delivered_def)
next
  case (Some h)
  then obtain sh where sh: "sighands k h = Some sh" "length (actions sh) = NSIG - 1"
    using assms(2) by (auto simp: sighand_ok_def split: option.splits)
  have len: "signum < length default_dispositions" "signum - 1 < length (actions sh)"
    using assms(3,4) sh(2) by simp_all
  let ?p = "pending_signals t AND NOT (cleared_signals signum (default_dispositions ! signum))"
  let ?q = "if ignores k t signum then ?p else ?p OR sigmask signum"
  have "do_send_signal k a signum = Some (update_task k a (\<lambda>t. t\<lparr>pending_signals := ?q\<rparr>))"
    using assms(1) Some sh len by (simp add: do_send_signal_def ignores_def Let_def cleared_signals_def)
  moreover have "bit ?q (s - 1) = delivered k t signum s" if s: "0 < s" "s \<le> 32" for s
  proof -
    have "bit ?p (s - 1) \<longleftrightarrow> bit (pending_signals t) (s - 1) \<and> \<not> bit (cleared_signals signum (default_dispositions ! signum)) (s - 1)"
      using s by (auto simp: bit_and_iff bit_not_iff)
    moreover have "bit ?q (s - 1) \<longleftrightarrow> bit ?p (s - 1) \<or> (\<not> ignores k t signum \<and> s = signum)"
      using s assms(3,4) by (auto simp: bit_or_iff)
    ultimately show ?thesis
      using s Some assms(3,4)
      by (auto simp: bit_cleared_signals delivered_def default_dispositions_nth)
  qed
  ultimately show ?thesis by blast
qed

text \<open>Task \<open>a\<close> of \<open>k'\<close> is that of \<open>k\<close> with one more signal delivered.\<close>

definition got_signal :: "kernel \<Rightarrow> kernel \<Rightarrow> nat \<Rightarrow> nat \<Rightarrow> bool" where
  "got_signal k k' a signum \<longleftrightarrow>
     (\<exists>t p. tasks k a = Some t \<and> tasks k' a = Some (t\<lparr>pending_signals := p\<rparr>)
        \<and> (\<forall>s. 0 < s \<longrightarrow> s \<le> 32 \<longrightarrow> bit p (s - 1) = delivered k t signum s))"

definition dest_at :: "kernel \<Rightarrow> int \<Rightarrow> u32 \<Rightarrow> nat \<Rightarrow> bool" where
  "dest_at k pid flags a \<longleftrightarrow> (case tasks k a of None \<Rightarrow> False | Some t \<Rightarrow> is_signal_dest (current k) a t pid flags)"

lemma delivered_cong: "sighands k = sighands k' \<Longrightarrow> delivered k t signum s = delivered k' t signum s"
  by (simp only: delivered_def ignores_def)

lemma sighand_ok_update: "sighand_ok (update_task k a f) t = sighand_ok k t"
  by (simp only: sighand_ok_def update_task_select)

lemma send_loop_delivers:
  assumes "distinct as" "\<forall>a\<in>set as. \<exists>t. tasks k a = Some t \<and> sighand_ok k t" "0 < signum" "signum < NSIG"
  shows "\<exists>k'. send_loop k as pid signum flags found = Some (found \<or> (\<exists>a\<in>set as. dest_at k pid flags a), k')
     \<and> sighands k' = sighands k \<and> groups k' = groups k \<and> all_tasks k' = all_tasks k \<and> current k' = current k
     \<and> file_tables k' = file_tables k \<and> fss k' = fss k
     \<and> (\<forall>a. if a \<in> set as \<and> dest_at k pid flags a then got_signal k k' a signum else tasks k' a = tasks k a)"
  using assms
proof (induction as arbitrary: k found)
  case (Cons a as)
  from Cons.prems(2) obtain t where t: "tasks k a = Some t" "sighand_ok k t" by auto
  show ?case
  proof (cases "is_signal_dest (current k) a t pid flags")
    case False
    then have "\<not> dest_at k pid flags a" using t by (simp add: dest_at_def)
    with Cons.IH [of k found] Cons.prems t False show ?thesis
      by (auto simp del: if_split)
  next
    case True
    obtain p where p: "do_send_signal k a signum = Some (update_task k a (\<lambda>t. t\<lparr>pending_signals := p\<rparr>))"
      "\<forall>s. 0 < s \<longrightarrow> s \<le> 32 \<longrightarrow> bit p (s - 1) = delivered k t signum s"
      using do_send_signal_delivers [OF t Cons.prems(3,4)] by blast
    let ?k = "update_task k a (\<lambda>t. t\<lparr>pending_signals := p\<rparr>)"
    have wf: "\<forall>b\<in>set as. \<exists>t. tasks ?k b = Some t \<and> sighand_ok ?k t"
      using Cons.prems(1,2) by (auto simp: sighand_ok_update)
    have dest: "dest_at ?k pid flags b = dest_at k pid flags b" if "b \<noteq> a" for b
      using that by (simp add: dest_at_def split: option.split)
    have got: "got_signal ?k k' b signum = got_signal k k' b signum" if "b \<noteq> a" for b k'
      using that delivered_cong [of ?k k] by (auto simp: got_signal_def)
    obtain k' where k': "send_loop ?k as pid signum flags True = Some (True, k')"
      "sighands k' = sighands k" "groups k' = groups k" "all_tasks k' = all_tasks k" "current k' = current k"
      "file_tables k' = file_tables k" "fss k' = fss k"
      "\<forall>b. if b \<in> set as \<and> dest_at ?k pid flags b then got_signal ?k k' b signum else tasks k' b = tasks ?k b"
      using Cons.IH [of ?k True] Cons.prems(1,3,4) wf by auto
    have "dest_at k pid flags a" using True t by (simp add: dest_at_def)
    moreover have "got_signal k k' a signum"
      using k'(8) Cons.prems(1) t p(2) by (auto simp: got_signal_def)
    ultimately have "if b \<in> set (a # as) \<and> dest_at k pid flags b then got_signal k k' b signum else tasks k' b = tasks k b" for b
      using k'(8) dest [of b] got [of b k'] by (cases "b = a") auto
    with k' True t p(1) Cons.prems(3) \<open>dest_at k pid flags a\<close> show ?thesis by auto
  qed
qed simp

section \<open>Properties\<close>

text \<open>
  C5. \<^verbatim>\<open>task_send_signal\<close> with a valid signal number reaches exactly the tasks its flags select and
  reports \<^verbatim>\<open>ESRCH\<close> when there is none. Each of them has the signal pending unless it ignores it, loses the
  pending stop signals when it gets \<^verbatim>\<open>SIGCONT\<close> and a pending \<^verbatim>\<open>SIGCONT\<close> when it gets a stop signal, and keeps
  everything else; the other tasks do not change.
\<close>

theorem task_send_signal_delivers:
  assumes "kernel_wf k" "0 \<le> pid" "0 < signum" "signum < NSIG"
    and "flags \<in> {0, SIGNAL_DEST_ALL_USER_TASKS, SIGNAL_DEST_THREAD_GROUP, SIGNAL_DEST_PROCESS_GROUP,
       SIGNAL_DEST_ALL_USER_TASKS OR SIGNAL_DEST_EXCLUDE_CURRENT, SIGNAL_DEST_THREAD_GROUP OR SIGNAL_DEST_EXCLUDE_CURRENT}"
  shows "\<exists>k'. task_send_signal k pid (int signum) flags =
       Some (if \<exists>a\<in>set (all_tasks k). dest_at k pid flags a then Inr () else Inl ESRCH, k')
     \<and> (\<forall>a. if a \<in> set (all_tasks k) \<and> dest_at k pid flags a then got_signal k k' a signum
            else tasks k' a = tasks k a)"
proof -
  have wf: "distinct (all_tasks k)" "\<forall>a\<in>set (all_tasks k). \<exists>t. tasks k a = Some t \<and> sighand_ok k t"
    using assms(1) by (auto simp: kernel_wf_def elim: kernel_wf_task [OF assms(1)])
  have "\<exists>k'. send_loop k (all_tasks k) pid signum flags False =
       Some (\<exists>a\<in>set (all_tasks k). dest_at k pid flags a, k')
     \<and> (\<forall>a. if a \<in> set (all_tasks k) \<and> dest_at k pid flags a then got_signal k k' a signum
            else tasks k' a = tasks k a)"
    using send_loop_delivers [OF wf assms(3,4), of pid flags False] by (auto simp del: if_split)
  with assms show ?thesis
    by (auto simp: task_send_signal_def simp del: if_split)
qed

definition example_task :: task where
  "example_task = \<lparr>tid = 2, tgid = 2, pgid = 2, ppid = 1, state = TASK_RUNNING, exit_status = 0, comm = [],
     task_vm = None, task_fs = None, task_files = Some 0, task_sighand = Some 0, exit_signal = SIGCHLD,
     pending_signals = sigmask SIGTSTP, blocked_signals = 0, unblock = None, interrupted = False,
     task_group = Some 0, user_ticks = 0, kernel_ticks = 0, task_ref_count = 1\<rparr>"

definition example_kernel :: kernel where
  "example_kernel = \<lparr>tasks = [5 \<mapsto> example_task, 6 \<mapsto> example_task\<lparr>tid := 3, tgid := 3, ppid := 2\<rparr>],
     sighands = [0 \<mapsto> \<lparr>actions = replicate 31 \<lparr>sa_handler = 0, sa_mask = 0, sa_flags = 0, sa_restorer = 0\<rparr>,
                       sighand_ref_count = 2\<rparr>],
     file_tables = [0 \<mapsto> \<lparr>entries = Some 7 # replicate (OPEN_MAX - 1) None, files_ref_count = 2\<rparr>],
     fss = (\<lambda>_. None), groups = [0 \<mapsto> \<lparr>num_running = 1, group_ref_count = 2\<rparr>],
     all_tasks = [5, 6], current = 5, next_tid = 4\<rparr>"

theorem task_send_signal_delivers_witness:
  "\<exists>k'. task_send_signal example_kernel 3 (int SIGCONT) 0 = Some (Inr (), k')
     \<and> got_signal example_kernel k' 6 SIGCONT \<and> tasks k' 5 = tasks example_kernel 5"
proof -
  have wf: "kernel_wf example_kernel"
    by (simp add: kernel_wf_def example_kernel_def example_task_def sighand_ok_def)
  have dest: "dest_at example_kernel 3 0 6" "\<not> dest_at example_kernel 3 0 5" "6 \<in> set (all_tasks example_kernel)"
    by (simp_all add: dest_at_def example_kernel_def example_task_def is_signal_dest_def)
  obtain k' where k': "task_send_signal example_kernel 3 (int SIGCONT) 0 =
       Some (if \<exists>a\<in>set (all_tasks example_kernel). dest_at example_kernel 3 0 a then Inr () else Inl ESRCH, k')"
    "\<forall>a. if a \<in> set (all_tasks example_kernel) \<and> dest_at example_kernel 3 0 a then got_signal example_kernel k' a SIGCONT
         else tasks k' a = tasks example_kernel a"
    using task_send_signal_delivers [OF wf, of 3 SIGCONT 0] by auto
  have "got_signal example_kernel k' 6 SIGCONT" "tasks k' 5 = tasks example_kernel 5"
    using k'(2) [rule_format, of 6] k'(2) [rule_format, of 5] dest by simp_all
  moreover have "task_send_signal example_kernel 3 (int SIGCONT) 0 = Some (Inr (), k')"
    using k'(1) dest(1,3) by auto
  ultimately show ?thesis by blast
qed

lemma find_free_fd_spec:
  "i + n \<le> length es \<Longrightarrow> find_free_fd es i n = Some (find (\<lambda>j. es ! j = None) [i..<i + n])"
proof (induction n arbitrary: i)
  case (Suc n)
  have "[i..<i + Suc n] = i # [Suc i..<Suc i + n]" by (simp add: upt_conv_Cons)
  with Suc show ?case by simp
qed simp

lemma find_upt_lowest:
  "find P [i..<n] = Some j \<Longrightarrow> P j \<and> i \<le> j \<and> j < n \<and> (\<forall>l. i \<le> l \<longrightarrow> l < j \<longrightarrow> \<not> P l)"
  by (auto simp: find_Some_iff) (metis add_less_cancel_left le_add_diff_inverse)

text \<open>The descriptor table as the callers see it: after the slot of \<open>fd\<close> is set, only \<open>fd\<close> reads differently.\<close>

lemma task_get_file_update:
  assumes "current_files k = Some (a, f)" "length (entries f) = OPEN_MAX" "fd < OPEN_MAX"
  shows "task_get_file (k\<lparr>file_tables := (file_tables k)(a \<mapsto> f\<lparr>entries := (entries f)[fd := e]\<rparr>)\<rparr>) j =
     (if j = int fd then Some (case e of None \<Rightarrow> Inl EBADF | Some file \<Rightarrow> Inr file) else task_get_file k j)"
proof -
  let ?k = "k\<lparr>file_tables := (file_tables k)(a \<mapsto> f\<lparr>entries := (entries f)[fd := e]\<rparr>)\<rparr>"
  have "current_files ?k = Some (a, f\<lparr>entries := (entries f)[fd := e]\<rparr>)"
    using assms(1) by (auto simp: current_files_def option_bind_Some_iff)
  moreover have "fd = nat j \<longleftrightarrow> j = int fd" if "0 \<le> j"
    using that by auto
  ultimately show ?thesis
    using assms by (auto simp: task_get_file_def nth_list_update split: option.splits)
qed

text \<open>
  C6. \<^verbatim>\<open>task_alloc_file_descriptor\<close> with a negative \<open>fd\<close> gives the lowest-numbered unused descriptor and
  binds the file to it without touching another descriptor; when all are in use it returns \<^verbatim>\<open>EMFILE\<close> and
  changes nothing.
\<close>

theorem task_alloc_lowest_fd:
  assumes "current_files k = Some (a, f)" "length (entries f) = OPEN_MAX" "d < 0"
  shows "if \<exists>fd<OPEN_MAX. task_get_file k (int fd) = Some (Inl EBADF)
    then \<exists>fd k'. task_alloc_file_descriptor k d file = Some (Inr fd, k') \<and> fd < OPEN_MAX
        \<and> task_get_file k (int fd) = Some (Inl EBADF)
        \<and> (\<forall>j<fd. \<exists>g. task_get_file k (int j) = Some (Inr g))
        \<and> (\<forall>j. task_get_file k' j = (if j = int fd then Some (Inr file) else task_get_file k j))
    else task_alloc_file_descriptor k d file = Some (Inl EMFILE, k)"
proof -
  have get: "task_get_file k (int j) = Some (case entries f ! j of None \<Rightarrow> Inl EBADF | Some g \<Rightarrow> Inr g)"
    if "j < OPEN_MAX" for j
    using that assms(1,2) by (simp add: task_get_file_def)
  have free: "task_get_file k (int j) = Some (Inl EBADF) \<longleftrightarrow> entries f ! j = None" if "j < OPEN_MAX" for j
    using get [OF that] by (simp split: option.splits)
  note search = find_free_fd_spec [of 0 OPEN_MAX "entries f"]
  show ?thesis
  proof (cases "find (\<lambda>j. entries f ! j = None) [0..<OPEN_MAX]")
    case None
    then have "\<not> (\<exists>fd<OPEN_MAX. task_get_file k (int fd) = Some (Inl EBADF))"
      using free by (auto simp: find_None_iff)
    with None search assms show ?thesis by (simp add: task_alloc_file_descriptor_def)
  next
    case (Some fd)
    note low = find_upt_lowest [OF Some]
    let ?k = "k\<lparr>file_tables := (file_tables k)(a \<mapsto> f\<lparr>entries := (entries f)[fd := Some file]\<rparr>)\<rparr>"
    have "task_alloc_file_descriptor k d file = Some (Inr fd, ?k)"
      using Some search assms low by (simp add: task_alloc_file_descriptor_def)
    moreover have "\<exists>g. task_get_file k (int j) = Some (Inr g)" if "j < fd" for j
      using that low get [of j] by (auto split: option.splits)
    moreover have "task_get_file ?k j = (if j = int fd then Some (Inr file) else task_get_file k j)" for j
      using task_get_file_update [OF assms(1,2), of fd "Some file" j] low by simp
    moreover have "fd < OPEN_MAX" "task_get_file k (int fd) = Some (Inl EBADF)"
      using low free by auto
    ultimately show ?thesis by auto
  qed
qed

lemma example_current_files:
  "current_files example_kernel = Some (0, \<lparr>entries = Some 7 # replicate (OPEN_MAX - 1) None, files_ref_count = 2\<rparr>)"
  by (simp add: current_files_def example_kernel_def example_task_def)

lemma example_entries_length: "length (entries \<lparr>entries = Some 7 # replicate (OPEN_MAX - 1) None, files_ref_count = 2\<rparr>) = OPEN_MAX"
  by (simp add: OPEN_MAX_def)

theorem task_alloc_lowest_fd_witness:
  "\<exists>fd k'. task_alloc_file_descriptor example_kernel (- 1) 9 = Some (Inr fd, k') \<and> 0 < fd
     \<and> task_get_file k' (int fd) = Some (Inr 9) \<and> task_get_file k' 0 = Some (Inr 7)"
proof -
  have get: "task_get_file example_kernel 1 = Some (Inl EBADF)" "task_get_file example_kernel 0 = Some (Inr 7)"
    by (simp_all add: task_get_file_def example_current_files OPEN_MAX_def)
  then have "\<exists>fd<OPEN_MAX. task_get_file example_kernel (int fd) = Some (Inl EBADF)"
    by (intro exI [of _ 1]) (simp add: OPEN_MAX_def)
  note alloc = task_alloc_lowest_fd [OF example_current_files example_entries_length, of "- 1" 9, unfolded if_P [OF this]]
  obtain fd k' where fd: "task_alloc_file_descriptor example_kernel (- 1) 9 = Some (Inr fd, k')"
    "task_get_file example_kernel (int fd) = Some (Inl EBADF)"
    "\<forall>j. task_get_file k' j = (if j = int fd then Some (Inr 9) else task_get_file example_kernel j)"
    using alloc by auto
  have pos: "0 < fd"
  proof (rule ccontr)
    assume "\<not> 0 < fd"
    with fd(2) get(2) show False by simp
  qed
  then have "task_get_file k' (int fd) = Some (Inr 9)" "task_get_file k' 0 = Some (Inr 7)"
    using fd(3) [rule_format, of "int fd"] fd(3) [rule_format, of 0] get(2) by simp_all
  with fd(1) pos show ?thesis by blast
qed

text \<open>
  C7. A task whose exit signal is not a signal number panics the kernel when it ends as the last thread
  of its group with a parent: \<^verbatim>\<open>task_send_signal\<close> answers \<^verbatim>\<open>EINVAL\<close> and \<^verbatim>\<open>ASSERT_OK\<close> fails. \<^verbatim>\<open>sys_clone\<close> takes the exit
  signal from the low eight bits of its flags without a check.
\<close>

theorem exit_invalid_signal_panics:
  assumes "tasks k (current k) = Some cur" "task_group cur = Some ga" "groups k ga = Some g"
    and "num_running g = 1" "ppid cur > 0" "exit_signal cur \<ge> NSIG"
  shows "task_exit k status = None"
proof -
  have nz: "exit_signal cur \<noteq> 0" "ppid cur \<noteq> 0" using assms(5,6) by auto
  let ?k = "(update_current k (\<lambda>t. t\<lparr>exit_status := exit_code status\<rparr>))
    \<lparr>groups := (groups k)(ga \<mapsto> g\<lparr>num_running := 0\<rparr>)\<rparr>"
  have "task_send_signal ?k (ppid cur) (int (exit_signal cur)) 0 = Some (Inl EINVAL, ?k)"
    using assms(5,6) by (simp add: task_send_signal_def)
  with assms(1-4) nz show ?thesis
    by (simp add: task_exit_def task_do_exit_def update_current_def Let_def)
qed

theorem exit_invalid_signal_panics_witness:
  "task_exit (update_current example_kernel (\<lambda>t. t\<lparr>exit_signal := 200\<rparr>)) 0 = None"
  by (rule exit_invalid_signal_panics [of _ "example_task\<lparr>exit_signal := 200\<rparr>" 0 "\<lparr>num_running = 1, group_ref_count = 2\<rparr>"])
    (simp_all add: update_current_def example_kernel_def example_task_def)

end
