(* ===== verification/Sched.thy ===== *)
theory Sched
  imports Task
begin

text \<open>
  The scheduler of \<^verbatim>\<open>kernel/sched.c\<close>: the ready queue, the list of all tasks, waking blocked tasks, the
  context switch of a processor and blocking. The linked lists (\<^verbatim>\<open>ready_queue_next\<close>, \<^verbatim>\<open>all_tasks_next\<close>) are
  lists of task addresses. A call on one processor is one step: it runs with interrupts off and takes
  the locks of the lists. The switch of stacks, of the address space and of the FPU state is left out.

  The condition a blocked task waits for is code of the component that blocked it. It is the argument
  \<open>ready\<close> of the functions below: whether the condition of the task at an address holds now.
  A condition may do work of its own when it is evaluated, as that of \<^verbatim>\<open>wait4\<close> does when it takes the child off the list;
  here only its value counts, and the work is in the theory of the component (\<^verbatim>\<open>Task_Sys\<close>).
\<close>

section \<open>State\<close>

record cpu =
  current_task :: "nat option"
  idle_task :: nat

record sched =
  kern :: kernel
  ready_queue :: "nat list"
  cpus :: "cpu list"

abbreviation task_at :: "sched \<Rightarrow> nat \<Rightarrow> task option" where
  "task_at s a \<equiv> tasks (kern s) a"

definition set_task :: "sched \<Rightarrow> nat \<Rightarrow> (task \<Rightarrow> task) \<Rightarrow> sched" where
  "set_task s a f = s\<lparr>kern := update_task (kern s) a f\<rparr>"

section \<open>The ready queue\<close>

text \<open>The walk to the end of the queue asserts on the way that the task is not in it yet.\<close>

fun ready_append :: "nat list \<Rightarrow> nat \<Rightarrow> nat list option" where
  "ready_append [] a = Some [a]"
| "ready_append (it # q) a =
     do { c_assert (it \<noteq> a); q' \<leftarrow> ready_append q a; Some (it # q') }"

definition enqueue_ready :: "sched \<Rightarrow> nat \<Rightarrow> sched option" where
  "enqueue_ready s a =
     do {
       t \<leftarrow> task_at s a;
       c_assert (state t = TASK_RUNNING);
       q \<leftarrow> ready_append (ready_queue s) a;
       Some (s\<lparr>ready_queue := q\<rparr>)
     }"

definition dequeue_ready :: "sched \<Rightarrow> nat \<Rightarrow> (nat \<times> sched) option" where
  "dequeue_ready s c =
     do {
       cpu \<leftarrow> arr_get (cpus s) c;
       case ready_queue s of
         [] \<Rightarrow> Some (idle_task cpu, s)
       | a # q \<Rightarrow>
           do {
             t \<leftarrow> task_at s a;
             c_assert (state t \<noteq> TASK_DEAD);
             Some (a, s\<lparr>ready_queue := q\<rparr>)
           }
     }"

section \<open>The list of all tasks\<close>

text \<open>Insertion before the first task with a thread id that is not smaller.\<close>

fun insert_by_tid :: "kernel \<Rightarrow> nat list \<Rightarrow> nat \<Rightarrow> int \<Rightarrow> nat list option" where
  "insert_by_tid k [] a i = Some [a]"
| "insert_by_tid k (it # as) a i =
     do {
       t \<leftarrow> tasks k it;
       if tid t < i then do { as' \<leftarrow> insert_by_tid k as a i; Some (it # as') } else Some (a # it # as)
     }"

definition sched_register :: "sched \<Rightarrow> nat \<Rightarrow> sched option" where
  "sched_register s a =
     do {
       t \<leftarrow> task_at s a;
       c_assert (state t = TASK_RUNNING);
       let k = task_ref (kern s) a;
       as \<leftarrow> insert_by_tid k (all_tasks k) a (tid t);
       enqueue_ready (s\<lparr>kern := k\<lparr>all_tasks := as\<rparr>\<rparr>) a
     }"

section \<open>Waking tasks\<close>

fun unblock_loop :: "sched \<Rightarrow> (nat \<Rightarrow> bool) \<Rightarrow> nat list \<Rightarrow> sched option" where
  "unblock_loop s ready [] = Some s"
| "unblock_loop s ready (it # as) =
     do {
       t \<leftarrow> task_at s it;
       if state t \<noteq> TASK_UNINTERRUPTIBLE \<and> state t \<noteq> TASK_INTERRUPTIBLE then unblock_loop s ready as
       else do {
         c_assert (unblock t \<noteq> None);
         let intr = (state t = TASK_INTERRUPTIBLE \<and> pending_signals t AND NOT (blocked_signals t) \<noteq> 0);
         if intr \<or> ready it then do {
           let s1 = set_task s it (\<lambda>t. t\<lparr>unblock := None, interrupted := intr, state := TASK_RUNNING\<rparr>);
           let s2 = s1\<lparr>kern := task_ref (kern s1) it\<rparr>;
           s3 \<leftarrow> enqueue_ready s2 it;
           unblock_loop s3 ready as
         }
         else unblock_loop s ready as
       }
     }"

definition unblock_tasks :: "sched \<Rightarrow> (nat \<Rightarrow> bool) \<Rightarrow> sched option" where
  "unblock_tasks s ready = unblock_loop s ready (all_tasks (kern s))"

section \<open>Switching\<close>

text \<open>
  \<^verbatim>\<open>switch_context\<close> on processor \<open>c\<close>: the previous task, unless it is the idle task or has given up the
  processor, goes to the end of the ready queue once the next task is on its own stack.
\<close>

definition set_current_task :: "sched \<Rightarrow> nat \<Rightarrow> nat option \<Rightarrow> sched option" where
  "set_current_task s c a =
     do {
       cpu \<leftarrow> arr_get (cpus s) c;
       cs \<leftarrow> arr_set (cpus s) c (cpu\<lparr>current_task := a\<rparr>);
       Some (s\<lparr>cpus := cs\<rparr>)
     }"

definition switch_context :: "sched \<Rightarrow> nat \<Rightarrow> (nat \<Rightarrow> bool) \<Rightarrow> sched option" where
  "switch_context s c ready =
     do {
       cpu \<leftarrow> arr_get (cpus s) c;
       let prev_task = (if current_task cpu = Some (idle_task cpu) then None else current_task cpu);
       s1 \<leftarrow> unblock_tasks s ready;
       (a, s2) \<leftarrow> dequeue_ready s1 c;
       t \<leftarrow> task_at s2 a;
       c_assert (state t = TASK_RUNNING);
       s3 \<leftarrow> set_current_task s2 c (Some a);
       case prev_task of None \<Rightarrow> Some s3 | Some p \<Rightarrow> enqueue_ready s3 p
     }"

text \<open>
  \<^verbatim>\<open>sched_yield\<close>. The assertion of \<^verbatim>\<open>task_unref\<close> compares with the task that is current on this processor,
  which \<open>kern_on\<close> puts in place.
\<close>

definition kern_on :: "sched \<Rightarrow> nat \<Rightarrow> kernel" where
  "kern_on s a = (kern s)\<lparr>current := a\<rparr>"

definition sched_yield :: "sched \<Rightarrow> nat \<Rightarrow> bool \<Rightarrow> (nat \<Rightarrow> bool) \<Rightarrow> sched option" where
  "sched_yield s c requeue_current ready =
     do {
       cpu \<leftarrow> arr_get (cpus s) c;
       a \<leftarrow> current_task cpu;
       s1 \<leftarrow> (if a \<noteq> idle_task cpu \<and> \<not> requeue_current
              then do {
                (_, k) \<leftarrow> task_unref (kern_on s a) (Some a);
                set_current_task (s\<lparr>kern := k\<rparr>) c None
              }
              else Some s);
       switch_context s1 c ready
     }"

text \<open>
  \<^verbatim>\<open>sched_block\<close> up to its yield: \<open>Inl\<close> the state when the condition holds already, \<open>Inr\<close> the state in
  which the task has left the processor. When it runs again it returns \<^verbatim>\<open>EINTR\<close> if a signal woke it.
\<close>

definition sched_block :: "sched \<Rightarrow> nat \<Rightarrow> nat \<Rightarrow> bool \<Rightarrow> (nat \<Rightarrow> bool) \<Rightarrow> (sched + sched) option" where
  "sched_block s c blocker uninterruptible ready =
     do {
       cpu \<leftarrow> arr_get (cpus s) c;
       a \<leftarrow> current_task cpu;
       t \<leftarrow> task_at s a;
       c_assert (unblock t = None);
       let s0 = set_task s a (\<lambda>t. t\<lparr>interrupted := False\<rparr>);
       if ready a then Some (Inl s0)
       else do {
         let s1 = set_task s0 a (\<lambda>t. t\<lparr>unblock := Some blocker,
                    state := (if uninterruptible then TASK_UNINTERRUPTIBLE else TASK_INTERRUPTIBLE)\<rparr>);
         s2 \<leftarrow> sched_yield s1 c False ready;
         Some (Inr s2)
       }
     }"

definition sched_block_result :: "task \<Rightarrow> unit result" where
  "sched_block_result t = (if interrupted t then Inl EINTR else Inr ())"

text \<open>The tick: the accounting and the preemption; \<open>in_kernel\<close> is whether the processor was in kernel mode.\<close>

definition sched_tick :: "sched \<Rightarrow> nat \<Rightarrow> bool \<Rightarrow> (nat \<Rightarrow> bool) \<Rightarrow> sched option" where
  "sched_tick s c in_kernel ready =
     do {
       cpu \<leftarrow> arr_get (cpus s) c;
       case current_task cpu of
         None \<Rightarrow> Some s
       | Some a \<Rightarrow>
           sched_yield (set_task s a (\<lambda>t. if in_kernel then t\<lparr>kernel_ticks := kernel_ticks t + 1\<rparr>
                                          else t\<lparr>user_ticks := user_ticks t + 1\<rparr>)) c True ready
     }"


section \<open>Invariant\<close>

text \<open>
  A task that waits for the processor or has it is running, waits for nothing, is in the list of all
  tasks and has a reference from there and one from the queue or the processor. It is in one place only.
  The idle tasks are outside the lists.
\<close>

definition runnable :: "sched \<Rightarrow> nat \<Rightarrow> bool" where
  "runnable s a \<longleftrightarrow> a \<in> set (all_tasks (kern s))
     \<and> (\<exists>t. task_at s a = Some t \<and> state t = TASK_RUNNING \<and> unblock t = None \<and> 2 \<le> task_ref_count t)"

definition running_on :: "sched \<Rightarrow> nat \<Rightarrow> nat option" where
  "running_on s c =
     (let cpu = cpus s ! c in if current_task cpu = Some (idle_task cpu) then None else current_task cpu)"

definition idle_ok :: "sched \<Rightarrow> nat \<Rightarrow> bool" where
  "idle_ok s d \<longleftrightarrow> (\<exists>t. task_at s d = Some t \<and> state t = TASK_RUNNING)
     \<and> d \<notin> set (ready_queue s) \<and> d \<notin> set (all_tasks (kern s))"

definition listed_ok :: "sched \<Rightarrow> nat \<Rightarrow> bool" where
  "listed_ok s a \<longleftrightarrow> (\<exists>t. task_at s a = Some t \<and> 0 < task_ref_count t
     \<and> (state t \<in> {TASK_UNINTERRUPTIBLE, TASK_INTERRUPTIBLE} \<longrightarrow> unblock t \<noteq> None))"

definition sched_inv :: "sched \<Rightarrow> bool" where
  "sched_inv s \<longleftrightarrow> distinct (ready_queue s) \<and> distinct (all_tasks (kern s))
     \<and> (\<forall>a\<in>set (ready_queue s). runnable s a)
     \<and> (\<forall>c<length (cpus s). \<forall>a. running_on s c = Some a \<longrightarrow> runnable s a \<and> a \<notin> set (ready_queue s))
     \<and> (\<forall>c<length (cpus s). \<forall>d<length (cpus s). \<forall>a. running_on s c = Some a \<longrightarrow> running_on s d = Some a \<longrightarrow> c = d)
     \<and> (\<forall>c<length (cpus s). idle_ok s (idle_task (cpus s ! c)))
     \<and> (\<forall>a\<in>set (all_tasks (kern s)). listed_ok s a)"

lemma ready_append_fresh: "a \<notin> set q \<Longrightarrow> ready_append q a = Some (q @ [a])"
  by (induction q) auto

lemma enqueue_ready_fresh:
  "task_at s a = Some t \<Longrightarrow> state t = TASK_RUNNING \<Longrightarrow> a \<notin> set (ready_queue s) \<Longrightarrow>
   enqueue_ready s a = Some (s\<lparr>ready_queue := ready_queue s @ [a]\<rparr>)"
  by (simp add: enqueue_ready_def ready_append_fresh)

text \<open>Whether \<^verbatim>\<open>unblock_tasks\<close> wakes the task at an address.\<close>

definition wakes :: "sched \<Rightarrow> (nat \<Rightarrow> bool) \<Rightarrow> nat \<Rightarrow> bool" where
  "wakes s ready a \<longleftrightarrow>
     (case task_at s a of
        None \<Rightarrow> False
      | Some t \<Rightarrow>
          (state t = TASK_UNINTERRUPTIBLE \<and> ready a)
          \<or> (state t = TASK_INTERRUPTIBLE \<and> (pending_signals t AND NOT (blocked_signals t) \<noteq> 0 \<or> ready a)))"

definition woken :: "sched \<Rightarrow> nat \<Rightarrow> sched" where
  "woken s a = (let s1 = set_task s a (\<lambda>t. t\<lparr>unblock := None, interrupted :=
       (state t = TASK_INTERRUPTIBLE \<and> pending_signals t AND NOT (blocked_signals t) \<noteq> 0), state := TASK_RUNNING\<rparr>)
     in s1\<lparr>kern := task_ref (kern s1) a, ready_queue := ready_queue s @ [a]\<rparr>)"

lemma woken_select [simp]:
  "cpus (woken s a) = cpus s" "ready_queue (woken s a) = ready_queue s @ [a]"
  "all_tasks (kern (woken s a)) = all_tasks (kern s)" "running_on (woken s a) c = running_on s c"
  by (simp_all add: woken_def set_task_def task_ref_def Let_def running_on_def)

lemma task_at_woken [simp]: "b \<noteq> a \<Longrightarrow> task_at (woken s a) b = task_at s b"
  by (simp add: woken_def set_task_def task_ref_def Let_def)

lemma woken_inv:
  assumes inv: "sched_inv s" and a: "a \<in> set (all_tasks (kern s))" and w: "wakes s ready a"
  shows "sched_inv (woken s a)"
proof -
  obtain t where t: "task_at s a = Some t" "0 < task_ref_count t" "state t \<noteq> TASK_RUNNING"
    using inv a w by (fastforce simp: sched_inv_def listed_ok_def wakes_def)
  have fresh: "a \<notin> set (ready_queue s)" "running_on s c \<noteq> Some a" if "c < length (cpus s)" for c
    using inv t that by (auto simp: sched_inv_def runnable_def)
  have fresh': "a \<notin> set (ready_queue s)"
    using inv t by (auto simp: sched_inv_def runnable_def)
  have ta: "\<exists>t'. task_at (woken s a) a = Some t' \<and> state t' = TASK_RUNNING \<and> unblock t' = None \<and> 2 \<le> task_ref_count t'"
    using t by (simp add: woken_def set_task_def task_ref_def Let_def)
  have run: "runnable (woken s a) b \<longleftrightarrow> b = a \<or> runnable s b" for b
    using ta a by (cases "b = a") (auto simp: runnable_def)
  have idle: "idle_ok (woken s a) d \<longleftrightarrow> d \<noteq> a \<and> idle_ok s d" for d
    using a by (cases "d = a") (auto simp: idle_ok_def)
  have listed: "listed_ok (woken s a) b" if "listed_ok s b" for b
    using ta that by (cases "b = a") (auto simp: listed_ok_def)
  have "d \<noteq> a" if "idle_ok s d" for d using that a by (auto simp: idle_ok_def)
  then show ?thesis
    using inv fresh fresh' run idle listed by (auto simp: sched_inv_def)
qed

lemma unblock_loop_step:
  assumes inv: "sched_inv s" and a: "a \<in> set (all_tasks (kern s))"
  shows "unblock_loop s ready (a # as) = unblock_loop (if wakes s ready a then woken s a else s) ready as"
proof -
  obtain t where t: "task_at s a = Some t"
    "state t \<in> {TASK_UNINTERRUPTIBLE, TASK_INTERRUPTIBLE} \<longrightarrow> unblock t \<noteq> None"
    using inv a by (auto simp: sched_inv_def listed_ok_def)
  have fresh: "a \<notin> set (ready_queue s)" if "state t \<noteq> TASK_RUNNING"
    using inv t that by (auto simp: sched_inv_def runnable_def)
  let ?s2 = "\<lambda>i. (set_task s a (\<lambda>t. t\<lparr>unblock := None, interrupted := i, state := TASK_RUNNING\<rparr>))
      \<lparr>kern := task_ref (kern (set_task s a (\<lambda>t. t\<lparr>unblock := None, interrupted := i, state := TASK_RUNNING\<rparr>))) a\<rparr>"
  have enq: "enqueue_ready (?s2 i) a = Some ((?s2 i)\<lparr>ready_queue := ready_queue s @ [a]\<rparr>)" if "state t \<noteq> TASK_RUNNING" for i
    using t fresh [OF that] by (subst enqueue_ready_fresh) (auto simp: set_task_def task_ref_def)
  have wk: "woken s a = (?s2 (state t = TASK_INTERRUPTIBLE \<and> pending_signals t AND NOT (blocked_signals t) \<noteq> 0))\<lparr>ready_queue := ready_queue s @ [a]\<rparr>"
    using t by (simp add: woken_def set_task_def Let_def update_task_def task_ref_def)
  show ?thesis
    using t enq wk by (cases "state t") (auto simp: wakes_def Let_def)
qed

lemma unblock_loop_inv:
  assumes "sched_inv s" "distinct as" "set as \<subseteq> set (all_tasks (kern s))"
  shows "\<exists>s'. unblock_loop s ready as = Some s' \<and> sched_inv s' \<and> cpus s' = cpus s
     \<and> all_tasks (kern s') = all_tasks (kern s) \<and> ready_queue s' = ready_queue s @ filter (wakes s ready) as"
  using assms
proof (induction as arbitrary: s)
  case (Cons a as)
  let ?s = "if wakes s ready a then woken s a else s"
  have a: "a \<in> set (all_tasks (kern s))" using Cons.prems(3) by simp
  have inv: "sched_inv ?s" using woken_inv [OF Cons.prems(1) a] Cons.prems(1) by auto
  have same: "wakes ?s ready b = wakes s ready b" if "b \<in> set as" for b
  proof -
    have "b \<noteq> a" using that Cons.prems(2) by auto
    then show ?thesis by (simp add: wakes_def)
  qed
  have sel: "cpus ?s = cpus s" "all_tasks (kern ?s) = all_tasks (kern s)" by simp_all
  obtain s' where "unblock_loop ?s ready as = Some s'" "sched_inv s'" "cpus s' = cpus s"
    "all_tasks (kern s') = all_tasks (kern s)" "ready_queue s' = ready_queue ?s @ filter (wakes ?s ready) as"
    using Cons.IH [OF inv] Cons.prems unfolding sel by auto
  with unblock_loop_step [OF Cons.prems(1) a] filter_cong [OF refl same] show ?case by auto
qed simp

lemma unblock_tasks_inv:
  assumes "sched_inv s"
  shows "\<exists>s'. unblock_tasks s ready = Some s' \<and> sched_inv s' \<and> cpus s' = cpus s
     \<and> all_tasks (kern s') = all_tasks (kern s)
     \<and> ready_queue s' = ready_queue s @ filter (wakes s ready) (all_tasks (kern s))"
  using unblock_loop_inv [OF assms, of "all_tasks (kern s)"] assms by (simp add: unblock_tasks_def sched_inv_def)

lemma set_current_task_in:
  "c < length (cpus s) \<Longrightarrow> set_current_task s c a = Some (s\<lparr>cpus := (cpus s)[c := (cpus s ! c)\<lparr>current_task := a\<rparr>]\<rparr>)"
  by (simp add: set_current_task_def)

definition next_task :: "sched \<Rightarrow> nat \<Rightarrow> nat" where
  "next_task s c = (case ready_queue s of [] \<Rightarrow> idle_task (cpus s ! c) | a # _ \<Rightarrow> a)"

definition previous :: "sched \<Rightarrow> nat \<Rightarrow> nat list" where
  "previous s c = (case running_on s c of None \<Rightarrow> [] | Some p \<Rightarrow> [p])"

text \<open>The state after a context switch, given the one after waking.\<close>

definition switched :: "sched \<Rightarrow> nat \<Rightarrow> sched" where
  "switched s c = s\<lparr>ready_queue := tl (ready_queue s) @ previous s c,
     cpus := (cpus s)[c := (cpus s ! c)\<lparr>current_task := Some (next_task s c)\<rparr>]\<rparr>"

lemma switched_select [simp]:
  "kern (switched s c) = kern s" "length (cpus (switched s c)) = length (cpus s)"
  "d \<noteq> c \<Longrightarrow> running_on (switched s c) d = running_on s d"
  "runnable (switched s c) a = runnable s a" "listed_ok (switched s c) a = listed_ok s a"
  by (simp_all add: switched_def running_on_def runnable_def listed_ok_def)

lemma switched_idle: "d < length (cpus s) \<Longrightarrow> idle_task (cpus (switched s c) ! d) = idle_task (cpus s ! d)"
  by (cases "d = c") (simp_all add: switched_def)

lemma switched_running_on:
  assumes "sched_inv s" "c < length (cpus s)"
  shows "running_on (switched s c) c = (case ready_queue s of [] \<Rightarrow> None | a # _ \<Rightarrow> Some a)"
proof (cases "ready_queue s")
  case (Cons a q)
  then have "runnable s a" "idle_ok s (idle_task (cpus s ! c))" using assms by (auto simp: sched_inv_def)
  then have "a \<noteq> idle_task (cpus s ! c)" by (auto simp: runnable_def idle_ok_def)
  with Cons assms(2) show ?thesis by (simp add: switched_def running_on_def next_task_def)
qed (use assms(2) in \<open>simp add: switched_def running_on_def next_task_def\<close>)

lemma sched_invD:
  assumes "sched_inv s"
  shows "distinct (ready_queue s)" "distinct (all_tasks (kern s))"
    and "a \<in> set (ready_queue s) \<Longrightarrow> runnable s a"
    and "c < length (cpus s) \<Longrightarrow> running_on s c = Some a \<Longrightarrow> runnable s a"
    and "c < length (cpus s) \<Longrightarrow> running_on s c = Some a \<Longrightarrow> a \<notin> set (ready_queue s)"
    and "c < length (cpus s) \<Longrightarrow> d < length (cpus s) \<Longrightarrow> running_on s c = Some a \<Longrightarrow> running_on s d = Some a \<Longrightarrow> c = d"
    and "c < length (cpus s) \<Longrightarrow> idle_ok s (idle_task (cpus s ! c))"
    and "a \<in> set (all_tasks (kern s)) \<Longrightarrow> listed_ok s a"
  using assms by (auto simp: sched_inv_def)

lemma switched_queue:
  assumes inv: "sched_inv s" and c: "c < length (cpus s)"
  shows "distinct (ready_queue (switched s c))"
    and "a \<in> set (ready_queue (switched s c)) \<longleftrightarrow> a \<in> set (tl (ready_queue s)) \<or> running_on s c = Some a"
  using sched_invD(1,5) [OF inv] c
  by (cases "ready_queue s"; auto simp: switched_def previous_def split: option.splits)+

lemma switched_inv:
  assumes inv: "sched_inv s" and c: "c < length (cpus s)"
  shows "sched_inv (switched s c)"
  unfolding sched_inv_def
proof (intro conjI allI impI ballI)
  let ?s = "switched s c"
  note D = sched_invD [OF inv] and on = switched_running_on [OF inv c] and q = switched_queue [OF inv c]
  have tl_in: "a \<in> set (tl (ready_queue s)) \<Longrightarrow> a \<in> set (ready_queue s)" for a
    by (cases "ready_queue s") auto
  show "distinct (ready_queue ?s)" "distinct (all_tasks (kern ?s))" using q(1) D(2) by simp_all
  show "runnable ?s a" if "a \<in> set (ready_queue ?s)" for a
    using that q(2) tl_in D(3,4) c by auto
  show "runnable ?s a" if "d < length (cpus ?s)" "running_on ?s d = Some a" for d a
    using that on D(3,4) by (cases "d = c") (auto split: list.splits)
  show "a \<notin> set (ready_queue ?s)" if d: "d < length (cpus ?s)" and a: "running_on ?s d = Some a" for d a
  proof (cases "d = c")
    case True
    then obtain r where "ready_queue s = a # r" using a on by (auto split: list.splits)
    with q(2) D(1) D(5) [OF c] show ?thesis by auto
  next
    case False
    with a d have "running_on s d = Some a" "d < length (cpus s)" by simp_all
    with q(2) tl_in D(5,6) c False show ?thesis by blast
  qed
  show "d = e" if de: "d < length (cpus ?s)" "e < length (cpus ?s)" "running_on ?s d = Some a" "running_on ?s e = Some a" for d e a
  proof -
    have hd: "f < length (cpus s) \<Longrightarrow> f \<noteq> c \<Longrightarrow> running_on s f = Some a \<Longrightarrow> running_on ?s c \<noteq> Some a" for f
      using on D(5) [of f a] by (auto split: list.splits)
    from de D(6) [of d e a] hd [of d] hd [of e] show ?thesis by (cases "d = c"; cases "e = c") auto
  qed
  show "idle_ok ?s (idle_task (cpus ?s ! d))" if d: "d < length (cpus ?s)" for d
  proof -
    have i: "idle_ok s (idle_task (cpus s ! d))" using D(7) d by simp
    then have "running_on s c \<noteq> Some (idle_task (cpus s ! d))" using D(4) [OF c] by (auto simp: idle_ok_def runnable_def)
    with i q(2) tl_in d show ?thesis by (auto simp: idle_ok_def switched_idle)
  qed
  show "listed_ok ?s a" if "a \<in> set (all_tasks (kern ?s))" for a
    using that D(8) by simp
qed

lemma switch_context_switched:
  assumes inv: "sched_inv s" and c: "c < length (cpus s)" and wake: "unblock_tasks s ready = Some s1"
    and inv1: "sched_inv s1" and cpus1: "cpus s1 = cpus s"
  shows "switch_context s c ready = Some (switched s1 c)"
proof -
  let ?a = "next_task s1 c" and ?s2 = "s1\<lparr>ready_queue := tl (ready_queue s1)\<rparr>"
  let ?s3 = "?s2\<lparr>cpus := (cpus s1)[c := (cpus s1 ! c)\<lparr>current_task := Some (next_task s1 c)\<rparr>]\<rparr>"
  note D = sched_invD [OF inv1]
  have c1: "c < length (cpus s1)" using c cpus1 by simp
  obtain t where t: "task_at s1 ?a = Some t" "state t = TASK_RUNNING"
    using D(3) D(7) [OF c1] by (cases "ready_queue s1") (auto simp: next_task_def runnable_def idle_ok_def)
  have deq: "dequeue_ready s1 c = Some (?a, ?s2)"
    using c1 t by (cases "ready_queue s1") (auto simp: dequeue_ready_def next_task_def)
  have set3: "set_current_task ?s2 c (Some ?a) = Some ?s3"
    using c1 by (simp add: set_current_task_in)
  have on: "running_on s c = running_on s1 c" using cpus1 by (simp add: running_on_def)
  have enq: "enqueue_ready ?s3 p = Some (switched s1 c)" if p: "running_on s1 c = Some p" for p
  proof -
    obtain tp where "task_at s1 p = Some tp" "state tp = TASK_RUNNING"
      using D(4) [OF c1 p] by (auto simp: runnable_def)
    moreover have "p \<notin> set (tl (ready_queue s1))"
      using D(5) [OF c1 p] by (cases "ready_queue s1") auto
    ultimately show ?thesis
      using p by (simp add: enqueue_ready_fresh switched_def previous_def)
  qed
  have none: "?s3 = switched s1 c" if "running_on s1 c = None"
    using that by (simp add: switched_def previous_def)
  show ?thesis
    using wake deq t set3 c on enq none
    by (cases "running_on s c") (auto simp: switch_context_def running_on_def Let_def split: if_splits)
qed

text \<open>
  The context switch keeps the invariant and never fails. The task that runs next is the head of the
  ready queue, after the woken tasks joined it, and the idle task when the queue is empty.
\<close>

definition queue_after_wake :: "sched \<Rightarrow> (nat \<Rightarrow> bool) \<Rightarrow> nat list" where
  "queue_after_wake s ready = ready_queue s @ filter (wakes s ready) (all_tasks (kern s))"

lemma switch_context_next:
  assumes "sched_inv s" "c < length (cpus s)"
  shows "\<exists>s'. switch_context s c ready = Some s' \<and> sched_inv s' \<and> length (cpus s') = length (cpus s)
     \<and> current_task (cpus s' ! c) =
         Some (case queue_after_wake s ready of [] \<Rightarrow> idle_task (cpus s ! c) | a # _ \<Rightarrow> a)
     \<and> ready_queue s' = tl (queue_after_wake s ready) @ previous s c
     \<and> (\<forall>d. d \<noteq> c \<longrightarrow> cpus s' ! d = cpus s ! d)"
proof -
  obtain s1 where s1: "unblock_tasks s ready = Some s1" "sched_inv s1" "cpus s1 = cpus s"
    "ready_queue s1 = queue_after_wake s ready"
    using unblock_tasks_inv [OF assms(1), of ready] by (auto simp: queue_after_wake_def)
  with switch_context_switched [OF assms s1(1-3)] switched_inv [OF s1(2), of c] assms(2) show ?thesis
    by (auto simp: switched_def next_task_def previous_def running_on_def split: list.split)
qed

lemma switch_context_keeps:
  assumes "sched_inv s" "c < length (cpus s)" "switch_context s c ready = Some s'"
  shows "all_tasks (kern s') = all_tasks (kern s)" "idle_task (cpus s' ! c) = idle_task (cpus s ! c)"
proof -
  obtain s1 where s1: "unblock_tasks s ready = Some s1" "sched_inv s1" "cpus s1 = cpus s"
    "all_tasks (kern s1) = all_tasks (kern s)"
    using unblock_tasks_inv [OF assms(1), of ready] by auto
  then have "s' = switched s1 c" using switch_context_switched [OF assms(1,2) s1(1-3)] assms(3) by simp
  with s1 assms(2) show "all_tasks (kern s') = all_tasks (kern s)" "idle_task (cpus s' ! c) = idle_task (cpus s ! c)"
    by (simp_all add: switched_idle)
qed

lemma sched_yield_requeue:
  "c < length (cpus s) \<Longrightarrow> current_task (cpus s ! c) = Some a \<Longrightarrow> sched_yield s c True ready = switch_context s c ready"
  by (simp add: sched_yield_def)

section \<open>Blocking\<close>

text \<open>The state in which a task has marked itself blocked and given up the processor.\<close>

definition parked :: "sched \<Rightarrow> nat \<Rightarrow> nat \<Rightarrow> nat \<Rightarrow> bool \<Rightarrow> sched" where
  "parked s c a blocker uninterruptible =
     s\<lparr>kern := (update_task (kern s) a (\<lambda>t. t\<lparr>interrupted := False, unblock := Some blocker,
         state := (if uninterruptible then TASK_UNINTERRUPTIBLE else TASK_INTERRUPTIBLE),
         task_ref_count := task_ref_count t - 1\<rparr>))\<lparr>current := a\<rparr>,
       cpus := (cpus s)[c := (cpus s ! c)\<lparr>current_task := None\<rparr>]\<rparr>"

lemma parked_inv:
  assumes inv: "sched_inv s" and c: "c < length (cpus s)" and a: "running_on s c = Some a"
  shows "sched_inv (parked s c a blocker u)"
proof -
  let ?s = "parked s c a blocker u"
  note D = sched_invD [OF inv]
  obtain t where t: "task_at s a = Some t" "2 \<le> task_ref_count t" using D(4) [OF c a] by (auto simp: runnable_def)
  have sel: "ready_queue ?s = ready_queue s" "all_tasks (kern ?s) = all_tasks (kern s)"
    "length (cpus ?s) = length (cpus s)" "b \<noteq> a \<Longrightarrow> task_at ?s b = task_at s b" for b
    by (simp_all add: parked_def)
  have on: "running_on ?s c = None" "d \<noteq> c \<Longrightarrow> running_on ?s d = running_on s d" for d
    using c by (simp_all add: parked_def running_on_def)
  have idle: "idle_task (cpus ?s ! d) = idle_task (cpus s ! d)" if "d < length (cpus s)" for d
    using that by (cases "d = c") (simp_all add: parked_def)
  have run: "runnable ?s b" if "runnable s b" "b \<noteq> a" for b
    using that sel by (simp add: runnable_def)
  have other: "b \<noteq> a" if "d < length (cpus s)" "d \<noteq> c" "running_on s d = Some b" for b d
    using that D(6) c a by blast
  have la: "listed_ok ?s a" using t by (simp add: listed_ok_def parked_def)
  have idle_ne: "d \<noteq> a" if "idle_ok s d" for d
    using that D(4) [OF c a] by (auto simp: idle_ok_def runnable_def)
  show ?thesis
    unfolding sched_inv_def sel
  proof (intro conjI allI impI ballI)
    show "distinct (ready_queue s)" "distinct (all_tasks (kern s))" using D(1,2) by simp_all
    show "runnable ?s b" if "b \<in> set (ready_queue s)" for b
      using that D(3) D(5) [OF c a] by (intro run) auto
    show "runnable ?s b" "b \<notin> set (ready_queue s)" if "d < length (cpus s)" "running_on ?s d = Some b" for d b
      using that on D(4,5) other run by (cases "d = c"; simp)+
    show "d = e" if "d < length (cpus s)" "e < length (cpus s)" "running_on ?s d = Some b" "running_on ?s e = Some b" for d e b
      using that on D(6) [of d e b] by (cases "d = c"; cases "e = c") simp_all
    show "idle_ok ?s (idle_task (cpus ?s ! d))" if "d < length (cpus s)" for d
      using D(7) [OF that] idle_ne sel idle [OF that] by (simp add: idle_ok_def)
    show "listed_ok ?s b" if "b \<in> set (all_tasks (kern s))" for b
      using that D(8) [of b] la sel by (cases "b = a") (simp_all add: listed_ok_def)
  qed
qed

lemma sched_block_parked:
  assumes inv: "sched_inv s" and c: "c < length (cpus s)" and a: "running_on s c = Some a" and wait: "\<not> ready a"
  shows "sched_block s c blocker u ready = map_option Inr (switch_context (parked s c a blocker u) c ready)"
proof -
  obtain t where t: "task_at s a = Some t" "unblock t = None" "2 \<le> task_ref_count t"
    using sched_invD(4) [OF inv c a] by (auto simp: runnable_def)
  have cur: "current_task (cpus s ! c) = Some a" "a \<noteq> idle_task (cpus s ! c)"
    using a by (auto simp: running_on_def Let_def split: if_splits)
  let ?t = "t\<lparr>interrupted := False, unblock := Some blocker,
     state := (if u then TASK_UNINTERRUPTIBLE else TASK_INTERRUPTIBLE)\<rparr>"
  let ?s1 = "set_task (set_task s a (\<lambda>t. t\<lparr>interrupted := False\<rparr>)) a (\<lambda>t. t\<lparr>unblock := Some blocker,
     state := (if u then TASK_UNINTERRUPTIBLE else TASK_INTERRUPTIBLE)\<rparr>)"
  have "task_unref (kern_on ?s1 a) (Some a) = Some ([], update_task (kern_on ?s1 a) a (\<lambda>t. t\<lparr>task_ref_count := task_ref_count ?t - 1\<rparr>))"
    using t by (simp add: task_unref_def kern_on_def set_task_def)
  moreover have "set_current_task (?s1\<lparr>kern := update_task (kern_on ?s1 a) a (\<lambda>t. t\<lparr>task_ref_count := task_ref_count ?t - 1\<rparr>)\<rparr>) c None
      = Some (parked s c a blocker u)"
    using c t by (simp add: set_current_task_in set_task_def parked_def kern_on_def update_task_def)
  ultimately have "sched_yield ?s1 c False ready = switch_context (parked s c a blocker u) c ready"
    using c cur by (simp add: sched_yield_def set_task_def)
  with c cur t wait show ?thesis
    by (cases "switch_context (parked s c a blocker u) c ready") (simp_all add: sched_block_def)
qed


section \<open>How long a blocked task waits\<close>

text \<open>What a round of waking does to one task.\<close>

lemma woken_twice: "b \<noteq> a \<Longrightarrow> task_at (woken (woken s b) a) a = task_at (woken s a) a"
  by (simp add: woken_def set_task_def task_ref_def Let_def update_task_def)

lemma unblock_loop_task:
  assumes "sched_inv s" "distinct as" "set as \<subseteq> set (all_tasks (kern s))" "unblock_loop s ready as = Some s'"
  shows "task_at s' a = (if a \<in> set as \<and> wakes s ready a then task_at (woken s a) a else task_at s a)"
  using assms
proof (induction as arbitrary: s)
  case (Cons b as)
  let ?s = "if wakes s ready b then woken s b else s"
  have b: "b \<in> set (all_tasks (kern s))" using Cons.prems(3) by simp
  have inv: "sched_inv ?s" using woken_inv [OF Cons.prems(1) b] Cons.prems(1) by auto
  have "unblock_loop ?s ready as = Some s'" using unblock_loop_step [OF Cons.prems(1) b] Cons.prems(4) by simp
  with Cons.IH [OF inv] Cons.prems(2,3)
  have rec: "task_at s' a = (if a \<in> set as \<and> wakes ?s ready a then task_at (woken ?s a) a else task_at ?s a)" by auto
  show ?case
  proof (cases "a = b")
    case True
    with rec Cons.prems(2) show ?thesis by auto
  next
    case False
    then have "wakes ?s ready a = wakes s ready a" "task_at ?s a = task_at s a" by (simp_all add: wakes_def)
    with rec False woken_twice [of b a s] show ?thesis by auto
  qed
qed simp

lemma switch_context_task:
  assumes "sched_inv s" "c < length (cpus s)" "switch_context s c ready = Some s'"
  shows "task_at s' a = (if a \<in> set (all_tasks (kern s)) \<and> wakes s ready a then task_at (woken s a) a else task_at s a)"
proof -
  obtain s1 where s1: "unblock_tasks s ready = Some s1" "sched_inv s1" "cpus s1 = cpus s"
    using unblock_tasks_inv [OF assms(1), of ready] by auto
  then have "s' = switched s1 c" using switch_context_switched [OF assms(1,2) s1(1-3)] assms(3) by simp
  with unblock_loop_task [OF assms(1) sched_invD(2) [OF assms(1)] subset_refl, of ready s1 a] s1(1) show ?thesis
    by (simp add: unblock_tasks_def)
qed

text \<open>A blocked task that no signal wakes.\<close>

definition waits :: "sched \<Rightarrow> nat \<Rightarrow> bool" where
  "waits s a \<longleftrightarrow> a \<in> set (all_tasks (kern s)) \<and> (\<exists>t. task_at s a = Some t
     \<and> (state t = TASK_UNINTERRUPTIBLE \<or> state t = TASK_INTERRUPTIBLE \<and> pending_signals t AND NOT (blocked_signals t) = 0))"

lemma waits_wakes: "waits s a \<Longrightarrow> wakes s ready a = ready a"
  by (auto simp: waits_def wakes_def)

lemma waits_off:
  assumes "sched_inv s" "waits s a"
  shows "a \<notin> set (ready_queue s)" "d < length (cpus s) \<Longrightarrow> running_on s d \<noteq> Some a"
  using assms(2) sched_invD(3,4) [OF assms(1)] by (fastforce simp: waits_def runnable_def)+

definition all_busy :: "sched \<Rightarrow> bool" where
  "all_busy s \<longleftrightarrow> (\<forall>c<length (cpus s). current_task (cpus s ! c) \<noteq> None)"

lemma yield_next:
  assumes "sched_inv s" "all_busy s" "d < length (cpus s)"
  shows "\<exists>s'. sched_yield s d True ready = Some s' \<and> switch_context s d ready = Some s' \<and> sched_inv s' \<and> all_busy s'
     \<and> length (cpus s') = length (cpus s)"
proof -
  obtain b where b: "current_task (cpus s ! d) = Some b" using assms(2,3) by (auto simp: all_busy_def)
  obtain s' where s': "switch_context s d ready = Some s'" "sched_inv s'" "length (cpus s') = length (cpus s)"
    "current_task (cpus s' ! d) \<noteq> None" "\<forall>e. e \<noteq> d \<longrightarrow> cpus s' ! e = cpus s ! e"
    using switch_context_next [OF assms(1,3), of ready] by auto
  have "all_busy s'" unfolding all_busy_def
  proof (intro allI impI)
    fix e assume "e < length (cpus s')"
    with s' assms(2) show "current_task (cpus s' ! e) \<noteq> None" by (cases "e = d") (auto simp: all_busy_def)
  qed
  with s' sched_yield_requeue [OF assms(3) b] show ?thesis by auto
qed

lemma yield_keeps_waiting:
  assumes "sched_inv s" "all_busy s" "d < length (cpus s)" "waits s a" "\<not> ready a"
  shows "\<exists>s'. sched_yield s d True ready = Some s' \<and> sched_inv s' \<and> all_busy s' \<and> length (cpus s') = length (cpus s) \<and> waits s' a"
proof -
  obtain s' where s': "sched_yield s d True ready = Some s'" "switch_context s d ready = Some s'" "sched_inv s'" "all_busy s'"
    "length (cpus s') = length (cpus s)"
    using yield_next [OF assms(1-3)] by blast
  have "waits s' a"
    using assms(4,5) switch_context_task [OF assms(1,3) s'(2), of a] switch_context_keeps(1) [OF assms(1,3) s'(2)]
    by (simp add: waits_wakes) (simp add: waits_def)
  with s' show ?thesis by blast
qed

lemma yield_ends_waiting:
  assumes "sched_inv s" "all_busy s" "d < length (cpus s)" "waits s a" "ready a"
  shows "\<exists>s' t. sched_yield s d True ready = Some s' \<and> sched_inv s' \<and> (running_on s' d = Some a \<or> a \<in> set (ready_queue s'))
     \<and> task_at s' a = Some t \<and> sched_block_result t = Inr ()"
proof -
  obtain s' where s': "sched_yield s d True ready = Some s'" "switch_context s d ready = Some s'" "sched_inv s'"
    "length (cpus s') = length (cpus s)"
    using yield_next [OF assms(1-3)] by blast
  have a: "a \<in> set (all_tasks (kern s))" "wakes s ready a" using assms(4,5) waits_wakes by (auto simp: waits_def)
  then have "a \<in> set (queue_after_wake s ready)" by (simp add: queue_after_wake_def)
  then obtain b q where q: "queue_after_wake s ready = b # q" "b = a \<or> a \<in> set q" by (cases "queue_after_wake s ready") auto
  have cur: "current_task (cpus s' ! d) = Some b" "set q \<subseteq> set (ready_queue s')"
    using switch_context_next [OF assms(1,3), of ready] s'(2) q(1) by auto
  have "a \<noteq> idle_task (cpus s' ! d)"
    using sched_invD(7) [OF s'(3), of d] assms(3) s'(4) a(1) switch_context_keeps(1) [OF assms(1,3) s'(2)] by (auto simp: idle_ok_def)
  with cur q(2) have place: "running_on s' d = Some a \<or> a \<in> set (ready_queue s')" by (auto simp: running_on_def Let_def)
  have "task_at s' a = task_at (woken s a) a" using switch_context_task [OF assms(1,3) s'(2)] a by simp
  moreover obtain t where "task_at (woken s a) a = Some t" "\<not> interrupted t"
    using assms(4) by (auto simp: waits_def woken_def set_task_def task_ref_def Let_def update_task_def)
  ultimately show ?thesis using s' place by (auto simp: sched_block_result_def)
qed

text \<open>Yields on any processors, with the conditions of the blocked tasks as they are at each of them.\<close>

fun yield_steps :: "sched \<Rightarrow> (nat \<times> (nat \<Rightarrow> bool)) list \<Rightarrow> sched option" where
  "yield_steps s [] = Some s"
| "yield_steps s ((d, ready) # ys) = do { s' \<leftarrow> sched_yield s d True ready; yield_steps s' ys }"

lemma yield_steps_waiting:
  assumes "sched_inv s" "all_busy s" "waits s a" "\<forall>(d, ready)\<in>set ys. d < length (cpus s) \<and> \<not> ready a"
  shows "\<exists>s'. yield_steps s ys = Some s' \<and> sched_inv s' \<and> all_busy s' \<and> length (cpus s') = length (cpus s) \<and> waits s' a"
  using assms
proof (induction ys arbitrary: s)
  case (Cons y ys)
  obtain d ready where y: "y = (d, ready)" "d < length (cpus s)" "\<not> ready a" using Cons.prems(4) by (cases y) auto
  obtain s1 where s1: "sched_yield s d True ready = Some s1" "sched_inv s1" "all_busy s1" "length (cpus s1) = length (cpus s)"
    "waits s1 a"
    using yield_keeps_waiting [where ready = ready, OF Cons.prems(1,2) y(2) Cons.prems(3) y(3)] by blast
  from Cons.IH [OF s1(2,3,5)] Cons.prems(4) s1(1,4) y(1) show ?case by auto
qed simp

text \<open>The ready queue when the task \<open>a\<close> has blocked and the others were woken; \<open>sig\<close> is whether a signal wakes \<open>a\<close> itself.\<close>

definition queue_after_block :: "sched \<Rightarrow> nat \<Rightarrow> bool \<Rightarrow> (nat \<Rightarrow> bool) \<Rightarrow> nat list" where
  "queue_after_block s a sig ready =
     ready_queue s @ filter (\<lambda>b. if b = a then sig else wakes s ready b) (all_tasks (kern s))"

lemma queue_after_parked:
  assumes "task_at s a = Some t" "\<not> ready a"
  shows "queue_after_wake (parked s c a blocker u) ready =
    queue_after_block s a (\<not> u \<and> pending_signals t AND NOT (blocked_signals t) \<noteq> 0) ready"
proof -
  have "wakes (parked s c a blocker u) ready b =
      (if b = a then \<not> u \<and> pending_signals t AND NOT (blocked_signals t) \<noteq> 0 else wakes s ready b)" for b
    using assms by (simp add: wakes_def parked_def)
  then have "wakes (parked s c a blocker u) ready =
      (\<lambda>b. if b = a then \<not> u \<and> pending_signals t AND NOT (blocked_signals t) \<noteq> 0 else wakes s ready b)" by blast
  then show ?thesis by (simp add: queue_after_wake_def queue_after_block_def) (simp add: parked_def)
qed

lemma sched_block_switches:
  assumes "sched_inv s" "c < length (cpus s)" "running_on s c = Some a" "\<not> ready a" "task_at s a = Some t"
    and "sig = (\<not> u \<and> pending_signals t AND NOT (blocked_signals t) \<noteq> 0)"
  shows "\<exists>s'. sched_block s c blocker u ready = Some (Inr s') \<and> sched_inv s' \<and> length (cpus s') = length (cpus s)
     \<and> current_task (cpus s' ! c) = Some (case queue_after_block s a sig ready of [] \<Rightarrow> idle_task (cpus s ! c) | b # _ \<Rightarrow> b)
     \<and> ready_queue s' = tl (queue_after_block s a sig ready) \<and> (\<forall>d. d \<noteq> c \<longrightarrow> cpus s' ! d = cpus s ! d)
     \<and> (\<not> sig \<longrightarrow> waits s' a)"
proof -
  let ?p = "parked s c a blocker u"
  have inv: "sched_inv ?p" by (rule parked_inv [OF assms(1-3)])
  have c: "c < length (cpus ?p)" "length (cpus ?p) = length (cpus s)" using assms(2) by (simp_all add: parked_def)
  have q: "previous ?p c = []" "all_tasks (kern ?p) = all_tasks (kern s)" "idle_task (cpus ?p ! c) = idle_task (cpus s ! c)"
    "d \<noteq> c \<Longrightarrow> cpus ?p ! d = cpus s ! d" for d
    using assms(2) by (simp_all add: parked_def previous_def running_on_def)
  have qa: "queue_after_wake ?p ready = queue_after_block s a sig ready"
    unfolding assms(6) by (rule queue_after_parked [where ready = ready, OF assms(5,4)])
  obtain s' where s': "switch_context ?p c ready = Some s'" "sched_inv s'" "length (cpus s') = length (cpus s)"
    "current_task (cpus s' ! c) = Some (case queue_after_block s a sig ready of [] \<Rightarrow> idle_task (cpus s ! c) | b # _ \<Rightarrow> b)"
    "ready_queue s' = tl (queue_after_block s a sig ready)" "\<forall>d. d \<noteq> c \<longrightarrow> cpus s' ! d = cpus ?p ! d"
    using switch_context_next [OF inv c(1), of ready] unfolding qa q(1,3) c(2) append_Nil2 by (elim exE conjE)
  have others: "\<forall>d. d \<noteq> c \<longrightarrow> cpus s' ! d = cpus s ! d" using s'(6) q(4) by simp
  have a: "a \<in> set (all_tasks (kern s))" using sched_invD(4) [OF assms(1-3)] by (simp add: runnable_def)
  have "waits s' a" if "\<not> sig"
  proof -
    have p: "waits ?p a" using that a assms(5,6) by (cases u) (auto simp: waits_def parked_def)
    then have "task_at s' a = task_at ?p a" using switch_context_task [OF inv c(1) s'(1), of a] waits_wakes [of ?p a ready] assms(4) by simp
    with p show ?thesis using switch_context_keeps(1) [OF inv c(1) s'(1)] by (simp add: waits_def)
  qed
  with sched_block_parked [where ready = ready, OF assms(1-4)] s'(1-5) others show ?thesis by simp
qed

section \<open>Properties\<close>

text \<open>
  C12. A preempted task goes to the end of the ready queue and the head of the queue gets the processor
  (the idle task when the queue is empty and nothing was woken). Before that the blocked tasks join the queue whose condition
  holds or, in an interruptible wait, that have an unblocked signal pending. From a well-formed state no assertion of
  the scheduler fails and the state stays well-formed: no task is queued twice, or queued while it runs.
\<close>

theorem sched_yield_round_robin:
  assumes "sched_inv s" "c < length (cpus s)" "current_task (cpus s ! c) = Some a"
  shows "\<exists>s'. sched_yield s c True ready = Some s' \<and> sched_inv s'
     \<and> current_task (cpus s' ! c) =
         Some (case queue_after_wake s ready of [] \<Rightarrow> idle_task (cpus s ! c) | b # _ \<Rightarrow> b)
     \<and> ready_queue s' = tl (queue_after_wake s ready) @ (if a = idle_task (cpus s ! c) then [] else [a])"
  using switch_context_next [OF assms(1,2), of ready] assms(2,3)
  by (auto simp: sched_yield_requeue previous_def running_on_def)

definition example_sched :: sched where
  "example_sched =
     \<lparr>kern = example_kernel\<lparr>tasks := [5 \<mapsto> example_task\<lparr>task_ref_count := 2\<rparr>,
        6 \<mapsto> example_task\<lparr>tid := 3, task_ref_count := 2\<rparr>, 9 \<mapsto> example_task\<lparr>tid := 0\<rparr>]\<rparr>,
      ready_queue = [6], cpus = [\<lparr>current_task = Some 5, idle_task = 9\<rparr>]\<rparr>"

lemma example_sched_inv: "sched_inv example_sched"
  by (simp add: sched_inv_def example_sched_def example_kernel_def example_task_def runnable_def running_on_def
      idle_ok_def listed_ok_def)

lemma example_sched_select:
  "cpus example_sched = [\<lparr>current_task = Some 5, idle_task = 9\<rparr>]" "ready_queue example_sched = [6]"
  "queue_after_wake example_sched ready = [6]" "running_on example_sched 0 = Some 5"
  by (simp_all add: example_sched_def queue_after_wake_def wakes_def example_kernel_def example_task_def running_on_def)

theorem sched_yield_round_robin_witness:
  "\<exists>s'. sched_yield example_sched 0 True (\<lambda>_. False) = Some s' \<and> sched_inv s'
     \<and> current_task (cpus s' ! 0) = Some 6 \<and> ready_queue s' = [5]"
  using sched_yield_round_robin [OF example_sched_inv, of 0 5 "\<lambda>_. False"] by (simp add: example_sched_select)

text \<open>
  C13. \<^verbatim>\<open>sched_block\<close> on a condition that does not hold fails no assertion and keeps the state well-formed. The processor
  goes to the first task of the ready queue, behind which the tasks that can go on have been woken, and to its idle task when
  there is none. The blocking task is among the woken ones exactly when its wait is interruptible and a signal that it does
  not block is pending. Otherwise it stays off the ready queue and off every processor through any number of yields on any
  processors while its condition does not hold, and the first yield at which the condition holds puts it in the queue or on
  the processor, to return success. This is so as long as nothing else than these yields changes the state: a signal that
  comes in between may end the wait.
\<close>

theorem sched_block_leaves_processor:
  assumes "sched_inv s" "c < length (cpus s)" "running_on s c = Some a" "\<not> ready a" "task_at s a = Some t" "all_busy s"
    and "sig = (\<not> uninterruptible \<and> pending_signals t AND NOT (blocked_signals t) \<noteq> 0)"
  shows "\<exists>s'. sched_block s c blocker uninterruptible ready = Some (Inr s') \<and> sched_inv s'
     \<and> current_task (cpus s' ! c) = Some (case queue_after_block s a sig ready of [] \<Rightarrow> idle_task (cpus s ! c) | b # _ \<Rightarrow> b)
     \<and> ready_queue s' = tl (queue_after_block s a sig ready)
     \<and> (\<forall>ys. \<not> sig \<and> (\<forall>(d, ready)\<in>set ys. d < length (cpus s) \<and> \<not> ready a) \<longrightarrow>
          (\<exists>s1. yield_steps s' ys = Some s1 \<and> sched_inv s1
             \<and> a \<notin> set (ready_queue s1) \<and> (\<forall>d<length (cpus s). running_on s1 d \<noteq> Some a)
             \<and> (\<forall>d<length (cpus s). \<forall>ready. ready a \<longrightarrow>
                  (\<exists>s2 t'. sched_yield s1 d True ready = Some s2 \<and> sched_inv s2
                     \<and> (running_on s2 d = Some a \<or> a \<in> set (ready_queue s2))
                     \<and> task_at s2 a = Some t' \<and> sched_block_result t' = Inr ()))))"
proof -
  obtain s' where s': "sched_block s c blocker uninterruptible ready = Some (Inr s')" "sched_inv s'" "length (cpus s') = length (cpus s)"
    "current_task (cpus s' ! c) = Some (case queue_after_block s a sig ready of [] \<Rightarrow> idle_task (cpus s ! c) | b # _ \<Rightarrow> b)"
    "ready_queue s' = tl (queue_after_block s a sig ready)" "\<forall>d. d \<noteq> c \<longrightarrow> cpus s' ! d = cpus s ! d" "\<not> sig \<longrightarrow> waits s' a"
    using sched_block_switches [where ready = ready and blocker = blocker, OF assms(1-5,7)] by (elim exE conjE)
  have busy: "all_busy s'" unfolding all_busy_def
  proof (intro allI impI)
    fix d assume "d < length (cpus s')"
    with s'(3,4,6) assms(6) show "current_task (cpus s' ! d) \<noteq> None" by (cases "d = c") (auto simp: all_busy_def)
  qed
  have wait: "\<exists>s1. yield_steps s' ys = Some s1 \<and> sched_inv s1
       \<and> a \<notin> set (ready_queue s1) \<and> (\<forall>d<length (cpus s). running_on s1 d \<noteq> Some a)
       \<and> (\<forall>d<length (cpus s). \<forall>ready. ready a \<longrightarrow>
            (\<exists>s2 t'. sched_yield s1 d True ready = Some s2 \<and> sched_inv s2
               \<and> (running_on s2 d = Some a \<or> a \<in> set (ready_queue s2))
               \<and> task_at s2 a = Some t' \<and> sched_block_result t' = Inr ()))"
    if "\<not> sig" "\<forall>(d, ready)\<in>set ys. d < length (cpus s) \<and> \<not> ready a" for ys
  proof -
    have w: "waits s' a" using s'(7) that(1) by blast
    have ys: "\<forall>(d, ready)\<in>set ys. d < length (cpus s') \<and> \<not> ready a" using that(2) s'(3) by simp
    obtain s1 where s1: "yield_steps s' ys = Some s1" "sched_inv s1" "all_busy s1" "length (cpus s1) = length (cpus s)" "waits s1 a"
      using yield_steps_waiting [OF s'(2) busy w ys] unfolding s'(3) by blast
    with waits_off [OF s1(2,5)] yield_ends_waiting [OF s1(2,3) _ s1(5)] show ?thesis by auto
  qed
  show ?thesis by (intro exI [of _ s'] conjI s'(1,2,4,5) allI impI wait) simp_all
qed

text \<open>Task 5 blocks, task 6 gets the processor; after a yield task 5 still waits, and the next one with its condition wakes it.\<close>

theorem sched_block_leaves_processor_witness:
  "\<exists>s'. sched_block example_sched 0 1 True (\<lambda>_. False) = Some (Inr s') \<and> sched_inv s' \<and> current_task (cpus s' ! 0) = Some 6
     \<and> ready_queue s' = []
     \<and> (\<exists>s1. yield_steps s' [(0, \<lambda>_. False)] = Some s1 \<and> 5 \<notin> set (ready_queue s1) \<and> running_on s1 0 \<noteq> Some 5
          \<and> (\<exists>s2. sched_yield s1 0 True (\<lambda>b. b = 5) = Some s2 \<and> (running_on s2 0 = Some 5 \<or> 5 \<in> set (ready_queue s2))))"
proof -
  have t: "task_at example_sched 5 = Some (example_task\<lparr>task_ref_count := 2\<rparr>)" by (simp add: example_sched_def)
  have b: "all_busy example_sched" by (simp add: all_busy_def example_sched_select)
  have q: "queue_after_block example_sched 5 False (\<lambda>_. False) = [6]"
    by (simp add: queue_after_block_def example_sched_def wakes_def example_kernel_def example_task_def)
  have pre: "0 < length (cpus example_sched)" "running_on example_sched 0 = Some 5" "length (cpus example_sched) = 1"
    by (simp_all add: example_sched_select)
  have sig: "False = (\<not> True \<and> pending_signals t AND NOT (blocked_signals t) \<noteq> 0)" for t by simp
  obtain s' where s': "sched_block example_sched 0 1 True (\<lambda>_. False) = Some (Inr s')" "sched_inv s'"
      "current_task (cpus s' ! 0) = Some (case [6] of [] \<Rightarrow> idle_task (cpus example_sched ! 0) | b # _ \<Rightarrow> b)" "ready_queue s' = tl [6]"
    and w: "\<forall>ys. \<not> False \<and> (\<forall>(d, ready)\<in>set ys. d < length (cpus example_sched) \<and> \<not> ready 5) \<longrightarrow>
      (\<exists>s1. yield_steps s' ys = Some s1 \<and> sched_inv s1
         \<and> 5 \<notin> set (ready_queue s1) \<and> (\<forall>d<length (cpus example_sched). running_on s1 d \<noteq> Some 5)
         \<and> (\<forall>d<length (cpus example_sched). \<forall>ready. ready 5 \<longrightarrow>
              (\<exists>s2 t'. sched_yield s1 d True ready = Some s2 \<and> sched_inv s2
                 \<and> (running_on s2 d = Some 5 \<or> 5 \<in> set (ready_queue s2))
                 \<and> task_at s2 5 = Some t' \<and> sched_block_result t' = Inr ())))"
    using sched_block_leaves_processor [where blocker = 1 and ready = "\<lambda>_. False", OF example_sched_inv pre(1,2) _ t b sig]
    unfolding q by blast
  have "\<forall>(d, ready)\<in>set [(0 :: nat, \<lambda>_ :: nat. False)]. d < length (cpus example_sched) \<and> \<not> ready 5" using pre(1) by simp
  with w [THEN spec, of "[(0, \<lambda>_. False)]"] have "\<exists>s1. yield_steps s' [(0, \<lambda>_. False)] = Some s1 \<and> sched_inv s1
         \<and> 5 \<notin> set (ready_queue s1) \<and> (\<forall>d<length (cpus example_sched). running_on s1 d \<noteq> Some 5)
         \<and> (\<forall>d<length (cpus example_sched). \<forall>ready. ready 5 \<longrightarrow>
              (\<exists>s2 t'. sched_yield s1 d True ready = Some s2 \<and> sched_inv s2
                 \<and> (running_on s2 d = Some 5 \<or> 5 \<in> set (ready_queue s2))
                 \<and> task_at s2 5 = Some t' \<and> sched_block_result t' = Inr ()))" by (rule mp [OF _ conjI [OF not_False_eq_True [THEN iffD2, OF TrueI]]])
  then obtain s1 where s1: "yield_steps s' [(0, \<lambda>_. False)] = Some s1" "5 \<notin> set (ready_queue s1)"
      "\<forall>d<length (cpus example_sched). running_on s1 d \<noteq> Some 5"
    and e: "\<forall>d<length (cpus example_sched). \<forall>ready. ready 5 \<longrightarrow>
      (\<exists>s2 t'. sched_yield s1 d True ready = Some s2 \<and> sched_inv s2 \<and> (running_on s2 d = Some 5 \<or> 5 \<in> set (ready_queue s2))
         \<and> task_at s2 5 = Some t' \<and> sched_block_result t' = Inr ())"
    by (elim exE conjE)
  from e [THEN spec, THEN mp, OF pre(1), THEN spec, of "\<lambda>b. b = 5"] obtain s2 where
    s2: "sched_yield s1 0 True (\<lambda>b. b = 5) = Some s2" "running_on s2 0 = Some 5 \<or> 5 \<in> set (ready_queue s2)" by blast
  have "running_on s1 0 \<noteq> Some 5" using s1(3) pre(1) by blast
  moreover
  have "current_task (cpus s' ! 0) = Some 6" "ready_queue s' = []" using s'(3,4) by simp_all
  ultimately show ?thesis using s'(1,2) s1(1,2) s2 by blast
qed

text \<open>A processor that yields \<open>n\<close> times, with the conditions of the blocked tasks as they are at each time.\<close>

fun yields :: "sched \<Rightarrow> nat \<Rightarrow> (nat \<Rightarrow> bool) list \<Rightarrow> sched option" where
  "yields s c [] = Some s"
| "yields s c (ready # rs) = do { s' \<leftarrow> sched_yield s c True ready; yields s' c rs }"

text \<open>
  C14. Bounded waiting: the task at position \<open>i\<close> of the ready queue has the processor after \<open>i + 1\<close> yields,
  whatever tasks are woken in between.
\<close>

theorem ready_task_runs:
  assumes "sched_inv s" "c < length (cpus s)" "current_task (cpus s ! c) \<noteq> None"
    and "length rs = Suc i" "i < length (ready_queue s)"
  shows "\<exists>s'. yields s c rs = Some s' \<and> sched_inv s' \<and> current_task (cpus s' ! c) = Some (ready_queue s ! i)"
  using assms
proof (induction i arbitrary: s rs)
  case 0
  then obtain ready a where rs: "rs = [ready]" "current_task (cpus s ! c) = Some a" by (cases rs) auto
  obtain x q where q: "ready_queue s = x # q" using 0 by (cases "ready_queue s") auto
  with switch_context_next [OF 0(1,2), of ready] rs 0(2) show ?case
    by (auto simp: sched_yield_requeue queue_after_wake_def)
next
  case (Suc i)
  then obtain ready rs' a where rs: "rs = ready # rs'" "length rs' = Suc i" "current_task (cpus s ! c) = Some a"
    by (cases rs) auto
  obtain x q where q: "ready_queue s = x # q" "i < length q" using Suc.prems(5) by (cases "ready_queue s") auto
  obtain s1 where s1: "sched_yield s c True ready = Some s1" "sched_inv s1" "length (cpus s1) = length (cpus s)"
    "current_task (cpus s1 ! c) \<noteq> None"
    "ready_queue s1 = q @ filter (wakes s ready) (all_tasks (kern s)) @ previous s c"
    using switch_context_next [OF Suc.prems(1,2), of ready] rs(3) Suc.prems(2) q
    by (auto simp: sched_yield_requeue queue_after_wake_def)
  from Suc.IH [OF s1(2), of rs'] s1 rs q Suc.prems(2) show ?case
    by (auto simp: nth_append)
qed

theorem ready_task_runs_witness:
  "\<exists>s'. yields example_sched 0 [\<lambda>_. True] = Some s' \<and> sched_inv s' \<and> current_task (cpus s' ! 0) = Some 6"
  using ready_task_runs [OF example_sched_inv, of 0 "[\<lambda>_. True]" 0] by (simp add: example_sched_select del: yields.simps)

text \<open>
  A dying task that another processor has already reaped panics the kernel: \<^verbatim>\<open>exit\<close> marks the task dead
  before it gives up the processor, \<^verbatim>\<open>wait4\<close> on another processor may then take it off the list and drop
  that reference, and the \<^verbatim>\<open>task_unref\<close> of \<^verbatim>\<open>sched_yield\<close> drops the last one while the task is current.
\<close>

theorem reaped_task_yield_panics:
  assumes "c < length (cpus s)" "running_on s c = Some a" "task_at s a = Some t"
    and "state t = TASK_DEAD" "task_ref_count t = 1" "tid t \<noteq> 0"
  shows "sched_yield s c False ready = None"
  using assms
  by (auto simp: sched_yield_def task_unref_def kern_on_def running_on_def Let_def split: if_splits)

theorem reaped_task_yield_panics_witness:
  "sched_yield (set_task example_sched 5 (\<lambda>t. t\<lparr>state := TASK_DEAD, task_ref_count := 1\<rparr>)) 0 False (\<lambda>_. False) = None"
  by (rule reaped_task_yield_panics [of _ _ 5 "example_task\<lparr>state := TASK_DEAD, task_ref_count := 1\<rparr>"])
    (simp_all add: set_task_def example_sched_def running_on_def example_task_def)

end
