(* ===== verification/Ring_Buf.thy ===== *)
theory Ring_Buf
  imports Prelude
begin

text \<open>
  The byte ring of \<^verbatim>\<open>kernel/containers/ring_buf.h\<close>, which carries the data of pipes, Unix sockets
  and terminals. The ring leaves one slot unused, so that equal indices mean empty. The model keeps
  the indices as \<open>nat\<close>: they stay below \<^verbatim>\<open>capacity\<close>, a \<^verbatim>\<open>size_t\<close>, so \<^verbatim>\<open>index + 1\<close> never wraps.

  The abstraction of a ring is the list of the bytes it holds (\<open>rb_contents\<close>). The locale
  \<open>byte_queue\<close> states what the pipe and the socket rely on: a read hands out the oldest bytes, a
  write appends a prefix of its argument, and a bounded queue neither loses nor reorders bytes.
\<close>

section \<open>The ring and its operations\<close>

record ring_buf =
  capacity :: nat
  write_index :: nat
  read_index :: nat
  ring :: "u8 list"

text \<open>
  \<^verbatim>\<open>ring_buf_init\<close>: \<open>mem\<close> is what \<^verbatim>\<open>kmalloc(capacity)\<close> returned, \<open>None\<close> for the null pointer and
  otherwise the (uninitialised) bytes of the block.
\<close>

definition ring_buf_init :: "nat \<Rightarrow> u8 list option \<Rightarrow> ring_buf result" where
  "ring_buf_init cap mem =
     (case mem of
        None \<Rightarrow> Inl ENOMEM
      | Some bytes \<Rightarrow> Inr \<lparr>capacity = cap, write_index = 0, read_index = 0, ring = bytes\<rparr>)"

definition ring_buf_is_empty :: "ring_buf \<Rightarrow> bool" where
  "ring_buf_is_empty b \<longleftrightarrow> write_index b = read_index b"

definition ring_buf_is_full :: "ring_buf \<Rightarrow> bool" where
  "ring_buf_is_full b \<longleftrightarrow> (write_index b + 1) mod capacity b = read_index b"

text \<open>
  \<^verbatim>\<open>ring_buf_read\<close>: the loop body runs before the emptiness test, so a call on an empty ring with
  \<open>count > 0\<close> hands out stale bytes; callers check first. The result is the bytes stored to the
  destination (their number is the return value) and the ring.
\<close>

fun ring_buf_read :: "ring_buf \<Rightarrow> nat \<Rightarrow> (u8 list \<times> ring_buf) option" where
  "ring_buf_read b 0 = Some ([], b)"
| "ring_buf_read b (Suc count) =
     do {
       x \<leftarrow> arr_get (ring b) (read_index b);
       let b' = b\<lparr>read_index := (read_index b + 1) mod capacity b\<rparr>;
       if read_index b' = write_index b' then Some ([x], b')
       else do {
         (xs, b'') \<leftarrow> ring_buf_read b' count;
         Some (x # xs, b'')
       }
     }"

text \<open>\<^verbatim>\<open>ring_buf_write\<close>: returns the number of bytes taken from the front of the argument.\<close>

fun ring_buf_write :: "ring_buf \<Rightarrow> u8 list \<Rightarrow> (nat \<times> ring_buf) option" where
  "ring_buf_write b [] = Some (0, b)"
| "ring_buf_write b (x # src) =
     do {
       ring' \<leftarrow> arr_set (ring b) (write_index b) x;
       let b' = b\<lparr>ring := ring', write_index := (write_index b + 1) mod capacity b\<rparr>;
       if (write_index b' + 1) mod capacity b' = read_index b' then Some (1, b')
       else do {
         (n, b'') \<leftarrow> ring_buf_write b' src;
         Some (Suc n, b'')
       }
     }"

fun ring_buf_write_evicting_oldest :: "ring_buf \<Rightarrow> u8 list \<Rightarrow> (nat \<times> ring_buf) option" where
  "ring_buf_write_evicting_oldest b [] = Some (0, b)"
| "ring_buf_write_evicting_oldest b (x # src) =
     do {
       ring' \<leftarrow> arr_set (ring b) (write_index b) x;
       let b' = b\<lparr>ring := ring', write_index := (write_index b + 1) mod capacity b\<rparr>;
       let b'' = (if write_index b' = read_index b'
                  then b'\<lparr>read_index := (read_index b' + 1) mod capacity b'\<rparr> else b');
       (n, b''') \<leftarrow> ring_buf_write_evicting_oldest b'' src;
       Some (Suc n, b''')
     }"

definition ring_buf_clear :: "ring_buf \<Rightarrow> ring_buf" where
  "ring_buf_clear b = b\<lparr>write_index := 0, read_index := 0\<rparr>"

section \<open>Invariant and abstraction\<close>

definition rb_inv :: "ring_buf \<Rightarrow> bool" where
  "rb_inv b \<longleftrightarrow> 1 < capacity b \<and> length (ring b) = capacity b
     \<and> write_index b < capacity b \<and> read_index b < capacity b"

definition rb_len :: "ring_buf \<Rightarrow> nat" where
  "rb_len b = (write_index b + (capacity b - read_index b)) mod capacity b"

definition rb_contents :: "ring_buf \<Rightarrow> u8 list" where
  "rb_contents b = map (\<lambda>i. ring b ! ((read_index b + i) mod capacity b)) [0..<rb_len b]"

definition rb_space :: "ring_buf \<Rightarrow> nat" where
  "rb_space b = capacity b - 1 - length (rb_contents b)"

lemma length_rb_contents [simp]: "length (rb_contents b) = rb_len b"
  by (simp add: rb_contents_def)

lemma rb_len_less: "rb_inv b \<Longrightarrow> rb_len b < capacity b"
  by (simp add: rb_inv_def rb_len_def)

lemma rb_len_cases:
  "rb_inv b \<Longrightarrow> rb_len b = (if read_index b \<le> write_index b then write_index b - read_index b
                        else write_index b + capacity b - read_index b)"
  by (auto simp: rb_inv_def rb_len_def mod_if)

lemma rb_empty_iff: "rb_inv b \<Longrightarrow> ring_buf_is_empty b \<longleftrightarrow> rb_contents b = []"
  by (auto simp: ring_buf_is_empty_def rb_contents_def rb_len_cases rb_inv_def split: if_splits)

lemma rb_full_iff: "rb_inv b \<Longrightarrow> ring_buf_is_full b \<longleftrightarrow> rb_space b = 0"
  by (auto simp: ring_buf_is_full_def rb_space_def rb_len_cases rb_inv_def mod_if split: if_splits)

lemma ring_buf_init_inv:
  "1 < cap \<Longrightarrow> length bytes = cap \<Longrightarrow> ring_buf_init cap (Some bytes) = Inr b \<Longrightarrow>
     rb_inv b \<and> rb_contents b = []"
  by (auto simp: ring_buf_init_def rb_inv_def rb_contents_def rb_len_def)

lemma ring_buf_clear_inv: "rb_inv b \<Longrightarrow> rb_inv (ring_buf_clear b) \<and> rb_contents (ring_buf_clear b) = []"
  by (auto simp: ring_buf_clear_def rb_inv_def rb_contents_def rb_len_def)

text \<open>The two single-byte steps the loops are made of.\<close>

definition rb_pop :: "ring_buf \<Rightarrow> ring_buf" where
  "rb_pop b = b\<lparr>read_index := (read_index b + 1) mod capacity b\<rparr>"

definition rb_push :: "ring_buf \<Rightarrow> u8 \<Rightarrow> ring_buf" where
  "rb_push b x = b\<lparr>ring := (ring b)[write_index b := x], write_index := (write_index b + 1) mod capacity b\<rparr>"

lemma rb_pop_inv [simp]: "rb_inv b \<Longrightarrow> rb_inv (rb_pop b)"
  by (simp add: rb_inv_def rb_pop_def)

lemma rb_push_inv [simp]: "rb_inv b \<Longrightarrow> rb_inv (rb_push b x)"
  by (simp add: rb_inv_def rb_push_def)

lemma capacity_pop_push [simp]: "capacity (rb_pop b) = capacity b" "capacity (rb_push b x) = capacity b"
  by (simp_all add: rb_pop_def rb_push_def)

lemma rb_len_pop: "rb_inv b \<Longrightarrow> 0 < rb_len b \<Longrightarrow> rb_len (rb_pop b) = rb_len b - 1"
  by (simp add: rb_len_cases, auto simp: rb_pop_def rb_inv_def Suc_mod_less split: if_splits)

lemma rb_len_push: "rb_inv b \<Longrightarrow> rb_len b < capacity b - 1 \<Longrightarrow> rb_len (rb_push b x) = rb_len b + 1"
  by (simp add: rb_len_cases, auto simp: rb_push_def rb_inv_def Suc_mod_less split: if_splits)

lemma rb_contents_nth: "i < rb_len b \<Longrightarrow> rb_contents b ! i = ring b ! ((read_index b + i) mod capacity b)"
  by (simp add: rb_contents_def)

lemma rb_contents_pop:
  assumes inv: "rb_inv b" and len: "0 < rb_len b"
  shows "rb_contents b = ring b ! read_index b # rb_contents (rb_pop b)"
proof (rule nth_equalityI)
  show "length (rb_contents b) = length (ring b ! read_index b # rb_contents (rb_pop b))"
    using assms by (simp add: rb_len_pop)
next
  fix i assume i: "i < length (rb_contents b)"
  show "rb_contents b ! i = (ring b ! read_index b # rb_contents (rb_pop b)) ! i"
  proof (cases i)
    case 0
    with i inv show ?thesis by (simp add: rb_contents_nth rb_inv_def)
  next
    case (Suc k)
    with i len inv have "k < rb_len (rb_pop b)" by (simp add: rb_len_pop)
    with i Suc show ?thesis by (simp add: rb_contents_nth) (simp add: rb_pop_def mod_Suc_add)
  qed
qed

lemma rb_slot_of_next:
  assumes "rb_inv b" "i \<le> rb_len b" "rb_len b < capacity b - 1"
  shows "(read_index b + i) mod capacity b = write_index b \<longleftrightarrow> i = rb_len b"
proof -
  from assms have "(read_index b + i) mod capacity b
      = (if read_index b + i < capacity b then read_index b + i else read_index b + i - capacity b)"
    by (intro mod_add_less_self) (auto simp: rb_inv_def)
  moreover have "read_index b < capacity b" "write_index b < capacity b"
    using assms(1) by (simp_all add: rb_inv_def)
  ultimately show ?thesis
    using rb_len_cases [OF assms(1)] assms(2,3)
    by (cases "read_index b \<le> write_index b"; cases "read_index b + i < capacity b"; simp; linarith)
qed

lemma rb_contents_push:
  assumes inv: "rb_inv b" and len: "rb_len b < capacity b - 1"
  shows "rb_contents (rb_push b x) = rb_contents b @ [x]"
proof (rule nth_equalityI)
  show "length (rb_contents (rb_push b x)) = length (rb_contents b @ [x])"
    using assms by (simp add: rb_len_push)
next
  fix i assume "i < length (rb_contents (rb_push b x))"
  with assms have i: "i \<le> rb_len b" by (simp add: rb_len_push)
  note slot = rb_slot_of_next [OF inv i len]
  have "rb_contents (rb_push b x) ! i = (ring b)[write_index b := x] ! ((read_index b + i) mod capacity b)"
    using assms i by (simp add: rb_contents_nth rb_len_push) (simp add: rb_push_def)
  also have "\<dots> = (rb_contents b @ [x]) ! i"
  proof (cases "i = rb_len b")
    case True
    with slot have "(read_index b + i) mod capacity b = write_index b" by simp
    then show ?thesis using True inv by (simp add: nth_append rb_inv_def)
  next
    case False
    with slot have "(read_index b + i) mod capacity b \<noteq> write_index b" by simp
    then show ?thesis using False i by (simp add: nth_append rb_contents_nth)
  qed
  finally show "rb_contents (rb_push b x) ! i = (rb_contents b @ [x]) ! i" .
qed

lemma rb_pop_empty_iff:
  "rb_inv b \<Longrightarrow> Suc (read_index b) mod capacity b = write_index b \<longleftrightarrow> rb_contents (rb_pop b) = []"
  using rb_empty_iff [OF rb_pop_inv, of b] by (simp add: ring_buf_is_empty_def) (auto simp: rb_pop_def)

lemma ring_buf_read_Suc:
  assumes "rb_inv b"
  shows "ring_buf_read b (Suc n) =
     (if rb_contents (rb_pop b) = [] then Some ([ring b ! read_index b], rb_pop b)
      else map_option (\<lambda>(xs, b'). (ring b ! read_index b # xs, b')) (ring_buf_read (rb_pop b) n))"
proof -
  have "arr_get (ring b) (read_index b) = Some (ring b ! read_index b)"
    using assms by (simp add: rb_inv_def)
  then show ?thesis
    using rb_pop_empty_iff [OF assms]
    by (cases "ring_buf_read (rb_pop b) n") (auto simp: rb_pop_def)
qed

lemma ring_buf_read_correct:
  "rb_inv b \<Longrightarrow> rb_contents b \<noteq> [] \<Longrightarrow>
   \<exists>b'. ring_buf_read b n = Some (take n (rb_contents b), b') \<and> rb_inv b'
      \<and> rb_contents b' = drop n (rb_contents b) \<and> capacity b' = capacity b"
proof (induction n arbitrary: b)
  case 0
  then show ?case by simp
next
  case (Suc n)
  from Suc.prems have "0 < rb_len b" by (metis length_greater_0_conv length_rb_contents)
  note pop = rb_contents_pop [OF Suc.prems(1) this]
  show ?case
  proof (cases "rb_contents (rb_pop b) = []")
    case True
    with pop Suc.prems show ?thesis by (simp add: ring_buf_read_Suc del: ring_buf_read.simps)
  next
    case False
    from Suc.IH [OF rb_pop_inv [OF Suc.prems(1)] False] pop False Suc.prems(1) show ?thesis
      by (auto simp: ring_buf_read_Suc simp del: ring_buf_read.simps)
  qed
qed

lemma ring_buf_write_Cons:
  assumes "rb_inv b"
  shows "ring_buf_write b (x # src) =
     (if ring_buf_is_full (rb_push b x) then Some (1, rb_push b x)
      else map_option (\<lambda>(n, b'). (Suc n, b')) (ring_buf_write (rb_push b x) src))"
proof -
  have "arr_set (ring b) (write_index b) x = Some ((ring b)[write_index b := x])"
    using assms by (simp add: rb_inv_def)
  then show ?thesis
    by (cases "ring_buf_write (rb_push b x) src") (auto simp: rb_push_def ring_buf_is_full_def)
qed

lemma ring_buf_write_correct:
  "rb_inv b \<Longrightarrow> 0 < rb_space b \<Longrightarrow>
   \<exists>b'. ring_buf_write b src = Some (min (length src) (rb_space b), b') \<and> rb_inv b'
      \<and> rb_contents b' = rb_contents b @ take (rb_space b) src \<and> capacity b' = capacity b"
proof (induction src arbitrary: b)
  case Nil
  then show ?case by simp
next
  case (Cons x src)
  from Cons.prems have len: "rb_len b < capacity b - 1" by (simp add: rb_space_def)
  note push = rb_contents_push [OF Cons.prems(1) len, of x] and len_push = rb_len_push [OF Cons.prems(1) len, of x]
  have space: "rb_space b = Suc (rb_space (rb_push b x))" using len by (simp add: rb_space_def len_push)
  show ?case
  proof (cases "rb_space (rb_push b x) = 0")
    case True
    with push space Cons.prems show ?thesis
      by (simp add: ring_buf_write_Cons rb_full_iff del: ring_buf_write.simps)
  next
    case False
    with Cons.IH [of "rb_push b x"] push space Cons.prems(1) show ?thesis
      by (auto simp: ring_buf_write_Cons rb_full_iff simp del: ring_buf_write.simps)
  qed
qed

text \<open>Appending one byte and dropping the oldest one when the ring was full.\<close>

definition rb_push_evict :: "ring_buf \<Rightarrow> u8 \<Rightarrow> ring_buf" where
  "rb_push_evict b x = (let b' = rb_push b x in if write_index b' = read_index b' then rb_pop b' else b')"

lemma rb_push_evict_inv [simp]: "rb_inv b \<Longrightarrow> rb_inv (rb_push_evict b x)"
  by (simp add: rb_push_evict_def Let_def)

lemma capacity_push_evict [simp]: "capacity (rb_push_evict b x) = capacity b"
  by (simp add: rb_push_evict_def Let_def)

lemma rb_push_wraps_iff:
  "rb_inv b \<Longrightarrow> write_index (rb_push b x) = read_index (rb_push b x) \<longleftrightarrow> rb_len b = capacity b - 1"
  using rb_full_iff [of b] rb_len_less [of b]
  by (auto simp: ring_buf_is_full_def rb_push_def rb_space_def)

lemma rb_contents_push_full:
  assumes inv: "rb_inv b" and full: "rb_len b = capacity b - 1"
  shows "rb_contents (rb_pop (rb_push b x)) = tl (rb_contents b) @ [x]"
proof -
  have cap: "1 < capacity b" using inv by (simp add: rb_inv_def)
  with full have len: "0 < rb_len b" by simp
  \<comment> \<open>Popping first and pushing then touches the same slots.\<close>
  have comm: "rb_pop (rb_push b x) = rb_push (rb_pop b) x"
    by (simp add: rb_pop_def rb_push_def)
  have "rb_contents (rb_push (rb_pop b) x) = rb_contents (rb_pop b) @ [x]"
    using inv full len cap by (intro rb_contents_push) (simp_all add: rb_len_pop)
  then show ?thesis using comm rb_contents_pop [OF inv len] by simp
qed

lemma rb_contents_push_evict:
  "rb_inv b \<Longrightarrow> rb_contents (rb_push_evict b x) =
     (if rb_len b = capacity b - 1 then tl (rb_contents b) else rb_contents b) @ [x]"
  using rb_len_less [of b]
  by (auto simp: rb_push_evict_def Let_def rb_push_wraps_iff rb_contents_push_full rb_contents_push)

lemma ring_buf_write_evicting_oldest_Cons:
  assumes "rb_inv b"
  shows "ring_buf_write_evicting_oldest b (x # src) =
     map_option (\<lambda>(n, b'). (Suc n, b')) (ring_buf_write_evicting_oldest (rb_push_evict b x) src)"
proof -
  have "arr_set (ring b) (write_index b) x = Some ((ring b)[write_index b := x])"
    using assms by (simp add: rb_inv_def)
  then show ?thesis
    by (cases "ring_buf_write_evicting_oldest (rb_push_evict b x) src")
      (auto simp: rb_push_evict_def Let_def rb_push_def rb_pop_def)
qed

lemma ring_buf_write_evicting_oldest_correct:
  "rb_inv b \<Longrightarrow>
   \<exists>b'. ring_buf_write_evicting_oldest b src = Some (length src, b') \<and> rb_inv b' \<and> capacity b' = capacity b
      \<and> rb_contents b' = drop (length (rb_contents b @ src) - (capacity b - 1)) (rb_contents b @ src)"
proof (induction src arbitrary: b)
  case Nil
  then show ?case using rb_len_less [of b] by simp
next
  case (Cons x src)
  let ?b = "rb_push_evict b x"
  obtain b' where b': "ring_buf_write_evicting_oldest ?b src = Some (length src, b')"
    "rb_inv b'" "capacity b' = capacity b"
    "rb_contents b' = drop (length (rb_contents ?b @ src) - (capacity b - 1)) (rb_contents ?b @ src)"
    using Cons.IH [of ?b] Cons.prems by auto
  have "drop (length (rb_contents ?b @ src) - (capacity b - 1)) (rb_contents ?b @ src)
      = drop (length (rb_contents b @ x # src) - (capacity b - 1)) (rb_contents b @ x # src)"
  proof (cases "rb_len b = capacity b - 1")
    case True
    with Cons.prems obtain y q where q: "rb_contents b = y # q"
      by (metis length_rb_contents One_nat_def list.exhaust list.size(3) rb_inv_def zero_less_diff not_less_zero)
    with True have "capacity b - 1 = Suc (length q)" by (metis length_Cons length_rb_contents)
    with q True Cons.prems show ?thesis by (simp add: rb_contents_push_evict)
  next
    case False
    with Cons.prems show ?thesis by (simp add: rb_contents_push_evict)
  qed
  with b' Cons.prems show ?case
    by (simp add: ring_buf_write_evicting_oldest_Cons del: ring_buf_write_evicting_oldest.simps)
qed

text \<open>
  What \<^verbatim>\<open>ring_buf_read\<close> does when the caller did not check for emptiness: it returns the stale byte
  under the read index and leaves a ring that claims to be full.
\<close>

lemma ring_buf_read_empty_stale:
  assumes inv: "rb_inv b" and emp: "rb_contents b = []"
  shows "\<exists>b'. ring_buf_read b (Suc n) = Some (ring b ! read_index b # take n (rb_contents (rb_pop b)), b')
     \<and> rb_inv b' \<and> rb_contents b' = drop n (rb_contents (rb_pop b)) \<and> rb_len (rb_pop b) = capacity b - 1"
proof -
  have idx: "read_index b = write_index b"
    using emp rb_empty_iff [OF inv] by (simp add: ring_buf_is_empty_def)
  have len: "rb_len (rb_pop b) = capacity b - 1"
    using rb_len_cases [OF rb_pop_inv [OF inv]] inv idx
    by (auto simp: rb_pop_def rb_inv_def Suc_mod_less)
  with inv have "rb_contents (rb_pop b) \<noteq> []"
    by (metis length_rb_contents list.size(3) rb_inv_def zero_less_diff less_numeral_extra(3))
  with ring_buf_read_correct [OF rb_pop_inv [OF inv], of n] inv len show ?thesis
    by (auto simp: ring_buf_read_Suc simp del: ring_buf_read.simps)
qed

section \<open>The interface the clients rely on\<close>

locale byte_queue =
  fixes inv :: "'q \<Rightarrow> bool"
    and contents :: "'q \<Rightarrow> u8 list"
    and space :: "'q \<Rightarrow> nat"
    and is_empty :: "'q \<Rightarrow> bool"
    and is_full :: "'q \<Rightarrow> bool"
    and deq :: "'q \<Rightarrow> nat \<Rightarrow> (u8 list \<times> 'q) option"
    and enq :: "'q \<Rightarrow> u8 list \<Rightarrow> (nat \<times> 'q) option"
  assumes empty_law: "inv q \<Longrightarrow> is_empty q \<longleftrightarrow> contents q = []"
    and full_law: "inv q \<Longrightarrow> is_full q \<longleftrightarrow> space q = 0"
    and read_law: "inv q \<Longrightarrow> contents q \<noteq> [] \<Longrightarrow>
      \<exists>q'. deq q n = Some (take n (contents q), q') \<and> inv q' \<and> contents q' = drop n (contents q)
         \<and> length (contents q') + space q' = length (contents q) + space q"
    and write_law: "inv q \<Longrightarrow> 0 < space q \<Longrightarrow>
      \<exists>q'. enq q src = Some (min (length src) (space q), q') \<and> inv q'
         \<and> contents q' = contents q @ take (space q) src
         \<and> length (contents q') + space q' = length (contents q) + space q"
begin

text \<open>
  The stream view: \<open>sent\<close> is everything written so far and \<open>received\<close> everything read so far. A guarded
  operation keeps \<open>received @ contents q = sent\<close>, so bytes come out once, in order and unchanged.
\<close>

lemma read_stream:
  assumes "inv q" "\<not> is_empty q" "deq q n = Some (xs, q')" "received @ contents q = sent"
  shows "inv q' \<and> (received @ xs) @ contents q' = sent \<and> length xs \<le> n \<and> (0 < n \<longrightarrow> xs \<noteq> [])"
  using assms read_law [of q n] empty_law [of q] by auto

lemma write_stream:
  assumes "inv q" "\<not> is_full q" "enq q src = Some (k, q')" "received @ contents q = sent"
  shows "inv q' \<and> received @ contents q' = sent @ take k src \<and> k \<le> length src \<and> (src \<noteq> [] \<longrightarrow> 0 < k)"
  using assms write_law [of q src] full_law [of q] by (auto simp: min_def)

lemma read_total: "inv q \<Longrightarrow> \<not> is_empty q \<Longrightarrow> \<exists>xs q'. deq q n = Some (xs, q')"
  using read_law [of q n] empty_law [of q] by auto

lemma write_total: "inv q \<Longrightarrow> \<not> is_full q \<Longrightarrow> \<exists>k q'. enq q src = Some (k, q')"
  using write_law [of q src] full_law [of q] by auto

lemma size_bound_kept:
  assumes "inv q"
  shows "\<not> is_empty q \<Longrightarrow> deq q n = Some (xs, q') \<Longrightarrow>
           length (contents q') + space q' = length (contents q) + space q"
    and "\<not> is_full q \<Longrightarrow> enq q src = Some (k, q') \<Longrightarrow>
           length (contents q') + space q' = length (contents q) + space q"
  using assms read_law [of q n] write_law [of q src] empty_law [of q] full_law [of q] by auto

end

lemma rb_len_plus_space: "rb_inv b \<Longrightarrow> length (rb_contents b) + rb_space b = capacity b - 1"
  using rb_len_less [of b] by (simp add: rb_space_def)

interpretation rbq: byte_queue rb_inv rb_contents rb_space ring_buf_is_empty ring_buf_is_full
  ring_buf_read ring_buf_write
proof unfold_locales
  fix q n assume "rb_inv q" "rb_contents q \<noteq> []"
  then show "\<exists>q'. ring_buf_read q n = Some (take n (rb_contents q), q') \<and> rb_inv q'
      \<and> rb_contents q' = drop n (rb_contents q)
      \<and> length (rb_contents q') + rb_space q' = length (rb_contents q) + rb_space q"
    using ring_buf_read_correct [of q n] by (metis rb_len_plus_space)
next
  fix q src assume "rb_inv q" "0 < rb_space q"
  then show "\<exists>q'. ring_buf_write q src = Some (min (length src) (rb_space q), q') \<and> rb_inv q'
      \<and> rb_contents q' = rb_contents q @ take (rb_space q) src
      \<and> length (rb_contents q') + rb_space q' = length (rb_contents q) + rb_space q"
    using ring_buf_write_correct [of q src] by (metis rb_len_plus_space)
qed (simp_all add: rb_empty_iff rb_full_iff)

section \<open>Refinement of a bounded queue\<close>

text \<open>
  The clients call the ring under a guard: they test for a full ring before they write and for an
  empty one before they read. \<open>rb_run\<close> runs a sequence of such guarded calls; an output is the bytes
  read or the number of bytes written, \<open>None\<close> where the guard stopped the call. \<open>queue_run\<close> does the
  same on a plain list of at most \<open>n\<close> bytes.
\<close>

datatype queue_op = Put "u8 list" | Get nat

datatype queue_out = Blocked | Took nat | Got "u8 list"

fun rb_run :: "ring_buf \<Rightarrow> queue_op list \<Rightarrow> (queue_out list \<times> ring_buf) option" where
  "rb_run b [] = Some ([], b)"
| "rb_run b (Put bs # ops) =
     (if ring_buf_is_full b then do { (os, b') \<leftarrow> rb_run b ops; Some (Blocked # os, b') }
      else do { (n, b1) \<leftarrow> ring_buf_write b bs; (os, b') \<leftarrow> rb_run b1 ops; Some (Took n # os, b') })"
| "rb_run b (Get n # ops) =
     (if ring_buf_is_empty b then do { (os, b') \<leftarrow> rb_run b ops; Some (Blocked # os, b') }
      else do { (xs, b1) \<leftarrow> ring_buf_read b n; (os, b') \<leftarrow> rb_run b1 ops; Some (Got xs # os, b') })"

fun queue_run :: "nat \<Rightarrow> u8 list \<Rightarrow> queue_op list \<Rightarrow> queue_out list \<times> u8 list" where
  "queue_run n q [] = ([], q)"
| "queue_run n q (Put bs # ops) =
     (if length q = n then let (os, q') = queue_run n q ops in (Blocked # os, q')
      else let taken = take (n - length q) bs; (os, q') = queue_run n (q @ taken) ops
           in (Took (length taken) # os, q'))"
| "queue_run n q (Get k # ops) =
     (if q = [] then let (os, q') = queue_run n q ops in (Blocked # os, q')
      else let (os, q') = queue_run n (drop k q) ops in (Got (take k q) # os, q'))"

lemma rb_run_refines:
  assumes "rb_inv b"
  shows "\<exists>b'. rb_run b ops = Some (fst (queue_run (capacity b - 1) (rb_contents b) ops), b')
     \<and> rb_inv b' \<and> capacity b' = capacity b
     \<and> rb_contents b' = snd (queue_run (capacity b - 1) (rb_contents b) ops)"
  using assms
proof (induction ops arbitrary: b)
  case Nil
  then show ?case by simp
next
  case (Cons op ops)
  show ?case
  proof (cases op)
    case (Put bs)
    show ?thesis
    proof (cases "ring_buf_is_full b")
      case True
      then have "rb_len b = capacity b - 1"
        using Cons.prems rb_full_iff [of b] rb_len_less [of b] by (simp add: rb_space_def)
      with True Cons.IH [OF Cons.prems] Put show ?thesis
        by (auto simp: case_prod_beta)
    next
      case False
      then have room: "rb_len b \<noteq> capacity b - 1" "0 < rb_space b"
        using Cons.prems rb_full_iff [of b] rb_len_less [of b] by (auto simp: rb_space_def)
      obtain b1 where b1: "ring_buf_write b bs = Some (min (length bs) (rb_space b), b1)" "rb_inv b1"
        "rb_contents b1 = rb_contents b @ take (rb_space b) bs" "capacity b1 = capacity b"
        using ring_buf_write_correct [OF Cons.prems room(2), of bs] by blast
      from Cons.IH [OF b1(2)] b1 False room(1) Put show ?thesis
        by (auto simp: case_prod_beta rb_space_def min.commute Let_def)
    qed
  next
    case (Get k)
    show ?thesis
    proof (cases "ring_buf_is_empty b")
      case True
      with Cons.IH [OF Cons.prems] rb_empty_iff [OF Cons.prems] Get show ?thesis
        by (auto simp: case_prod_beta)
    next
      case False
      then have ne: "rb_contents b \<noteq> []"
        using rb_empty_iff [OF Cons.prems] by simp
      obtain b1 where b1: "ring_buf_read b k = Some (take k (rb_contents b), b1)" "rb_inv b1"
        "rb_contents b1 = drop k (rb_contents b)" "capacity b1 = capacity b"
        using ring_buf_read_correct [OF Cons.prems ne, of k] by blast
      from Cons.IH [OF b1(2)] b1 False ne Get show ?thesis
        by (auto simp: case_prod_beta)
    qed
  qed
qed

section \<open>Properties\<close>

text \<open>
  C1. A ring of \<open>cap\<close> bytes set up by \<^verbatim>\<open>ring_buf_init\<close> and used under its guards behaves like a FIFO
  queue of at most \<open>cap - 1\<close> bytes: for every sequence of writes and reads no access leaves the block
  and each call hands back exactly what the queue hands back.
\<close>

theorem ring_buf_refines_queue:
  assumes "1 < cap" and "length mem = cap" and "ring_buf_init cap (Some mem) = Inr b"
  shows "\<exists>b'. rb_run b ops = Some (fst (queue_run (cap - 1) [] ops), b')
     \<and> rb_inv b' \<and> rb_contents b' = snd (queue_run (cap - 1) [] ops)"
proof -
  have "rb_inv b" "capacity b = cap" "rb_contents b = []"
    using assms by (auto simp: ring_buf_init_def rb_inv_def rb_contents_def rb_len_def)
  with rb_run_refines [of b ops] show ?thesis by auto
qed

theorem ring_buf_refines_queue_witness:
  "\<exists>b'. rb_run \<lparr>capacity = 3, write_index = 0, read_index = 0, ring = [0, 0, 0]\<rparr>
          [Put [1, 2, 3], Put [4], Get 1, Put [5, 6], Get 9, Get 1]
      = Some ([Took 2, Blocked, Got [1], Took 1, Got [2, 5], Blocked], b')"
  using ring_buf_refines_queue [of 3 "[0, 0, 0]" "\<lparr>capacity = 3, write_index = 0, read_index = 0, ring = [0, 0, 0]\<rparr>"
      "[Put [1, 2, 3], Put [4], Get 1, Put [5, 6], Get 9, Get 1]"]
  by (force simp: ring_buf_init_def Let_def simp del: rb_run.simps)

text \<open>
  C2. \<^verbatim>\<open>ring_buf_write_evicting_oldest\<close> takes all of its argument and leaves in the ring the last
  \<open>capacity - 1\<close> bytes of what it held followed by the argument, in order.
\<close>

theorem ring_buf_write_evicting_oldest_keeps_newest:
  assumes "rb_inv b"
  shows "\<exists>b'. ring_buf_write_evicting_oldest b src = Some (length src, b') \<and> rb_inv b'
     \<and> rb_contents b' = (let all = rb_contents b @ src in drop (length all - (capacity b - 1)) all)"
  using ring_buf_write_evicting_oldest_correct [OF assms, of src] by (auto simp: Let_def)

theorem ring_buf_write_evicting_oldest_keeps_newest_witness:
  "\<exists>b'. ring_buf_write_evicting_oldest \<lparr>capacity = 3, write_index = 1, read_index = 0, ring = [7, 0, 0]\<rparr> [8, 9]
      = Some (2, b') \<and> rb_contents b' = [8, 9]"
  using ring_buf_write_evicting_oldest_keeps_newest
    [of "\<lparr>capacity = 3, write_index = 1, read_index = 0, ring = [7, 0, 0]\<rparr>" "[8, 9]"]
  by (simp add: rb_inv_def rb_contents_def rb_len_def Let_def)

end
