(* ===== verification/Blocking.thy ===== *)
theory Blocking
  imports Prelude
begin

text \<open>
  A blocking call as its caller sees it. While a task sleeps in \<^verbatim>\<open>sched_block\<close> other tasks change the object it
  waits on. The model makes that interference explicit: a blocking function gets the list of the states
  in which it finds the object, one for each time it looks, together with whether an unblocked signal is
  pending then. When the list runs out the task is still asleep. The scheduler that produces these looks
  is the theory \<open>Sched\<close>; its \<open>unblock_loop\<close> decides as \<open>wait_unblock\<close> does.
\<close>

record 'w obs =
  obs_world :: 'w
  obs_signal :: bool

datatype 'r wait = Asleep | Woke 'r

text \<open>\<^verbatim>\<open>unblock_tasks\<close> on an interruptible task: a pending signal ends the wait with \<^verbatim>\<open>EINTR\<close>.\<close>

fun wait_unblock :: "('w \<Rightarrow> bool option) \<Rightarrow> 'w obs list \<Rightarrow> (unit result \<times> 'w obs list) wait option" where
  "wait_unblock unblock [] = Some Asleep"
| "wait_unblock unblock (ob # os) =
     (if obs_signal ob then Some (Woke (Inl EINTR, os))
      else do { b \<leftarrow> unblock (obs_world ob); if b then Some (Woke (Inr (), os)) else wait_unblock unblock os })"

text \<open>\<^verbatim>\<open>sched_block\<close> with flags 0: the condition is tried once before the task goes to sleep.\<close>

fun sched_wait :: "('w \<Rightarrow> bool option) \<Rightarrow> 'w obs list \<Rightarrow> (unit result \<times> 'w obs list) wait option" where
  "sched_wait unblock [] = Some Asleep"
| "sched_wait unblock (ob # os) =
     do { b \<leftarrow> unblock (obs_world ob); if b then Some (Woke (Inr (), os)) else wait_unblock unblock os }"

abbreviation (input) O_ACCMODE :: u32 where "O_ACCMODE \<equiv> 3"
abbreviation (input) O_RDONLY :: u32 where "O_RDONLY \<equiv> 0"
abbreviation (input) O_WRONLY :: u32 where "O_WRONLY \<equiv> 1"
abbreviation (input) O_RDWR :: u32 where "O_RDWR \<equiv> 2"
abbreviation (input) O_CREAT :: u32 where "O_CREAT \<equiv> 0x40"
abbreviation (input) O_EXCL :: u32 where "O_EXCL \<equiv> 0x80"
abbreviation (input) O_TRUNC :: u32 where "O_TRUNC \<equiv> 0x200"
abbreviation (input) O_NONBLOCK :: u32 where "O_NONBLOCK \<equiv> 0x800"

text \<open>The events of \<^verbatim>\<open>poll\<close>.\<close>

abbreviation (input) POLLIN :: u16 where "POLLIN \<equiv> 1"
abbreviation (input) POLLOUT :: u16 where "POLLOUT \<equiv> 4"
abbreviation (input) POLLERR :: u16 where "POLLERR \<equiv> 8"
abbreviation (input) POLLHUP :: u16 where "POLLHUP \<equiv> 16"

fun file_block :: "u32 \<Rightarrow> ('w \<Rightarrow> bool option) \<Rightarrow> 'w obs list \<Rightarrow> (unit result \<times> 'w obs list) wait option" where
  "file_block flags unblock os =
     (if flags AND O_NONBLOCK \<noteq> 0 then
        (case os of
           [] \<Rightarrow> Some Asleep
         | ob # os' \<Rightarrow>
             do { b \<leftarrow> unblock (obs_world ob);
                  if \<not> b then Some (Woke (Inl EAGAIN, os')) else sched_wait unblock os' })
      else sched_wait unblock os)"

lemma wait_unblock_shorter: "wait_unblock u os = Some (Woke (r, os')) \<Longrightarrow> length os' < length os"
  by (induction u os rule: wait_unblock.induct) (fastforce simp: option_bind_Some_iff split: if_splits)+

lemma sched_wait_shorter: "sched_wait u os = Some (Woke (r, os')) \<Longrightarrow> length os' < length os"
  by (cases os) (auto simp: option_bind_Some_iff split: if_splits dest: wait_unblock_shorter)

lemma file_block_shorter: "file_block flags u os = Some (Woke (r, os')) \<Longrightarrow> length os' < length os"
  by (auto simp: option_bind_Some_iff split: if_splits list.splits dest: sched_wait_shorter)

lemma wait_unblock_suffix: "wait_unblock u os = Some (Woke (r, os')) \<Longrightarrow> \<exists>xs. os = xs @ os'"
proof (induction u os rule: wait_unblock.induct)
  case (2 u ob os)
  show ?case
  proof (cases "os' = os")
    case True
    then show ?thesis by (intro exI [of _ "[ob]"]) simp
  next
    case False
    with "2.prems" have "wait_unblock u os = Some (Woke (r, os'))" and ns: "\<not> obs_signal ob" and f: "u (obs_world ob) = Some False"
      by (auto simp: option_bind_Some_iff split: if_splits)
    with "2.IH" [OF ns, of False] obtain xs where "os = xs @ os'" by auto
    then show ?thesis by (intro exI [of _ "ob # xs"]) simp
  qed
qed simp

lemma sched_wait_suffix: "sched_wait u os = Some (Woke (r, os')) \<Longrightarrow> \<exists>xs. os = xs @ os'"
proof (cases os)
  case (Cons ob os1)
  assume "sched_wait u os = Some (Woke (r, os'))"
  with Cons have "os' = os1 \<or> wait_unblock u os1 = Some (Woke (r, os'))"
    by (auto simp: option_bind_Some_iff split: if_splits)
  with Cons show ?thesis using wait_unblock_suffix by (metis append_Cons append_Nil)
qed simp

lemma file_block_suffix: "file_block flags u os = Some (Woke (r, os')) \<Longrightarrow> \<exists>xs. os = xs @ os'"
  by (auto simp: option_bind_Some_iff split: if_splits list.splits dest!: sched_wait_suffix)

declare file_block.simps [simp del]

text \<open>The call returns at once when the condition holds at the first looks.\<close>

lemma file_block_ready:
  "u (obs_world o1) = Some True \<Longrightarrow> u (obs_world o2) = Some True \<Longrightarrow>
   file_block flags u (o1 # o2 # os) = Some (Woke (Inr (), if flags AND O_NONBLOCK \<noteq> 0 then os else o2 # os))"
  by (simp add: file_block.simps)

lemma file_block_nonblocking:
  "flags AND O_NONBLOCK \<noteq> 0 \<Longrightarrow> u (obs_world o1) = Some False \<Longrightarrow> file_block flags u (o1 # os) = Some (Woke (Inl EAGAIN, os))"
  by (simp add: file_block.simps)

text \<open>
  How a wait can end when the condition has the value \<open>p\<close> at each look: with the condition true at the last look, with
  a signal, or not yet.
\<close>

lemma wait_unblock_cases:
  assumes "\<forall>ob\<in>set os. u (obs_world ob) = Some (p (obs_world ob))"
  shows "(wait_unblock u os = Some Asleep \<and> (\<forall>ob\<in>set os. \<not> p (obs_world ob)))
     \<or> (\<exists>os'. wait_unblock u os = Some (Woke (Inl EINTR, os')) \<and> (\<exists>ob\<in>set os. obs_signal ob))
     \<or> (\<exists>pre ob os'. wait_unblock u os = Some (Woke (Inr (), os')) \<and> os = pre @ ob # os' \<and> p (obs_world ob) \<and> (\<forall>ob\<in>set pre. \<not> p (obs_world ob)))"
  using assms
proof (induction os)
  case (Cons ob os)
  then have IH: "(wait_unblock u os = Some Asleep \<and> (\<forall>ob\<in>set os. \<not> p (obs_world ob)))
     \<or> (\<exists>os'. wait_unblock u os = Some (Woke (Inl EINTR, os')) \<and> (\<exists>ob\<in>set os. obs_signal ob))
     \<or> (\<exists>pre ob os'. wait_unblock u os = Some (Woke (Inr (), os')) \<and> os = pre @ ob # os' \<and> p (obs_world ob) \<and> (\<forall>ob\<in>set pre. \<not> p (obs_world ob)))"
    and u: "u (obs_world ob) = Some (p (obs_world ob))" by simp_all
  show ?case
  proof (cases "obs_signal ob \<or> p (obs_world ob)")
    case True
    with u show ?thesis by (cases "obs_signal ob") (auto intro!: exI [of _ "[]"])
  next
    case False
    with u have "wait_unblock u (ob # os) = wait_unblock u os" by simp
    with IH False show ?thesis by (fastforce intro: exI [of _ "ob # xs" for xs])
  qed
qed simp

lemma sched_wait_cases:
  assumes "\<forall>ob\<in>set os. u (obs_world ob) = Some (p (obs_world ob))"
  shows "(sched_wait u os = Some Asleep \<and> (\<forall>ob\<in>set os. \<not> p (obs_world ob)))
     \<or> (\<exists>os'. sched_wait u os = Some (Woke (Inl EINTR, os')) \<and> (\<exists>ob\<in>set os. obs_signal ob))
     \<or> (\<exists>pre ob os'. sched_wait u os = Some (Woke (Inr (), os')) \<and> os = pre @ ob # os' \<and> p (obs_world ob) \<and> (\<forall>ob\<in>set pre. \<not> p (obs_world ob)))"
proof (cases os)
  case (Cons ob rest)
  with assms have u: "u (obs_world ob) = Some (p (obs_world ob))" by simp
  show ?thesis
  proof (cases "p (obs_world ob)")
    case True
    with u Cons show ?thesis by (auto intro!: exI [of _ "[]"])
  next
    case False
    with u Cons have "sched_wait u os = wait_unblock u rest" by simp
    with wait_unblock_cases [of rest u p] assms False Cons show ?thesis
      by (fastforce intro: exI [of _ "ob # xs" for xs])
  qed
qed simp

end
