(* ===== verification/Signal.thy ===== *)
theory Signal
  imports Task
begin

text \<open>
  Taking signals: \<^verbatim>\<open>task_pop_signal\<close> and \<^verbatim>\<open>task_handle_signal\<close> of \<^verbatim>\<open>kernel/task.c\<close> and the signal system calls
  of \<^verbatim>\<open>kernel/syscall/signal.c\<close>. User memory is the \<open>mem\<close> of \<open>User_Mem\<close>; the structures that cross the border
  to user space (the saved context, the signal sets) are laid out as bytes, little endian.
\<close>

section \<open>Layout of words and registers in memory\<close>

definition word_bytes :: "u32 \<Rightarrow> u8 list" where
  "word_bytes w = [ucast w, ucast (drop_bit 8 w), ucast (drop_bit 16 w), ucast (drop_bit 24 w)]"

fun words_bytes :: "u32 list \<Rightarrow> u8 list" where
  "words_bytes [] = []"
| "words_bytes (w # ws) = word_bytes w @ words_bytes ws"

definition bytes_word :: "u8 \<Rightarrow> u8 \<Rightarrow> u8 \<Rightarrow> u8 \<Rightarrow> u32" where
  "bytes_word a b c d = ucast a OR push_bit 8 (ucast b) OR push_bit 16 (ucast c) OR push_bit 24 (ucast d)"

definition word_at :: "u8 list \<Rightarrow> nat \<Rightarrow> u32" where
  "word_at bs i = bytes_word (bs ! i) (bs ! (i + 1)) (bs ! (i + 2)) (bs ! (i + 3))"

fun bytes_words :: "u8 list \<Rightarrow> u32 list" where
  "bytes_words (a # b # c # d # bs) = bytes_word a b c d # bytes_words bs"
| "bytes_words _ = []"

record registers =
  r_gs :: u32
  r_fs :: u32
  r_es :: u32
  r_ds :: u32
  r_edi :: u32
  r_esi :: u32
  r_ebp :: u32
  r_edx :: u32
  r_ecx :: u32
  r_ebx :: u32
  r_eax :: u32
  r_interrupt_num :: u32
  r_error_code :: u32
  r_eip :: u32
  r_cs :: u32
  r_eflags :: u32
  r_esp :: u32
  r_ss :: u32

definition registers_words :: "registers \<Rightarrow> u32 list" where
  "registers_words r = [r_gs r, r_fs r, r_es r, r_ds r, r_edi r, r_esi r, r_ebp r, r_edx r, r_ecx r, r_ebx r,
     r_eax r, r_interrupt_num r, r_error_code r, r_eip r, r_cs r, r_eflags r, r_esp r, r_ss r]"

fun words_registers :: "u32 list \<Rightarrow> registers option" where
  "words_registers [gs, fs, es, ds, edi, esi, ebp, edx, ecx, ebx, eax, inum, err, eip, cs, eflags, esp, ss] =
     Some \<lparr>r_gs = gs, r_fs = fs, r_es = es, r_ds = ds, r_edi = edi, r_esi = esi, r_ebp = ebp, r_edx = edx,
       r_ecx = ecx, r_ebx = ebx, r_eax = eax, r_interrupt_num = inum, r_error_code = err, r_eip = eip,
       r_cs = cs, r_eflags = eflags, r_esp = esp, r_ss = ss\<rparr>"
| "words_registers _ = None"

text \<open>\<^verbatim>\<open>struct sigcontext\<close>: the blocked signals, then the registers; 76 bytes.\<close>

definition sigcontext_bytes :: "u32 \<Rightarrow> registers \<Rightarrow> u8 list" where
  "sigcontext_bytes blocked regs = words_bytes (blocked # registers_words regs)"

abbreviation (input) sizeof_sigcontext :: nat where "sizeof_sigcontext \<equiv> 76"

fun sigcontext_of :: "u8 list \<Rightarrow> (u32 \<times> registers) option" where
  "sigcontext_of bs =
     (case bytes_words bs of [] \<Rightarrow> None | blocked # ws \<Rightarrow> do { r \<leftarrow> words_registers ws; Some (blocked, r) })"

section \<open>Taking a pending signal\<close>

abbreviation (input) SA_RESTORER :: u32 where "SA_RESTORER \<equiv> 0x04000000"
abbreviation (input) SA_NODEFER :: u32 where "SA_NODEFER \<equiv> 0x40000000"
abbreviation (input) SA_RESETHAND :: u32 where "SA_RESETHAND \<equiv> 0x80000000"

datatype popped = NoSignal | Handle nat sigaction | Fatal nat

definition bits_set :: "u32 \<Rightarrow> nat set" where
  "bits_set w = {i. i < 32 \<and> bit w i}"

lemma finite_bits_set [simp]: "finite (bits_set w)"
  by (simp add: bits_set_def)

lemma clear_bit_less:
  assumes "0 < s" "s \<le> 32" "bit p (s - 1)"
  shows "card (bits_set (p AND NOT (sigmask s))) < card (bits_set p)"
proof (rule psubset_card_mono)
  have "s - 1 \<in> bits_set p" "s - 1 \<notin> bits_set (p AND NOT (sigmask s))"
    using assms by (auto simp: bits_set_def bit_and_iff bit_not_iff)
  moreover have "bits_set (p AND NOT (sigmask s)) \<subseteq> bits_set p"
    by (auto simp: bits_set_def bit_and_iff)
  ultimately show "bits_set (p AND NOT (sigmask s)) \<subset> bits_set p" by auto
qed simp

text \<open>
  The loop of \<^verbatim>\<open>task_pop_signal\<close> on the pending and blocked sets of the current task and the actions of its
  \<^verbatim>\<open>sighand\<close>. A stop signal with its default disposition ends in \<^verbatim>\<open>UNIMPLEMENTED()\<close>, a panic.
\<close>

function pop_loop :: "u32 \<Rightarrow> u32 \<Rightarrow> sigaction list \<Rightarrow> (popped \<times> u32 \<times> sigaction list) option" where
  "pop_loop pending blocked acts =
     (let signum = ffs (pending AND NOT blocked)
      in if signum = 0 then Some (NoSignal, pending, acts)
         else let pending' = pending AND NOT (sigmask signum)
         in (case arr_get acts (signum - 1) of
               None \<Rightarrow> None
             | Some action \<Rightarrow>
                 if sa_handler action = SIG_IGN then pop_loop pending' blocked acts
                 else if sa_handler action \<noteq> SIG_DFL then
                   Some (Handle signum action, pending',
                         if sa_flags action AND SA_RESETHAND \<noteq> 0
                         then acts[signum - 1 := action\<lparr>sa_handler := SIG_DFL\<rparr>] else acts)
                 else (case default_dispositions ! signum of
                         DISP_TERM \<Rightarrow> Some (Fatal signum, pending', acts)
                       | DISP_CORE \<Rightarrow> Some (Fatal signum, pending', acts)
                       | DISP_IGN \<Rightarrow> pop_loop pending' blocked acts
                       | DISP_CONT \<Rightarrow> pop_loop pending' blocked acts
                       | DISP_STOP \<Rightarrow> None)))"
  by pat_completeness auto

lemma pop_decreases:
  assumes "ffs (p AND NOT b) \<noteq> 0"
  shows "card (bits_set (p AND NOT (sigmask (ffs (p AND NOT b))))) < card (bits_set p)"
proof -
  obtain i where i: "ffs (p AND NOT b) = Suc i" using assms by (cases "ffs (p AND NOT b)") auto
  with ffs_SucD [OF i] show ?thesis
    by (intro clear_bit_less) (auto simp: bit_and_iff)
qed

termination pop_loop
  by (relation "measure (\<lambda>(p, b, acts). card (bits_set p))") (auto simp: pop_decreases)

declare pop_loop.simps [simp del]

text \<open>What \<^verbatim>\<open>task_pop_signal\<close> does next: return 0, return a signal with its action, or end the thread group.\<close>

datatype pop_result = Popped popped | Exited "release list"

definition task_pop_signal :: "kernel \<Rightarrow> (pop_result \<times> kernel) option" where
  "task_pop_signal k =
     do {
       cur \<leftarrow> tasks k (current k);
       h \<leftarrow> task_sighand cur;
       sh \<leftarrow> sighands k h;
       (r, pending, acts) \<leftarrow> pop_loop (pending_signals cur) (blocked_signals cur) (actions sh);
       let k' = (update_current k (\<lambda>t. t\<lparr>pending_signals := pending\<rparr>))
                  \<lparr>sighands := (sighands k)(h \<mapsto> sh\<lparr>actions := acts\<rparr>)\<rparr>;
       case r of
         Fatal signum \<Rightarrow> do { (rs, k'') \<leftarrow> do_exit_thread_group k' (int signum); Some (Exited rs, k'') }
       | _ \<Rightarrow> Some (Popped r, k')
     }"

section \<open>Entering a handler and returning from it\<close>

text \<open>Either the user context to resume with, or the end of the thread group by \<^verbatim>\<open>task_crash\<close>.\<close>

datatype 'a resume = Resumed 'a | Crashed "release list"

definition crash_segv :: "kernel \<Rightarrow> mem \<Rightarrow> ('a resume \<times> kernel \<times> mem) option" where
  "crash_segv k m = do { (rs, k') \<leftarrow> task_crash k (int SIGSEGV); Some (Crashed rs, k', m) }"

text \<open>The signals that cannot be blocked: \<^verbatim>\<open>sigmask(SIGKILL) | sigmask(SIGSTOP)\<close>.\<close>

definition kill_stop_mask :: u32 where
  "kill_stop_mask = sigmask SIGKILL OR sigmask SIGSTOP"

definition task_handle_signal ::
    "kernel \<Rightarrow> mem \<Rightarrow> registers \<Rightarrow> nat \<Rightarrow> sigaction \<Rightarrow> (registers resume \<times> kernel \<times> mem) option" where
  "task_handle_signal k m regs signum action =
     do {
       c_assert (0 < signum \<and> signum < NSIG);
       c_assert (sa_flags action AND SA_RESTORER \<noteq> 0);
       cur \<leftarrow> tasks k (current k);
       let ctx = ROUND_DOWN (r_esp regs) 16 - of_nat sizeof_sigcontext;
       case put_user m ctx (sigcontext_bytes (blocked_signals cur) regs) of
         (Inl _, m1) \<Rightarrow> crash_segv k m1
       | (Inr _, m1) \<Rightarrow>
           (case put_user m1 (ctx - 4) (word_bytes (of_nat signum)) of
              (Inl _, m2) \<Rightarrow> crash_segv k m2
            | (Inr _, m2) \<Rightarrow>
                (case put_user m2 (ctx - 4 - 4) (word_bytes (sa_restorer action)) of
                   (Inl _, m3) \<Rightarrow> crash_segv k m3
                 | (Inr _, m3) \<Rightarrow>
                     let regs' = regs\<lparr>r_esp := ctx - 4 - 4, r_eip := sa_handler action\<rparr>;
                         blocked0 = blocked_signals cur OR sa_mask action;
                         blocked1 = (if sa_flags action AND SA_NODEFER = 0 then blocked0 OR sigmask signum else blocked0);
                         new_blocked = blocked1 AND NOT kill_stop_mask
                     in Some (Resumed regs', update_current k (\<lambda>t. t\<lparr>blocked_signals := new_blocked\<rparr>), m3)))
     }"

definition FIX_EFLAGS :: u32 where
  "FIX_EFLAGS = push_bit 18 1 OR push_bit 11 1 OR push_bit 10 1 OR push_bit 8 1 OR push_bit 7 1 OR push_bit 6 1
     OR push_bit 4 1 OR push_bit 2 1 OR push_bit 0 1 OR push_bit 16 1"

text \<open>\<^verbatim>\<open>sys_sigreturn\<close>: the first component of the result is the return value, which the caller stores in \<^verbatim>\<open>eax\<close>.\<close>

definition sys_sigreturn ::
    "kernel \<Rightarrow> mem \<Rightarrow> registers \<Rightarrow> ((u32 \<times> registers) resume \<times> kernel \<times> mem) option" where
  "sys_sigreturn k m regs =
     (let esp = r_esp regs + 4
      in case get_user m esp sizeof_sigcontext of
           Inl _ \<Rightarrow> crash_segv k m
         | Inr bytes \<Rightarrow>
             do {
               (blocked, c) \<leftarrow> sigcontext_of bytes;
               let regs' = regs\<lparr>r_ss := r_ss c OR 3, r_cs := r_cs c OR 3, r_ds := r_ds c, r_es := r_es c,
                 r_fs := r_fs c, r_gs := r_gs c, r_ebx := r_ebx c, r_ecx := r_ecx c, r_edx := r_edx c,
                 r_esi := r_esi c, r_edi := r_edi c, r_ebp := r_ebp c, r_esp := r_esp c, r_eip := r_eip c,
                 r_eflags := (r_eflags regs AND NOT FIX_EFLAGS) OR (r_eflags c AND FIX_EFLAGS)\<rparr>;
               Some (Resumed (r_eax c, regs'), update_current k (\<lambda>t. t\<lparr>blocked_signals := blocked\<rparr>), m)
             })"

section \<open>The signal system calls\<close>

text \<open>Negation of a 32-bit \<^verbatim>\<open>pid_t\<close>; the most negative value has none (the overflow is a panic of \<^verbatim>\<open>common/ubsan.c\<close>).\<close>

definition neg_pid :: "int \<Rightarrow> int option" where
  "neg_pid pid = (if pid = - (2 ^ 31) then None else Some (- pid))"

definition sys_kill :: "kernel \<Rightarrow> int \<Rightarrow> int \<Rightarrow> (unit result \<times> kernel) option" where
  "sys_kill k pid sig =
     (if pid > 0 then task_send_signal k pid sig 0
      else if pid = 0 then
        do { cur \<leftarrow> tasks k (current k); task_send_signal k (pgid cur) sig SIGNAL_DEST_PROCESS_GROUP }
      else if pid = - 1 then
        task_send_signal k 0 sig (SIGNAL_DEST_ALL_USER_TASKS OR SIGNAL_DEST_EXCLUDE_CURRENT)
      else do { p \<leftarrow> neg_pid pid; task_send_signal k p sig SIGNAL_DEST_PROCESS_GROUP })"

definition sigaction_bytes :: "sigaction \<Rightarrow> u8 list" where
  "sigaction_bytes a = words_bytes [sa_handler a, sa_mask a, sa_flags a, sa_restorer a]"

fun sigaction_of :: "u8 list \<Rightarrow> sigaction option" where
  "sigaction_of bs =
     (case bytes_words bs of
        [h, msk, flags, restorer] \<Rightarrow> Some \<lparr>sa_handler = h, sa_mask = msk, sa_flags = flags, sa_restorer = restorer\<rparr>
      | _ \<Rightarrow> None)"

text \<open>A null \<open>user_act\<close> leaves the action alone, a null \<open>user_oldact\<close> does not ask for the old one.\<close>

definition sys_sigaction ::
    "kernel \<Rightarrow> mem \<Rightarrow> int \<Rightarrow> u32 \<Rightarrow> u32 \<Rightarrow> (unit result \<times> kernel \<times> mem) option" where
  "sys_sigaction k m signum user_act user_oldact =
     (if signum \<le> 0 \<or> int NSIG \<le> signum then Some (Inl EINVAL, k, m)
      else if signum = int SIGKILL \<or> signum = int SIGSTOP then Some (Inl EINVAL, k, m)
      else do {
        act \<leftarrow> (if user_act = 0 then Some (Inr None)
                else case get_user m user_act 16 of
                       Inl e \<Rightarrow> Some (Inl EFAULT)
                     | Inr bytes \<Rightarrow> do {
                         a \<leftarrow> sigaction_of bytes;
                         Some (if sa_flags a AND SA_RESTORER = 0 \<or> sa_restorer a = 0 then Inl EFAULT else Inr (Some a))
                       });
        case act of
          Inl e \<Rightarrow> Some (Inl e, k, m)
        | Inr new \<Rightarrow> do {
            cur \<leftarrow> tasks k (current k);
            h \<leftarrow> task_sighand cur;
            sh \<leftarrow> sighands k h;
            slot \<leftarrow> arr_get (actions sh) (nat signum - 1);
            let (rc, m') = (if user_oldact = 0 then (Inr (), m) else put_user m user_oldact (sigaction_bytes slot));
            case rc of
              Inl _ \<Rightarrow> Some (Inl EFAULT, k, m')
            | Inr _ \<Rightarrow>
                (case new of
                   None \<Rightarrow> Some (Inr (), k, m')
                 | Some a \<Rightarrow> do {
                     acts \<leftarrow> arr_set (actions sh) (nat signum - 1) a;
                     Some (Inr (), k\<lparr>sighands := (sighands k)(h \<mapsto> sh\<lparr>actions := acts\<rparr>)\<rparr>, m')
                   })
          }
      })"

definition get_user_sigset :: "mem \<Rightarrow> u32 \<Rightarrow> u32 result option" where
  "get_user_sigset m a =
     (case get_user m a 4 of
        Inl e \<Rightarrow> Some (Inl e)
      | Inr bytes \<Rightarrow> (case bytes_words bytes of [w] \<Rightarrow> Some (Inr w) | _ \<Rightarrow> None))"

definition sys_sigprocmask ::
    "kernel \<Rightarrow> mem \<Rightarrow> int \<Rightarrow> u32 \<Rightarrow> u32 \<Rightarrow> (unit result \<times> kernel \<times> mem) option" where
  "sys_sigprocmask k m how user_set user_oldset =
     do {
       cur \<leftarrow> tasks k (current k);
       let (rc, m') = (if user_oldset = 0 then (Inr (), m)
                       else put_user m user_oldset (word_bytes (blocked_signals cur)));
       case rc of
         Inl _ \<Rightarrow> Some (Inl EFAULT, k, m')
       | Inr _ \<Rightarrow>
           (if user_set = 0 then Some (Inr (), k, m')
            else do {
              r \<leftarrow> get_user_sigset m' user_set;
              case r of
                Inl _ \<Rightarrow> Some (Inl EFAULT, k, m')
              | Inr set0 \<Rightarrow>
                  let sset = set0 AND NOT kill_stop_mask;
                      set_blocked = (\<lambda>b. update_current k (\<lambda>t. t\<lparr>blocked_signals := b\<rparr>))
                  in Some (if how = 0 then (Inr (), set_blocked (blocked_signals cur OR sset), m')
                           else if how = 1 then (Inr (), set_blocked (blocked_signals cur AND NOT sset), m')
                           else if how = 2 then (Inr (), set_blocked sset, m')
                           else (Inl EINVAL, k, m'))
            })
     }"

text \<open>
  \<^verbatim>\<open>sys_sigsuspend\<close> around its wait in \<^verbatim>\<open>sys_pause\<close>: before it the mask is installed (the result is the mask
  to restore), after it the old mask comes back.
\<close>

definition sigsuspend_enter :: "kernel \<Rightarrow> mem \<Rightarrow> u32 \<Rightarrow> (u32 result \<times> kernel) option" where
  "sigsuspend_enter k m user_mask =
     do {
       r \<leftarrow> get_user_sigset m user_mask;
       cur \<leftarrow> tasks k (current k);
       Some (case r of
               Inl _ \<Rightarrow> (Inl EFAULT, k)
             | Inr msk \<Rightarrow> (Inr (blocked_signals cur), update_current k (\<lambda>t. t\<lparr>blocked_signals := msk\<rparr>)))
     }"

definition sigsuspend_leave :: "kernel \<Rightarrow> u32 \<Rightarrow> kernel" where
  "sigsuspend_leave k old_mask = update_current k (\<lambda>t. t\<lparr>blocked_signals := old_mask\<rparr>)"

definition sys_sigpending :: "kernel \<Rightarrow> mem \<Rightarrow> u32 \<Rightarrow> (unit result \<times> mem) option" where
  "sys_sigpending k m user_set =
     do {
       cur \<leftarrow> tasks k (current k);
       Some (case put_user m user_set (word_bytes (pending_signals cur AND blocked_signals cur)) of
               (Inl _, m') \<Rightarrow> (Inl EFAULT, m')
             | (Inr _, m') \<Rightarrow> (Inr (), m'))
     }"

section \<open>Layout lemmas\<close>

lemma bytes_word_bytes: "bytes_word (ucast w) (ucast (drop_bit 8 w)) (ucast (drop_bit 16 w)) (ucast (drop_bit 24 w)) = w"
proof (rule bit_word_eqI)
  fix n assume "n < LENGTH(32)"
  then consider "n < 8" | "8 \<le> n" "n < 16" | "16 \<le> n" "n < 24" | "24 \<le> n" "n < 32" by fastforce
  then show "bit (bytes_word (ucast w) (ucast (drop_bit 8 w)) (ucast (drop_bit 16 w)) (ucast (drop_bit 24 w))) n = bit w n"
    by cases (auto simp: bytes_word_def bit_simps)
qed

lemma bytes_words_words_bytes [simp]: "bytes_words (words_bytes ws) = ws"
  by (induction ws) (simp_all add: word_bytes_def bytes_word_bytes)

lemma length_word_bytes [simp]: "length (word_bytes w) = 4"
  by (simp add: word_bytes_def)

lemma length_words_bytes [simp]: "length (words_bytes ws) = 4 * length ws"
  by (induction ws) simp_all

lemma words_registers_words [simp]: "words_registers (registers_words r) = Some r"
  by (simp add: registers_words_def)

lemma sigcontext_of_bytes [simp]: "sigcontext_of (sigcontext_bytes blocked r) = Some (blocked, r)"
  by (simp add: sigcontext_bytes_def del: words_bytes.simps)

lemma length_sigcontext_bytes [simp]: "length (sigcontext_bytes blocked r) = sizeof_sigcontext"
  by (simp add: sigcontext_bytes_def registers_words_def)

section \<open>Which signal is taken\<close>

text \<open>A signal whose delivery has no effect: ignored by its action or by its default disposition.\<close>

definition skippable :: "sigaction list \<Rightarrow> nat \<Rightarrow> bool" where
  "skippable acts s \<longleftrightarrow> sa_handler (acts ! (s - 1)) = SIG_IGN
     \<or> (sa_handler (acts ! (s - 1)) = SIG_DFL \<and> default_dispositions ! s \<in> {DISP_IGN, DISP_CONT})"

definition next_signal :: "u32 \<Rightarrow> u32 \<Rightarrow> sigaction list \<Rightarrow> nat option" where
  "next_signal p b acts = find (\<lambda>s. bit (p AND NOT b) (s - 1) \<and> \<not> skippable acts s) [1..<NSIG]"

text \<open>The deliverable signals up to number \<open>n\<close> are taken out of the pending set.\<close>

definition taken_up_to :: "nat \<Rightarrow> u32 \<Rightarrow> u32 \<Rightarrow> u32 \<Rightarrow> bool" where
  "taken_up_to n p b p' \<longleftrightarrow>
     (\<forall>s. 0 < s \<longrightarrow> s \<le> 32 \<longrightarrow> bit p' (s - 1) = (bit p (s - 1) \<and> (bit b (s - 1) \<or> n < s)))"

definition reset_handler :: "sigaction list \<Rightarrow> nat \<Rightarrow> sigaction list" where
  "reset_handler acts s =
     (let a = acts ! (s - 1) in if sa_flags a AND SA_RESETHAND \<noteq> 0 then acts[s - 1 := a\<lparr>sa_handler := SIG_DFL\<rparr>] else acts)"

definition pop_spec :: "u32 \<Rightarrow> u32 \<Rightarrow> sigaction list \<Rightarrow> (popped \<times> u32 \<times> sigaction list) option \<Rightarrow> bool" where
  "pop_spec p b acts r \<longleftrightarrow>
     (case next_signal p b acts of
        None \<Rightarrow> \<exists>p'. r = Some (NoSignal, p', acts) \<and> taken_up_to 32 p b p'
      | Some s \<Rightarrow>
          if sa_handler (acts ! (s - 1)) \<noteq> SIG_DFL
          then \<exists>p'. r = Some (Handle s (acts ! (s - 1)), p', reset_handler acts s) \<and> taken_up_to s p b p'
          else if s \<in> stop_signals then r = None
          else \<exists>p'. r = Some (Fatal s, p', acts) \<and> taken_up_to s p b p')"

lemma taken_first:
  assumes "0 < s" "s \<le> 32" "\<forall>j<(s - 1). \<not> bit (p AND NOT b) j" "bit (p AND NOT b) (s - 1)"
  shows "taken_up_to s p b (p AND NOT (sigmask s))"
  unfolding taken_up_to_def
proof (intro allI impI)
  fix j :: nat assume j: "0 < j" "j \<le> 32"
  show "bit (p AND NOT (sigmask s)) (j - 1) = (bit p (j - 1) \<and> (bit b (j - 1) \<or> s < j))"
  proof (cases j s rule: linorder_cases)
    case less
    then have "\<not> bit (p AND NOT b) (j - 1)" using assms(3) j by auto
    with less j assms show ?thesis by (auto simp: bit_and_iff bit_not_iff)
  qed (use j assms in \<open>auto simp: bit_and_iff bit_not_iff\<close>)
qed

lemma taken_step:
  assumes "0 < s" "s \<le> 32" "bit (p AND NOT b) (s - 1)" "s \<le> n" "taken_up_to n (p AND NOT (sigmask s)) b p'"
  shows "taken_up_to n p b p'"
  unfolding taken_up_to_def
proof (intro allI impI)
  fix j :: nat assume j: "0 < j" "j \<le> 32"
  have "bit p' (j - 1) = (bit (p AND NOT (sigmask s)) (j - 1) \<and> (bit b (j - 1) \<or> n < j))"
    using assms(5) j by (simp add: taken_up_to_def)
  with assms(1-4) j show "bit p' (j - 1) = (bit p (j - 1) \<and> (bit b (j - 1) \<or> n < j))"
    by (cases "j = s") (auto simp: bit_and_iff bit_not_iff)
qed

lemma next_signal_none: "next_signal p b acts = None" if "p AND NOT b = 0"
  using that by (simp add: next_signal_def find_None_iff)

lemma next_signal_SomeD:
  assumes "next_signal p b acts = Some s"
  shows "0 < s" "s < NSIG" "bit (p AND NOT b) (s - 1)" "\<not> skippable acts s"
  using assms by (auto simp: next_signal_def find_Some_iff)

lemma next_signal_skip:
  assumes "0 < s" "s \<le> 32" "skippable acts s"
  shows "next_signal (p AND NOT (sigmask s)) b acts = next_signal p b acts"
proof -
  have "bit ((p AND NOT (sigmask s)) AND NOT b) (j - 1) \<and> \<not> skippable acts j \<longleftrightarrow>
      bit (p AND NOT b) (j - 1) \<and> \<not> skippable acts j" if "j \<in> set [1..<NSIG]" for j
    using that assms by (cases "j = s") (auto simp: bit_and_iff bit_not_iff)
  then show ?thesis unfolding next_signal_def by (rule find_cong [OF refl])
qed

lemma next_signal_first:
  assumes "0 < s" "s < NSIG" "\<not> skippable acts s" "bit (p AND NOT b) (s - 1)" "\<forall>j<(s - 1). \<not> bit (p AND NOT b) j"
  shows "next_signal p b acts = Some s"
  unfolding next_signal_def find_Some_iff
  using assms by (intro exI [of _ "s - 1"]) (auto simp: bit_and_iff)

lemma default_fatal_or_stop:
  assumes "0 < s" "s < NSIG" "sa_handler (acts ! (s - 1)) = SIG_DFL" "\<not> skippable acts s"
  shows "default_dispositions ! s = DISP_STOP \<longleftrightarrow> s \<in> stop_signals"
    and "s \<notin> stop_signals \<Longrightarrow> default_dispositions ! s \<in> {DISP_TERM, DISP_CORE}"
  using assms default_dispositions_nth [OF assms(1,2)]
  by (cases "default_dispositions ! s"; auto simp: skippable_def)+

lemma pop_loop_spec:
  assumes "length acts = NSIG - 1" "\<not> bit p 31"
  shows "pop_spec p b acts (pop_loop p b acts)"
  using assms
proof (induction p b acts rule: pop_loop.induct)
  case (1 p b acts)
  show ?case
  proof (cases "ffs (p AND NOT b)")
    case 0
    then have z: "p AND NOT b = 0" by (simp add: ffs_0_iff)
    then have "bit p i \<longrightarrow> bit b i" if "i < 32" for i
      using that bit_and_iff [of p "NOT b" i] by (auto simp: bit_not_iff)
    then have "taken_up_to 32 p b p" by (auto simp: taken_up_to_def)
    with 0 z show ?thesis
      by (auto simp: pop_spec_def next_signal_none pop_loop.simps [of p b acts])
  next
    case (Suc i)
    note f = ffs_SucD [OF Suc]
    let ?s = "Suc i" and ?p = "p AND NOT (sigmask (Suc i))"
    have lt: "i < 31" using f(1,2) "1.prems"(2) by (cases "i = 31") (auto simp: bit_and_iff)
    have s: "0 < ?s" "?s \<le> 32" "?s < NSIG" "bit (p AND NOT b) (?s - 1)" "\<forall>j<(?s - 1). \<not> bit (p AND NOT b) j"
      using f lt by auto
    have act: "arr_get acts (?s - 1) = Some (acts ! (?s - 1))"
      using "1.prems"(1) lt by simp
    have nb: "\<not> bit ?p 31" using "1.prems"(2) by (simp add: bit_and_iff)
    show ?thesis
    proof (cases "skippable acts ?s")
      case True
      then have eq: "pop_loop p b acts = pop_loop ?p b acts"
        using Suc act by (auto simp: pop_loop.simps [of p b acts] skippable_def)
      have "pop_spec ?p b acts (pop_loop ?p b acts)"
        using True Suc act "1.IH" [OF refl _ refl, of "acts ! (?s - 1)"] "1.prems"(1) nb
        by (auto simp: skippable_def)
      then have spec: "pop_spec ?p b acts (pop_loop p b acts)" using eq by simp
      note step = taken_step [OF s(1,2,4)]
      show ?thesis
      proof (cases "next_signal p b acts")
        case None
        with spec next_signal_skip [OF s(1,2) True, of p b] step [of 32] s(2) show ?thesis
          by (auto simp: pop_spec_def)
      next
        case (Some j)
        have "?s \<le> j"
          using next_signal_SomeD [OF Some] s(5) by (metis Suc_leI Suc_pred diff_Suc_1 not_less_eq_eq not_le)
        with Some spec next_signal_skip [OF s(1,2) True, of p b] step [of j] show ?thesis
          by (auto simp: pop_spec_def split: if_splits)
      qed
    next
      case False
      note nx = next_signal_first [OF s(1,3) False s(4,5)]
      note tk = taken_first [OF s(1,2,5,4)]
      have "pop_loop p b acts =
         (if sa_handler (acts ! i) \<noteq> SIG_DFL then Some (Handle ?s (acts ! i), ?p, reset_handler acts ?s)
          else if ?s \<in> stop_signals then None else Some (Fatal ?s, ?p, acts))"
        using Suc act False default_fatal_or_stop [OF s(1,3) _ False]
        by (auto simp: pop_loop.simps [of p b acts] skippable_def reset_handler_def Let_def)
      with nx tk show ?thesis by (auto simp: pop_spec_def)
    qed
  qed
qed

section \<open>The context on the user stack\<close>

lemma put_loop_success: "put_loop m a xs = (True, m') \<Longrightarrow> m' = store_bytes m a xs \<and> writable_bytes m a (length xs)"
proof (induction xs arbitrary: m a)
  case (Cons x xs)
  then obtain y where y: "m a = Some (y, True)" and rest: "put_loop (m(a \<mapsto> (x, True))) (a + 1) xs = (True, m')"
    by (auto split: option.splits bool.splits)
  have "writable_bytes m (a + 1) (length xs)"
  proof -
    have w: "writable_bytes (m(a \<mapsto> (x, True))) (a + 1) (length xs)"
      using Cons.IH [OF rest] by (simp add: fun_upd_def)
    have "writable_bytes (m(a \<mapsto> (x, True))) b n \<Longrightarrow> writable_bytes m b n" for b n
      using y by (induction n arbitrary: b) (auto split: if_splits)
    from this [OF w] show ?thesis .
  qed
  with Cons.IH [OF rest] y show ?case by (simp add: fun_upd_def)
qed simp

lemma put_user_success:
  "put_user m a xs = (Inr u, m') \<Longrightarrow> m' = store_bytes m a xs \<and> is_user_range a (of_nat (length xs))"
  by (auto simp: put_user_def dest: put_loop_success split: if_splits prod.splits)

lemma in_range_below:
  assumes "n + k \<le> 2 ^ 32" "in_range a n x"
  shows "\<not> in_range (a - of_nat k) k x"
proof
  assume "in_range (a - of_nat k) k x"
  then obtain i j where ij: "i < n" "j < k" "a + of_nat i = a - of_nat k + of_nat j" 
    using assms(2) by (auto simp: in_range_def)
  then have "of_nat (i + k) = (of_nat j :: u32)" by (simp add: algebra_simps)
  moreover have "i + k < 2 ^ 32" "j < 2 ^ 32" using ij assms(1) by linarith+
  ultimately have "i + k = j" by (simp only: of_nat_u32_inj)
  with ij show False by simp
qed


text \<open>A handler entered by \<^verbatim>\<open>task_handle_signal\<close> finds the return address, the signal number and the context on its stack.\<close>

lemma handle_signal_frame:
  assumes "task_handle_signal k m regs signum action = Some (Resumed regs', k', m')"
    and "tasks k (current k) = Some cur"
  defines "ctx \<equiv> ROUND_DOWN (r_esp regs) 16 - of_nat sizeof_sigcontext"
  shows "r_esp regs' = ctx - 4 - 4" "r_eip regs' = sa_handler action"
    and "load_bytes m' ctx sizeof_sigcontext = Some (sigcontext_bytes (blocked_signals cur) regs)"
    and "is_user_range ctx (of_nat sizeof_sigcontext)"
proof -
  let ?cb = "sigcontext_bytes (blocked_signals cur) regs"
  obtain m1 m2 where puts: "put_user m ctx ?cb = (Inr (), m1)"
      "put_user m1 (ctx - 4) (word_bytes (of_nat signum)) = (Inr (), m2)"
      "put_user m2 (ctx - 4 - 4) (word_bytes (sa_restorer action)) = (Inr (), m')"
    and regs: "regs' = regs\<lparr>r_esp := ctx - 4 - 4, r_eip := sa_handler action\<rparr>"
    using assms by (auto simp: task_handle_signal_def crash_segv_def Let_def option_bind_Some_iff
        split: if_splits prod.splits sum.splits)
  show "r_esp regs' = ctx - 4 - 4" "r_eip regs' = sa_handler action" using regs by simp_all
  have m1: "m1 = store_bytes m ctx ?cb" and u: "is_user_range ctx (of_nat sizeof_sigcontext)"
    using put_user_success [OF puts(1)] by simp_all
  have m2: "m2 = store_bytes m1 (ctx - 4) (word_bytes (of_nat signum))"
    and m3: "m' = store_bytes m2 (ctx - 4 - 4) (word_bytes (sa_restorer action))"
    using put_user_success [OF puts(2)] put_user_success [OF puts(3)] by simp_all
  show "is_user_range ctx (of_nat sizeof_sigcontext)" by (rule u)
  have d1: "\<not> in_range (ctx - 4) (length (word_bytes w)) x" if "in_range ctx sizeof_sigcontext x" for x w
    using in_range_below [of sizeof_sigcontext 4 ctx x] that by simp
  have d2: "\<not> in_range (ctx - 4 - 4) (length (word_bytes w)) x" if "in_range ctx sizeof_sigcontext x" for x w
  proof
    assume "in_range (ctx - 4 - 4) (length (word_bytes w)) x"
    then have "in_range (ctx - of_nat 8) 8 x" by (auto intro: in_range_mono [of _ 4 _ 8] simp: algebra_simps)
    with in_range_below [of sizeof_sigcontext 8 ctx x] that show False by simp
  qed
  have "load_bytes m1 ctx sizeof_sigcontext = Some ?cb"
    using load_store_bytes [of ?cb m ctx] m1 by simp
  then show "load_bytes m' ctx sizeof_sigcontext = Some ?cb"
    using load_store_disjoint [OF d1] load_store_disjoint [OF d2] m2 m3 by metis
qed

section \<open>Properties\<close>

text \<open>
  C8. \<^verbatim>\<open>task_pop_signal\<close> takes the lowest-numbered pending signal that is neither blocked nor without effect:
  it returns it with its action when the task has a handler (which \<^verbatim>\<open>SA_RESETHAND\<close> resets), ends the thread
  group when the default is to terminate, panics when the default is to stop, and returns 0 when there is
  none. The signals it passed over, and no blocked one, leave the pending set.
\<close>

theorem task_pop_signal_lowest:
  assumes "tasks k (current k) = Some cur" "task_sighand cur = Some h" "sighands k h = Some sh"
    and "length (actions sh) = NSIG - 1" "\<not> bit (pending_signals cur) 31"
  shows "\<exists>p acts k'. tasks k' (current k) = Some (cur\<lparr>pending_signals := p\<rparr>)
     \<and> sighands k' h = Some (sh\<lparr>actions := acts\<rparr>)
     \<and> (case next_signal (pending_signals cur) (blocked_signals cur) (actions sh) of
          None \<Rightarrow> task_pop_signal k = Some (Popped NoSignal, k') \<and> acts = actions sh
            \<and> taken_up_to 32 (pending_signals cur) (blocked_signals cur) p
        | Some s \<Rightarrow>
            (let action = actions sh ! (s - 1)
             in if sa_handler action \<noteq> SIG_DFL then
                  task_pop_signal k = Some (Popped (Handle s action), k') \<and> acts = reset_handler (actions sh) s
                  \<and> taken_up_to s (pending_signals cur) (blocked_signals cur) p
                else if s \<in> stop_signals then task_pop_signal k = None
                else task_pop_signal k = map_option (\<lambda>(rs, k''). (Exited rs, k'')) (do_exit_thread_group k' (int s))
                  \<and> acts = actions sh \<and> taken_up_to s (pending_signals cur) (blocked_signals cur) p))"
proof -
  let ?r = "pop_loop (pending_signals cur) (blocked_signals cur) (actions sh)"
  let ?k = "\<lambda>p acts. (update_current k (\<lambda>t. t\<lparr>pending_signals := p\<rparr>))\<lparr>sighands := (sighands k)(h \<mapsto> sh\<lparr>actions := acts\<rparr>)\<rparr>"
  have spec: "pop_spec (pending_signals cur) (blocked_signals cur) (actions sh) ?r"
    using pop_loop_spec [OF assms(4,5)] .
  have st: "tasks (?k p acts) (current k) = Some (cur\<lparr>pending_signals := p\<rparr>)"
    "sighands (?k p acts) h = Some (sh\<lparr>actions := acts\<rparr>)" for p acts
    using assms(1) by (simp_all add: update_current_def)
  have bind_map: "Option.bind x (\<lambda>(rs, k''). Some (Exited rs, k'')) = map_option (\<lambda>(rs, k''). (Exited rs, k'')) x" for x
    by (cases x) auto
  have run: "task_pop_signal k = (case ?r of None \<Rightarrow> None
      | Some (r, p, acts) \<Rightarrow> (case r of
           Fatal s \<Rightarrow> map_option (\<lambda>(rs, k''). (Exited rs, k'')) (do_exit_thread_group (?k p acts) (int s))
         | _ \<Rightarrow> Some (Popped r, ?k p acts)))"
    using assms(1-3) by (auto simp: task_pop_signal_def bind_map split: option.split prod.split popped.split)
  show ?thesis
  proof (cases "next_signal (pending_signals cur) (blocked_signals cur) (actions sh)")
    case None
    with spec obtain p' where "?r = Some (NoSignal, p', actions sh)"
      "taken_up_to 32 (pending_signals cur) (blocked_signals cur) p'" by (auto simp: pop_spec_def)
    with None run st show ?thesis
      by (intro exI [of _ p'] exI [of _ "actions sh"] exI [of _ "?k p' (actions sh)"]) simp
  next
    case (Some s)
    consider (handler) p' where "sa_handler (actions sh ! (s - 1)) \<noteq> SIG_DFL"
        "?r = Some (Handle s (actions sh ! (s - 1)), p', reset_handler (actions sh) s)"
        "taken_up_to s (pending_signals cur) (blocked_signals cur) p'"
      | (stop) "sa_handler (actions sh ! (s - 1)) = SIG_DFL" "s \<in> stop_signals" "?r = None"
      | (fatal) p' where "sa_handler (actions sh ! (s - 1)) = SIG_DFL" "s \<notin> stop_signals"
        "?r = Some (Fatal s, p', actions sh)" "taken_up_to s (pending_signals cur) (blocked_signals cur) p'"
      using spec Some by (auto simp: pop_spec_def split: if_splits)
    then show ?thesis
    proof cases
      case handler
      with Some run st show ?thesis
        by (intro exI [of _ p'] exI [of _ "reset_handler (actions sh) s"] exI [of _ "?k p' (reset_handler (actions sh) s)"])
          (simp add: Let_def)
    next
      case stop
      with Some run st show ?thesis
        by (intro exI [of _ 0] exI [of _ "[]"] exI [of _ "?k 0 []"]) (simp add: Let_def)
    next
      case fatal
      with Some run st show ?thesis
        by (intro exI [of _ p'] exI [of _ "actions sh"] exI [of _ "?k p' (actions sh)"]) (simp add: Let_def)
    qed
  qed
qed


lemma example_next_signal:
  "next_signal (pending_signals example_task) (blocked_signals example_task) (replicate 31 \<lparr>sa_handler = 0, sa_mask = 0, sa_flags = 0, sa_restorer = 0\<rparr>)
     = Some SIGTSTP"
  by (rule next_signal_first) (auto simp: skippable_def example_task_def default_dispositions_def bit_and_iff bit_not_iff)

theorem task_pop_signal_lowest_witness: "task_pop_signal example_kernel = None"
proof -
  define sh where "sh = \<lparr>actions = replicate 31 \<lparr>sa_handler = 0, sa_mask = 0, sa_flags = 0, sa_restorer = 0\<rparr>, sighand_ref_count = 2\<rparr>"
  have st: "tasks example_kernel (current example_kernel) = Some example_task" "task_sighand example_task = Some 0"
    "sighands example_kernel 0 = Some sh" "length (actions sh) = NSIG - 1" "\<not> bit (pending_signals example_task) 31"
    by (simp_all add: example_kernel_def example_task_def sh_def)
  have nx: "next_signal (pending_signals example_task) (blocked_signals example_task) (actions sh) = Some SIGTSTP"
    using example_next_signal by (simp add: sh_def)
  have "sa_handler (actions sh ! (SIGTSTP - 1)) = SIG_DFL" "SIGTSTP \<in> stop_signals"
    by (simp_all add: sh_def stop_signals_def)
  with task_pop_signal_lowest [OF st] nx show ?thesis by (auto simp: Let_def)
qed

text \<open>
  C9. A handler that returns puts the interrupted context back: when \<^verbatim>\<open>task_handle_signal\<close> has entered the
  handler, the handler has popped the return address and the context on the stack is intact, \<^verbatim>\<open>sys_sigreturn\<close>
  restores the general registers, the stack pointer, the instruction pointer, the data segments and the
  signal mask. Code and stack segment get their privilege bits set to 3, and only the flags of \<^verbatim>\<open>FIX_EFLAGS\<close>
  come from the context.
\<close>

theorem signal_handler_round_trip:
  assumes "task_handle_signal k m regs signum action = Some (Resumed regs1, k1, m1)"
    and "tasks k (current k) = Some cur" "tasks k2 (current k2) = Some cur2"
    and "r_esp regs2 = r_esp regs1 + 4"
    and "\<forall>a. in_range (r_esp regs1 + 8) sizeof_sigcontext a \<longrightarrow> m2 a = m1 a"
  shows "\<exists>k3. sys_sigreturn k2 m2 regs2 =
      Some (Resumed (r_eax regs, regs\<lparr>r_eax := r_eax regs2, r_interrupt_num := r_interrupt_num regs2,
        r_error_code := r_error_code regs2, r_cs := r_cs regs OR 3, r_ss := r_ss regs OR 3,
        r_eflags := (r_eflags regs2 AND NOT FIX_EFLAGS) OR (r_eflags regs AND FIX_EFLAGS)\<rparr>), k3, m2)
    \<and> tasks k3 (current k2) = Some (cur2\<lparr>blocked_signals := blocked_signals cur\<rparr>)"
proof -
  note fr = handle_signal_frame [OF assms(1,2)]
  let ?ctx = "ROUND_DOWN (r_esp regs) 16 - of_nat sizeof_sigcontext"
  have esp: "r_esp regs1 + 8 = ?ctx" "r_esp regs2 + 4 = ?ctx"
    using fr(1) assms(4) by (simp_all add: algebra_simps)
  have "load_bytes m2 ?ctx sizeof_sigcontext = Some (sigcontext_bytes (blocked_signals cur) regs)"
    using fr(3) load_bytes_cong [of ?ctx sizeof_sigcontext m2 m1] assms(5) esp(1) by simp
  then have "get_user m2 (r_esp regs2 + 4) sizeof_sigcontext = Inr (sigcontext_bytes (blocked_signals cur) regs)"
    using fr(4) by (simp add: get_user_def esp(2))
  then show ?thesis
    using assms(3) by (simp add: sys_sigreturn_def Let_def update_current_def del: sigcontext_of.simps)
qed

definition example_regs :: registers where
  "example_regs = \<lparr>r_gs = 0x33, r_fs = 0x23, r_es = 0x23, r_ds = 0x23, r_edi = 1, r_esi = 2, r_ebp = 3, r_edx = 4,
     r_ecx = 5, r_ebx = 6, r_eax = 7, r_interrupt_num = 8, r_error_code = 0, r_eip = 0x1000, r_cs = 0x1b,
     r_eflags = 0x202, r_esp = 0x2000, r_ss = 0x23\<rparr>"

definition example_action :: sigaction where
  "example_action = \<lparr>sa_handler = 0x1500, sa_mask = 0, sa_flags = SA_RESTORER, sa_restorer = 0x1600\<rparr>"

definition all_writable :: "mem \<Rightarrow> bool" where
  "all_writable m \<longleftrightarrow> (\<forall>x. \<exists>b. m x = Some (b, True))"

lemma put_user_all:
  assumes "all_writable m" "is_user_range a (of_nat (length xs))"
  shows "put_user m a xs = (Inr (), store_bytes m a xs)" "all_writable (store_bytes m a xs)"
proof -
  have w: "writable_bytes m b n" for b n
    using assms(1) by (induction n arbitrary: b) (auto simp: all_writable_def)
  then show "put_user m a xs = (Inr (), store_bytes m a xs)"
    using assms(2) by (simp add: put_user_store)
  have "writable_bytes (store_bytes m a xs) x 1" for x
    using writable_store [OF w] .
  then show "all_writable (store_bytes m a xs)" by (simp add: all_writable_def)
qed

lemma example_handle_signal:
  "\<exists>regs1 k1 m1. task_handle_signal example_kernel (\<lambda>_. Some (0, True)) example_regs SIGUSR1 example_action
     = Some (Resumed regs1, k1, m1)"
proof -
  let ?m = "(\<lambda>_. Some (0, True)) :: mem"
  let ?c = "sigcontext_bytes (blocked_signals example_task) example_regs"
  let ?s = "word_bytes (of_nat SIGUSR1)" and ?r = "word_bytes (sa_restorer example_action)"
  have "all_writable ?m" by (simp add: all_writable_def)
  note p1 = put_user_all [OF this, of "0x1fb4" ?c]
  have u: "is_user_range 0x1fb4 (of_nat (length ?c))" "is_user_range 0x1fb0 (of_nat (length ?s))"
    "is_user_range 0x1fac (of_nat (length ?r))"
    by (simp_all add: is_user_range_def is_user_address_def KERNEL_VIRT_ADDR_def)
  note p2 = put_user_all [OF p1(2) [OF u(1)], of "0x1fb0" ?s]
  note p3 = put_user_all [OF p2(2) [OF u(2)], of "0x1fac" ?r]
  have st: "tasks example_kernel (current example_kernel) = Some example_task"
    and rd: "ROUND_DOWN (r_esp example_regs) 16 - of_nat sizeof_sigcontext = 0x1fb4"
    and fl: "sa_flags example_action AND SA_RESTORER \<noteq> 0"
    by (simp_all add: example_kernel_def example_task_def example_regs_def ROUND_DOWN_def example_action_def)
  show ?thesis
    unfolding task_handle_signal_def st rd
    using p1(1) [OF u(1)] p2(1) [OF u(2)] p3(1) [OF u(3)] fl by (simp add: Let_def)
qed

theorem signal_handler_round_trip_witness:
  "\<exists>regs1 k1 m1 regs3 k3. task_handle_signal example_kernel (\<lambda>_. Some (0, True)) example_regs SIGUSR1 example_action
       = Some (Resumed regs1, k1, m1)
     \<and> sys_sigreturn example_kernel m1 (regs1\<lparr>r_esp := r_esp regs1 + 4\<rparr>) = Some (Resumed (7, regs3), k3, m1)
     \<and> r_eip regs3 = 0x1000 \<and> r_esp regs3 = 0x2000"
proof -
  obtain regs1 k1 m1 where h: "task_handle_signal example_kernel (\<lambda>_. Some (0, True)) example_regs SIGUSR1 example_action
      = Some (Resumed regs1, k1, m1)" using example_handle_signal by blast
  have st: "tasks example_kernel (current example_kernel) = Some example_task"
    by (simp add: example_kernel_def)
  show ?thesis
    using signal_handler_round_trip [OF h st st, of "regs1\<lparr>r_esp := r_esp regs1 + 4\<rparr>" m1] h
    by (auto simp: example_regs_def)
qed

definition kill_stop_unblocked :: "u32 \<Rightarrow> bool" where
  "kill_stop_unblocked b \<longleftrightarrow> \<not> bit b (SIGKILL - 1) \<and> \<not> bit b (SIGSTOP - 1)"

text \<open>
  C10. \<^verbatim>\<open>SIGKILL\<close> and \<^verbatim>\<open>SIGSTOP\<close> stay unblocked by \<^verbatim>\<open>sigprocmask\<close> and by the entry of a handler, whatever mask
  the task or the action asks for.
\<close>

theorem kill_stop_never_blocked:
  assumes "tasks k (current k) = Some cur" "kill_stop_unblocked (blocked_signals cur)"
    and "sys_sigprocmask k m how user_set user_oldset = Some (rc, k', m')
       \<or> task_handle_signal k m regs signum action = Some (Resumed regs', k', m')"
  shows "\<exists>cur'. tasks k' (current k) = Some cur' \<and> kill_stop_unblocked (blocked_signals cur')"
proof -
  have bits: "kill_stop_unblocked (b AND NOT kill_stop_mask)" for b
    by (simp add: kill_stop_unblocked_def kill_stop_mask_def bit_and_iff bit_not_iff bit_or_iff)
  have ors: "kill_stop_unblocked (blocked_signals cur OR (b AND NOT kill_stop_mask))"
    "kill_stop_unblocked (blocked_signals cur AND c)" for b c
    using assms(2) bits [of b] by (simp_all add: kill_stop_unblocked_def bit_and_iff bit_or_iff)
  from assms(3) show ?thesis
  proof
    assume call: "sys_sigprocmask k m how user_set user_oldset = Some (rc, k', m')"
    obtain rc0 m0 where old: "(if user_oldset = 0 then (Inr (), m)
        else put_user m user_oldset (word_bytes (blocked_signals cur))) = (rc0, m0)" by fastforce
    have "k' = k \<or> (\<exists>b. k' = update_current k (\<lambda>t. t\<lparr>blocked_signals := b\<rparr>) \<and> kill_stop_unblocked b)"
    proof (cases "get_user_sigset m0 user_set")
      case None
      with call assms(1) old show ?thesis
        by (auto simp: sys_sigprocmask_def split: sum.splits if_splits)
    next
      case (Some r)
      with call assms(1) old bits ors show ?thesis
        by (cases rc0; cases r; cases "user_set = 0"; cases "how = 0"; cases "how = 1"; cases "how = 2")
          (auto simp: sys_sigprocmask_def Let_def)
    qed
    then show ?thesis using assms(1,2) by (auto simp: update_current_def)
  next
    assume "task_handle_signal k m regs signum action = Some (Resumed regs', k', m')"
    then show ?thesis
      using assms(1) bits
      by (auto simp: task_handle_signal_def crash_segv_def update_current_def option_bind_Some_iff Let_def
          split: if_splits prod.splits sum.splits)
  qed
qed

theorem kill_stop_never_blocked_witness:
  "\<exists>regs1 k1 m1 cur'. task_handle_signal example_kernel (\<lambda>_. Some (0, True)) example_regs SIGUSR1 example_action
       = Some (Resumed regs1, k1, m1)
     \<and> tasks k1 5 = Some cur' \<and> kill_stop_unblocked (blocked_signals cur')"
proof -
  obtain regs1 k1 m1 where h: "task_handle_signal example_kernel (\<lambda>_. Some (0, True)) example_regs SIGUSR1 example_action
      = Some (Resumed regs1, k1, m1)" using example_handle_signal by blast
  have st: "tasks example_kernel (current example_kernel) = Some example_task" "current example_kernel = 5"
    "kill_stop_unblocked (blocked_signals example_task)"
    by (simp_all add: example_kernel_def example_task_def kill_stop_unblocked_def)
  from kill_stop_never_blocked [OF st(1,3) disjI2 [OF h]] h st(2) show ?thesis by auto
qed

text \<open>
  C11. \<^verbatim>\<open>sys_sigreturn\<close> does not filter the mask: a task that calls it on a context of its own making blocks
  every signal, and a pending \<^verbatim>\<open>SIGKILL\<close> is then never taken.
\<close>

theorem sigreturn_blocks_sigkill:
  assumes "tasks k (current k) = Some cur"
    and "get_user m (r_esp regs + 4) sizeof_sigcontext = Inr (sigcontext_bytes (NOT 0) ctx)"
  shows "\<exists>r k' cur'. sys_sigreturn k m regs = Some (Resumed r, k', m) \<and> tasks k' (current k') = Some cur'
     \<and> blocked_signals cur' = NOT 0 \<and> \<not> kill_stop_unblocked (blocked_signals cur')
     \<and> (\<forall>p acts. next_signal p (blocked_signals cur') acts = None)"
  using assms
  by (auto simp: sys_sigreturn_def Let_def update_current_def kill_stop_unblocked_def next_signal_none
      simp del: sigcontext_of.simps)

theorem sigreturn_blocks_sigkill_witness:
  "\<exists>r k' cur'. sys_sigreturn example_kernel
      (store_bytes (\<lambda>_. Some (0, True)) 0x2004 (sigcontext_bytes (NOT 0) example_regs)) example_regs
        = Some (Resumed r, k', store_bytes (\<lambda>_. Some (0, True)) 0x2004 (sigcontext_bytes (NOT 0) example_regs))
     \<and> tasks k' (current k') = Some cur' \<and> blocked_signals cur' = NOT 0"
proof -
  let ?m = "store_bytes (\<lambda>_. Some (0, True)) 0x2004 (sigcontext_bytes (NOT 0) example_regs)"
  have st: "tasks example_kernel (current example_kernel) = Some example_task"
    by (simp add: example_kernel_def)
  have "get_user ?m (r_esp example_regs + 4) sizeof_sigcontext = Inr (sigcontext_bytes (NOT 0) example_regs)"
    using load_store_bytes [of "sigcontext_bytes (NOT 0) example_regs" "\<lambda>_. Some (0, True)" "0x2004"]
    by (simp add: get_user_def is_user_range_def is_user_address_def KERNEL_VIRT_ADDR_def example_regs_def)
  from sigreturn_blocks_sigkill [OF st this] show ?thesis by blast
qed

text \<open>
  \<^verbatim>\<open>sys_sigsuspend\<close> does not filter its mask either: it waits with exactly the mask of the caller, which may block
  \<^verbatim>\<open>SIGKILL\<close> and \<^verbatim>\<open>SIGSTOP\<close>, and with all bits set no signal ends the wait.
\<close>

lemma sigsuspend_blocks_sigkill:
  assumes "tasks k (current k) = Some cur" "get_user_sigset m user_mask = Some (Inr msk)"
  shows "\<exists>k' cur'. sigsuspend_enter k m user_mask = Some (Inr (blocked_signals cur), k') \<and> tasks k' (current k') = Some cur'
     \<and> blocked_signals cur' = msk \<and> (msk = NOT 0 \<longrightarrow> (\<forall>p acts. next_signal p (blocked_signals cur') acts = None))"
  using assms by (auto simp: sigsuspend_enter_def update_current_def next_signal_none)

end
