(* ===== verification/Fifo.thy ===== *)
theory Fifo
  imports Ring_Buf Blocking Signal
begin

text \<open>
  Pipes and named pipes: \<^verbatim>\<open>kernel/fs/fifo.c\<close>. The operations that may sleep take the list of looks of the
  theory \<open>Blocking\<close>. What they do under \<^verbatim>\<open>fifo->lock\<close> is one step on the state found there; it is returned as
  the pair of the states before and after it.
\<close>

section \<open>State and operations\<close>

record fifo =
  fifo_buf :: ring_buf
  num_readers :: u32
  num_writers :: u32

abbreviation (input) PIPE_BUF :: nat where "PIPE_BUF \<equiv> 4096"

text \<open>\<^verbatim>\<open>fifo_create\<close>: \<open>fifo_mem\<close> is whether the block of the structure was allocated, \<open>ring_mem\<close> that of the ring.\<close>

definition fifo_create :: "bool \<Rightarrow> u8 list option \<Rightarrow> fifo result" where
  "fifo_create fifo_mem ring_mem =
     (if \<not> fifo_mem then Inl ENOMEM
      else case ring_buf_init PIPE_BUF ring_mem of
             Inl e \<Rightarrow> Inl e
           | Inr b \<Rightarrow> Inr \<lparr>fifo_buf = b, num_readers = 0, num_writers = 0\<rparr>)"

definition unblock_open :: "u32 \<Rightarrow> fifo \<Rightarrow> bool option" where
  "unblock_open flags f =
     (if flags AND O_ACCMODE = O_RDONLY then Some (num_writers f > 0)
      else if flags AND O_ACCMODE = O_WRONLY then Some (num_readers f > 0)
      else None)"

text \<open>
  \<^verbatim>\<open>fifo_open\<close>: the first look is the one at which it counts itself in; that update is the second component
  of the result. \<open>dev = 0\<close> marks the anonymous pipe.
\<close>

definition fifo_open :: "u32 \<Rightarrow> nat \<Rightarrow> fifo obs list \<Rightarrow> (unit result \<times> (fifo \<times> fifo) option) wait option" where
  "fifo_open flags dev os =
     (case os of
        [] \<Rightarrow> Some Asleep
      | ob # os' \<Rightarrow>
          let f = obs_world ob;
              acc = flags AND O_ACCMODE
          in if acc \<noteq> O_RDONLY \<and> acc \<noteq> O_WRONLY then Some (Woke (Inl EINVAL, None))
             else let f' = (if acc = O_RDONLY then f\<lparr>num_readers := num_readers f + 1\<rparr>
                            else f\<lparr>num_writers := num_writers f + 1\<rparr>)
             in if dev = 0 then Some (Woke (Inr (), Some (f, f')))
                else do {
                  w \<leftarrow> file_block flags (unblock_open flags) os';
                  Some (case w of
                          Asleep \<Rightarrow> Asleep
                        | Woke (rc, _) \<Rightarrow>
                            Woke (if rc = Inl EAGAIN \<and> acc = O_WRONLY then Inl ENXIO else rc, Some (f, f')))
                })"

definition fifo_close :: "u32 \<Rightarrow> fifo \<Rightarrow> fifo option" where
  "fifo_close flags f =
     (if flags AND O_ACCMODE = O_RDONLY then Some (f\<lparr>num_readers := num_readers f - 1\<rparr>)
      else if flags AND O_ACCMODE = O_WRONLY then Some (f\<lparr>num_writers := num_writers f - 1\<rparr>)
      else None)"

definition unblock_read :: "fifo \<Rightarrow> bool option" where
  "unblock_read f = Some (num_writers f = 0 \<or> \<not> ring_buf_is_empty (fifo_buf f))"

function fifo_pread ::
    "u32 \<Rightarrow> fifo obs list \<Rightarrow> nat \<Rightarrow> (u8 list result \<times> (fifo \<times> fifo) option) wait option" where
  "fifo_pread flags os count =
     (case file_block flags unblock_read os of
        None \<Rightarrow> None
      | Some Asleep \<Rightarrow> Some Asleep
      | Some (Woke (Inl e, _)) \<Rightarrow> Some (Woke (Inl e, None))
      | Some (Woke (Inr _, [])) \<Rightarrow> Some Asleep
      | Some (Woke (Inr _, ob # os')) \<Rightarrow>
          let f = obs_world ob
          in if \<not> ring_buf_is_empty (fifo_buf f) then
               do {
                 (bytes, b) \<leftarrow> ring_buf_read (fifo_buf f) count;
                 Some (Woke (Inr bytes, Some (f, f\<lparr>fifo_buf := b\<rparr>)))
               }
             else if num_writers f = 0 then Some (Woke (Inr [], Some (f, f)))
             else fifo_pread flags os' count)"
  by pat_completeness auto
termination
  by (relation "measure (\<lambda>(flags, os, count). length os)") (auto dest!: file_block_shorter)

definition unblock_write :: "fifo \<Rightarrow> bool option" where
  "unblock_write f = Some (num_readers f = 0 \<or> \<not> ring_buf_is_full (fifo_buf f))"

text \<open>\<^verbatim>\<open>fifo_pwrite\<close>: \<open>k\<close> is the task table at the time the signal is sent; without readers the writer gets \<^verbatim>\<open>SIGPIPE\<close>.\<close>

function fifo_pwrite ::
    "u32 \<Rightarrow> kernel \<Rightarrow> fifo obs list \<Rightarrow> u8 list
      \<Rightarrow> ((nat result \<times> (fifo \<times> fifo) option) wait \<times> kernel) option" where
  "fifo_pwrite flags k os src =
     (case file_block flags unblock_write os of
        None \<Rightarrow> None
      | Some Asleep \<Rightarrow> Some (Asleep, k)
      | Some (Woke (Inl e, _)) \<Rightarrow> Some (Woke (Inl e, None), k)
      | Some (Woke (Inr _, [])) \<Rightarrow> Some (Asleep, k)
      | Some (Woke (Inr _, ob # os')) \<Rightarrow>
          let f = obs_world ob
          in if num_readers f = 0 then
               do {
                 cur \<leftarrow> tasks k (current k);
                 (rc, k') \<leftarrow> task_send_signal k (tid cur) (int SIGPIPE) 0;
                 Some (Woke (case rc of Inl e \<Rightarrow> Inl e | Inr _ \<Rightarrow> Inl EPIPE, None), k')
               }
             else if ring_buf_is_full (fifo_buf f) then fifo_pwrite flags k os' src
             else do {
               (n, b) \<leftarrow> ring_buf_write (fifo_buf f) src;
               Some (Woke (Inr n, Some (f, f\<lparr>fifo_buf := b\<rparr>)), k)
             })"
  by pat_completeness auto
termination
  by (relation "measure (\<lambda>(flags, k, os, src). length os)") (auto dest!: file_block_shorter)

declare fifo_pread.simps [simp del] fifo_pwrite.simps [simp del]

definition fifo_poll :: "u32 \<Rightarrow> fifo \<Rightarrow> u16 \<Rightarrow> u16 option" where
  "fifo_poll flags f events =
     (let r0 = (if events AND POLLIN \<noteq> 0 \<and> \<not> ring_buf_is_empty (fifo_buf f) then POLLIN else 0);
          r1 = r0 OR (if events AND POLLOUT \<noteq> 0 \<and> \<not> ring_buf_is_full (fifo_buf f) then POLLOUT else 0)
      in if flags AND O_ACCMODE = O_RDONLY then
           Some (r1 OR (if events AND POLLHUP \<noteq> 0 \<and> num_writers f = 0 then POLLHUP else 0))
         else if flags AND O_ACCMODE = O_WRONLY then
           Some (r1 OR (if events AND POLLERR \<noteq> 0 \<and> num_readers f = 0 then POLLERR else 0))
         else None)"

section \<open>What a call did when it returns\<close>

lemma fifo_pread_effect:
  assumes "fifo_pread flags os count = Some (Woke (Inr bytes, Some (f, f')))"
  shows "f \<in> obs_world ` set os"
    and "if ring_buf_is_empty (fifo_buf f) then num_writers f = 0 \<and> bytes = [] \<and> f' = f
         else \<exists>b. ring_buf_read (fifo_buf f) count = Some (bytes, b) \<and> f' = f\<lparr>fifo_buf := b\<rparr>"
proof -
  have "f \<in> obs_world ` set os \<and>
    (if ring_buf_is_empty (fifo_buf f) then num_writers f = 0 \<and> bytes = [] \<and> f' = f
     else \<exists>b. ring_buf_read (fifo_buf f) count = Some (bytes, b) \<and> f' = f\<lparr>fifo_buf := b\<rparr>)"
    using assms
  proof (induction flags os count rule: fifo_pread.induct)
    case (1 flags os count)
    obtain u ob os' where wk: "file_block flags unblock_read os = Some (Woke (Inr u, ob # os'))"
      using "1.prems" by (subst (asm) fifo_pread.simps) (auto split: option.splits wait.splits sum.splits list.splits)
    have sub: "obs_world ob \<in> obs_world ` set os" "obs_world ` set os' \<subseteq> obs_world ` set os"
      using file_block_suffix [OF wk] by auto
    show ?case
    proof (cases "ring_buf_is_empty (fifo_buf (obs_world ob)) \<and> num_writers (obs_world ob) \<noteq> 0")
      case True
      then have "fifo_pread flags os' count = Some (Woke (Inr bytes, Some (f, f')))"
        using "1.prems" wk by (subst (asm) fifo_pread.simps) simp
      with "1.IH" [OF wk _ _ refl refl refl] True sub show ?thesis by auto
    next
      case False
      with "1.prems" wk sub show ?thesis
        by (subst (asm) fifo_pread.simps) (auto simp: option_bind_Some_iff Let_def split: if_splits)
    qed
  qed
  then show "f \<in> obs_world ` set os"
    and "if ring_buf_is_empty (fifo_buf f) then num_writers f = 0 \<and> bytes = [] \<and> f' = f
         else \<exists>b. ring_buf_read (fifo_buf f) count = Some (bytes, b) \<and> f' = f\<lparr>fifo_buf := b\<rparr>" by simp_all
qed


lemma fifo_pwrite_effect:
  assumes "fifo_pwrite flags k os src = Some (Woke (Inr n, Some (f, f')), k')"
  shows "f \<in> obs_world ` set os" "\<not> ring_buf_is_full (fifo_buf f)" "num_readers f \<noteq> 0" "k' = k"
    and "\<exists>b. ring_buf_write (fifo_buf f) src = Some (n, b) \<and> f' = f\<lparr>fifo_buf := b\<rparr>"
proof -
  have "f \<in> obs_world ` set os \<and> \<not> ring_buf_is_full (fifo_buf f) \<and> num_readers f \<noteq> 0 \<and> k' = k
    \<and> (\<exists>b. ring_buf_write (fifo_buf f) src = Some (n, b) \<and> f' = f\<lparr>fifo_buf := b\<rparr>)"
    using assms
  proof (induction flags k os src rule: fifo_pwrite.induct)
    case (1 flags k os src)
    obtain u ob os' where wk: "file_block flags unblock_write os = Some (Woke (Inr u, ob # os'))"
      using "1.prems" by (subst (asm) fifo_pwrite.simps) (auto split: option.splits wait.splits sum.splits list.splits)
    have sub: "obs_world ob \<in> obs_world ` set os" "obs_world ` set os' \<subseteq> obs_world ` set os"
      using file_block_suffix [OF wk] by auto
    show ?case
    proof (cases "num_readers (obs_world ob) \<noteq> 0 \<and> ring_buf_is_full (fifo_buf (obs_world ob))")
      case True
      then have "fifo_pwrite flags k os' src = Some (Woke (Inr n, Some (f, f')), k')"
        using "1.prems" wk by (subst (asm) fifo_pwrite.simps) simp
      with "1.IH" [OF wk _ _ refl refl refl] True sub show ?thesis by auto
    next
      case False
      with "1.prems" wk sub show ?thesis
        by (subst (asm) fifo_pwrite.simps) (auto simp: option_bind_Some_iff Let_def split: if_splits sum.splits)
    qed
  qed
  then show "f \<in> obs_world ` set os" "\<not> ring_buf_is_full (fifo_buf f)" "num_readers f \<noteq> 0" "k' = k"
    and "\<exists>b. ring_buf_write (fifo_buf f) src = Some (n, b) \<and> f' = f\<lparr>fifo_buf := b\<rparr>" by simp_all
qed

section \<open>The pipe as a shared object\<close>

text \<open>
  Steps of any number of readers and writers on one pipe, in any order; \<open>sent\<close> and \<open>received\<close> are what all
  of them wrote and read so far. Opening and closing only touches the counts.
\<close>

inductive fifo_step :: "fifo \<times> u8 list \<times> u8 list \<Rightarrow> fifo \<times> u8 list \<times> u8 list \<Rightarrow> bool" where
  fifo_read: "fifo_pread flags os count = Some (Woke (Inr bytes, Some (f, f'))) \<Longrightarrow>
    fifo_step (f, sent, received) (f', sent, received @ bytes)"
| fifo_write: "fifo_pwrite flags k os src = Some (Woke (Inr n, Some (f, f')), k') \<Longrightarrow>
    fifo_step (f, sent, received) (f', sent @ take n src, received)"
| fifo_opened: "fifo_open flags dev os = Some (Woke (rc, Some (f, f'))) \<Longrightarrow>
    fifo_step (f, sent, received) (f', sent, received)"
| fifo_closed: "fifo_close flags f = Some f' \<Longrightarrow> fifo_step (f, sent, received) (f', sent, received)"

inductive_cases fifo_stepE: "fifo_step s s'"

definition fifo_inv :: "fifo \<times> u8 list \<times> u8 list \<Rightarrow> bool" where
  "fifo_inv s \<longleftrightarrow> (case s of (f, sent, received) \<Rightarrow>
     rb_inv (fifo_buf f) \<and> capacity (fifo_buf f) = PIPE_BUF \<and> received @ rb_contents (fifo_buf f) = sent)"

definition counted_in :: "u32 \<Rightarrow> fifo \<Rightarrow> fifo" where
  "counted_in flags f = (if flags AND O_ACCMODE = O_RDONLY then f\<lparr>num_readers := num_readers f + 1\<rparr>
     else f\<lparr>num_writers := num_writers f + 1\<rparr>)"

lemma fifo_open_effect:
  assumes "fifo_open flags dev os = Some (Woke (rc, Some (f, f')))"
  shows "f' = counted_in flags f"
proof (cases os)
  case (Cons ob os')
  show ?thesis
  proof (cases "file_block flags (unblock_open flags) os'")
    case (Some w)
    with assms Cons show ?thesis
      by (cases w) (auto simp: fifo_open_def counted_in_def Let_def split: if_splits)
  qed (use assms Cons in \<open>auto simp: fifo_open_def counted_in_def Let_def split: if_splits\<close>)
qed (use assms in \<open>simp add: fifo_open_def\<close>)

lemma counted_in_buf [simp]: "fifo_buf (counted_in flags f) = fifo_buf f"
  by (simp add: counted_in_def)

lemma fifo_step_inv:
  assumes "fifo_step s s'" "fifo_inv s"
  shows "fifo_inv s'"
  using assms
proof (induction rule: fifo_step.induct)
  case (fifo_read flags os count bytes f f' sent received)
  note eff = fifo_pread_effect(2) [OF fifo_read.hyps]
  show ?case
  proof (cases "ring_buf_is_empty (fifo_buf f)")
    case True
    with eff fifo_read.prems show ?thesis by (auto simp: fifo_inv_def)
  next
    case False
    with eff obtain b where b: "ring_buf_read (fifo_buf f) count = Some (bytes, b)" "f' = f\<lparr>fifo_buf := b\<rparr>" by auto
    have "rb_contents (fifo_buf f) \<noteq> []" using False fifo_read.prems by (simp add: fifo_inv_def rb_empty_iff)
    with ring_buf_read_correct [of "fifo_buf f" count] b fifo_read.prems
      rbq.read_stream [of "fifo_buf f" count bytes b received sent] False
    show ?thesis by (auto simp: fifo_inv_def)
  qed
next
  case (fifo_write flags k os src n f f' k' sent received)
  note eff = fifo_pwrite_effect [OF fifo_write.hyps]
  obtain b where b: "ring_buf_write (fifo_buf f) src = Some (n, b)" "f' = f\<lparr>fifo_buf := b\<rparr>" using eff(5) by auto
  have "0 < rb_space (fifo_buf f)" using eff(2) fifo_write.prems by (simp add: fifo_inv_def rb_full_iff)
  with ring_buf_write_correct [of "fifo_buf f" src] b fifo_write.prems eff(2)
    rbq.write_stream [of "fifo_buf f" src n b received sent]
  show ?case by (auto simp: fifo_inv_def)
next
  case (fifo_opened flags dev os rc f f' sent received)
  then show ?case using fifo_open_effect [OF fifo_opened.hyps] by (simp add: fifo_inv_def)
next
  case (fifo_closed flags f f' sent received)
  then show ?case by (auto simp: fifo_inv_def fifo_close_def split: if_splits)
qed

section \<open>Properties\<close>

text \<open>
  C15. A pipe is a reliable byte stream: after any sequence of reads, writes, opens and closes by any tasks,
  what was received followed by what is in the pipe is what was sent, byte by byte and in order.
\<close>

theorem fifo_reliable_stream:
  assumes "fifo_create True (Some mem) = Inr f0" "length mem = PIPE_BUF"
    and "fifo_step\<^sup>*\<^sup>* (f0, [], []) (f, sent, received)"
  shows "received @ rb_contents (fifo_buf f) = sent \<and> length (rb_contents (fifo_buf f)) < PIPE_BUF"
proof -
  have "fifo_inv (f0, [], [])"
    using assms(1,2) by (auto simp: fifo_create_def ring_buf_init_def fifo_inv_def rb_inv_def rb_contents_def rb_len_def)
  from assms(3) this have "fifo_inv (f, sent, received)"
    by (induction rule: rtranclp.induct) (auto dest: fifo_step_inv)
  then show ?thesis using rb_len_less [of "fifo_buf f"] by (auto simp: fifo_inv_def)
qed


definition pipe0 :: fifo where
  "pipe0 = \<lparr>fifo_buf = \<lparr>capacity = PIPE_BUF, write_index = 0, read_index = 0, ring = replicate PIPE_BUF 0\<rparr>,
     num_readers = 0, num_writers = 0\<rparr>"

definition pipe1 :: fifo where
  "pipe1 = pipe0\<lparr>num_readers := 1\<rparr>"

definition look :: "fifo \<Rightarrow> fifo obs" where
  "look f = \<lparr>obs_world = f, obs_signal = False\<rparr>"

lemma look_select [simp]: "obs_world (look f) = f" "obs_signal (look f) = False"
  by (simp_all add: look_def)

lemma pipe0_create: "fifo_create True (Some (replicate PIPE_BUF 0)) = Inr pipe0"
  by (simp add: fifo_create_def ring_buf_init_def pipe0_def)

lemma pipe1_open: "fifo_step (pipe0, [], []) (pipe1, [], [])"
proof (rule fifo_opened)
  show "fifo_open 0 0 [look pipe0] = Some (Woke (Inr (), Some (pipe0, pipe1)))"
    by (simp add: fifo_open_def pipe1_def pipe0_def Let_def)
qed

lemma pipe1_write:
  "\<exists>f n. fifo_pwrite 1 k [look pipe1, look pipe1, look pipe1] [104, 105] = Some (Woke (Inr n, Some (pipe1, f)), k) \<and> n = 2"
proof -
  have inv: "rb_inv (fifo_buf pipe1)" "rb_contents (fifo_buf pipe1) = []" "rb_space (fifo_buf pipe1) = 4095"
    "\<not> ring_buf_is_full (fifo_buf pipe1)"
    by (simp_all add: pipe1_def pipe0_def rb_inv_def rb_contents_def rb_len_def rb_space_def ring_buf_is_full_def)
  then obtain b where b: "ring_buf_write (fifo_buf pipe1) [104, 105] = Some (2, b)"
    using ring_buf_write_correct [OF inv(1), of "[104, 105]"] by auto
  have "unblock_write pipe1 = Some True" using inv(4) by (simp add: unblock_write_def)
  then have "file_block 1 unblock_write [look pipe1, look pipe1, look pipe1] = Some (Woke (Inr (), [look pipe1, look pipe1]))"
    by (simp add: file_block_ready)
  moreover have "num_readers pipe1 \<noteq> 0" by (simp add: pipe1_def)
  ultimately show ?thesis
    using b inv(4) by (subst fifo_pwrite.simps) (simp add: Let_def)
qed

theorem fifo_reliable_stream_witness:
  "\<exists>f. fifo_step\<^sup>*\<^sup>* (pipe0, [], []) (f, [104, 105], []) \<and> rb_contents (fifo_buf f) = [104, 105]"
proof -
  obtain f where "fifo_pwrite 1 example_kernel [look pipe1, look pipe1, look pipe1] [104, 105]
      = Some (Woke (Inr 2, Some (pipe1, f)), example_kernel)" using pipe1_write by blast
  from fifo_write [OF this, of "[]" "[]"] have "fifo_step (pipe1, [], []) (f, [104, 105], [])" by simp
  with pipe1_open have run: "fifo_step\<^sup>*\<^sup>* (pipe0, [], []) (f, [104, 105], [])" by (meson converse_rtranclp_into_rtranclp r_into_rtranclp)
  from fifo_reliable_stream [OF pipe0_create _ run] run show ?thesis by auto
qed

lemma fifo_end_cases:
  assumes "tasks k (current k) = Some cur" "current k \<in> set (all_tasks k)" "kernel_wf k" "0 \<le> tid cur"
    and "obs_world o1 = f" "obs_world o2 = f" "obs_world o3 = f"
  shows "num_readers f = 0 \<Longrightarrow>
      \<exists>k'. fifo_pwrite flags k [o1, o2, o3] src = Some (Woke (Inl EPIPE, None), k') \<and> got_signal k k' (current k) SIGPIPE"
    and "num_writers f = 0 \<Longrightarrow> ring_buf_is_empty (fifo_buf f) \<Longrightarrow>
      fifo_pread flags [o1, o2, o3] count = Some (Woke (Inr [], Some (f, f)))"
    and "num_writers f \<noteq> 0 \<Longrightarrow> ring_buf_is_empty (fifo_buf f) \<Longrightarrow> flags AND O_NONBLOCK \<noteq> 0 \<Longrightarrow>
      fifo_pread flags [o1, o2, o3] count = Some (Woke (Inl EAGAIN, None))"
    and "num_readers f \<noteq> 0 \<Longrightarrow> ring_buf_is_full (fifo_buf f) \<Longrightarrow> flags AND O_NONBLOCK \<noteq> 0 \<Longrightarrow>
      fifo_pwrite flags k [o1, o2, o3] src = Some (Woke (Inl EAGAIN, None), k)"
proof -
  have wf: "distinct (all_tasks k)" "\<forall>a\<in>set (all_tasks k). \<exists>t. tasks k a = Some t \<and> sighand_ok k t"
    using assms(3) by (auto simp: kernel_wf_def elim: kernel_wf_task [OF assms(3)])
  have dest: "dest_at k (tid cur) 0 (current k)"
    using assms(1) by (simp add: dest_at_def is_signal_dest_def)
  have send: "\<exists>k'. task_send_signal k (tid cur) (int SIGPIPE) 0 = Some (Inr (), k') \<and> got_signal k k' (current k) SIGPIPE"
    using send_loop_delivers [OF wf, of SIGPIPE "tid cur" 0 False] dest assms(2,4)
    by (fastforce simp: task_send_signal_def)
  show "\<exists>k'. fifo_pwrite flags k [o1, o2, o3] src = Some (Woke (Inl EPIPE, None), k') \<and> got_signal k k' (current k) SIGPIPE"
    if z: "num_readers f = 0"
  proof -
    have "unblock_write f = Some True" using z by (simp add: unblock_write_def)
    then show ?thesis
      using send z assms(1,5-7) by (subst fifo_pwrite.simps) (auto simp: file_block_ready Let_def)
  qed
  show "fifo_pread flags [o1, o2, o3] count = Some (Woke (Inr [], Some (f, f)))"
    if z: "num_writers f = 0" "ring_buf_is_empty (fifo_buf f)"
  proof -
    have "unblock_read f = Some True" using z by (simp add: unblock_read_def)
    then show ?thesis
      using z assms(5-7) by (subst fifo_pread.simps) (simp add: file_block_ready Let_def)
  qed
  show "fifo_pread flags [o1, o2, o3] count = Some (Woke (Inl EAGAIN, None))"
    if "num_writers f \<noteq> 0" "ring_buf_is_empty (fifo_buf f)" "flags AND O_NONBLOCK \<noteq> 0"
    using that assms(5) by (subst fifo_pread.simps) (simp add: file_block_nonblocking unblock_read_def)
  show "fifo_pwrite flags k [o1, o2, o3] src = Some (Woke (Inl EAGAIN, None), k)"
    if "num_readers f \<noteq> 0" "ring_buf_is_full (fifo_buf f)" "flags AND O_NONBLOCK \<noteq> 0"
    using that assms(5) by (subst fifo_pwrite.simps) (simp add: file_block_nonblocking unblock_write_def)
qed

text \<open>
  C16. The ends of a pipe. A writer that finds no reader gets \<^verbatim>\<open>EPIPE\<close> and a pending \<^verbatim>\<open>SIGPIPE\<close>, and the pipe keeps
  its contents; a reader that finds the pipe empty and no writer gets end of file (0 bytes); a
  non-blocking reader of an empty pipe with writers, and a non-blocking writer of a full pipe with
  readers, get \<^verbatim>\<open>EAGAIN\<close> at once.
\<close>

theorem fifo_ends:
  assumes "tasks k (current k) = Some cur" "current k \<in> set (all_tasks k)" "kernel_wf k" "0 \<le> tid cur"
    and "obs_world o1 = f" "obs_world o2 = f" "obs_world o3 = f"
  shows "(num_readers f = 0 \<longrightarrow>
      (\<exists>k'. fifo_pwrite flags k [o1, o2, o3] src = Some (Woke (Inl EPIPE, None), k') \<and> got_signal k k' (current k) SIGPIPE))
    \<and> (num_writers f = 0 \<and> ring_buf_is_empty (fifo_buf f) \<longrightarrow>
      fifo_pread flags [o1, o2, o3] count = Some (Woke (Inr [], Some (f, f))))
    \<and> (num_writers f \<noteq> 0 \<and> ring_buf_is_empty (fifo_buf f) \<and> flags AND O_NONBLOCK \<noteq> 0 \<longrightarrow>
      fifo_pread flags [o1, o2, o3] count = Some (Woke (Inl EAGAIN, None)))
    \<and> (num_readers f \<noteq> 0 \<and> ring_buf_is_full (fifo_buf f) \<and> flags AND O_NONBLOCK \<noteq> 0 \<longrightarrow>
      fifo_pwrite flags k [o1, o2, o3] src = Some (Woke (Inl EAGAIN, None), k))"
  using fifo_end_cases [OF assms] by blast

theorem fifo_ends_witness:
  "(\<exists>k'. fifo_pwrite 1 example_kernel [look pipe0, look pipe0, look pipe0] [1] = Some (Woke (Inl EPIPE, None), k')
      \<and> got_signal example_kernel k' 5 SIGPIPE)
   \<and> fifo_pread 0 [look pipe0, look pipe0, look pipe0] 8 = Some (Woke (Inr [], Some (pipe0, pipe0)))"
proof -
  have st: "tasks example_kernel (current example_kernel) = Some example_task"
    "current example_kernel \<in> set (all_tasks example_kernel)" "kernel_wf example_kernel" "0 \<le> tid example_task"
    "current example_kernel = 5"
    by (simp_all add: example_kernel_def example_task_def kernel_wf_def sighand_ok_def)
  have "num_readers pipe0 = 0" "num_writers pipe0 = 0" "ring_buf_is_empty (fifo_buf pipe0)"
    by (simp_all add: pipe0_def ring_buf_is_empty_def)
  then show ?thesis
    using fifo_ends [OF st(1-4), of "look pipe0" pipe0 "look pipe0" "look pipe0"] st(5) by simp
qed

text \<open>
  An open of a named pipe that fails still counts as a reader or a writer: \<^verbatim>\<open>fifo_open\<close> counts the caller
  in before it waits and does not undo that when the wait fails, and the caller of a failed open never
  closes. After it a later writer waits for, or later gets no \<^verbatim>\<open>EPIPE\<close> because of, a reader that does not exist.
\<close>

theorem failed_open_leaks_count:
  assumes "flags AND O_ACCMODE = O_RDONLY" "flags AND O_NONBLOCK = 0" "dev \<noteq> 0"
    and "num_writers f = 0" "obs_world o1 = f" "num_writers (obs_world o2) = 0" "obs_signal o3"
  shows "fifo_open flags dev [o1, o2, o3] = Some (Woke (Inl EINTR, Some (f, f\<lparr>num_readers := num_readers f + 1\<rparr>)))"
  using assms by (simp add: fifo_open_def file_block.simps unblock_open_def Let_def)

theorem failed_open_leaks_count_witness:
  "fifo_open 0 1 [look pipe0, look pipe1, (look pipe1)\<lparr>obs_signal := True\<rparr>] = Some (Woke (Inl EINTR, Some (pipe0, pipe1)))"
  using failed_open_leaks_count [of 0 1 pipe0 "look pipe0" "look pipe1" "(look pipe1)\<lparr>obs_signal := True\<rparr>"]
  by (simp add: pipe1_def pipe0_def)

end
