(* ===== verification/Page.thy ===== *)
theory Page
  imports Prelude
begin

text \<open>
  The allocator of physical pages: \<^verbatim>\<open>kernel/memory/page.c\<close>. A bitmap has a set bit for every free page and an
  8-bit reference count per page saturates at 255. Page numbers are \<open>nat\<close>, physical addresses \<open>u32\<close>.
\<close>

section \<open>State and bitmap\<close>

definition MAX_NUM_PAGES :: nat where
  "MAX_NUM_PAGES = 1024 * 1024"

definition BITMAP_MAX_LEN :: nat where
  "BITMAP_MAX_LEN = MAX_NUM_PAGES div 32"

abbreviation (input) PAGE_SIZE :: u32 where "PAGE_SIZE \<equiv> 4096"

record pages =
  bitmap_len :: nat
  bitmap :: "u32 list"
  ref_counts :: "u8 list"
  total_kibibytes :: u32
  free_kibibytes :: u32

definition bitmap_get :: "pages \<Rightarrow> nat \<Rightarrow> bool option" where
  "bitmap_get s i =
     do { c_assert (i div 32 < bitmap_len s); w \<leftarrow> arr_get (bitmap s) (i div 32); Some (w AND push_bit (i mod 32) 1 \<noteq> 0) }"

definition bitmap_set :: "pages \<Rightarrow> nat \<Rightarrow> pages option" where
  "bitmap_set s i =
     do { c_assert (i div 32 < bitmap_len s); w \<leftarrow> arr_get (bitmap s) (i div 32);
          m \<leftarrow> arr_set (bitmap s) (i div 32) (w OR push_bit (i mod 32) 1); Some (s\<lparr>bitmap := m\<rparr>) }"

definition bitmap_clear :: "pages \<Rightarrow> nat \<Rightarrow> pages option" where
  "bitmap_clear s i =
     do { c_assert (i div 32 < bitmap_len s); w \<leftarrow> arr_get (bitmap s) (i div 32);
          m \<leftarrow> arr_set (bitmap s) (i div 32) (w AND NOT (push_bit (i mod 32) 1)); Some (s\<lparr>bitmap := m\<rparr>) }"

text \<open>The search over the words from \<open>i\<close> on, \<open>n\<close> words left; \<open>Inl\<close> is \<^verbatim>\<open>ENOMEM\<close>.\<close>

fun find_set_word :: "u32 list \<Rightarrow> nat \<Rightarrow> nat \<Rightarrow> nat result option" where
  "find_set_word m i 0 = Some (Inl ENOMEM)"
| "find_set_word m i (Suc n) =
     do { w \<leftarrow> arr_get m i; let b = ffs w; if b > 0 then Some (Inr (i * 32 + (b - 1))) else find_set_word m (Suc i) n }"

definition bitmap_find_first_set :: "pages \<Rightarrow> nat result option" where
  "bitmap_find_first_set s = find_set_word (bitmap s) 0 (bitmap_len s)"

section \<open>Allocation\<close>

definition page_alloc :: "pages \<Rightarrow> (u32 result \<times> pages) option" where
  "page_alloc s =
     do {
       r \<leftarrow> bitmap_find_first_set s;
       case r of
         Inl e \<Rightarrow> Some (Inl e, s)
       | Inr first_set \<Rightarrow>
           do {
             rc \<leftarrow> arr_get (ref_counts s) first_set;
             c_assert (rc = 0);
             free \<leftarrow> bitmap_get s first_set;
             c_assert free;
             rcs \<leftarrow> arr_set (ref_counts s) first_set 1;
             s' \<leftarrow> bitmap_clear (s\<lparr>ref_counts := rcs\<rparr>) first_set;
             Some (Inr (of_nat first_set * PAGE_SIZE), s'\<lparr>free_kibibytes := free_kibibytes s' - PAGE_SIZE div 1024\<rparr>)
           }
     }"

definition page_ref :: "pages \<Rightarrow> u32 \<Rightarrow> pages option" where
  "page_ref s phys_addr =
     do {
       c_assert (phys_addr mod PAGE_SIZE = 0);
       let index = unat (phys_addr div PAGE_SIZE);
       if index div 32 \<ge> bitmap_len s then Some s
       else do {
         rc \<leftarrow> arr_get (ref_counts s) index;
         c_assert (rc > 0);
         free \<leftarrow> bitmap_get s index;
         c_assert (\<not> free);
         if rc < 255 then do { rcs \<leftarrow> arr_set (ref_counts s) index (rc + 1); Some (s\<lparr>ref_counts := rcs\<rparr>) }
         else Some s
       }
     }"

definition page_unref :: "pages \<Rightarrow> u32 \<Rightarrow> pages option" where
  "page_unref s phys_addr =
     do {
       c_assert (phys_addr mod PAGE_SIZE = 0);
       let index = unat (phys_addr div PAGE_SIZE);
       if index div 32 \<ge> bitmap_len s then Some s
       else do {
         rc \<leftarrow> arr_get (ref_counts s) index;
         c_assert (rc > 0);
         free \<leftarrow> bitmap_get s index;
         c_assert (\<not> free);
         if rc < 255 then do {
           rcs \<leftarrow> arr_set (ref_counts s) index (rc - 1);
           let s' = s\<lparr>ref_counts := rcs\<rparr>;
           if rc - 1 = 0 then do {
             s'' \<leftarrow> bitmap_set s' index;
             Some (s''\<lparr>free_kibibytes := free_kibibytes s'' + PAGE_SIZE div 1024\<rparr>)
           }
           else Some s'
         }
         else Some s
       }
     }"

definition memory_get_stats :: "pages \<Rightarrow> u32 \<times> u32" where
  "memory_get_stats s = (total_kibibytes s, free_kibibytes s)"

section \<open>Initialisation\<close>

text \<open>
  What the boot loader passes: the memory map (when bit 6 of the flags is set), the modules (bit 3) and
  the size of upper memory in KiB. \<open>kernel_end\<close> is the physical end of the kernel image.
\<close>

record mmap_entry =
  entry_addr :: u64
  entry_len :: u64
  entry_type :: u32

record module =
  mod_start :: u32
  mod_end :: u32

record multiboot_info =
  has_mem_map :: bool
  has_mods :: bool
  mem_upper :: u32
  mmap :: "mmap_entry list"
  mods :: "module list"

abbreviation (input) MULTIBOOT_MEMORY_AVAILABLE :: u32 where "MULTIBOOT_MEMORY_AVAILABLE \<equiv> 1"

text \<open>The 64-bit end of an entry is cut to the 32 bits of \<^verbatim>\<open>uintptr_t\<close>.\<close>

definition entry_end :: "mmap_entry \<Rightarrow> u32" where
  "entry_end e = ucast (entry_addr e + entry_len e)"

fun upper_bound_loop :: "mmap_entry list \<Rightarrow> u32 \<Rightarrow> u32" where
  "upper_bound_loop [] ub = ub"
| "upper_bound_loop (e # es) ub =
     (if entry_type e \<noteq> MULTIBOOT_MEMORY_AVAILABLE then upper_bound_loop es ub
      else upper_bound_loop es (if ub < entry_end e then entry_end e else ub))"

definition get_available_physical_addr_bounds :: "multiboot_info \<Rightarrow> u32 \<Rightarrow> u32 \<times> u32" where
  "get_available_physical_addr_bounds mb kernel_end =
     (kernel_end, if \<not> has_mem_map mb then mem_upper mb * 0x400 + 0x100000 else upper_bound_loop (mmap mb) kernel_end)"

text \<open>\<open>for (i = from; i < to; ++i)\<close> over page numbers with a step that may panic.\<close>

fun for_pages :: "(pages \<Rightarrow> nat \<Rightarrow> pages option) \<Rightarrow> nat list \<Rightarrow> pages \<Rightarrow> pages option" where
  "for_pages f [] s = Some s"
| "for_pages f (i # is) s = do { s' \<leftarrow> f s i; for_pages f is s' }"

definition page_ceil :: "u32 \<Rightarrow> nat" where
  "page_ceil a = unat (DIV_CEIL a PAGE_SIZE)"

definition page_floor :: "u32 \<Rightarrow> nat" where
  "page_floor a = unat (a div PAGE_SIZE)"

fun mark_entries :: "mmap_entry list \<Rightarrow> u32 \<Rightarrow> pages \<Rightarrow> pages option" where
  "mark_entries [] lower_bound s = Some s"
| "mark_entries (e # es) lower_bound s =
     (if entry_type e \<noteq> MULTIBOOT_MEMORY_AVAILABLE then mark_entries es lower_bound s
      else let entry_start = (if ucast (entry_addr e) < lower_bound then lower_bound else ucast (entry_addr e))
           in if entry_start \<ge> entry_end e then mark_entries es lower_bound s
              else do {
                s' \<leftarrow> for_pages bitmap_set [page_ceil entry_start..<page_floor (entry_end e)] s;
                mark_entries es lower_bound s'
              })"

fun clear_modules :: "module list \<Rightarrow> pages \<Rightarrow> pages option" where
  "clear_modules [] s = Some s"
| "clear_modules (m # ms) s =
     do { s' \<leftarrow> for_pages bitmap_clear [page_floor (mod_start m)..<page_ceil (mod_end m)] s; clear_modules ms s' }"

fun init_counts :: "nat list \<Rightarrow> nat \<Rightarrow> pages \<Rightarrow> (nat \<times> pages) option" where
  "init_counts [] num_pages s = Some (num_pages, s)"
| "init_counts (i # is) num_pages s =
     do {
       free \<leftarrow> bitmap_get s i;
       if free then init_counts is (num_pages + 1) s
       else do { rcs \<leftarrow> arr_set (ref_counts s) i 255; init_counts is num_pages (s\<lparr>ref_counts := rcs\<rparr>) }
     }"

definition bitmap_init :: "multiboot_info \<Rightarrow> u32 \<Rightarrow> u32 \<Rightarrow> pages \<Rightarrow> pages option" where
  "bitmap_init mb lower_bound upper_bound s =
     do {
       let s0 = s\<lparr>bitmap_len := unat (DIV_CEIL upper_bound (PAGE_SIZE * 32))\<rparr>;
       c_assert (bitmap_len s0 \<le> BITMAP_MAX_LEN);
       s1 \<leftarrow> (if has_mem_map mb then mark_entries (mmap mb) lower_bound s0
              else for_pages bitmap_set [page_ceil lower_bound..<page_floor upper_bound] s0);
       s2 \<leftarrow> (if has_mods mb then clear_modules (mods mb) s1 else Some s1);
       (num_pages, s3) \<leftarrow> init_counts [0..<bitmap_len s2 * 32] 0 s2;
       let kib = of_nat num_pages * PAGE_SIZE div 1024;
       Some (s3\<lparr>total_kibibytes := kib, free_kibibytes := kib\<rparr>)
     }"

text \<open>The static data before \<^verbatim>\<open>page_init\<close> is zero; the argument is the virtual end of the kernel image.\<close>

definition zeroed_pages :: pages where
  "zeroed_pages = \<lparr>bitmap_len = 0, bitmap = replicate BITMAP_MAX_LEN 0, ref_counts = replicate MAX_NUM_PAGES 0,
     total_kibibytes = 0, free_kibibytes = 0\<rparr>"

definition page_init :: "multiboot_info \<Rightarrow> u32 \<Rightarrow> pages option" where
  "page_init mb kernel_end =
     do {
       c_assert (kernel_end \<le> 0xc0000000 + 1022 * PAGE_SIZE);
       let (lower_bound, upper_bound) = get_available_physical_addr_bounds mb (kernel_end - 0xc0000000);
       bitmap_init mb lower_bound upper_bound zeroed_pages
     }"

section \<open>The allocator as a set of free pages and a table of counts\<close>

definition is_free :: "pages \<Rightarrow> nat \<Rightarrow> bool" where
  "is_free s i \<longleftrightarrow> bit (bitmap s ! (i div 32)) (i mod 32)"

definition num_pages :: "pages \<Rightarrow> nat" where
  "num_pages s = bitmap_len s * 32"

definition bitmap_ok :: "pages \<Rightarrow> bool" where
  "bitmap_ok s \<longleftrightarrow> bitmap_len s \<le> BITMAP_MAX_LEN \<and> length (bitmap s) = BITMAP_MAX_LEN
     \<and> length (ref_counts s) = MAX_NUM_PAGES"

text \<open>The invariant: a page is free exactly when nothing refers to it.\<close>

definition page_inv :: "pages \<Rightarrow> bool" where
  "page_inv s \<longleftrightarrow> bitmap_ok s \<and> (\<forall>i<num_pages s. is_free s i \<longleftrightarrow> ref_counts s ! i = 0)"

lemma num_pages_bounds:
  assumes "bitmap_ok s" "i < num_pages s"
  shows "i div 32 < bitmap_len s" "i div 32 < length (bitmap s)" "i < length (ref_counts s)" "i < 2 ^ 20"
  using assms by (simp_all add: bitmap_ok_def num_pages_def BITMAP_MAX_LEN_def MAX_NUM_PAGES_def div_less_iff_less_mult)

lemma num_pages_iff: "i div 32 < bitmap_len s \<longleftrightarrow> i < num_pages s"
  by (simp add: num_pages_def div_less_iff_less_mult)

lemma bitmap_get_eq: "bitmap_ok s \<Longrightarrow> i < num_pages s \<Longrightarrow> bitmap_get s i = Some (is_free s i)"
  using num_pages_bounds [of s i] by (simp add: bitmap_get_def is_free_def bit_iff_and_push_bit_not_eq_0)

definition with_free :: "pages \<Rightarrow> nat \<Rightarrow> bool \<Rightarrow> pages" where
  "with_free s i b = s\<lparr>bitmap := (bitmap s)[i div 32 :=
     (if b then bitmap s ! (i div 32) OR push_bit (i mod 32) 1 else bitmap s ! (i div 32) AND NOT (push_bit (i mod 32) 1))]\<rparr>"

lemma with_free_select [simp]:
  "bitmap_len (with_free s i b) = bitmap_len s" "ref_counts (with_free s i b) = ref_counts s"
  "free_kibibytes (with_free s i b) = free_kibibytes s" "total_kibibytes (with_free s i b) = total_kibibytes s"
  "num_pages (with_free s i b) = num_pages s" "bitmap_ok (with_free s i b) = bitmap_ok s"
  "length (bitmap (with_free s i b)) = length (bitmap s)"
  by (simp_all add: with_free_def num_pages_def bitmap_ok_def)

lemma is_free_with_free:
  assumes "bitmap_ok s" "i < num_pages s"
  shows "is_free (with_free s i b) j \<longleftrightarrow> (if j = i then b else is_free s j)"
proof (cases "j div 32 = i div 32")
  case True
  have len: "i div 32 < length (bitmap s)" using num_pages_bounds [OF assms] by simp
  have "j mod 32 = i mod 32 \<longleftrightarrow> j = i" using True by (metis div_mult_mod_eq)
  moreover have "j mod 32 < 32" by simp
  ultimately show ?thesis
    using True len by (auto simp: is_free_def with_free_def bit_simps)
next
  case False
  then have "j \<noteq> i" by auto
  with False show ?thesis by (simp add: is_free_def with_free_def)
qed

lemma bitmap_set_eq: "bitmap_ok s \<Longrightarrow> i < num_pages s \<Longrightarrow> bitmap_set s i = Some (with_free s i True)"
  using num_pages_bounds [of s i] by (simp add: bitmap_set_def with_free_def)

lemma bitmap_clear_eq: "bitmap_ok s \<Longrightarrow> i < num_pages s \<Longrightarrow> bitmap_clear s i = Some (with_free s i False)"
  using num_pages_bounds [of s i] by (simp add: bitmap_clear_def with_free_def)

lemma find_set_word_spec:
  assumes "i + n \<le> length m"
  shows "\<exists>r. find_set_word m i n = Some r \<and>
    (case r of
       Inl e \<Rightarrow> e = ENOMEM \<and> (\<forall>j. i * 32 \<le> j \<and> j < (i + n) * 32 \<longrightarrow> \<not> bit (m ! (j div 32)) (j mod 32))
     | Inr p \<Rightarrow> i * 32 \<le> p \<and> p < (i + n) * 32 \<and> bit (m ! (p div 32)) (p mod 32)
         \<and> (\<forall>j. i * 32 \<le> j \<and> j < p \<longrightarrow> \<not> bit (m ! (j div 32)) (j mod 32)))"
  using assms
proof (induction n arbitrary: i)
  case (Suc n)
  have len: "i < length m" using Suc.prems by simp
  have word: "i * 32 \<le> j \<Longrightarrow> j < Suc i * 32 \<Longrightarrow> j div 32 = i \<and> j = i * 32 + j mod 32" for j
  proof -
    assume "i * 32 \<le> j" "j < Suc i * 32"
    then have "j div 32 = i" by (simp add: div_nat_eqI)
    with div_mult_mod_eq [of j 32] show "j div 32 = i \<and> j = i * 32 + j mod 32" by simp
  qed
  show ?case
  proof (cases "ffs (m ! i)")
    case 0
    then have "\<not> bit (m ! i) b" for b by (simp add: ffs_0_iff)
    then have none: "i * 32 \<le> j \<Longrightarrow> j < Suc i * 32 \<Longrightarrow> \<not> bit (m ! (j div 32)) (j mod 32)" for j
      using word [of j] by simp
    from Suc.IH [of "Suc i"] Suc.prems obtain r where r: "find_set_word m (Suc i) n = Some r"
      "case r of
         Inl e \<Rightarrow> e = ENOMEM \<and> (\<forall>j. Suc i * 32 \<le> j \<and> j < (Suc i + n) * 32 \<longrightarrow> \<not> bit (m ! (j div 32)) (j mod 32))
       | Inr p \<Rightarrow> Suc i * 32 \<le> p \<and> p < (Suc i + n) * 32 \<and> bit (m ! (p div 32)) (p mod 32)
           \<and> (\<forall>j. Suc i * 32 \<le> j \<and> j < p \<longrightarrow> \<not> bit (m ! (j div 32)) (j mod 32))" by auto
    have "find_set_word m i (Suc n) = Some r" using r(1) 0 len by simp
    moreover have "i * 32 \<le> j \<Longrightarrow> Suc i * 32 \<le> j \<or> j < Suc i * 32" for j by linarith
    ultimately show ?thesis using r(2) none by (cases r) fastforce+
  next
    case (Suc b)
    note f = ffs_SucD [OF Suc]
    have p: "(i * 32 + b) div 32 = i" "(i * 32 + b) mod 32 = b" using f(2) by auto
    have "\<not> bit (m ! (j div 32)) (j mod 32)" if "i * 32 \<le> j" "j < i * 32 + b" for j
    proof -
      have "j < Suc i * 32" using that f(2) by simp
      then have "j div 32 = i" "j mod 32 < b" using word [of j] that by auto
      then show ?thesis using f(3) by simp
    qed
    moreover have "find_set_word m i (Suc n) = Some (Inr (i * 32 + b))" using Suc len by simp
    ultimately show ?thesis using p f(1,2) by auto
  qed
qed auto

lemma first_set_spec:
  assumes "bitmap_ok s"
  shows "bitmap_find_first_set s = Some (Inl ENOMEM) \<and> (\<forall>i<num_pages s. \<not> is_free s i)
    \<or> (\<exists>p. bitmap_find_first_set s = Some (Inr p) \<and> p < num_pages s \<and> is_free s p \<and> (\<forall>i<p. \<not> is_free s i))"
proof -
  have "0 + bitmap_len s \<le> length (bitmap s)" using assms by (simp add: bitmap_ok_def)
  then obtain r where r: "bitmap_find_first_set s = Some r"
    "case r of
       Inl e \<Rightarrow> e = ENOMEM \<and> (\<forall>j. 0 * 32 \<le> j \<and> j < (0 + bitmap_len s) * 32 \<longrightarrow> \<not> bit (bitmap s ! (j div 32)) (j mod 32))
     | Inr p \<Rightarrow> 0 * 32 \<le> p \<and> p < (0 + bitmap_len s) * 32 \<and> bit (bitmap s ! (p div 32)) (p mod 32)
         \<and> (\<forall>j. 0 * 32 \<le> j \<and> j < p \<longrightarrow> \<not> bit (bitmap s ! (j div 32)) (j mod 32))"
    using find_set_word_spec [of 0 "bitmap_len s" "bitmap s"] unfolding bitmap_find_first_set_def by blast
  then show ?thesis by (cases r) (auto simp: is_free_def num_pages_def)
qed

text \<open>The free pages, and the figure that \<^verbatim>\<open>memory_get_stats\<close> reports for them.\<close>

definition free_set :: "pages \<Rightarrow> nat set" where
  "free_set s = {i. i < num_pages s \<and> is_free s i}"

definition stats_ok :: "pages \<Rightarrow> bool" where
  "stats_ok s \<longleftrightarrow> unat (free_kibibytes s) = 4 * card (free_set s)"

lemma finite_free_set [simp]: "finite (free_set s)"
  by (simp add: free_set_def)

lemma card_free_set: "bitmap_ok s \<Longrightarrow> card (free_set s) \<le> 2 ^ 20"
proof -
  assume ok: "bitmap_ok s"
  have "card (free_set s) \<le> card {..<num_pages s}" by (rule card_mono) (auto simp: free_set_def)
  with ok show ?thesis by (simp add: bitmap_ok_def num_pages_def BITMAP_MAX_LEN_def MAX_NUM_PAGES_def)
qed

definition page_addr :: "nat \<Rightarrow> u32" where
  "page_addr i = of_nat i * PAGE_SIZE"

lemma unat_page_addr: "i < 2 ^ 20 \<Longrightarrow> unat (page_addr i) = i * 4096"
  by (simp add: page_addr_def unat_word_ariths unat_of_nat)

lemma page_addr_props:
  assumes "i < 2 ^ 20"
  shows "page_addr i mod PAGE_SIZE = 0" "unat (page_addr i div PAGE_SIZE) = i"
  using unat_page_addr [OF assms] by (simp_all add: unat_div unat_mod word_unat_eq_iff)

section \<open>Properties\<close>

text \<open>What an allocation does to the counts and the bitmap.\<close>

lemma page_alloc_cases:
  assumes "page_inv s"
  shows "(free_set s = {} \<and> page_alloc s = Some (Inl ENOMEM, s))
    \<or> (\<exists>p s'. p = Min (free_set s) \<and> p \<in> free_set s \<and> page_alloc s = Some (Inr (page_addr p), s')
         \<and> page_inv s' \<and> num_pages s' = num_pages s \<and> free_set s' = free_set s - {p}
         \<and> ref_counts s' = (ref_counts s)[p := 1] \<and> free_kibibytes s' = free_kibibytes s - 4)"
proof -
  have ok: "bitmap_ok s" and inv: "\<And>i. i < num_pages s \<Longrightarrow> is_free s i \<longleftrightarrow> ref_counts s ! i = 0"
    using assms by (auto simp: page_inv_def)
  from first_set_spec [OF ok] show ?thesis
  proof
    assume none: "bitmap_find_first_set s = Some (Inl ENOMEM) \<and> (\<forall>i<num_pages s. \<not> is_free s i)"
    then show ?thesis by (auto simp: page_alloc_def free_set_def)
  next
    assume "\<exists>p. bitmap_find_first_set s = Some (Inr p) \<and> p < num_pages s \<and> is_free s p \<and> (\<forall>i<p. \<not> is_free s i)"
    then obtain p where p: "bitmap_find_first_set s = Some (Inr p)" "p < num_pages s" "is_free s p" "\<forall>i<p. \<not> is_free s i" by auto
    note b = num_pages_bounds [OF ok p(2)]
    let ?r = "s\<lparr>ref_counts := (ref_counts s)[p := 1]\<rparr>"
    let ?s = "(with_free ?r p False)\<lparr>free_kibibytes := free_kibibytes s - 4\<rparr>"
    have okr: "bitmap_ok ?r" "num_pages ?r = num_pages s" using ok by (simp_all add: bitmap_ok_def num_pages_def)
    have mem: "p \<in> free_set s" using p by (simp add: free_set_def)
    have run: "page_alloc s = Some (Inr (page_addr p), ?s)"
      using p b inv [OF p(2)] bitmap_get_eq [OF ok p(2)] bitmap_clear_eq [OF okr(1), of p] okr(2)
      by (simp add: page_alloc_def page_addr_def)
    have fr: "is_free ?s j \<longleftrightarrow> j \<noteq> p \<and> is_free s j" for j
      using is_free_with_free [OF okr(1), of p False j] p(2) okr(2) by (auto simp: is_free_def)
    have np: "num_pages ?s = num_pages s" by (simp add: num_pages_def)
    have fs: "free_set ?s = free_set s - {p}" using fr np by (auto simp: free_set_def)
    have "is_free ?s i \<longleftrightarrow> ref_counts ?s ! i = 0" if "i < num_pages s" for i
      using inv [OF that] fr [of i] b(3) by (cases "i = p") simp_all
    moreover have "bitmap_ok ?s" using ok by (simp add: bitmap_ok_def)
    ultimately have "page_inv ?s" unfolding page_inv_def np by blast
    moreover have "p \<le> i" if "i \<in> free_set s" for i
      using that p(4) by (auto simp: free_set_def intro: leI)
    then have "p = Min (free_set s)" using mem by (intro Min_eqI [symmetric]) simp_all
    ultimately show ?thesis using run fs mem np by (intro disjI2 exI [of _ p] exI [of _ ?s]) simp
  qed
qed

text \<open>
  C17. \<^verbatim>\<open>page_alloc\<close> on a consistent allocator fails no assertion. It hands out the lowest free page, which
  then has one reference and is no longer free, and it answers \<^verbatim>\<open>ENOMEM\<close>, changing nothing, only when no page
  is free. Every other page keeps its state, and the statistics go down by the page.
\<close>

theorem page_alloc_correct:
  assumes "page_inv s" "stats_ok s"
  shows "(free_set s = {} \<and> page_alloc s = Some (Inl ENOMEM, s))
    \<or> (\<exists>p s'. p = Min (free_set s) \<and> free_set s \<noteq> {} \<and> page_alloc s = Some (Inr (page_addr p), s')
         \<and> page_inv s' \<and> stats_ok s' \<and> free_set s' = free_set s - {p}
         \<and> ref_counts s' = (ref_counts s)[p := 1])"
  using page_alloc_cases [OF assms(1)]
proof
  assume "\<exists>p s'. p = Min (free_set s) \<and> p \<in> free_set s \<and> page_alloc s = Some (Inr (page_addr p), s')
         \<and> page_inv s' \<and> num_pages s' = num_pages s \<and> free_set s' = free_set s - {p}
         \<and> ref_counts s' = (ref_counts s)[p := 1] \<and> free_kibibytes s' = free_kibibytes s - 4"
  then obtain p s' where p: "p = Min (free_set s)" "p \<in> free_set s" "page_alloc s = Some (Inr (page_addr p), s')" "page_inv s'"
    "free_set s' = free_set s - {p}" "ref_counts s' = (ref_counts s)[p := 1]" "free_kibibytes s' = free_kibibytes s - 4"
    by blast
  have c: "card (free_set s) = Suc (card (free_set s'))"
    using p(5) card_Suc_Diff1 [OF finite_free_set p(2)] by simp
  then have "(4::u32) \<le> free_kibibytes s" using assms(2) by (simp add: stats_ok_def word_le_nat_alt)
  then have "unat (free_kibibytes s - 4) = unat (free_kibibytes s) - 4" by (simp add: unat_sub)
  with c assms(2) p(7) have "stats_ok s'" by (simp add: stats_ok_def)
  with p show ?thesis by (intro disjI2 exI [of _ p] exI [of _ s']) auto
qed simp


definition two_free_pages :: pages where
  "two_free_pages = \<lparr>bitmap_len = 1, bitmap = 12 # replicate (BITMAP_MAX_LEN - 1) 0,
     ref_counts = map (\<lambda>i. if i = 2 \<or> i = 3 then 0 else 255) [0..<MAX_NUM_PAGES],
     total_kibibytes = 8, free_kibibytes = 8\<rparr>"

lemma bit_12:
  assumes "i < 32"
  shows "bit (12::u32) i \<longleftrightarrow> i = 2 \<or> i = 3"
proof -
  have "list_all (\<lambda>i. bit (12::u32) i \<longleftrightarrow> i = 2 \<or> i = 3) [0..<32]" by code_simp
  with assms show ?thesis unfolding list_all_iff by (metis atLeast0LessThan lessThan_iff set_upt)
qed

lemma two_free_pages_is_free: "i < 32 \<Longrightarrow> is_free two_free_pages i \<longleftrightarrow> i = 2 \<or> i = 3"
  using bit_12 [of i] by (simp add: is_free_def two_free_pages_def)

lemma two_free_pages_ok:
  "page_inv two_free_pages" "stats_ok two_free_pages" "free_set two_free_pages = {2, 3}"
proof -
  have max: "32 \<le> MAX_NUM_PAGES" "0 < BITMAP_MAX_LEN" by (simp_all add: MAX_NUM_PAGES_def BITMAP_MAX_LEN_def)
  have fr: "is_free two_free_pages i \<longleftrightarrow> i = 2 \<or> i = 3" if "i < 32" for i
    using two_free_pages_is_free [OF that] .
  have n: "num_pages two_free_pages = 32" by (simp add: num_pages_def two_free_pages_def)
  show inv: "page_inv two_free_pages"
    using max fr n by (auto simp: page_inv_def bitmap_ok_def two_free_pages_def)
  show fs: "free_set two_free_pages = {2, 3}"
    using fr by (auto simp: free_set_def n)
  show "stats_ok two_free_pages" by (simp add: stats_ok_def fs) (simp add: two_free_pages_def)
qed

theorem page_alloc_correct_witness:
  "\<exists>s'. page_alloc two_free_pages = Some (Inr 0x2000, s') \<and> page_inv s' \<and> free_set s' = {3}"
proof -
  have "Min (free_set two_free_pages) = 2" by (simp add: two_free_pages_ok)
  with page_alloc_correct [OF two_free_pages_ok(1,2)] show ?thesis
    by (auto simp: two_free_pages_ok(3) page_addr_def insert_Diff_if)
qed

text \<open>What \<^verbatim>\<open>page_ref\<close> and \<^verbatim>\<open>page_unref\<close> do on a page that is in use.\<close>

lemma unat_u8_less: "unat (c::u8) < 256"
  using unsigned_less [of c] by simp

lemma u8_less_255: "c < 255 \<longleftrightarrow> c \<noteq> (255::u8)"
  using unat_u8_less [of c] by (simp add: word_less_nat_alt word_unat_eq_iff) linarith

lemma page_ref_eq:
  assumes "page_inv s" "p < num_pages s" "ref_counts s ! p \<noteq> 0"
  shows "page_ref s (page_addr p) =
    Some (if ref_counts s ! p < 255 then s\<lparr>ref_counts := (ref_counts s)[p := ref_counts s ! p + 1]\<rparr> else s)"
proof -
  have ok: "bitmap_ok s" and nf: "\<not> is_free s p" using assms by (auto simp: page_inv_def)
  note b = num_pages_bounds [OF ok assms(2)]
  from b bitmap_get_eq [OF ok assms(2)] nf page_addr_props [of p] assms(3) show ?thesis
    by (simp add: page_ref_def word_gt_0)
qed

lemma page_unref_eq:
  assumes "page_inv s" "p < num_pages s" "ref_counts s ! p \<noteq> 0"
  shows "page_unref s (page_addr p) = Some
    (let c = ref_counts s ! p in
     if c = 255 then s
     else if c = 1 then (with_free (s\<lparr>ref_counts := (ref_counts s)[p := 0]\<rparr>) p True)\<lparr>free_kibibytes := free_kibibytes s + 4\<rparr>
     else s\<lparr>ref_counts := (ref_counts s)[p := c - 1]\<rparr>)"
proof -
  have ok: "bitmap_ok s" and nf: "\<not> is_free s p" using assms by (auto simp: page_inv_def)
  note b = num_pages_bounds [OF ok assms(2)]
  have "bitmap_set (s\<lparr>ref_counts := (ref_counts s)[p := 0]\<rparr>) p = Some (with_free (s\<lparr>ref_counts := (ref_counts s)[p := 0]\<rparr>) p True)"
    using ok assms(2) by (intro bitmap_set_eq) (simp_all add: bitmap_ok_def num_pages_def)
  moreover have "c < 255 \<longleftrightarrow> c \<noteq> 255" for c :: u8 by (rule u8_less_255)
  moreover have "c - 1 = 0 \<longleftrightarrow> c = 1" for c :: u8 by auto
  ultimately show ?thesis
    using b bitmap_get_eq [OF ok assms(2)] nf page_addr_props [of p] assms(3)
    by (simp add: page_unref_def word_gt_0 Let_def)
qed

lemma page_unref_inv:
  assumes "page_inv s" "p < num_pages s" "ref_counts s ! p \<noteq> 0"
  shows "\<exists>s2. page_unref s (page_addr p) = Some s2 \<and> page_inv s2
    \<and> (if ref_counts s ! p = 1 then free_set s2 = insert p (free_set s) \<and> (stats_ok s \<longrightarrow> stats_ok s2) else free_set s2 = free_set s)"
proof -
  let ?c = "ref_counts s ! p"
  let ?u = "\<lambda>c. s\<lparr>ref_counts := (ref_counts s)[p := c]\<rparr>"
  have ok: "bitmap_ok s" and inv: "\<And>i. i < num_pages s \<Longrightarrow> is_free s i \<longleftrightarrow> ref_counts s ! i = 0"
    using assms(1) by (auto simp: page_inv_def)
  note b = num_pages_bounds [OF ok assms(2)]
  have u: "bitmap_ok (?u c)" "num_pages (?u c) = num_pages s" "is_free (?u c) i = is_free s i"
    "free_set (?u c) = free_set s" for c i
    using ok by (simp_all add: bitmap_ok_def num_pages_def is_free_def free_set_def)
  consider (sat) "?c = 255" | (last) "?c = 1" | (more) "?c \<noteq> 255" "?c \<noteq> 1" by blast
  then show ?thesis
  proof cases
    case sat
    then show ?thesis using page_unref_eq [OF assms] assms(1) by simp
  next
    case more
    then have nz: "?c - 1 \<noteq> 0" by simp
    have "page_inv (?u (?c - 1))"
      unfolding page_inv_def u(2,3)
    proof (intro conjI allI impI u(1))
      fix i assume "i < num_pages s"
      from inv [OF this] nz assms(3) b(3) show "is_free s i \<longleftrightarrow> ref_counts (?u (?c - 1)) ! i = 0" by (cases "i = p") simp_all
    qed
    with more u(4) show ?thesis using page_unref_eq [OF assms] by (simp add: Let_def)
  next
    case last
    let ?s = "(with_free (?u 0) p True)\<lparr>free_kibibytes := free_kibibytes s + 4\<rparr>"
    have np: "num_pages ?s = num_pages s" by (simp add: num_pages_def)
    have fr: "is_free ?s j \<longleftrightarrow> j = p \<or> is_free s j" for j
      using is_free_with_free [OF u(1), of p 0 True j] assms(2) u(2,3) by (auto simp: is_free_def)
    have "is_free ?s i \<longleftrightarrow> ref_counts ?s ! i = 0" if "i < num_pages s" for i
      using inv [OF that] fr [of i] b(3) by (cases "i = p") simp_all
    moreover have "bitmap_ok ?s" using ok by (simp add: bitmap_ok_def)
    ultimately have i: "page_inv ?s" unfolding page_inv_def np by blast
    have fs: "free_set ?s = insert p (free_set s)" using fr np assms(2) by (auto simp: free_set_def)
    have np': "p \<notin> free_set s" using inv [OF assms(2)] assms(3) by (simp add: free_set_def)
    have "card (free_set ?s) \<le> 2 ^ 20" using card_free_set [OF \<open>bitmap_ok ?s\<close>] .
    then have "stats_ok s \<longrightarrow> stats_ok ?s"
      using fs np' by (simp add: stats_ok_def unat_word_ariths)
    with i fs last show ?thesis using page_unref_eq [OF assms] by simp
  qed
qed

text \<open>
  C18. Reference counting of a page in use. A reference taken and dropped again leaves the allocator as it
  was, unless the count reached 255: then it stays there and the page is never freed. Dropping the last
  reference makes exactly this page free again and counts it in the statistics. No assertion fails and
  the invariant holds after each call.
\<close>

theorem page_refcounting:
  assumes "page_inv s" "stats_ok s" "p < num_pages s" "ref_counts s ! p \<noteq> 0"
  shows "\<exists>s1 s2. page_ref s (page_addr p) = Some s1 \<and> page_inv s1 \<and> page_unref s (page_addr p) = Some s2 \<and> page_inv s2
     \<and> (if ref_counts s ! p < 254 then page_unref s1 (page_addr p) = Some s
        else page_unref s1 (page_addr p) = Some s1 \<and> ref_counts s1 ! p = 255 \<and> \<not> is_free s1 p)
     \<and> (if ref_counts s ! p = 1 then free_set s2 = insert p (free_set s) \<and> stats_ok s2
        else free_set s2 = free_set s)"
proof -
  let ?c = "ref_counts s ! p"
  let ?u = "\<lambda>c. s\<lparr>ref_counts := (ref_counts s)[p := c]\<rparr>"
  have ok: "bitmap_ok s" and inv: "\<And>i. i < num_pages s \<Longrightarrow> is_free s i \<longleftrightarrow> ref_counts s ! i = 0"
    using assms(1) by (auto simp: page_inv_def)
  note b = num_pages_bounds [OF ok assms(3)]
  have u: "bitmap_ok (?u c)" "num_pages (?u c) = num_pages s" "is_free (?u c) i = is_free s i"
    "free_set (?u c) = free_set s" "ref_counts (?u c) ! p = c" for c i
    using ok b by (simp_all add: bitmap_ok_def num_pages_def is_free_def free_set_def)
  have inv_u: "page_inv (?u c)" if "c \<noteq> 0" for c
    unfolding page_inv_def u(2,3)
  proof (intro conjI allI impI u(1))
    fix i assume "i < num_pages s"
    from inv [OF this] that assms(4) b(3) show "is_free s i \<longleftrightarrow> ref_counts (?u c) ! i = 0" by (cases "i = p") simp_all
  qed
  define s1 where "s1 = (if ?c < 255 then ?u (?c + 1) else s)"
  have ref: "page_ref s (page_addr p) = Some s1" using page_ref_eq [OF assms(1,3,4)] by (simp add: s1_def)
  have c1: "?c + 1 \<noteq> 0" if "?c < 255"
    using that by (simp add: word_less_nat_alt word_unat_eq_iff unat_word_ariths)
  have inv1: "page_inv s1" using inv_u c1 assms(1) by (simp add: s1_def)
  define s2 where "s2 = (if ?c = 255 then s
     else if ?c = 1 then (with_free (?u 0) p True)\<lparr>free_kibibytes := free_kibibytes s + 4\<rparr> else ?u (?c - 1))"
  have unref: "page_unref s (page_addr p) = Some s2" using page_unref_eq [OF assms(1,3,4)] by (simp add: s2_def Let_def)
  have again: "if ?c < 254 then page_unref s1 (page_addr p) = Some s
      else page_unref s1 (page_addr p) = Some s1 \<and> ref_counts s1 ! p = 255 \<and> \<not> is_free s1 p"
  proof -
    have p1: "p < num_pages s1" "ref_counts s1 ! p \<noteq> 0" using u assms(3,4) c1 by (simp_all add: s1_def)
    have "\<not> is_free s1 p" using inv1 p1 by (simp add: page_inv_def)
    moreover have "?c < 254 \<Longrightarrow> ?c < 255 \<and> ?c + 1 \<noteq> 255 \<and> ?c + 1 \<noteq> 1"
      using assms(4) by (simp add: word_less_nat_alt word_unat_eq_iff unat_word_ariths)
    moreover have "\<not> ?c < 254 \<Longrightarrow> ref_counts s1 ! p = 255"
      using unat_u8_less [of ?c] b(3) by (auto simp: s1_def word_less_nat_alt word_unat_eq_iff unat_word_ariths)
    ultimately show ?thesis
      using page_unref_eq [OF inv1 p1] u(5) b(3) by (auto simp: s1_def Let_def)
  qed
  have last: "page_inv s2 \<and> (if ?c = 1 then free_set s2 = insert p (free_set s) \<and> stats_ok s2 else free_set s2 = free_set s)"
    using page_unref_inv [OF assms(1,3,4)] assms(2) unref by auto
  from ref inv1 unref again last show ?thesis by blast
qed

theorem page_refcounting_witness:
  "\<exists>s'. page_unref (two_free_pages\<lparr>ref_counts := (ref_counts two_free_pages)[5 := 1]\<rparr>) (page_addr 5) = Some s'
     \<and> page_inv s' \<and> free_set s' = {2, 3, 5}"
proof -
  let ?s = "two_free_pages\<lparr>ref_counts := (ref_counts two_free_pages)[5 := 1]\<rparr>"
  have n: "num_pages two_free_pages = 32" "num_pages ?s = 32" by (simp_all add: num_pages_def two_free_pages_def)
  have ok: "bitmap_ok two_free_pages" using two_free_pages_ok(1) by (simp add: page_inv_def)
  have fr: "is_free ?s i \<longleftrightarrow> i \<in> {2, 3}" if "i < 32" for i
    using two_free_pages_is_free [OF that] by (simp add: is_free_def)
  have len: "length (ref_counts two_free_pages) = MAX_NUM_PAGES" "32 \<le> MAX_NUM_PAGES"
    using ok by (simp_all add: bitmap_ok_def MAX_NUM_PAGES_def)
  have cnt: "ref_counts ?s ! i = (if i = 5 then 1 else if i \<in> {2, 3} then 0 else 255)" if "i < 32" for i
    using that len by (auto simp: two_free_pages_def nth_list_update)
  have "bitmap_ok ?s" using ok by (simp add: bitmap_ok_def)
  then have inv: "page_inv ?s" using fr cnt n by (auto simp: page_inv_def)
  have fs: "free_set ?s = {2, 3}" using fr n by (auto simp: free_set_def)
  have st: "stats_ok ?s" using two_free_pages_ok(2,3) fs by (simp add: stats_ok_def)
  have c5: "ref_counts ?s ! 5 = 1" using cnt [of 5] by simp
  have lt: "5 < num_pages ?s" unfolding n by simp
  have nz: "ref_counts ?s ! 5 \<noteq> 0" unfolding c5 by simp
  obtain s2 where s2: "page_unref ?s (page_addr 5) = Some s2" "page_inv s2"
    "if ref_counts ?s ! 5 = 1 then free_set s2 = insert 5 (free_set ?s) \<and> stats_ok s2 else free_set s2 = free_set ?s"
    using page_refcounting [OF inv st lt nz] by blast
  have "free_set s2 = {2, 3, 5}" using s2(3) unfolding c5 fs by auto
  with s2(1,2) show ?thesis by blast
qed

text \<open>The three operations on the table of counts, for any page address in use.\<close>

lemma page_inv_free_iff: "page_inv s \<Longrightarrow> p \<in> free_set s \<longleftrightarrow> p < num_pages s \<and> ref_counts s ! p = 0"
  by (auto simp: page_inv_def free_set_def)

lemma page_inv_len: "page_inv s \<Longrightarrow> p < num_pages s \<Longrightarrow> p < length (ref_counts s) \<and> p < 2 ^ 20"
  using num_pages_bounds [of s p] by (simp add: page_inv_def)

lemma page_inv_count:
  assumes "page_inv s" "p < num_pages s" "ref_counts s ! p \<noteq> 0" "c \<noteq> 0"
  shows "page_inv (s\<lparr>ref_counts := (ref_counts s)[p := c]\<rparr>)"
proof -
  let ?u = "s\<lparr>ref_counts := (ref_counts s)[p := c]\<rparr>"
  have u: "bitmap_ok ?u" "num_pages ?u = num_pages s" "\<And>i. is_free ?u i = is_free s i"
    using assms(1) by (simp_all add: page_inv_def bitmap_ok_def num_pages_def is_free_def)
  show ?thesis
    unfolding page_inv_def u(2,3)
  proof (intro conjI allI impI u(1))
    fix i assume i: "i < num_pages s"
    then have "is_free s i \<longleftrightarrow> ref_counts s ! i = 0" using assms(1) by (simp add: page_inv_def)
    then show "is_free s i \<longleftrightarrow> ref_counts ?u ! i = 0"
      using assms page_inv_len [OF assms(1,2)] by (cases "i = p") simp_all
  qed
qed

lemma page_alloc_counts:
  assumes "page_inv s"
  shows "page_alloc s = Some (Inl ENOMEM, s)
    \<or> (\<exists>p s'. p < num_pages s \<and> ref_counts s ! p = 0 \<and> page_alloc s = Some (Inr (page_addr p), s')
         \<and> page_inv s' \<and> num_pages s' = num_pages s \<and> ref_counts s' = (ref_counts s)[p := 1])"
  using page_alloc_cases [OF assms] page_inv_free_iff [OF assms] by blast

lemma page_index_page_addr: "p < 2 ^ 20 \<Longrightarrow> unat (page_addr p div PAGE_SIZE) = p"
  by (rule page_addr_props(2))

lemma page_addr_index:
  assumes "a mod PAGE_SIZE = 0"
  shows "a = page_addr (unat (a div PAGE_SIZE))" "unat (a div PAGE_SIZE) < 2 ^ 20"
proof -
  have "unat a mod 4096 = 0" using assms by (simp add: unat_mod word_unat_eq_iff)
  then have "unat a = unat a div 4096 * 4096" by (metis add.right_neutral div_mult_mod_eq)
  then have e: "unat a = unat (a div PAGE_SIZE) * 4096" by (simp add: unat_div)
  show l: "unat (a div PAGE_SIZE) < 2 ^ 20" using unat_u32_less [of a] by (simp add: unat_div)
  show "a = page_addr (unat (a div PAGE_SIZE))"
    using unat_page_addr [OF l] e by (simp add: word_unat_eq_iff)
qed

lemma page_ref_counts:
  assumes "page_inv s" "a mod PAGE_SIZE = 0" "p = unat (a div PAGE_SIZE)" "p < num_pages s \<Longrightarrow> ref_counts s ! p \<noteq> 0"
  shows "\<exists>s'. page_ref s a = Some s' \<and> page_inv s' \<and> num_pages s' = num_pages s
    \<and> ref_counts s' = (if p < num_pages s \<and> ref_counts s ! p \<noteq> 255 then (ref_counts s)[p := ref_counts s ! p + 1] else ref_counts s)"
proof (cases "p < num_pages s")
  case False
  then have "bitmap_len s \<le> p div 32" using num_pages_iff [of p s] by linarith
  with False assms(1-3) show ?thesis by (simp add: page_ref_def)
next
  case True
  have a: "page_addr p = a" using page_addr_index [OF assms(2)] assms(3) by simp
  let ?s = "if ref_counts s ! p < 255 then s\<lparr>ref_counts := (ref_counts s)[p := ref_counts s ! p + 1]\<rparr> else s"
  have run: "page_ref s a = Some ?s"
    using page_ref_eq [OF assms(1) True assms(4)] True a by simp
  have "ref_counts s ! p + 1 \<noteq> 0" if "ref_counts s ! p < 255"
    using that by (simp add: word_less_nat_alt word_unat_eq_iff unat_word_ariths)
  then have "page_inv ?s" using page_inv_count [OF assms(1) True assms(4)] True assms(1) by simp
  with run True show ?thesis by (auto simp: u8_less_255 num_pages_def)
qed

lemma page_unref_counts:
  assumes "page_inv s" "a mod PAGE_SIZE = 0" "p = unat (a div PAGE_SIZE)" "p < num_pages s \<Longrightarrow> ref_counts s ! p \<noteq> 0"
  shows "\<exists>s'. page_unref s a = Some s' \<and> page_inv s' \<and> num_pages s' = num_pages s
    \<and> ref_counts s' = (if p < num_pages s \<and> ref_counts s ! p \<noteq> 255 then (ref_counts s)[p := ref_counts s ! p - 1] else ref_counts s)"
proof (cases "p < num_pages s")
  case False
  then have "bitmap_len s \<le> p div 32" using num_pages_iff [of p s] by linarith
  with False assms(1-3) show ?thesis by (simp add: page_unref_def)
next
  case True
  have a: "page_addr p = a" using page_addr_index [OF assms(2)] assms(3) by simp
  have nz: "ref_counts s ! p \<noteq> 0" using assms(4) True .
  obtain s2 where s2: "page_unref s a = Some s2" "page_inv s2"
    using page_unref_inv [OF assms(1) True nz] a by blast
  with page_unref_eq [OF assms(1) True nz] a True show ?thesis
    by (auto simp: Let_def num_pages_def split: if_splits)
qed

section \<open>The state after initialisation\<close>

text \<open>Two states with the same tables but other free pages.\<close>

definition same_but_free :: "pages \<Rightarrow> pages \<Rightarrow> bool" where
  "same_but_free s s' \<longleftrightarrow> bitmap_len s' = bitmap_len s \<and> ref_counts s' = ref_counts s
     \<and> length (bitmap s') = length (bitmap s)"

lemma same_but_free_ok: "same_but_free s s' \<Longrightarrow> bitmap_ok s' = bitmap_ok s \<and> num_pages s' = num_pages s"
  by (simp add: same_but_free_def bitmap_ok_def num_pages_def)

lemma for_pages_set:
  assumes "bitmap_ok s" "\<forall>i\<in>set is. i < num_pages s"
  shows "\<exists>s'. for_pages bitmap_set is s = Some s' \<and> same_but_free s s' \<and> (\<forall>j. is_free s' j \<longleftrightarrow> j \<in> set is \<or> is_free s j)"
  using assms
proof (induction "is" arbitrary: s)
  case (Cons i "is")
  have i: "i < num_pages s" using Cons.prems by simp
  obtain s' where "for_pages bitmap_set is (with_free s i True) = Some s'" "same_but_free (with_free s i True) s'"
    "\<forall>j. is_free s' j \<longleftrightarrow> j \<in> set is \<or> is_free (with_free s i True) j"
    using Cons.IH [of "with_free s i True"] Cons.prems by auto
  with bitmap_set_eq [OF Cons.prems(1) i] is_free_with_free [OF Cons.prems(1) i] show ?case
    by (auto simp: same_but_free_def)
qed (simp add: same_but_free_def)

lemma for_pages_clear:
  assumes "bitmap_ok s" "\<forall>i\<in>set is. i < num_pages s"
  shows "\<exists>s'. for_pages bitmap_clear is s = Some s' \<and> same_but_free s s' \<and> (\<forall>j. is_free s' j \<longleftrightarrow> j \<notin> set is \<and> is_free s j)"
  using assms
proof (induction "is" arbitrary: s)
  case (Cons i "is")
  have i: "i < num_pages s" using Cons.prems by simp
  obtain s' where "for_pages bitmap_clear is (with_free s i False) = Some s'" "same_but_free (with_free s i False) s'"
    "\<forall>j. is_free s' j \<longleftrightarrow> j \<notin> set is \<and> is_free (with_free s i False) j"
    using Cons.IH [of "with_free s i False"] Cons.prems by auto
  with bitmap_clear_eq [OF Cons.prems(1) i] is_free_with_free [OF Cons.prems(1) i] show ?case
    by (auto simp: same_but_free_def)
qed (simp add: same_but_free_def)

text \<open>The pages that an available entry of the map marks.\<close>

definition entry_start :: "u32 \<Rightarrow> mmap_entry \<Rightarrow> u32" where
  "entry_start lower_bound e = (if ucast (entry_addr e) < lower_bound then lower_bound else ucast (entry_addr e))"

definition entry_pages :: "u32 \<Rightarrow> mmap_entry \<Rightarrow> nat set" where
  "entry_pages lower_bound e =
     (if entry_type e = MULTIBOOT_MEMORY_AVAILABLE \<and> entry_start lower_bound e < entry_end e
      then {page_ceil (entry_start lower_bound e)..<page_floor (entry_end e)} else {})"

definition module_pages :: "module \<Rightarrow> nat set" where
  "module_pages m = {page_floor (mod_start m)..<page_ceil (mod_end m)}"

lemma mark_entries_exact:
  assumes "bitmap_ok s" "\<forall>e\<in>set es. entry_pages lb e \<subseteq> {..<num_pages s}"
  shows "\<exists>s'. mark_entries es lb s = Some s' \<and> same_but_free s s'
     \<and> (\<forall>j. is_free s' j \<longleftrightarrow> (\<exists>e\<in>set es. j \<in> entry_pages lb e) \<or> is_free s j)"
  using assms
proof (induction es arbitrary: s)
  case (Cons e es)
  show ?case
  proof (cases "entry_type e = MULTIBOOT_MEMORY_AVAILABLE \<and> entry_start lb e < entry_end e")
    case False
    then have "mark_entries (e # es) lb s = mark_entries es lb s" "entry_pages lb e = {}"
      by (auto simp: entry_start_def entry_pages_def Let_def not_le [symmetric])
    with Cons show ?thesis by auto
  next
    case True
    let ?is = "[page_ceil (entry_start lb e)..<page_floor (entry_end e)]"
    have pe: "entry_pages lb e = set ?is" using True by (simp add: entry_pages_def)
    have "\<forall>i\<in>set ?is. i < num_pages s" using Cons.prems(2) pe by (auto simp del: set_upt)
    from for_pages_set [OF Cons.prems(1) this] obtain s1 where s1: "for_pages bitmap_set ?is s = Some s1"
      "same_but_free s s1" "\<forall>j. is_free s1 j \<longleftrightarrow> j \<in> set ?is \<or> is_free s j" by blast
    have run: "mark_entries (e # es) lb s = mark_entries es lb s1"
      using True s1(1) by (simp add: entry_start_def Let_def not_le [symmetric])
    obtain s' where "mark_entries es lb s1 = Some s'" "same_but_free s1 s'"
      "\<forall>j. is_free s' j \<longleftrightarrow> (\<exists>e\<in>set es. j \<in> entry_pages lb e) \<or> is_free s1 j"
      using Cons.IH [of s1] Cons.prems same_but_free_ok [OF s1(2)] by auto
    with run s1(2,3) pe show ?thesis by (auto simp: same_but_free_def)
  qed
qed (simp add: same_but_free_def)

lemma clear_modules_exact:
  assumes "bitmap_ok s" "\<forall>m\<in>set ms. module_pages m \<subseteq> {..<num_pages s}"
  shows "\<exists>s'. clear_modules ms s = Some s' \<and> same_but_free s s'
     \<and> (\<forall>j. is_free s' j \<longleftrightarrow> (\<forall>m\<in>set ms. j \<notin> module_pages m) \<and> is_free s j)"
  using assms
proof (induction ms arbitrary: s)
  case (Cons m ms)
  let ?is = "[page_floor (mod_start m)..<page_ceil (mod_end m)]"
  have pe: "module_pages m = set ?is" by (simp add: module_pages_def)
  have "\<forall>i\<in>set ?is. i < num_pages s" using Cons.prems(2) pe by (auto simp del: set_upt)
  from for_pages_clear [OF Cons.prems(1) this] obtain s1 where s1: "for_pages bitmap_clear ?is s = Some s1"
    "same_but_free s s1" "\<forall>j. is_free s1 j \<longleftrightarrow> j \<notin> set ?is \<and> is_free s j" by blast
  obtain s' where "clear_modules ms s1 = Some s'" "same_but_free s1 s'"
    "\<forall>j. is_free s' j \<longleftrightarrow> (\<forall>m\<in>set ms. j \<notin> module_pages m) \<and> is_free s1 j"
    using Cons.IH [of s1] Cons.prems same_but_free_ok [OF s1(2)] by auto
  with s1 pe show ?case by (auto simp: same_but_free_def)
qed (simp add: same_but_free_def)

lemma init_counts_exact:
  assumes "bitmap_ok s" "distinct is" "\<forall>i\<in>set is. i < num_pages s"
  shows "\<exists>s'. init_counts is n s = Some (n + card {i\<in>set is. is_free s i}, s')
     \<and> bitmap_len s' = bitmap_len s \<and> bitmap s' = bitmap s \<and> length (ref_counts s') = length (ref_counts s)
     \<and> (\<forall>j. j < length (ref_counts s) \<longrightarrow>
            ref_counts s' ! j = (if j \<in> set is \<and> \<not> is_free s j then 255 else ref_counts s ! j))"
  using assms
proof (induction "is" arbitrary: s n)
  case (Cons i "is")
  have i: "i < num_pages s" using Cons.prems by simp
  note b = num_pages_bounds [OF Cons.prems(1) i]
  show ?case
  proof (cases "is_free s i")
    case True
    have "{j\<in>set (i # is). is_free s j} = insert i {j\<in>set is. is_free s j}" using True by auto
    with Cons.prems(2) have c: "card {j\<in>set (i # is). is_free s j} = Suc (card {j\<in>set is. is_free s j})" by simp
    obtain s' where "init_counts is (n + 1) s = Some (n + 1 + card {j\<in>set is. is_free s j}, s')"
      "bitmap_len s' = bitmap_len s" "bitmap s' = bitmap s" "length (ref_counts s') = length (ref_counts s)"
      "\<forall>j. j < length (ref_counts s) \<longrightarrow> ref_counts s' ! j = (if j \<in> set is \<and> \<not> is_free s j then 255 else ref_counts s ! j)"
      using Cons.IH [of s "n + 1"] Cons.prems by auto
    with True bitmap_get_eq [OF Cons.prems(1) i] c show ?thesis by auto
  next
    case False
    let ?s = "s\<lparr>ref_counts := (ref_counts s)[i := 255]\<rparr>"
    have fr: "is_free ?s = is_free s" by (simp add: is_free_def fun_eq_iff)
    have "{j\<in>set (i # is). is_free s j} = {j\<in>set is. is_free s j}" using False by auto
    moreover obtain s' where "init_counts is n ?s = Some (n + card {j\<in>set is. is_free ?s j}, s')"
      "bitmap_len s' = bitmap_len ?s" "bitmap s' = bitmap ?s" "length (ref_counts s') = length (ref_counts ?s)"
      "\<forall>j. j < length (ref_counts ?s) \<longrightarrow> ref_counts s' ! j = (if j \<in> set is \<and> \<not> is_free ?s j then 255 else ref_counts ?s ! j)"
      using Cons.IH [of ?s n] Cons.prems by (auto simp: bitmap_ok_def num_pages_def)
    ultimately show ?thesis
      using False bitmap_get_eq [OF Cons.prems(1) i] fr b(3) Cons.prems(2) by (auto simp: nth_list_update)
  qed
qed simp

lemma page_floor_nat: "page_floor a = unat a div 4096"
  by (simp add: page_floor_def unat_div)

lemma page_ceil_nat: "unat a + 4096 < 2 ^ 32 \<Longrightarrow> page_ceil a = (unat a + 4095) div 4096"
  by (simp add: page_ceil_def DIV_CEIL_def unat_div unat_word_ariths unat_sub_if')

lemma upper_bound_loop_ge: "ub \<le> upper_bound_loop es ub"
proof (induction es arbitrary: ub)
  case (Cons e es)
  have "ub \<le> (if ub < entry_end e then entry_end e else ub)" by (simp add: order.strict_implies_order)
  with Cons [of "if ub < entry_end e then entry_end e else ub"] Cons [of ub] show ?case
    by (auto intro: order_trans)
qed simp

lemma upper_bound_loop_entry:
  "e \<in> set es \<Longrightarrow> entry_type e = MULTIBOOT_MEMORY_AVAILABLE \<Longrightarrow> entry_end e \<le> upper_bound_loop es ub"
proof (induction es arbitrary: ub)
  case (Cons f es)
  then show ?case
    using upper_bound_loop_ge [of "if ub < entry_end e then entry_end e else ub" es]
    by (auto split: if_splits intro: order_trans simp: not_less)
qed simp

definition init_len :: "u32 \<Rightarrow> nat" where
  "init_len ub = unat (DIV_CEIL ub (PAGE_SIZE * 32))"

lemma init_len_bound: "init_len ub \<le> BITMAP_MAX_LEN"
proof -
  have "unat (ub + 131072 - 1) div 131072 \<le> (2 ^ 32 - 1) div 131072"
    using unat_u32_less [of "ub + 131072 - 1"] by (intro div_le_mono) simp
  then show ?thesis by (simp add: init_len_def DIV_CEIL_def unat_div BITMAP_MAX_LEN_def MAX_NUM_PAGES_def)
qed

lemma page_floor_in_bitmap:
  assumes "ub \<le> 0xfffe0000" "a \<le> ub"
  shows "page_floor a \<le> init_len ub * 32" "unat a + 4096 < 2 ^ 32" "page_ceil a \<le> init_len ub * 32"
proof -
  have ub: "unat ub \<le> 0xfffe0000" "unat a \<le> unat ub" using assms by (simp_all add: word_le_nat_alt)
  have len: "init_len ub = (unat ub + 131071) div 131072"
    using ub by (simp add: init_len_def DIV_CEIL_def unat_div unat_word_ariths unat_sub_if')
  show "unat a + 4096 < 2 ^ 32" using ub by simp
  have le: "unat ub \<le> (unat ub + 131071) div 131072 * 131072" by linarith
  show "page_floor a \<le> init_len ub * 32" unfolding page_floor_nat len using ub le by linarith
  show "page_ceil a \<le> init_len ub * 32"
    unfolding page_ceil_nat [OF \<open>unat a + 4096 < 2 ^ 32\<close>] len using ub le by linarith
qed

lemma init_len_small:
  assumes "ub \<le> 0xfffe0000"
  shows "init_len ub * 32 < 2 ^ 20"
proof -
  have "unat ub \<le> 0xfffe0000" using assms by (simp add: word_le_nat_alt)
  then have "init_len ub = (unat ub + 131071) div 131072"
    by (simp add: init_len_def DIV_CEIL_def unat_div unat_word_ariths unat_sub_if')
  with \<open>unat ub \<le> 0xfffe0000\<close> show ?thesis by simp
qed

text \<open>The two passes over the boot information: marking the available pages and clearing those of the modules.\<close>

definition init_free :: "multiboot_info \<Rightarrow> u32 \<Rightarrow> nat \<Rightarrow> bool" where
  "init_free mb lb i \<longleftrightarrow> (\<exists>e\<in>set (mmap mb). i \<in> entry_pages lb e)
     \<and> (has_mods mb \<longrightarrow> (\<forall>m\<in>set (mods mb). i \<notin> module_pages m))"

lemma init_passes:
  assumes "ub = upper_bound_loop (mmap mb) lb" "ub \<le> 0xfffe0000"
    and "has_mods mb \<longrightarrow> (\<forall>m\<in>set (mods mb). mod_end m \<le> ub)"
  defines "s0 \<equiv> zeroed_pages\<lparr>bitmap_len := init_len ub\<rparr>"
  shows "\<exists>s1 s2. mark_entries (mmap mb) lb s0 = Some s1
     \<and> (if has_mods mb then clear_modules (mods mb) s1 else Some s1) = Some s2 \<and> same_but_free s0 s2
     \<and> (\<forall>j<num_pages s2. is_free s2 j \<longleftrightarrow> init_free mb lb j) \<and> (\<forall>j. init_free mb lb j \<longrightarrow> j < num_pages s2)"
proof -
  have ok0: "bitmap_ok s0" and n0: "num_pages s0 = init_len ub * 32"
    using init_len_bound [of ub] by (simp_all add: bitmap_ok_def zeroed_pages_def num_pages_def s0_def)
  have free0: "\<not> is_free s0 j" if "j < num_pages s0" for j
    using num_pages_bounds [OF ok0 that] by (simp add: is_free_def zeroed_pages_def s0_def)
  have sub: "\<forall>e\<in>set (mmap mb). entry_pages lb e \<subseteq> {..<num_pages s0}"
    using upper_bound_loop_entry [of _ "mmap mb" lb] page_floor_in_bitmap(1) [OF assms(2)]
    unfolding n0 assms(1) [symmetric] by (auto simp: entry_pages_def intro: less_le_trans)
  from mark_entries_exact [OF ok0 sub] obtain s1 where s1: "mark_entries (mmap mb) lb s0 = Some s1" "same_but_free s0 s1"
    "\<forall>j. is_free s1 j \<longleftrightarrow> (\<exists>e\<in>set (mmap mb). j \<in> entry_pages lb e) \<or> is_free s0 j" by blast
  have ok1: "bitmap_ok s1" and n1: "num_pages s1 = num_pages s0" using same_but_free_ok [OF s1(2)] ok0 by auto
  have "\<exists>s2. (if has_mods mb then clear_modules (mods mb) s1 else Some s1) = Some s2 \<and> same_but_free s1 s2
      \<and> (\<forall>j. is_free s2 j \<longleftrightarrow> (has_mods mb \<longrightarrow> (\<forall>m\<in>set (mods mb). j \<notin> module_pages m)) \<and> is_free s1 j)"
  proof (cases "has_mods mb")
    case True
    have "\<forall>m\<in>set (mods mb). module_pages m \<subseteq> {..<num_pages s1}"
      using True assms(3) page_floor_in_bitmap(3) [OF assms(2)] unfolding n1 n0
      by (auto simp: module_pages_def intro: less_le_trans)
    from clear_modules_exact [OF ok1 this] True show ?thesis by auto
  qed (simp add: same_but_free_def)
  then obtain s2 where s2: "(if has_mods mb then clear_modules (mods mb) s1 else Some s1) = Some s2" "same_but_free s1 s2"
    "\<forall>j. is_free s2 j \<longleftrightarrow> (has_mods mb \<longrightarrow> (\<forall>m\<in>set (mods mb). j \<notin> module_pages m)) \<and> is_free s1 j" by blast
  have n2: "num_pages s2 = num_pages s0" using same_but_free_ok [OF s2(2)] n1 by simp
  have "\<forall>j<num_pages s2. is_free s2 j \<longleftrightarrow> init_free mb lb j"
    using s2(3) s1(3) free0 n2 by (auto simp: init_free_def)
  moreover have "\<forall>j. init_free mb lb j \<longrightarrow> j < num_pages s2"
    using sub n2 by (auto simp: init_free_def)
  moreover have "same_but_free s0 s2" using s1(2) s2(2) by (simp add: same_but_free_def)
  ultimately show ?thesis using s1(1) s2(1) by blast
qed

lemma init_counts_inv:
  assumes "bitmap_ok s" "\<forall>j<num_pages s. ref_counts s ! j = 0" "num_pages s < 2 ^ 20"
  shows "\<exists>n s'. init_counts [0..<bitmap_len s * 32] 0 s = Some (n, s') \<and> num_pages s' = num_pages s
     \<and> (let kib = of_nat n * PAGE_SIZE div 1024; r = s'\<lparr>total_kibibytes := kib, free_kibibytes := kib\<rparr>
        in page_inv r \<and> stats_ok r \<and> num_pages r = num_pages s \<and> free_set r = free_set s)"
proof -
  have "\<forall>i\<in>set [0..<bitmap_len s * 32]. i < num_pages s" by (simp add: num_pages_def)
  from init_counts_exact [OF assms(1) distinct_upt this, of 0] obtain s3 where
    s3: "init_counts [0..<bitmap_len s * 32] 0 s = Some (card {i\<in>set [0..<bitmap_len s * 32]. is_free s i}, s3)"
      "bitmap_len s3 = bitmap_len s" "bitmap s3 = bitmap s" "length (ref_counts s3) = length (ref_counts s)"
      "\<forall>j. j < length (ref_counts s) \<longrightarrow>
         ref_counts s3 ! j = (if j \<in> set [0..<bitmap_len s * 32] \<and> \<not> is_free s j then 255 else ref_counts s ! j)"
    by (auto simp del: set_upt)
  let ?n = "card {i\<in>set [0..<bitmap_len s * 32]. is_free s i}"
  let ?kib = "of_nat ?n * PAGE_SIZE div 1024"
  let ?r = "s3\<lparr>total_kibibytes := ?kib, free_kibibytes := ?kib\<rparr>"
  have fr: "is_free ?r j \<longleftrightarrow> is_free s j" for j using s3(3) by (simp add: is_free_def)
  have np: "num_pages ?r = num_pages s" "num_pages s3 = num_pages s" using s3(2) by (simp_all add: num_pages_def)
  have fs: "free_set ?r = free_set s" "{i\<in>set [0..<bitmap_len s * 32]. is_free s i} = free_set s"
    using fr np by (auto simp: free_set_def num_pages_def)
  have "page_inv ?r"
    unfolding page_inv_def np
  proof (intro conjI allI impI)
    show "bitmap_ok ?r" using assms(1) s3(2-4) by (simp add: bitmap_ok_def)
    fix i assume i: "i < num_pages s"
    have "ref_counts s3 ! i = (if \<not> is_free s i then 255 else ref_counts s ! i)"
      using s3(5) num_pages_bounds(3) [OF assms(1) i] i by (simp add: num_pages_def)
    with assms(2) i fr show "is_free ?r i \<longleftrightarrow> ref_counts ?r ! i = 0" by simp
  qed
  moreover have "card (free_set s) < 2 ^ 20"
  proof -
    have "card (free_set s) \<le> card {..<num_pages s}" by (intro card_mono) (auto simp: free_set_def)
    with assms(3) show ?thesis by simp
  qed
  then have "unat ?kib = 4 * card (free_set s)"
    unfolding fs by (simp add: unat_div unat_word_ariths unat_of_nat)
  then have "stats_ok ?r" unfolding stats_ok_def fs(1) by simp
  ultimately show ?thesis using s3(1) np fs(1) by (auto simp: Let_def simp del: set_upt)
qed

text \<open>
  The exact result of \<^verbatim>\<open>page_init\<close> with a memory map: the marked pages less those of the modules are free,
  every other page has the saturated count.
\<close>

lemma page_init_exact:
  assumes "has_mem_map mb" "kernel_end \<le> 0xc0000000 + 1022 * PAGE_SIZE"
    and "lb = kernel_end - 0xc0000000" "ub = upper_bound_loop (mmap mb) lb" "ub \<le> 0xfffe0000"
    and "has_mods mb \<longrightarrow> (\<forall>m\<in>set (mods mb). mod_end m \<le> ub)"
  shows "\<exists>s. page_init mb kernel_end = Some s \<and> page_inv s \<and> stats_ok s \<and> num_pages s = init_len ub * 32
     \<and> (\<forall>i. i \<in> free_set s \<longleftrightarrow> init_free mb lb i)"
proof -
  let ?s0 = "zeroed_pages\<lparr>bitmap_len := init_len ub\<rparr>"
  obtain s1 s2 where s: "mark_entries (mmap mb) lb ?s0 = Some s1"
    "(if has_mods mb then clear_modules (mods mb) s1 else Some s1) = Some s2" "same_but_free ?s0 s2"
    "\<forall>j<num_pages s2. is_free s2 j \<longleftrightarrow> init_free mb lb j" "\<forall>j. init_free mb lb j \<longrightarrow> j < num_pages s2"
    using init_passes [OF assms(4-6)] by blast
  have ok: "bitmap_ok s2" and np: "num_pages s2 = init_len ub * 32"
    using same_but_free_ok [OF s(3)] init_len_bound [of ub]
    by (simp_all add: bitmap_ok_def zeroed_pages_def num_pages_def)
  have "ref_counts s2 ! j = 0" if "j < num_pages s2" for j
    using num_pages_bounds(3) [OF ok that] s(3) by (simp add: same_but_free_def zeroed_pages_def)
  then obtain n s3 where s3: "init_counts [0..<bitmap_len s2 * 32] 0 s2 = Some (n, s3)"
    "let kib = of_nat n * PAGE_SIZE div 1024; r = s3\<lparr>total_kibibytes := kib, free_kibibytes := kib\<rparr>
     in page_inv r \<and> stats_ok r \<and> num_pages r = num_pages s2 \<and> free_set r = free_set s2"
    using init_counts_inv [OF ok] init_len_small [OF assms(5)] np by auto
  let ?kib = "of_nat n * PAGE_SIZE div 1024"
  have "page_init mb kernel_end = Some (s3\<lparr>total_kibibytes := ?kib, free_kibibytes := ?kib\<rparr>)"
    using assms(1,2) s(1,2) s3(1) init_len_bound [of ub]
    unfolding page_init_def get_available_physical_addr_bounds_def bitmap_init_def assms(3,4) [symmetric]
    by (simp add: init_len_def Let_def)
  moreover have "i \<in> free_set s2 \<longleftrightarrow> init_free mb lb i" for i
    using s(4,5) by (auto simp: free_set_def)
  ultimately show ?thesis
    using s3(2) np by (intro exI [of _ "s3\<lparr>total_kibibytes := ?kib, free_kibibytes := ?kib\<rparr>"]) (simp add: Let_def)
qed

lemma entry_pages_nat:
  assumes "unat (entry_addr e) + unat (entry_len e) < 2 ^ 32" "entry_end e \<le> 0xfffe0000" "lb \<le> 0xfffe0000"
  shows "i \<in> entry_pages lb e \<longleftrightarrow> entry_type e = MULTIBOOT_MEMORY_AVAILABLE \<and> unat lb \<le> i * 4096
     \<and> unat (entry_addr e) \<le> i * 4096 \<and> (i + 1) * 4096 \<le> unat (entry_addr e) + unat (entry_len e)"
proof -
  have ea: "unat (ucast (entry_addr e) :: u32) = unat (entry_addr e)"
    using assms(1) by (simp add: unsigned_ucast_eq take_bit_nat_eq_self)
  have ee: "unat (entry_end e) = unat (entry_addr e) + unat (entry_len e)"
    using assms(1) by (simp add: entry_end_def unsigned_ucast_eq unat_word_ariths take_bit_nat_eq_self)
  have st: "unat (entry_start lb e) = max (unat lb) (unat (entry_addr e))"
    using ea by (auto simp: entry_start_def word_less_nat_alt max_def)
  have small: "max (unat lb) (unat (entry_addr e)) + 4096 < 2 ^ 32"
    using assms(2,3) ee by (simp add: word_le_nat_alt)
  have "i \<in> {page_ceil (entry_start lb e)..<page_floor (entry_end e)} \<longleftrightarrow>
     max (unat lb) (unat (entry_addr e)) \<le> i * 4096 \<and> (i + 1) * 4096 \<le> unat (entry_addr e) + unat (entry_len e)"
    using small st ee by (simp add: page_ceil_nat page_floor_nat) linarith
  moreover have "entry_start lb e < entry_end e" if "(i + 1) * 4096 \<le> unat (entry_addr e) + unat (entry_len e)"
    "max (unat lb) (unat (entry_addr e)) \<le> i * 4096"
    using that st ee by (simp add: word_less_nat_alt)
  ultimately show ?thesis by (auto simp: entry_pages_def)
qed

lemma module_pages_nat:
  "unat (mod_end m) + 4096 < 2 ^ 32 \<Longrightarrow> i \<in> module_pages m \<longleftrightarrow> unat (mod_start m) < (i + 1) * 4096 \<and> i * 4096 < unat (mod_end m)"
  by (simp add: module_pages_def page_floor_nat page_ceil_nat) linarith

text \<open>
  C19. \<^verbatim>\<open>page_init\<close> establishes the invariant when the boot loader gives a memory map, every entry of the map ends below 4 GiB, the
  available memory ends at 0xfffe0000 at most, the kernel image fits the page tables of the boot code, and the boot modules lie
  below the end of the available memory. The free pages are then exactly those that lie completely inside an available entry of the map,
  after the kernel image, and that no boot module touches. For entries above 4 GiB this is false, as
  \<open>page_init_truncates_high_memory\<close> below shows.
\<close>

theorem page_init_free_pages:
  assumes "has_mem_map mb" "0xc0000000 \<le> kernel_end" "kernel_end \<le> 0xc0000000 + 1022 * PAGE_SIZE"
    and "lb = kernel_end - 0xc0000000" "ub = upper_bound_loop (mmap mb) lb" "ub \<le> 0xfffe0000"
    and "has_mods mb \<longrightarrow> (\<forall>m\<in>set (mods mb). mod_end m \<le> ub)"
    and "\<forall>e\<in>set (mmap mb). unat (entry_addr e) + unat (entry_len e) < 2 ^ 32"
  shows "\<exists>s. page_init mb kernel_end = Some s \<and> page_inv s \<and> stats_ok s
     \<and> (\<forall>i. i \<in> free_set s \<longleftrightarrow>
          (\<exists>e\<in>set (mmap mb). entry_type e = MULTIBOOT_MEMORY_AVAILABLE \<and> unat lb \<le> i * 4096
             \<and> unat (entry_addr e) \<le> i * 4096 \<and> (i + 1) * 4096 \<le> unat (entry_addr e) + unat (entry_len e))
          \<and> (has_mods mb \<longrightarrow>
               (\<forall>m\<in>set (mods mb). \<not> (unat (mod_start m) < (i + 1) * 4096 \<and> i * 4096 < unat (mod_end m)))))"
proof -
  have lb: "lb \<le> 0xfffe0000"
    using upper_bound_loop_ge [of lb "mmap mb"] assms(5,6) by simp
  have entry: "i \<in> entry_pages lb e \<longleftrightarrow> entry_type e = MULTIBOOT_MEMORY_AVAILABLE \<and> unat lb \<le> i * 4096
      \<and> unat (entry_addr e) \<le> i * 4096 \<and> (i + 1) * 4096 \<le> unat (entry_addr e) + unat (entry_len e)"
    if e: "e \<in> set (mmap mb)" for e i
  proof (cases "entry_type e = MULTIBOOT_MEMORY_AVAILABLE")
    case True
    have "entry_end e \<le> 0xfffe0000" using upper_bound_loop_entry [OF e True, of lb] assms(5,6) by simp
    with entry_pages_nat [of e lb i] assms(8) e lb show ?thesis by simp
  qed (simp add: entry_pages_def)
  have "i \<in> module_pages m \<longleftrightarrow> unat (mod_start m) < (i + 1) * 4096 \<and> i * 4096 < unat (mod_end m)"
    if "has_mods mb" "m \<in> set (mods mb)" for m i
    using that assms(6,7) page_floor_in_bitmap(2) [OF assms(6), of "mod_end m"] by (intro module_pages_nat) auto
  with entry page_init_exact [OF assms(1,3-7)] show ?thesis
    by (auto simp: init_free_def)
qed

definition example_boot :: multiboot_info where
  "example_boot = \<lparr>has_mem_map = True, has_mods = True, mem_upper = 0,
     mmap = [\<lparr>entry_addr = 0x100000, entry_len = 0xf00000, entry_type = 1\<rparr>,
             \<lparr>entry_addr = 0x1000000, entry_len = 0x100000, entry_type = 2\<rparr>],
     mods = [\<lparr>mod_start = 0x400000, mod_end = 0x500000\<rparr>]\<rparr>"

theorem page_init_free_pages_witness:
  "\<exists>s. page_init example_boot 0xc0180000 = Some s \<and> page_inv s
     \<and> 0x200 \<in> free_set s \<and> 0x100 \<notin> free_set s \<and> 0x400 \<notin> free_set s \<and> 0x1000 \<notin> free_set s"
proof -
  have ub: "upper_bound_loop (mmap example_boot) 0x180000 = 0x1000000"
    by (simp add: example_boot_def entry_end_def)
  show ?thesis
    using page_init_free_pages [of example_boot "0xc0180000" "0x180000" "0x1000000"] ub
    by (auto simp: example_boot_def)
qed

text \<open>
  Memory above 4 GiB corrupts the set of free pages: \<^verbatim>\<open>uintptr_t\<close> keeps only the low half of the end of a map
  entry, so an available entry that lies beyond the 32-bit range makes low pages free that it does not
  describe, also those that the map reports as reserved.
\<close>

theorem page_init_truncates_high_memory:
  assumes "has_mem_map mb" "\<not> has_mods mb" "kernel_end \<le> 0xc0000000 + 1022 * PAGE_SIZE"
    and "lb = kernel_end - 0xc0000000" "ub = upper_bound_loop (mmap mb) lb" "ub \<le> 0xfffe0000"
    and "e \<in> set (mmap mb)" "entry_type e = MULTIBOOT_MEMORY_AVAILABLE" "2 ^ 32 \<le> unat (entry_addr e)"
    and "i \<in> {page_ceil (entry_start lb e)..<page_floor (entry_end e)}" "entry_start lb e < entry_end e"
  shows "\<exists>s. page_init mb kernel_end = Some s \<and> i \<in> free_set s \<and> i * 4096 < unat (entry_addr e)"
proof -
  have "i < 2 ^ 20" using assms(10) unat_u32_less [of "entry_end e"] by (simp add: page_floor_nat) linarith
  moreover have "init_free mb lb i" using assms(2,7,8,10,11) by (auto simp: init_free_def entry_pages_def)
  ultimately show ?thesis
    using page_init_exact [OF assms(1,3-6)] assms(2,9) by auto
qed

definition high_boot :: multiboot_info where
  "high_boot = \<lparr>has_mem_map = True, has_mods = False, mem_upper = 0,
     mmap = [\<lparr>entry_addr = 0x100000, entry_len = 0xf00000, entry_type = 1\<rparr>,
             \<lparr>entry_addr = 0x1000000, entry_len = 0x100000, entry_type = 2\<rparr>,
             \<lparr>entry_addr = 0x100000000, entry_len = 0x10000000, entry_type = 1\<rparr>],
     mods = []\<rparr>"

theorem page_init_truncates_high_memory_witness:
  "\<exists>s. page_init high_boot 0xc0180000 = Some s \<and> 0x1000 \<in> free_set s"
proof -
  let ?e = "\<lparr>entry_addr = 0x100000000, entry_len = 0x10000000, entry_type = 1\<rparr>"
  have ub: "upper_bound_loop (mmap high_boot) 0x180000 = 0x10000000"
    by (simp add: high_boot_def entry_end_def)
  have en: "entry_start 0x180000 ?e = 0x180000" "entry_end ?e = 0x10000000"
    by (simp_all add: entry_start_def entry_end_def)
  show ?thesis
    using page_init_truncates_high_memory [of high_boot "0xc0180000" "0x180000" "0x10000000" ?e "0x1000"] ub en
    by (auto simp: high_boot_def page_ceil_nat page_floor_nat)
qed

end
