(* ===== verification/Page_Table.thy ===== *)
theory Page_Table
  imports Page User_Mem
begin

text \<open>
  Page directories and page tables: \<^verbatim>\<open>kernel/memory/page_table.c\<close>. Physical memory is a function from page
  addresses and word indices to 32-bit words, so directories, tables and data pages live in one store and the
  recursive entry 1023 is walked as the processor walks it. A pointer to a \<^verbatim>\<open>struct page_directory\<close> is
  represented by the physical address of the page it occupies, which is what \<^verbatim>\<open>virt_to_phys\<close> gives for it. The
  translation caches are a set of pairs of a processor and a page address.
\<close>

unbundle bit_operations_syntax

section \<open>State and entries\<close>

record mmu =
  mm_pages :: pages
  frame :: "u32 \<Rightarrow> nat \<Rightarrow> u32"
  cr3 :: u32
  kernel_page_directory :: u32
  vm_page_directory :: "nat \<Rightarrow> u32 option"
  cpu_vms :: "nat option list"
  this_cpu :: nat
  smp_active :: bool
  tlb :: "(nat \<times> u32) set"

abbreviation (input) PTE_FLAGS_MASK :: u32 where "PTE_FLAGS_MASK \<equiv> 0xfff"
abbreviation (input) PTE_PRESENT :: u32 where "PTE_PRESENT \<equiv> 1"
abbreviation (input) PTE_WRITE :: u32 where "PTE_WRITE \<equiv> 2"
abbreviation (input) PTE_USER :: u32 where "PTE_USER \<equiv> 4"
abbreviation (input) PTE_SHARED :: u32 where "PTE_SHARED \<equiv> 0x200"
abbreviation (input) KERNEL_PDE_IDX :: nat where "KERNEL_PDE_IDX \<equiv> 768"

text \<open>The \<^verbatim>\<open>present\<close> bit of an entry, the page an entry points to, and a store of one entry.\<close>

definition pte_present :: "u32 \<Rightarrow> bool" where
  "pte_present raw \<longleftrightarrow> bit raw 0"

definition pte_page :: "u32 \<Rightarrow> u32" where
  "pte_page raw = raw AND NOT PTE_FLAGS_MASK"

definition store :: "mmu \<Rightarrow> u32 \<Rightarrow> nat \<Rightarrow> u32 \<Rightarrow> mmu" where
  "store s p i v = s\<lparr>frame := (frame s)(p := (frame s p)(i := v))\<rparr>"

definition pd_index :: "u32 \<Rightarrow> nat" where
  "pd_index virt_addr = unat (drop_bit 22 virt_addr)"

definition pt_index :: "u32 \<Rightarrow> nat" where
  "pt_index virt_addr = unat (drop_bit 12 virt_addr AND 0x3ff)"

text \<open>
  The processor's walk to the page behind a virtual address: an access to a page that is not present is a
  page fault, which stops the kernel.
\<close>

definition walk :: "mmu \<Rightarrow> u32 \<Rightarrow> u32 option" where
  "walk s virt_addr =
     do {
       let pde = frame s (cr3 s) (pd_index virt_addr);
       c_assert (pte_present pde);
       let pte = frame s (pte_page pde) (pt_index virt_addr);
       c_assert (pte_present pte);
       Some (pte_page pte)
     }"

text \<open>The values a cursor takes in \<^verbatim>\<open>for (c = addr; c < end; c += PAGE_SIZE)\<close> with page-aligned bounds.\<close>

definition cursors :: "u32 \<Rightarrow> u32 \<Rightarrow> u32 list" where
  "cursors addr e = map (\<lambda>i. addr + of_nat i * PAGE_SIZE) [0..<(unat e - unat addr) div 4096]"

section \<open>Lookup\<close>

definition current_page_directory :: "mmu \<Rightarrow> u32 option" where
  "current_page_directory s =
     do {
       current \<leftarrow> arr_get (cpu_vms s) (this_cpu s);
       case current of None \<Rightarrow> Some (kernel_page_directory s) | Some vm \<Rightarrow> vm_page_directory s vm
     }"

text \<open>
  The page that holds page table \<open>index\<close>: the table is seen at \<^verbatim>\<open>0xffc00000 + PAGE_SIZE * index\<close>, through the
  recursive entry.
\<close>

definition get_page_table_from_index :: "mmu \<Rightarrow> nat \<Rightarrow> u32 option" where
  "get_page_table_from_index s index =
     do { c_assert (index < 1024); walk s (0xffc00000 + PAGE_SIZE * of_nat index) }"

definition get_or_create_page_table :: "mmu \<Rightarrow> u32 \<Rightarrow> (u32 result \<times> mmu) option" where
  "get_or_create_page_table s virt_addr =
     do {
       let pd_idx = pd_index virt_addr;
       pd \<leftarrow> current_page_directory s;
       if \<not> pte_present (frame s pd pd_idx) then do {
         (r, ps) \<leftarrow> page_alloc (mm_pages s);
         let s = s\<lparr>mm_pages := ps\<rparr>;
         case r of
           Inl e \<Rightarrow> Some (Inl e, store s pd pd_idx (- word_of_int (errno_val e)))
         | Inr raw \<Rightarrow>
             do {
               let s = store s pd pd_idx (raw OR (PTE_PRESENT OR PTE_WRITE OR PTE_USER));
               pt \<leftarrow> get_page_table_from_index s pd_idx;
               Some (Inr pt, s\<lparr>frame := (frame s)(pt := \<lambda>i. if i < 1024 then 0 else frame s pt i)\<rparr>)
             }
       }
       else do { pt \<leftarrow> get_page_table_from_index s pd_idx; Some (Inr pt, s) }
     }"

text \<open>A pointer to an entry is the page of its table and its index there; the outer \<open>None\<close> is a panic, the inner one \<^verbatim>\<open>NULL\<close>.\<close>

definition get_pte :: "mmu \<Rightarrow> u32 \<Rightarrow> (u32 \<times> nat) option option" where
  "get_pte s virt_addr =
     do {
       let pd_idx = pd_index virt_addr;
       pd \<leftarrow> current_page_directory s;
       if \<not> pte_present (frame s pd pd_idx) then Some None
       else do { pt \<leftarrow> get_page_table_from_index s pd_idx; Some (Some (pt, pt_index virt_addr)) }
     }"

definition get_or_create_pte :: "mmu \<Rightarrow> u32 \<Rightarrow> ((u32 \<times> nat) result \<times> mmu) option" where
  "get_or_create_pte s virt_addr =
     do {
       (r, s) \<leftarrow> get_or_create_page_table s virt_addr;
       case r of Inl e \<Rightarrow> Some (Inl e, s) | Inr pt \<Rightarrow> Some (Inr (pt, pt_index virt_addr), s)
     }"

definition virt_to_phys :: "mmu \<Rightarrow> u32 \<Rightarrow> u32 option" where
  "virt_to_phys s addr =
     do {
       p \<leftarrow> get_pte s addr;
       (pt, i) \<leftarrow> p;
       let raw = frame s pt i;
       c_assert (pte_present raw);
       Some ((raw AND NOT PTE_FLAGS_MASK) OR (addr AND PTE_FLAGS_MASK))
     }"

section \<open>Flushing the translation caches\<close>

text \<open>
  The processors \<^verbatim>\<open>flush_tlb_range\<close> reaches: itself, and with several processors running all of them for a
  kernel address, those in the same address space for a user address. It returns when each has flushed.
\<close>

definition flush_targets :: "mmu \<Rightarrow> u32 \<Rightarrow> u32 \<Rightarrow> nat list option" where
  "flush_targets s virt_addr sz =
     (if \<not> smp_active s then Some [this_cpu s]
      else if is_kernel_address virt_addr then Some (this_cpu s # filter (\<lambda>i. i \<noteq> this_cpu s) [0..<length (cpu_vms s)])
      else do {
        c_assert (is_user_range virt_addr sz);
        let others = filter (\<lambda>i. i \<noteq> this_cpu s \<and> cpu_vms s ! i \<noteq> None) [0..<length (cpu_vms s)];
        if others = [] then Some [this_cpu s]
        else do {
          current \<leftarrow> arr_get (cpu_vms s) (this_cpu s);
          vm \<leftarrow> current;
          Some (this_cpu s # filter (\<lambda>i. cpu_vms s ! i = Some vm) others)
        }
      })"

definition flush_tlb_range :: "mmu \<Rightarrow> u32 \<Rightarrow> u32 \<Rightarrow> mmu option" where
  "flush_tlb_range s virt_addr sz =
     do {
       c_assert (virt_addr mod PAGE_SIZE = 0);
       c_assert (sz mod PAGE_SIZE = 0);
       cpus \<leftarrow> flush_targets s virt_addr sz;
       Some (s\<lparr>tlb := tlb s - set cpus \<times> set (cursors virt_addr (virt_addr + sz))\<rparr>)
     }"

section \<open>Mapping and unmapping\<close>

fun unmap_loop :: "u32 list \<Rightarrow> mmu \<Rightarrow> mmu option" where
  "unmap_loop [] s = Some s"
| "unmap_loop (cursor # cs) s =
     do {
       p \<leftarrow> get_pte s cursor;
       (pt, i) \<leftarrow> p;
       c_assert (pte_present (frame s pt i));
       ps \<leftarrow> page_unref (mm_pages s) (pte_page (frame s pt i));
       unmap_loop cs (store (s\<lparr>mm_pages := ps\<rparr>) pt i 0)
     }"

definition page_table_unmap :: "mmu \<Rightarrow> u32 \<Rightarrow> u32 \<Rightarrow> mmu option" where
  "page_table_unmap s virt_addr sz =
     do {
       c_assert (virt_addr mod PAGE_SIZE = 0);
       c_assert (sz mod PAGE_SIZE = 0);
       let virt_end = virt_addr + ROUND_UP sz PAGE_SIZE;
       s \<leftarrow> unmap_loop (cursors virt_addr virt_end) s;
       flush_tlb_range s virt_addr sz
     }"

text \<open>A mapping loop stops at the first entry it cannot make, and says where.\<close>

fun map_anon_loop :: "u32 list \<Rightarrow> u32 \<Rightarrow> mmu \<Rightarrow> ((errno \<times> u32) option \<times> mmu) option" where
  "map_anon_loop [] flags s = Some (None, s)"
| "map_anon_loop (cursor # cs) flags s =
     do {
       (r, s) \<leftarrow> get_or_create_pte s cursor;
       case r of
         Inl e \<Rightarrow> Some (Some (e, cursor), s)
       | Inr (pt, i) \<Rightarrow>
           do {
             c_assert (\<not> pte_present (frame s pt i));
             (r, ps) \<leftarrow> page_alloc (mm_pages s);
             let s = s\<lparr>mm_pages := ps\<rparr>;
             case r of
               Inl e \<Rightarrow> Some (Some (e, cursor), s)
             | Inr phys_addr \<Rightarrow> map_anon_loop cs flags (store s pt i (phys_addr OR flags OR PTE_PRESENT))
           }
     }"

definition page_table_map_anon :: "mmu \<Rightarrow> u32 \<Rightarrow> u32 \<Rightarrow> u16 \<Rightarrow> (unit result \<times> mmu) option" where
  "page_table_map_anon s virt_addr sz flags =
     do {
       c_assert (virt_addr mod PAGE_SIZE = 0);
       c_assert (sz mod PAGE_SIZE = 0);
       (r, s) \<leftarrow> map_anon_loop (cursors virt_addr (virt_addr + sz)) (ucast flags) s;
       case r of
         None \<Rightarrow> do { s \<leftarrow> flush_tlb_range s virt_addr sz; Some (Inr (), s) }
       | Some (ret, virt_cursor) \<Rightarrow> do { s \<leftarrow> page_table_unmap s virt_addr (virt_cursor - virt_addr); Some (Inl ret, s) }
     }"

fun map_phys_loop :: "u32 list \<Rightarrow> u32 \<Rightarrow> u32 \<Rightarrow> mmu \<Rightarrow> ((errno \<times> u32) option \<times> mmu) option" where
  "map_phys_loop [] phys_cursor flags s = Some (None, s)"
| "map_phys_loop (cursor # cs) phys_cursor flags s =
     do {
       (r, s) \<leftarrow> get_or_create_pte s cursor;
       case r of
         Inl e \<Rightarrow> Some (Some (e, cursor), s)
       | Inr (pt, i) \<Rightarrow>
           do {
             c_assert (\<not> pte_present (frame s pt i));
             ps \<leftarrow> page_ref (mm_pages s) phys_cursor;
             map_phys_loop cs (phys_cursor + PAGE_SIZE) flags
               (store (s\<lparr>mm_pages := ps\<rparr>) pt i (phys_cursor OR flags OR PTE_PRESENT))
           }
     }"

definition page_table_map_phys :: "mmu \<Rightarrow> u32 \<Rightarrow> u32 \<Rightarrow> u32 \<Rightarrow> u16 \<Rightarrow> (unit result \<times> mmu) option" where
  "page_table_map_phys s virt_addr phys_addr sz flags =
     do {
       c_assert (virt_addr mod PAGE_SIZE = 0);
       c_assert (phys_addr mod PAGE_SIZE = 0);
       c_assert (sz mod PAGE_SIZE = 0);
       (r, s) \<leftarrow> map_phys_loop (cursors virt_addr (virt_addr + sz)) phys_addr (ucast flags) s;
       case r of
         None \<Rightarrow> do { s \<leftarrow> flush_tlb_range s virt_addr sz; Some (Inr (), s) }
       | Some (ret, virt_cursor) \<Rightarrow> do { s \<leftarrow> page_table_unmap s virt_addr (virt_cursor - virt_addr); Some (Inl ret, s) }
     }"

fun shallow_copy_loop :: "u32 list \<Rightarrow> u32 \<Rightarrow> u32 \<Rightarrow> mmu \<Rightarrow> ((errno \<times> u32) option \<times> mmu) option" where
  "shallow_copy_loop [] to_cursor new_flags s = Some (None, s)"
| "shallow_copy_loop (from_cursor # cs) to_cursor new_flags s =
     do {
       from_pte \<leftarrow> get_pte s from_cursor;
       (from_pt, from_i) \<leftarrow> from_pte;
       c_assert (pte_present (frame s from_pt from_i));
       (r, s) \<leftarrow> get_or_create_pte s to_cursor;
       case r of
         Inl e \<Rightarrow> Some (Some (e, to_cursor), s)
       | Inr (to_pt, to_i) \<Rightarrow>
           do {
             c_assert (\<not> pte_present (frame s to_pt to_i));
             let phys_addr = pte_page (frame s from_pt from_i);
             ps \<leftarrow> page_ref (mm_pages s) phys_addr;
             shallow_copy_loop cs (to_cursor + PAGE_SIZE) new_flags
               (store (s\<lparr>mm_pages := ps\<rparr>) to_pt to_i (phys_addr OR new_flags OR PTE_PRESENT))
           }
     }"

definition page_table_shallow_copy :: "mmu \<Rightarrow> u32 \<Rightarrow> u32 \<Rightarrow> u32 \<Rightarrow> u16 \<Rightarrow> (unit result \<times> mmu) option" where
  "page_table_shallow_copy s to_virt_addr from_virt_addr sz new_flags =
     do {
       c_assert (to_virt_addr mod PAGE_SIZE = 0);
       c_assert (from_virt_addr mod PAGE_SIZE = 0);
       c_assert (sz mod PAGE_SIZE = 0);
       (r, s) \<leftarrow> shallow_copy_loop (cursors from_virt_addr (from_virt_addr + sz)) to_virt_addr (ucast new_flags) s;
       case r of
         None \<Rightarrow> do { s \<leftarrow> flush_tlb_range s to_virt_addr sz; Some (Inr (), s) }
       | Some (ret, to_cursor) \<Rightarrow> do { s \<leftarrow> page_table_unmap s to_virt_addr (to_cursor - to_virt_addr); Some (Inl ret, s) }
     }"

fun set_flags_loop :: "u32 list \<Rightarrow> u32 \<Rightarrow> mmu \<Rightarrow> mmu option" where
  "set_flags_loop [] flags s = Some s"
| "set_flags_loop (cursor # cs) flags s =
     do {
       p \<leftarrow> get_pte s cursor;
       (pt, i) \<leftarrow> p;
       c_assert (pte_present (frame s pt i));
       set_flags_loop cs flags (store s pt i (pte_page (frame s pt i) OR flags OR PTE_PRESENT))
     }"

definition page_table_set_flags :: "mmu \<Rightarrow> u32 \<Rightarrow> u32 \<Rightarrow> u16 \<Rightarrow> mmu option" where
  "page_table_set_flags s virt_addr sz flags =
     do {
       c_assert (virt_addr mod PAGE_SIZE = 0);
       c_assert (sz mod PAGE_SIZE = 0);
       let virt_end = virt_addr + ROUND_UP sz PAGE_SIZE;
       s \<leftarrow> set_flags_loop (cursors virt_addr virt_end) (ucast flags) s;
       flush_tlb_range s virt_addr sz
     }"

section \<open>Page directories\<close>

text \<open>\<open>dst\<close> is the page of the block \<^verbatim>\<open>kmalloc\<close> gave for the new directory, \<open>None\<close> when it gave none.\<close>

definition page_directory_create :: "mmu \<Rightarrow> u32 option \<Rightarrow> (u32 result \<times> mmu) option" where
  "page_directory_create s kmalloced =
     (case kmalloced of
        None \<Rightarrow> Some (Inl ENOMEM, s)
      | Some dst \<Rightarrow>
          Some (Inr dst, s\<lparr>frame := (frame s)(dst := \<lambda>i.
            if i < KERNEL_PDE_IDX then 0
            else if i < 1023 then frame s (kernel_page_directory s) i
            else if i = 1023 then dst OR (PTE_PRESENT OR PTE_WRITE)
            else frame s dst i)\<rparr>))"

text \<open>
  A page directory is named by its physical address, so the translation of its virtual address with which
  \<^verbatim>\<open>page_directory_switch\<close> begins, and the assertions inside it, are left out; what remains is the check through the new directory.
\<close>

definition page_directory_switch :: "mmu \<Rightarrow> u32 \<Rightarrow> mmu option" where
  "page_directory_switch s to =
     do {
       let s = s\<lparr>cr3 := to\<rparr>;
       phys \<leftarrow> virt_to_phys s 0xfffff000;
       c_assert (to = phys);
       Some s
     }"

abbreviation (input) QUICKMAP_PAGE :: nat where "QUICKMAP_PAGE \<equiv> 1022"
abbreviation (input) QUICKMAP_PAGE_TABLE :: nat where "QUICKMAP_PAGE_TABLE \<equiv> 1023"

definition quickmap :: "mmu \<Rightarrow> nat \<Rightarrow> u32 \<Rightarrow> u32 \<Rightarrow> (u32 \<times> mmu) option" where
  "quickmap s which phys_addr flags =
     do {
       pt \<leftarrow> get_page_table_from_index s KERNEL_PDE_IDX;
       c_assert (frame s pt which = 0);
       let s = store s pt which (phys_addr OR flags OR PTE_PRESENT);
       let virt_addr = KERNEL_VIRT_ADDR + PAGE_SIZE * of_nat which;
       s \<leftarrow> flush_tlb_range s virt_addr PAGE_SIZE;
       Some (virt_addr, s)
     }"

definition unquickmap :: "mmu \<Rightarrow> nat \<Rightarrow> mmu option" where
  "unquickmap s which =
     do {
       pt \<leftarrow> get_page_table_from_index s KERNEL_PDE_IDX;
       c_assert (pte_present (frame s pt which));
       flush_tlb_range (store s pt which 0) (KERNEL_VIRT_ADDR + PAGE_SIZE * of_nat which) PAGE_SIZE
     }"

text \<open>A store to entry \<open>i\<close> of the table seen at \<open>virt_addr\<close>, and the copy of one page to another.\<close>

definition store_virt :: "mmu \<Rightarrow> u32 \<Rightarrow> nat \<Rightarrow> u32 \<Rightarrow> mmu option" where
  "store_virt s virt_addr i v = do { p \<leftarrow> walk s virt_addr; Some (store s p i v) }"

definition memcpy_page :: "mmu \<Rightarrow> u32 \<Rightarrow> u32 \<Rightarrow> mmu option" where
  "memcpy_page s dest src =
     do {
       d \<leftarrow> walk s dest;
       c \<leftarrow> walk s src;
       Some (s\<lparr>frame := (frame s)(d := \<lambda>i. if i < 1024 then frame s c i else frame s d i)\<rparr>)
     }"

fun clone_entries :: "nat list \<Rightarrow> u32 \<Rightarrow> u32 \<Rightarrow> u32 \<Rightarrow> mmu \<Rightarrow> (errno option \<times> mmu) option" where
  "clone_entries [] src src_virt_addr dest_pt s = do { s \<leftarrow> unquickmap s QUICKMAP_PAGE_TABLE; Some (None, s) }"
| "clone_entries (i # is) src src_virt_addr dest_pt s =
     (let raw = frame s src i in
      if \<not> pte_present raw then do { s \<leftarrow> store_virt s dest_pt i 0; clone_entries is src src_virt_addr dest_pt s }
      else if raw AND PTE_SHARED \<noteq> 0 then do {
        s \<leftarrow> store_virt s dest_pt i raw;
        ps \<leftarrow> page_ref (mm_pages s) (pte_page raw);
        clone_entries is src src_virt_addr dest_pt (s\<lparr>mm_pages := ps\<rparr>)
      }
      else do {
        (r, ps) \<leftarrow> page_alloc (mm_pages s);
        let s = s\<lparr>mm_pages := ps\<rparr>;
        case r of
          Inl e \<Rightarrow> do { s \<leftarrow> unquickmap s QUICKMAP_PAGE_TABLE; Some (Some e, s) }
        | Inr dest_page \<Rightarrow>
            do {
              s \<leftarrow> store_virt s dest_pt i (dest_page OR (raw AND PTE_FLAGS_MASK));
              (dest_virt, s) \<leftarrow> quickmap s QUICKMAP_PAGE dest_page PTE_WRITE;
              s \<leftarrow> memcpy_page s dest_virt (src_virt_addr + PAGE_SIZE * of_nat i);
              s \<leftarrow> unquickmap s QUICKMAP_PAGE;
              clone_entries is src src_virt_addr dest_pt s
            }
      })"

definition clone_page_table :: "mmu \<Rightarrow> u32 \<Rightarrow> u32 \<Rightarrow> (u32 result \<times> mmu) option" where
  "clone_page_table s src src_virt_addr =
     do {
       (r, ps) \<leftarrow> page_alloc (mm_pages s);
       let s = s\<lparr>mm_pages := ps\<rparr>;
       case r of
         Inl e \<Rightarrow> Some (Inl e, s)
       | Inr dest_phys \<Rightarrow>
           do {
             (dest_pt, s) \<leftarrow> quickmap s QUICKMAP_PAGE_TABLE dest_phys PTE_WRITE;
             (r, s) \<leftarrow> clone_entries [0..<1024] src src_virt_addr dest_pt s;
             case r of Some e \<Rightarrow> Some (Inl e, s) | None \<Rightarrow> Some (Inr dest_phys, s)
           }
     }"

fun clone_tables :: "nat list \<Rightarrow> u32 \<Rightarrow> u32 \<Rightarrow> mmu \<Rightarrow> (u32 result \<times> mmu) option" where
  "clone_tables [] src dst s = Some (Inr dst, s)"
| "clone_tables (i # is) src dst s =
     (if \<not> pte_present (frame s src i) then clone_tables is src dst (store s dst i 0)
      else do {
        pt \<leftarrow> get_page_table_from_index s i;
        (r, s) \<leftarrow> clone_page_table s pt (of_nat i * 0x400000);
        case r of
          Inl e \<Rightarrow> Some (Inl e, s)
        | Inr cloned \<Rightarrow> clone_tables is src dst (store s dst i (cloned OR (frame s src i AND PTE_FLAGS_MASK)))
      })"

definition page_directory_clone_current :: "mmu \<Rightarrow> u32 option \<Rightarrow> (u32 result \<times> mmu) option" where
  "page_directory_clone_current s kmalloced =
     do {
       (r, s) \<leftarrow> page_directory_create s kmalloced;
       case r of
         Inl e \<Rightarrow> Some (Inl e, s)
       | Inr dst \<Rightarrow> do { src \<leftarrow> current_page_directory s; clone_tables [0..<KERNEL_PDE_IDX] src dst s }
     }"

text \<open>
  Destruction drops a reference for every present entry of every user table, and then for every table. The
  inner loop reads entry \<open>i\<close>, the index of the table, where it tests entry \<open>j\<close>.
\<close>

fun destroy_entries :: "nat list \<Rightarrow> u32 \<Rightarrow> nat \<Rightarrow> mmu \<Rightarrow> mmu option" where
  "destroy_entries [] pt i s = Some s"
| "destroy_entries (j # js) pt i s =
     (if pte_present (frame s pt j)
      then do { ps \<leftarrow> page_unref (mm_pages s) (pte_page (frame s pt i)); destroy_entries js pt i (s\<lparr>mm_pages := ps\<rparr>) }
      else destroy_entries js pt i s)"

fun destroy_tables :: "nat list \<Rightarrow> u32 \<Rightarrow> mmu \<Rightarrow> mmu option" where
  "destroy_tables [] pd s = Some s"
| "destroy_tables (i # is) pd s =
     (if \<not> pte_present (frame s pd i) then destroy_tables is pd s
      else do {
        pt \<leftarrow> get_page_table_from_index s i;
        s \<leftarrow> destroy_entries [0..<1024] pt i s;
        destroy_tables is pd s
      })"

fun unref_tables :: "nat list \<Rightarrow> u32 \<Rightarrow> mmu \<Rightarrow> mmu option" where
  "unref_tables [] pd s = Some s"
| "unref_tables (i # is) pd s =
     (if pte_present (frame s pd i)
      then do { ps \<leftarrow> page_unref (mm_pages s) (pte_page (frame s pd i)); unref_tables is pd (s\<lparr>mm_pages := ps\<rparr>) }
      else unref_tables is pd s)"

text \<open>The directory that is handed to \<^verbatim>\<open>kfree\<close> is returned with the new state.\<close>

definition page_directory_destroy_current :: "mmu \<Rightarrow> (u32 \<times> mmu) option" where
  "page_directory_destroy_current s =
     do {
       pd \<leftarrow> current_page_directory s;
       c_assert (pd \<noteq> kernel_page_directory s);
       s \<leftarrow> destroy_tables [0..<KERNEL_PDE_IDX] pd s;
       current \<leftarrow> arr_get (cpu_vms s) (this_cpu s);
       vm \<leftarrow> current;
       s \<leftarrow> page_directory_switch (s\<lparr>vm_page_directory := (vm_page_directory s)(vm \<mapsto> kernel_page_directory s)\<rparr>)
              (kernel_page_directory s);
       s \<leftarrow> unref_tables [0..<KERNEL_PDE_IDX] pd s;
       Some (pd, s)
     }"

text \<open>At boot every table of the kernel heap is made, so that all directories share them.\<close>

fun create_tables :: "u32 list \<Rightarrow> mmu \<Rightarrow> mmu option" where
  "create_tables [] s = Some s"
| "create_tables (a # as) s =
     do { (r, s) \<leftarrow> get_or_create_page_table s a; case r of Inl e \<Rightarrow> None | Inr pt \<Rightarrow> create_tables as s }"

definition page_table_init :: "mmu \<Rightarrow> mmu option" where
  "page_table_init s = create_tables (map (\<lambda>i. push_bit 22 (of_nat i)) [KERNEL_PDE_IDX + 1..<1023]) s"

section \<open>Entries and indices\<close>

definition pageno :: "u32 \<Rightarrow> nat" where
  "pageno virt_addr = unat virt_addr div 4096"

lemma pd_index_pageno: "pd_index a = pageno a div 1024"
  by (simp add: pd_index_def pageno_def drop_bit_eq_div unat_div div_mult2_eq [symmetric])

lemma mask_10: "(0x3ff::u32) = mask 10"
  by (simp add: mask_eq_exp_minus_1)

lemma mask_12: "(0xfff::u32) = mask 12"
  by (simp add: mask_eq_exp_minus_1)

lemma pt_index_pageno: "pt_index a = pageno a mod 1024"
  unfolding pt_index_def mask_10 take_bit_eq_mask [symmetric]
  by (simp add: pageno_def drop_bit_eq_div take_bit_eq_mod unat_div unat_mod)

lemma pt_index_less [simp]: "pt_index a < 1024"
  by (simp add: pt_index_pageno)

lemma pageno_less: "pageno a < 2 ^ 20"
  using unat_u32_less [of a] by (simp add: pageno_def)

lemma pd_index_less [simp]: "pd_index a < 1024"
  using pageno_less [of a] by (simp add: pd_index_pageno)

lemma pageno_eq_iff: "pageno a = pageno b \<longleftrightarrow> pd_index a = pd_index b \<and> pt_index a = pt_index b"
  by (metis pd_index_pageno pt_index_pageno div_mult_mod_eq)

lemma window_index:
  assumes "i < 1024"
  shows "pd_index (0xffc00000 + PAGE_SIZE * of_nat i) = 1023" "pt_index (0xffc00000 + PAGE_SIZE * of_nat i) = i"
proof -
  have "unat (0xffc00000 + 4096 * of_nat i :: u32) = 0xffc00000 + 4096 * i"
    using assms by (simp add: unat_word_ariths unat_of_nat)
  then have p: "pageno (0xffc00000 + 4096 * of_nat i) = i + 1023 * 1024" by (simp add: pageno_def)
  have "(i + 1023 * 1024) div 1024 = 1023" "(i + 1023 * 1024) mod 1024 = i"
    using assms by (simp_all only: mod_mult_self1 mod_less)
  with p show "pd_index (0xffc00000 + PAGE_SIZE * of_nat i) = 1023" "pt_index (0xffc00000 + PAGE_SIZE * of_nat i) = i"
    by (simp_all only: pd_index_pageno pt_index_pageno)
qed

lemma bit_pte_page: "bit (pte_page raw) n \<longleftrightarrow> 12 \<le> n \<and> bit raw n"
  unfolding pte_page_def mask_12 by (auto simp: bit_simps dest: bit_imp_le_length)

lemma pte_page_idem [simp]: "pte_page (pte_page raw) = pte_page raw"
  by (rule bit_word_eqI) (simp add: bit_pte_page)

lemma pte_page_mod [simp]: "pte_page raw mod PAGE_SIZE = 0"
proof -
  have "take_bit 12 (pte_page raw) = 0" by (rule bit_word_eqI) (simp add: bit_simps bit_pte_page)
  then show ?thesis by (simp add: take_bit_eq_mod)
qed

lemma pte_page_aligned: "a mod PAGE_SIZE = 0 \<Longrightarrow> pte_page a = a"
proof -
  assume "a mod PAGE_SIZE = 0"
  then have "take_bit 12 a = 0" by (simp add: take_bit_eq_mod)
  then have "\<not> bit a n" if "n < 12" for n using that by (metis bit_0_eq bit_take_bit_iff bot_apply bot_bool_def)
  then show "pte_page a = a" by (intro bit_word_eqI) (metis bit_pte_page not_le)
qed

definition is_flags :: "u32 \<Rightarrow> bool" where
  "is_flags f \<longleftrightarrow> pte_page f = 0"

lemma pte_page_or [simp]: "pte_page (a OR b) = pte_page a OR pte_page b"
  by (rule bit_word_eqI) (auto simp: bit_simps bit_pte_page)

lemma pte_page_flags [simp]: "is_flags f \<Longrightarrow> pte_page f = 0"
  by (simp add: is_flags_def)

lemma pte_page_small: "f < 0x1000 \<Longrightarrow> is_flags f"
  unfolding is_flags_def
proof (rule bit_word_eqI)
  fix n assume f: "f < 0x1000"
  then have "take_bit 12 f = f" by (simp add: take_bit_eq_mod word_unat_eq_iff unat_mod word_less_nat_alt)
  then have "bit f n \<Longrightarrow> n < 12" by (metis bit_take_bit_iff)
  then show "bit (pte_page f) n \<longleftrightarrow> bit 0 n" by (auto simp: bit_pte_page)
qed

lemma pte_page_1 [simp]: "pte_page 1 = 0" "pte_page 0 = 0" "pte_page 2 = 0" "pte_page 7 = 0" "pte_page 3 = 0"
  by (simp_all add: pte_page_def)

lemma pte_present_or [simp]: "pte_present (a OR b) \<longleftrightarrow> pte_present a \<or> pte_present b"
  by (simp add: pte_present_def bit_simps)

lemma pte_present_1 [simp]: "pte_present 1" "pte_present 7" "pte_present 3" "\<not> pte_present 0"
  by (simp_all add: pte_present_def)

lemma page_addr_mod [simp]: "p < 2 ^ 20 \<Longrightarrow> page_addr p mod PAGE_SIZE = 0"
  by (rule page_addr_props(1))

lemma pte_page_page_addr: "p < 2 ^ 20 \<Longrightarrow> pte_page (page_addr p) = page_addr p"
  by (rule pte_page_aligned) simp

section \<open>The address space a directory describes\<close>

text \<open>
  \<open>mapping s\<close> gives the entry of every mapped virtual page outside the window of the recursive entry. The
  invariant says that the active directory is the one of the current task, that its last entry leads
  back to it, and that its tables are different pages, all in use.
\<close>

definition pde :: "mmu \<Rightarrow> nat \<Rightarrow> u32" where
  "pde s i = frame s (cr3 s) i"

definition table :: "mmu \<Rightarrow> nat \<Rightarrow> u32" where
  "table s i = pte_page (pde s i)"

definition has_table :: "mmu \<Rightarrow> nat \<Rightarrow> bool" where
  "has_table s i \<longleftrightarrow> i < 1023 \<and> pte_present (pde s i)"

definition mapping :: "mmu \<Rightarrow> u32 \<Rightarrow> u32 option" where
  "mapping s va =
     (if has_table s (pd_index va)
      then let raw = frame s (table s (pd_index va)) (pt_index va) in if pte_present raw then Some raw else None
      else None)"

definition count :: "mmu \<Rightarrow> u32 \<Rightarrow> u8" where
  "count s a = ref_counts (mm_pages s) ! unat (a div PAGE_SIZE)"

definition managed :: "mmu \<Rightarrow> u32 \<Rightarrow> bool" where
  "managed s a \<longleftrightarrow> unat (a div PAGE_SIZE) < num_pages (mm_pages s)"

definition in_use :: "mmu \<Rightarrow> u32 \<Rightarrow> bool" where
  "in_use s a \<longleftrightarrow> (managed s a \<longrightarrow> count s a \<noteq> 0)"

definition is_table :: "mmu \<Rightarrow> u32 \<Rightarrow> bool" where
  "is_table s a \<longleftrightarrow> a = cr3 s \<or> (\<exists>i. has_table s i \<and> table s i = a)"

definition pt_ok :: "mmu \<Rightarrow> bool" where
  "pt_ok s \<longleftrightarrow> page_inv (mm_pages s)
     \<and> current_page_directory s = Some (cr3 s)
     \<and> pte_present (pde s 1023) \<and> table s 1023 = cr3 s
     \<and> (\<forall>a. is_table s a \<longrightarrow> in_use s a)
     \<and> (\<forall>i. has_table s i \<longrightarrow> table s i \<noteq> cr3 s)
     \<and> (\<forall>i j. has_table s i \<longrightarrow> has_table s j \<longrightarrow> table s i = table s j \<longrightarrow> i = j)"

text \<open>What the operations never change.\<close>

definition same_env :: "mmu \<Rightarrow> mmu \<Rightarrow> bool" where
  "same_env s s' \<longleftrightarrow> cr3 s' = cr3 s \<and> kernel_page_directory s' = kernel_page_directory s
     \<and> vm_page_directory s' = vm_page_directory s \<and> cpu_vms s' = cpu_vms s \<and> this_cpu s' = this_cpu s
     \<and> smp_active s' = smp_active s \<and> num_pages (mm_pages s') = num_pages (mm_pages s)"

lemma same_env_refl [simp]: "same_env s s"
  by (simp add: same_env_def)

lemma same_env_trans: "same_env s t \<Longrightarrow> same_env t u \<Longrightarrow> same_env s u"
  by (simp add: same_env_def)

lemma store_simps [simp]:
  "mm_pages (store s p i v) = mm_pages s" "cr3 (store s p i v) = cr3 s"
  "kernel_page_directory (store s p i v) = kernel_page_directory s"
  "vm_page_directory (store s p i v) = vm_page_directory s" "cpu_vms (store s p i v) = cpu_vms s"
  "this_cpu (store s p i v) = this_cpu s" "smp_active (store s p i v) = smp_active s" "tlb (store s p i v) = tlb s"
  "frame (store s p i v) q j = (if q = p \<and> j = i then v else frame s q j)"
  by (simp_all add: store_def)

lemma same_env_current: "same_env s s' \<Longrightarrow> current_page_directory s' = current_page_directory s"
  by (simp add: same_env_def current_page_directory_def cong: option.case_cong)

lemma pt_okD:
  assumes "pt_ok s"
  shows "page_inv (mm_pages s)" "current_page_directory s = Some (cr3 s)" "pte_present (pde s 1023)" "table s 1023 = cr3 s"
    "is_table s a \<Longrightarrow> in_use s a" "has_table s i \<Longrightarrow> table s i \<noteq> cr3 s"
    "has_table s i \<Longrightarrow> has_table s j \<Longrightarrow> table s i = table s j \<Longrightarrow> i = j"
    "cr3 s mod PAGE_SIZE = 0" "table s k mod PAGE_SIZE = 0"
proof -
  show "table s k mod PAGE_SIZE = 0" by (simp add: table_def)
  have "table s 1023 mod PAGE_SIZE = 0" unfolding table_def by (rule pte_page_mod)
  moreover show "table s 1023 = cr3 s" using assms by (simp add: pt_ok_def)
  ultimately show "cr3 s mod PAGE_SIZE = 0" by simp
qed (use assms in \<open>auto simp: pt_ok_def\<close>)

lemma get_page_table_eq:
  assumes "pte_present (pde s 1023)" "table s 1023 = cr3 s" "i < 1024" "pte_present (pde s i)"
  shows "get_page_table_from_index s i = Some (table s i)"
  using assms window_index [OF assms(3)]
  by (simp add: get_page_table_from_index_def walk_def pde_def table_def)

lemma get_pte_eq:
  assumes "pt_ok s" "pd_index va < 1023"
  shows "get_pte s va = Some (if has_table s (pd_index va) then Some (table s (pd_index va), pt_index va) else None)"
  using assms pt_okD [OF assms(1)] get_page_table_eq [of s "pd_index va"]
  by (simp add: get_pte_def has_table_def pde_def)

text \<open>Changing one entry of a table changes the mapping of one page and nothing else.\<close>

lemma store_entry:
  fixes v :: u32
  assumes "pt_ok s" "has_table s (pd_index va)"
  defines "s' \<equiv> store s (table s (pd_index va)) (pt_index va) v"
  shows "pt_ok s'" "same_env s s'" "\<And>i. pde s' i = pde s i" "\<And>i. has_table s' i = has_table s i"
    "\<And>i. table s' i = table s i" "\<And>a. is_table s' a = is_table s a"
    "mapping s' = (\<lambda>a. if pageno a = pageno va then if pte_present v then Some v else None else mapping s a)"
    "\<And>a. \<not> is_table s a \<Longrightarrow> frame s' a = frame s a"
proof -
  note d = pt_okD [OF assms(1)]
  have ne: "table s (pd_index va) \<noteq> cr3 s" using d(6) assms(2) by blast
  show env: "same_env s s'" by (simp add: same_env_def s'_def)
  show pde: "pde s' i = pde s i" for i using ne by (simp add: pde_def s'_def)
  show ht: "has_table s' i = has_table s i" for i by (simp add: has_table_def pde)
  show tb: "table s' i = table s i" for i by (simp add: table_def pde)
  have cr: "cr3 s' = cr3 s" by (simp add: s'_def)
  show it: "is_table s' a = is_table s a" for a by (simp add: is_table_def ht tb cr)
  have iu: "in_use s' a = in_use s a" for a by (simp add: in_use_def managed_def count_def s'_def)
  have "page_inv (mm_pages s')" using d(1) by (simp add: s'_def)
  moreover have "current_page_directory s' = Some (cr3 s')"
    using same_env_current [OF env] d(2) cr by simp
  ultimately show "pt_ok s'"
    unfolding pt_ok_def pde ht tb it iu cr using d by blast
  show "mapping s' = (\<lambda>a. if pageno a = pageno va then if pte_present v then Some v else None else mapping s a)"
  proof
    fix a
    have "table s (pd_index a) = table s (pd_index va) \<longleftrightarrow> pd_index a = pd_index va" if "has_table s (pd_index a)"
      using d(7) that assms(2) by auto
    then show "mapping s' a = (if pageno a = pageno va then if pte_present v then Some v else None else mapping s a)"
      using assms(2) by (simp add: mapping_def ht tb Let_def pageno_eq_iff) (auto simp: s'_def split: if_splits)
  qed
  show "frame s' a = frame s a" if "\<not> is_table s a" for a
  proof -
    have "a \<noteq> table s (pd_index va)" using that assms(2) by (auto simp: is_table_def)
    then show ?thesis by (simp add: s'_def store_def)
  qed
qed

section \<open>Allocation under the invariant\<close>

abbreviation counts :: "mmu \<Rightarrow> u8 list" where "counts s \<equiv> ref_counts (mm_pages s)"
abbreviation npages :: "mmu \<Rightarrow> nat" where "npages s \<equiv> num_pages (mm_pages s)"

lemma pt_ok_less: "pt_ok s \<Longrightarrow> p < npages s \<Longrightarrow> p < 2 ^ 20 \<and> p < length (counts s)"
  using page_inv_len [of "mm_pages s" p] pt_okD(1) [of s] by blast

lemma in_use_page_addr: "pt_ok s \<Longrightarrow> p < npages s \<Longrightarrow> in_use s (page_addr p) \<longleftrightarrow> counts s ! p \<noteq> 0"
  using pt_ok_less [of s p] page_index_page_addr [of p] by (simp add: in_use_def managed_def count_def)

lemma fresh_not_table: "pt_ok s \<Longrightarrow> p < npages s \<Longrightarrow> counts s ! p = 0 \<Longrightarrow> \<not> is_table s (page_addr p)"
  using pt_okD(5) in_use_page_addr by blast

lemma page_addr_inj: "p < 2 ^ 20 \<Longrightarrow> q < 2 ^ 20 \<Longrightarrow> page_addr p = page_addr q \<longleftrightarrow> p = q"
  using page_index_page_addr by metis

lemma with_pages_simps [simp]:
  "pde (s\<lparr>mm_pages := ps\<rparr>) = pde s" "table (s\<lparr>mm_pages := ps\<rparr>) = table s" "has_table (s\<lparr>mm_pages := ps\<rparr>) = has_table s"
  "is_table (s\<lparr>mm_pages := ps\<rparr>) = is_table s" "mapping (s\<lparr>mm_pages := ps\<rparr>) = mapping s"
  by (simp_all add: fun_eq_iff pde_def table_def has_table_def is_table_def mapping_def)

lemma with_pages_ok:
  assumes "pt_ok s" "page_inv ps" "num_pages ps = npages s"
    "\<And>p. p < npages s \<Longrightarrow> is_table s (page_addr p) \<Longrightarrow> ref_counts ps ! p \<noteq> 0"
  shows "pt_ok (s\<lparr>mm_pages := ps\<rparr>)" "same_env s (s\<lparr>mm_pages := ps\<rparr>)"
proof -
  let ?s = "s\<lparr>mm_pages := ps\<rparr>"
  note d = pt_okD [OF assms(1)]
  show env: "same_env s ?s" using assms(3) by (simp add: same_env_def)
  have "in_use ?s a" if t: "is_table s a" for a
  proof -
    have "a mod PAGE_SIZE = 0" using t d(8,9) unfolding is_table_def by metis
    from page_addr_index [OF this] t assms(3) assms(4) [of "unat (a div PAGE_SIZE)"] show ?thesis
      by (simp add: in_use_def managed_def count_def)
  qed
  then show "pt_ok ?s"
    unfolding pt_ok_def with_pages_simps same_env_current [OF env] using d assms(2) by simp
qed

section \<open>Growing an address space\<close>

text \<open>
  \<open>mapped s s' cs ps f\<close>: on the way from \<open>s\<close> to \<open>s'\<close> the pages at \<open>cs\<close> were mapped to the pages \<open>ps\<close>, which were
  free, with the flags \<open>f\<close>, and page tables were made out of other free pages. Nothing else changed.
\<close>

definition new_table :: "mmu \<Rightarrow> mmu \<Rightarrow> nat \<Rightarrow> bool" where
  "new_table s s' p \<longleftrightarrow> is_table s' (page_addr p) \<and> \<not> is_table s (page_addr p)"

definition mapped_to :: "u32 list \<Rightarrow> nat list \<Rightarrow> u32 \<Rightarrow> (u32 \<Rightarrow> u32 option) \<Rightarrow> u32 \<Rightarrow> u32 option" where
  "mapped_to cs ps f m a =
     (case map_of (zip (map pageno cs) ps) (pageno a) of Some p \<Rightarrow> Some (page_addr p OR f OR PTE_PRESENT) | None \<Rightarrow> m a)"

definition mapped :: "mmu \<Rightarrow> mmu \<Rightarrow> u32 list \<Rightarrow> nat list \<Rightarrow> u32 \<Rightarrow> bool" where
  "mapped s s' cs ps f \<longleftrightarrow> pt_ok s' \<and> same_env s s' \<and> tlb s' = tlb s
     \<and> length ps = length cs \<and> distinct ps
     \<and> (\<forall>a. is_table s a \<longrightarrow> is_table s' a) \<and> (\<forall>a. \<not> is_table s' a \<longrightarrow> frame s' a = frame s a)
     \<and> (\<forall>a. is_table s' a \<longrightarrow> \<not> is_table s a \<longrightarrow> (\<exists>p<npages s. a = page_addr p \<and> counts s ! p = 0))
     \<and> (\<forall>p\<in>set ps. p < npages s \<and> counts s ! p = 0 \<and> \<not> is_table s' (page_addr p))
     \<and> (\<forall>p<npages s. counts s' ! p = (if p \<in> set ps \<or> new_table s s' p then 1 else counts s ! p))
     \<and> mapping s' = mapped_to cs ps f (mapping s)"

lemma mappedD:
  assumes "mapped s s' cs ps f"
  shows "pt_ok s'" "same_env s s'" "tlb s' = tlb s" "length ps = length cs" "distinct ps" "is_table s a \<Longrightarrow> is_table s' a"
    "\<not> is_table s' a \<Longrightarrow> frame s' a = frame s a"
    "is_table s' a \<Longrightarrow> \<not> is_table s a \<Longrightarrow> \<exists>p<npages s. a = page_addr p \<and> counts s ! p = 0"
    "p \<in> set ps \<Longrightarrow> p < npages s \<and> counts s ! p = 0 \<and> \<not> is_table s' (page_addr p)"
    "p < npages s \<Longrightarrow> counts s' ! p = (if p \<in> set ps \<or> new_table s s' p then 1 else counts s ! p)"
    "mapping s' = mapped_to cs ps f (mapping s)" "npages s' = npages s"
  using assms by (auto simp: mapped_def same_env_def)

lemma mapped_refl: "pt_ok s \<Longrightarrow> mapped s s [] [] f"
  by (simp add: mapped_def new_table_def mapped_to_def fun_eq_iff)

lemma mapped_to_append:
  "length ps = length cs \<Longrightarrow> mapped_to ds qs f (mapped_to cs ps f m) a =
     (case map_of (zip (map pageno ds) qs) (pageno a) of Some p \<Rightarrow> Some (page_addr p OR f OR PTE_PRESENT) | None \<Rightarrow> mapped_to cs ps f m a)"
  by (simp add: mapped_to_def)

lemma map_of_zip_notin: "k \<notin> set ks \<Longrightarrow> map_of (zip ks vs) k = None"
  by (auto simp: map_of_eq_None_iff dest: set_zip_leftD)

lemma mapped_to_comp:
  assumes "length ps = length cs" "set (map pageno cs) \<inter> set (map pageno ds) = {}"
  shows "mapped_to ds qs f (mapped_to cs ps f m) = mapped_to (cs @ ds) (ps @ qs) f m"
proof
  fix a
  have z: "zip (map pageno (cs @ ds)) (ps @ qs) = zip (map pageno cs) ps @ zip (map pageno ds) qs"
    using assms(1) by simp
  show "mapped_to ds qs f (mapped_to cs ps f m) a = mapped_to (cs @ ds) (ps @ qs) f m a"
  proof (cases "pageno a \<in> set (map pageno cs)")
    case True
    then have "pageno a \<notin> set (map pageno ds)" using assms(2) by blast
    then have "map_of (zip (map pageno ds) qs) (pageno a) = None" by (rule map_of_zip_notin)
    then show ?thesis unfolding mapped_to_def z by (simp add: map_add_def split: option.splits)
  next
    case False
    then have "map_of (zip (map pageno cs) ps) (pageno a) = None" by (rule map_of_zip_notin)
    then show ?thesis unfolding mapped_to_def z by (simp add: map_add_def split: option.splits)
  qed
qed

lemma mapped_trans:
  assumes st: "mapped s t cs ps f" and tu: "mapped t u ds qs f"
    and dis: "set (map pageno cs) \<inter> set (map pageno ds) = {}" and ok: "pt_ok s"
  shows "mapped s u (cs @ ds) (ps @ qs) f"
proof -
  note a = mappedD [OF st] and b = mappedD [OF tu]
  have lt: "p < 2 ^ 20" if "p < npages s" for p using pt_ok_less [OF ok that] by simp
  have ps_t: "counts t ! p = 1" if "p \<in> set ps" for p using a(9,10) that by simp
  have ps_u: "\<not> is_table u (page_addr p)" if mem: "p \<in> set ps" for p
  proof
    assume "is_table u (page_addr p)"
    then obtain q where q: "q < npages t" "page_addr p = page_addr q" "counts t ! q = 0"
      using a(9) [OF mem] b(8) [of "page_addr p"] by auto
    then have "p = q" using page_addr_inj [of p q] lt [of p] lt [of q] a(9) [OF mem] a(12) by simp
    with q ps_t [OF mem] show False by simp
  qed
  have qs_s: "q < npages s \<and> counts s ! q = 0 \<and> q \<notin> set ps" if "q \<in> set qs" for q
  proof -
    have q: "q < npages s" "counts t ! q = 0" using b(9) [OF that] a(12) by auto
    then show ?thesis using a(10) [OF q(1)] ps_t by (auto split: if_splits)
  qed
  have cnt: "counts u ! p = (if p \<in> set (ps @ qs) \<or> new_table s u p then 1 else counts s ! p)" if "p < npages s" for p
  proof -
    have nt: "new_table s u p \<longleftrightarrow> new_table s t p \<or> new_table t u p"
      using a(6) b(6) by (auto simp: new_table_def)
    show ?thesis using a(10) [OF that] b(10) [of p] that a(12) nt by auto
  qed
  have tabs: "\<exists>p<npages s. x = page_addr p \<and> counts s ! p = 0" if x: "is_table u x" "\<not> is_table s x" for x
  proof (cases "is_table t x")
    case True
    then show ?thesis using a(8) x by blast
  next
    case False
    then obtain p where p: "p < npages s" "x = page_addr p" "counts t ! p = 0" using b(8) [OF x(1)] a(12) by auto
    then have "counts s ! p = 0" using a(10) [OF p(1)] by (auto split: if_splits)
    with p show ?thesis by blast
  qed
  have fr: "frame u x = frame s x" if "\<not> is_table u x" for x
    using a(7) [of x] b(7) [of x] b(6) [of x] that by auto
  have mp: "mapping u = mapped_to (cs @ ds) (ps @ qs) f (mapping s)"
    using mapped_to_comp [OF a(4) dis] a(11) b(11) by simp
  have env: "same_env s u" using same_env_trans a(2) b(2) by blast
  have tb: "is_table s x \<Longrightarrow> is_table u x" for x using a(6) b(6) by blast
  have dist: "distinct (ps @ qs)" using a(5) b(5) qs_s by auto
  have all: "\<forall>p\<in>set (ps @ qs). p < npages s \<and> counts s ! p = 0 \<and> \<not> is_table u (page_addr p)"
    using a(9) b(9) ps_u qs_s by auto
  show ?thesis
    unfolding mapped_def
    using a(3,4) b(1,3,4) env dist tb fr tabs all cnt mp by simp
qed

lemma new_page_state:
  assumes ok: "pt_ok s" and p: "p < npages s" "counts s ! p = 0"
    and ps: "page_inv ps" "num_pages ps = npages s" "ref_counts ps = (counts s)[p := 1]"
  shows "pt_ok (s\<lparr>mm_pages := ps\<rparr>)" "same_env s (s\<lparr>mm_pages := ps\<rparr>)" "\<not> is_table s (page_addr p)"
    "\<And>q. q < npages s \<Longrightarrow> counts (s\<lparr>mm_pages := ps\<rparr>) ! q = (if q = p then 1 else counts s ! q)"
proof -
  show c: "counts (s\<lparr>mm_pages := ps\<rparr>) ! q = (if q = p then 1 else counts s ! q)" if "q < npages s" for q
    using ps(3) pt_ok_less [OF ok p(1)] that by (simp add: nth_list_update)
  have "ref_counts ps ! q \<noteq> 0" if "q < npages s" "is_table s (page_addr q)" for q
    using c [OF that(1)] pt_okD(5) [OF ok that(2)] in_use_page_addr [OF ok that(1)] by simp
  from with_pages_ok [OF ok ps(1,2) this] show "pt_ok (s\<lparr>mm_pages := ps\<rparr>)" "same_env s (s\<lparr>mm_pages := ps\<rparr>)" by blast+
  show "\<not> is_table s (page_addr p)" using fresh_not_table [OF ok p] .
qed

text \<open>Writing an entry that leaves the directory without a table there is not seen.\<close>

lemma store_absent_pde:
  assumes "pt_ok s" "i < 1023" "\<not> has_table s i" "\<not> pte_present v"
  shows "mapped s (store s (cr3 s) i v) [] [] f"
proof -
  let ?s = "store s (cr3 s) i v"
  note d = pt_okD [OF assms(1)]
  have pde: "pde ?s j = (if j = i then v else pde s j)" for j by (simp add: pde_def)
  have ht: "has_table ?s j = has_table s j" for j using assms(2-4) by (auto simp: has_table_def pde)
  have tb: "table ?s j = table s j" if "has_table s j \<or> j = 1023" for j
    using that assms(2,3) by (auto simp: table_def pde)
  have it: "is_table ?s a = is_table s a" for a using ht tb by (auto simp: is_table_def)
  have env: "same_env s ?s" by (simp add: same_env_def)
  have iu: "in_use ?s a = in_use s a" for a by (simp add: in_use_def managed_def count_def)
  have ok: "pt_ok ?s"
    unfolding pt_ok_def iu it ht using d same_env_current [OF env] tb pde [of 1023] assms(2) by simp
  have mp: "mapping ?s a = mapping s a" for a
    using d(6) [of "pd_index a"] ht [of "pd_index a"] tb [of "pd_index a"] by (simp add: mapping_def)
  have "frame ?s a = frame s a" if "\<not> is_table ?s a" for a
    using that it by (simp add: fun_eq_iff is_table_def)
  with ok env mp it show ?thesis by (simp add: mapped_def new_table_def mapped_to_def fun_eq_iff)
qed

text \<open>A zeroed page as a new table adds no mapping.\<close>

lemma new_table_state:
  assumes ok: "pt_ok s" and i: "i < 1023" "\<not> has_table s i" and p: "p < npages s" "counts s ! p = 0"
    and ps: "page_inv ps" "num_pages ps = npages s" "ref_counts ps = (counts s)[p := 1]"
  defines "t \<equiv> store (s\<lparr>mm_pages := ps\<rparr>) (cr3 s) i (page_addr p OR 7)"
  defines "u \<equiv> t\<lparr>frame := (frame t)(page_addr p := \<lambda>k. if k < 1024 then 0 else frame t (page_addr p) k)\<rparr>"
  shows "get_page_table_from_index t i = Some (page_addr p)" "mapped s u [] [] f" "has_table u i" "table u i = page_addr p"
proof -
  note d = pt_okD [OF ok] and n = new_page_state [OF ok p ps]
  have lt: "p < 2 ^ 20" using pt_ok_less [OF ok p(1)] by simp
  have pc: "page_addr p \<noteq> cr3 s" using n(3) by (auto simp: is_table_def)
  have pp: "pte_page (page_addr p OR 7) = page_addr p" using pte_page_page_addr [OF lt] by simp
  have pdet: "pde t j = (if j = i then page_addr p OR 7 else pde s j)" for j by (simp add: pde_def t_def)
  have pde: "pde u j = (if j = i then page_addr p OR 7 else pde s j)" for j using pc by (simp add: pde_def u_def t_def)
  show "get_page_table_from_index t i = Some (page_addr p)"
    using get_page_table_eq [of t i] d(3,4) i(1) pp pdet [of i] pdet [of 1023] by (simp add: table_def) (simp add: t_def)
  show hi: "has_table u i" using i(1) by (simp add: has_table_def pde)
  show ti: "table u i = page_addr p" using pp by (simp add: table_def pde)
  have ht: "has_table u j \<longleftrightarrow> j = i \<or> has_table s j" for j using hi by (auto simp: has_table_def pde)
  have tb: "table u j = table s j" if "j \<noteq> i" for j using that by (simp add: table_def pde)
  have cr: "cr3 u = cr3 s" by (simp add: u_def t_def)
  have it: "is_table u a \<longleftrightarrow> a = page_addr p \<or> is_table s a" for a
    using ht tb ti i(2) cr unfolding is_table_def by metis
  have env: "same_env s u" using ps(2) by (simp add: same_env_def u_def t_def)
  have cnt: "counts u ! q = (if q = p then 1 else counts s ! q)" if "q < npages s" for q
    using n(4) [OF that] by (simp add: u_def t_def)
  have iu: "in_use u a" if "is_table u a" for a
  proof -
    have "in_use (s\<lparr>mm_pages := ps\<rparr>) a \<or> a = page_addr p" using that it pt_okD(5) [OF n(1)] by auto
    then show ?thesis
      using page_index_page_addr [OF lt] cnt [OF p(1)] by (auto simp: in_use_def managed_def count_def u_def t_def)
  qed
  have ne: "table u j \<noteq> cr3 u" if "has_table u j" for j
    using that ht tb ti pc d(6) cr by (cases "j = i") auto
  have inj: "j = k" if "has_table u j" "has_table u k" "table u j = table u k" for j k
  proof -
    have "table s x \<noteq> page_addr p" if "has_table s x" for x using that n(3) by (auto simp: is_table_def)
    with that ht tb ti d(7) show ?thesis by (metis)
  qed
  have 1: "pte_present (pde u 1023)" "table u 1023 = cr3 u" using d(3,4) pde [of 1023] tb [of 1023] i(1) cr by simp_all
  have "page_inv (mm_pages u)" using ps(1) by (simp add: u_def t_def)
  then have oku: "pt_ok u" unfolding pt_ok_def using 1 same_env_current [OF env] d(2) cr iu ne inj by auto
  have fr: "frame u a = frame s a" if "\<not> is_table s a" "a \<noteq> page_addr p" for a
    using that pc by (simp add: u_def t_def store_def is_table_def)
  have frt: "frame u (table s j) = frame s (table s j)" if "has_table s j" for j
  proof -
    have "table s j \<noteq> cr3 s" "table s j \<noteq> page_addr p" using d(6) that n(3) by (auto simp: is_table_def)
    then show ?thesis by (simp add: u_def t_def store_def)
  qed
  have mp: "mapping u a = mapping s a" for a
  proof (cases "pd_index a = i")
    case True
    then show ?thesis using hi ti i(2) by (simp add: mapping_def) (simp add: u_def)
  next
    case False
    then show ?thesis using ht [of "pd_index a"] tb [OF False] frt by (simp add: mapping_def)
  qed
  have nt: "new_table s u q \<longleftrightarrow> q = p" if "q < npages s" for q
    using it n(3) page_addr_inj [OF _ lt] pt_ok_less [OF ok that] by (auto simp: new_table_def)
  have tl: "tlb u = tlb s" by (simp add: u_def t_def)
  show "mapped s u [] [] f"
    using oku env it fr p cnt nt mp tl by (auto simp: mapped_def mapped_to_def fun_eq_iff)
qed

lemma get_or_create_pte_spec:
  assumes ok: "pt_ok s" and i: "pd_index va < 1023"
  shows "\<exists>r s'. get_or_create_pte s va = Some (r, s') \<and> mapped s s' [] [] f
    \<and> (case r of Inl e \<Rightarrow> e = ENOMEM
       | Inr q \<Rightarrow> has_table s' (pd_index va) \<and> q = (table s' (pd_index va), pt_index va))"
proof (cases "has_table s (pd_index va)")
  case True
  then have "get_or_create_page_table s va = Some (Inr (table s (pd_index va)), s)"
    using pt_okD [OF ok] get_page_table_eq [of s "pd_index va"] by (simp add: get_or_create_page_table_def has_table_def pde_def)
  then show ?thesis using True mapped_refl [OF ok] by (simp add: get_or_create_pte_def)
next
  case False
  note d = pt_okD [OF ok]
  have np: "\<not> pte_present (frame s (cr3 s) (pd_index va))" using False i by (simp add: has_table_def pde_def)
  from page_alloc_counts [OF d(1)] show ?thesis
  proof
    assume a: "page_alloc (mm_pages s) = Some (Inl ENOMEM, mm_pages s)"
    let ?s = "store s (cr3 s) (pd_index va) (- word_of_int (errno_val ENOMEM))"
    have "\<not> pte_present (- word_of_int (errno_val ENOMEM))" by (simp add: pte_present_def)
    then have m: "mapped s ?s [] [] f" by (rule store_absent_pde [OF ok i False])
    have "get_or_create_pte s va = Some (Inl ENOMEM, ?s)"
      using a d(2) np by (simp add: get_or_create_pte_def get_or_create_page_table_def Let_def)
    with m show ?thesis by auto
  next
    assume "\<exists>p ps. p < npages s \<and> counts s ! p = 0 \<and> page_alloc (mm_pages s) = Some (Inr (page_addr p), ps)
      \<and> page_inv ps \<and> num_pages ps = npages s \<and> ref_counts ps = (counts s)[p := 1]"
    then obtain p ps where p: "p < npages s" "counts s ! p = 0" and a: "page_alloc (mm_pages s) = Some (Inr (page_addr p), ps)"
      and ps: "page_inv ps" "num_pages ps = npages s" "ref_counts ps = (counts s)[p := 1]" by blast
    let ?t = "store (s\<lparr>mm_pages := ps\<rparr>) (cr3 s) (pd_index va) (page_addr p OR 7)"
    let ?u = "?t\<lparr>frame := (frame ?t)(page_addr p := \<lambda>k. if k < 1024 then 0 else frame ?t (page_addr p) k)\<rparr>"
    note n = new_table_state [OF ok i False p ps]
    have "get_or_create_pte s va = Some (Inr (page_addr p, pt_index va), ?u)"
      using a d(2) np n(1) by (simp add: get_or_create_pte_def get_or_create_page_table_def Let_def)
    with n show ?thesis by auto
  qed
qed

lemma map_one:
  assumes ok: "pt_ok s" and ht: "has_table s (pd_index c)" and p: "p < npages s" "counts s ! p = 0"
    and ps: "page_inv ps" "num_pages ps = npages s" "ref_counts ps = (counts s)[p := 1]"
  shows "mapped s (store (s\<lparr>mm_pages := ps\<rparr>) (table s (pd_index c)) (pt_index c) (page_addr p OR f OR PTE_PRESENT)) [c] [p] f"
proof -
  let ?t = "s\<lparr>mm_pages := ps\<rparr>"
  note n = new_page_state [OF ok p ps]
  have h: "has_table ?t (pd_index c)" using ht by simp
  note e = store_entry [OF n(1) h, where v = "page_addr p OR f OR PTE_PRESENT"]
  let ?u = "store ?t (table ?t (pd_index c)) (pt_index c) (page_addr p OR f OR PTE_PRESENT)"
  have env: "same_env s ?u" using same_env_trans [OF n(2) e(2)] .
  have mp: "mapping ?u = mapped_to [c] [p] f (mapping s)"
    unfolding e(7) by (auto simp: fun_eq_iff mapped_to_def)
  have it: "is_table ?u a = is_table s a" for a using e(6) by simp
  have fr: "frame ?u a = frame s a" if "\<not> is_table s a" for a using e(8) that by simp
  have cnt: "counts ?u ! q = (if q = p then 1 else counts s ! q)" if "q < npages s" for q
    using n(4) [OF that] by simp
  have nt: "\<not> new_table s ?u q" for q using it by (simp add: new_table_def)
  have tl: "tlb ?u = tlb s" by simp
  have "mapped s ?u [c] [p] f"
    unfolding mapped_def using e(1) env tl it fr mp cnt nt n(3) p by simp
  then show ?thesis by simp
qed

lemma mapped_unmapped:
  "mapped s s' cs ps f \<Longrightarrow> pageno a \<notin> set (map pageno cs) \<Longrightarrow> mapping s' a = mapping s a"
  using mappedD(11) [of s s' cs ps f] map_of_zip_notin [of "pageno a" "map pageno cs" ps] by (simp add: mapped_to_def)

lemma map_anon_loop_spec:
  assumes "pt_ok s" "\<forall>c\<in>set cs. pd_index c < 1023 \<and> mapping s c = None" "distinct (map pageno cs)"
  shows "\<exists>r s'. map_anon_loop cs f s = Some (r, s')
    \<and> (case r of None \<Rightarrow> \<exists>ps. mapped s s' cs ps f
       | Some (e, c) \<Rightarrow> e = ENOMEM \<and> (\<exists>as bs ps. cs = as @ c # bs \<and> mapped s s' as ps f))"
  using assms
proof (induction cs arbitrary: s)
  case Nil
  then show ?case using mapped_refl by auto
next
  case (Cons c cs)
  have i: "pd_index c < 1023" and none: "mapping s c = None" using Cons.prems(2) by auto
  obtain r s1 where g: "get_or_create_pte s c = Some (r, s1)" and m1: "mapped s s1 [] [] f"
    and r: "case r of Inl e \<Rightarrow> e = ENOMEM | Inr q \<Rightarrow> has_table s1 (pd_index c) \<and> q = (table s1 (pd_index c), pt_index c)"
    using get_or_create_pte_spec [OF Cons.prems(1) i, of f] by blast
  note a = mappedD [OF m1]
  show ?case
  proof (cases r)
    case (Inl e)
    then have "map_anon_loop (c # cs) f s = Some (Some (ENOMEM, c), s1)" "c # cs = [] @ c # cs" using g r by auto
    with m1 show ?thesis by (intro exI [of _ "Some (ENOMEM, c)"] exI [of _ s1]) auto
  next
    case (Inr q)
    then have ht: "has_table s1 (pd_index c)" and q: "q = (table s1 (pd_index c), pt_index c)" using r by auto
    have np: "\<not> pte_present (frame s1 (table s1 (pd_index c)) (pt_index c))"
      using mapped_unmapped [OF m1, of c] none ht by (simp add: mapping_def Let_def split: if_splits)
    from page_alloc_counts [OF pt_okD(1) [OF a(1)]] show ?thesis
    proof
      assume al: "page_alloc (mm_pages s1) = Some (Inl ENOMEM, mm_pages s1)"
      have run: "map_anon_loop (c # cs) f s = Some (Some (ENOMEM, c), s1)" using g Inr q np al by (simp add: Let_def)
      have "c # cs = [] @ c # cs" by simp
      with run m1 show ?thesis by (intro exI [of _ "Some (ENOMEM, c)"] exI [of _ s1]) auto
    next
      assume "\<exists>p ps. p < npages s1 \<and> counts s1 ! p = 0 \<and> page_alloc (mm_pages s1) = Some (Inr (page_addr p), ps)
        \<and> page_inv ps \<and> num_pages ps = npages s1 \<and> ref_counts ps = (counts s1)[p := 1]"
      then obtain p ps where p: "p < npages s1" "counts s1 ! p = 0" and al: "page_alloc (mm_pages s1) = Some (Inr (page_addr p), ps)"
        and ps: "page_inv ps" "num_pages ps = npages s1" "ref_counts ps = (counts s1)[p := 1]" by blast
      let ?s = "store (s1\<lparr>mm_pages := ps\<rparr>) (table s1 (pd_index c)) (pt_index c) (page_addr p OR f OR PTE_PRESENT)"
      have "mapped s1 ?s [c] [p] f" by (rule map_one [OF a(1) ht p ps])
      from mapped_trans [OF m1 this _ Cons.prems(1)] have m2: "mapped s ?s [c] [p] f" by simp
      note b = mappedD [OF m2]
      have "\<forall>x\<in>set cs. pd_index x < 1023 \<and> mapping ?s x = None"
      proof
        fix x assume x: "x \<in> set cs"
        then have "pageno x \<notin> set (map pageno [c])" using Cons.prems(3) by (auto simp: image_iff)
        from mapped_unmapped [OF m2 this] x Cons.prems(2) show "pd_index x < 1023 \<and> mapping ?s x = None" by simp
      qed
      from Cons.IH [OF b(1) this] Cons.prems(3) obtain r' s' where run: "map_anon_loop cs f ?s = Some (r', s')"
        and c: "case r' of None \<Rightarrow> \<exists>ps. mapped ?s s' cs ps f
          | Some (e, x) \<Rightarrow> e = ENOMEM \<and> (\<exists>as bs ps. cs = as @ x # bs \<and> mapped ?s s' as ps f)" by auto
      have all: "map_anon_loop (c # cs) f s = Some (r', s')" using g Inr q np al run by (simp add: Let_def)
      show ?thesis
      proof (cases r')
        case None
        then obtain qs where "mapped ?s s' cs qs f" using c by auto
        from mapped_trans [OF m2 this _ Cons.prems(1)] Cons.prems(3) have "mapped s s' (c # cs) (p # qs) f" by simp
        with all None show ?thesis by auto
      next
        case (Some ex)
        obtain e x where ex: "ex = (e, x)" by (cases ex)
        then obtain as bs qs where e: "e = ENOMEM" "cs = as @ x # bs" "mapped ?s s' as qs f" using c Some by auto
        from mapped_trans [OF m2 e(3) _ Cons.prems(1)] Cons.prems(3) e(2) have m: "mapped s s' (c # as) (p # qs) f" by simp
        have "c # cs = (c # as) @ x # bs" using e(2) by simp
        with m have "\<exists>as bs ps. c # cs = as @ x # bs \<and> mapped s s' as ps f" by blast
        with all Some ex e(1) show ?thesis by (intro exI [of _ r'] exI [of _ s']) (simp del: map_anon_loop.simps)
      qed
    qed
  qed
qed

section \<open>Shrinking an address space\<close>

text \<open>
  How many of the pages at \<open>cs\<close> are mapped to page \<open>p\<close>, and what dropping that many references leaves of its
  count, which stays at 255 once it is there.
\<close>

definition refs_in :: "(u32 \<Rightarrow> u32 option) \<Rightarrow> u32 list \<Rightarrow> nat \<Rightarrow> nat" where
  "refs_in m cs p = length (filter (\<lambda>c. map_option pte_page (m c) = Some (page_addr p)) cs)"

definition drop_refs :: "u8 \<Rightarrow> nat \<Rightarrow> u8" where
  "drop_refs c n = (if c = 255 then 255 else c - of_nat n)"

definition refs_held :: "mmu \<Rightarrow> u32 list \<Rightarrow> bool" where
  "refs_held s cs \<longleftrightarrow> (\<forall>p<npages s. let n = refs_in (mapping s) cs p in
     (counts s ! p = 255 \<or> n \<le> unat (counts s ! p)) \<and> (0 < n \<longrightarrow> \<not> is_table s (page_addr p)))"

definition unmapped :: "mmu \<Rightarrow> mmu \<Rightarrow> u32 list \<Rightarrow> bool" where
  "unmapped s s' cs \<longleftrightarrow> pt_ok s' \<and> same_env s s' \<and> tlb s' = tlb s
     \<and> (\<forall>a. is_table s' a = is_table s a) \<and> (\<forall>a. \<not> is_table s a \<longrightarrow> frame s' a = frame s a)
     \<and> (\<forall>p<npages s. counts s' ! p = drop_refs (counts s ! p) (refs_in (mapping s) cs p))
     \<and> mapping s' = (\<lambda>a. if pageno a \<in> set (map pageno cs) then None else mapping s a)"

lemma unmap_one:
  assumes ok: "pt_ok s" and m: "mapping s c = Some raw" and h: "refs_held s (c # cs)"
  shows "\<exists>ps. page_unref (mm_pages s) (pte_page raw) = Some ps
    \<and> unmapped s (store (s\<lparr>mm_pages := ps\<rparr>) (table s (pd_index c)) (pt_index c) 0) [c]"
proof -
  note d = pt_okD [OF ok]
  define q where "q = unat (pte_page raw div PAGE_SIZE)"
  have q: "pte_page raw = page_addr q" "q < 2 ^ 20"
    using page_addr_index [OF pte_page_mod, of raw] by (simp_all add: q_def)
  have one: "refs_in (mapping s) [c] p = (if p = q then 1 else 0)" if "p < 2 ^ 20" for p
    using m q page_addr_inj [OF that q(2)] by (auto simp: refs_in_def)
  have pos: "0 < refs_in (mapping s) (c # cs) q" using m q by (simp add: refs_in_def)
  have nz: "counts s ! q \<noteq> 0" and nt: "\<not> is_table s (page_addr q)" if "q < npages s"
    using h that pos by (auto simp: refs_held_def Let_def)
  obtain ps where ps: "page_unref (mm_pages s) (pte_page raw) = Some ps" "page_inv ps" "num_pages ps = npages s"
    "ref_counts ps = (if q < npages s \<and> counts s ! q \<noteq> 255 then (counts s)[q := counts s ! q - 1] else counts s)"
    using page_unref_counts [OF d(1) pte_page_mod q_def] nz by blast
  have cnt: "ref_counts ps ! p = drop_refs (counts s ! p) (refs_in (mapping s) [c] p)" if "p < npages s" for p
    using ps(4) one [of p] pt_ok_less [OF ok that] that by (auto simp: drop_refs_def nth_list_update)
  have "ref_counts ps ! p \<noteq> 0" if "p < npages s" "is_table s (page_addr p)" for p
  proof -
    have "p \<noteq> q" using that nt by blast
    then show ?thesis
      using cnt [OF that(1)] one [of p] pt_ok_less [OF ok that(1)] d(5) [OF that(2)] in_use_page_addr [OF ok that(1)]
      by (simp add: drop_refs_def)
  qed
  note w = with_pages_ok [OF ok ps(2,3) this]
  have ht: "has_table (s\<lparr>mm_pages := ps\<rparr>) (pd_index c)" using m by (simp add: mapping_def split: if_splits)
  note e = store_entry [OF w(1) ht, where v = 0]
  have "unmapped s (store (s\<lparr>mm_pages := ps\<rparr>) (table (s\<lparr>mm_pages := ps\<rparr>) (pd_index c)) (pt_index c) 0) [c]"
    unfolding unmapped_def using e(1,6,7,8) same_env_trans [OF w(2) e(2)] cnt by (simp add: fun_eq_iff)
  with ps(1) show ?thesis by auto
qed

lemma refs_in_Cons: "refs_in m (c # cs) p = refs_in m [c] p + refs_in m cs p"
  by (simp add: refs_in_def)

lemma refs_in_cong: "(\<And>c. c \<in> set cs \<Longrightarrow> m c = m' c) \<Longrightarrow> refs_in m cs p = refs_in m' cs p"
  unfolding refs_in_def by (rule arg_cong [where f = length]) (rule filter_cong, simp_all)

lemma drop_refs_add:
  assumes "c = 255 \<or> n + k \<le> unat c"
  shows "drop_refs (drop_refs c n) k = drop_refs c (n + k)"
    and "drop_refs c n = 255 \<or> k \<le> unat (drop_refs c n)"
proof -
  have n: "unat (c - of_nat n) = unat c - n" if "n + k \<le> unat c"
  proof -
    have "n < 256" using that unat_u8_less [of c] by linarith
    then show ?thesis using that by (simp add: unat_sub_if_size word_size unat_of_nat)
  qed
  show "drop_refs c n = 255 \<or> k \<le> unat (drop_refs c n)"
    using assms n by (auto simp: drop_refs_def)
  show "drop_refs (drop_refs c n) k = drop_refs c (n + k)"
  proof (cases "c = 255 \<or> n = 0")
    case False
    then have "unat (c - of_nat n) \<noteq> 255" using n assms unat_u8_less [of c] by auto
    then have "c - of_nat n \<noteq> 255" by auto
    with False show ?thesis by (simp add: drop_refs_def algebra_simps)
  qed (auto simp: drop_refs_def)
qed

lemma unmapped_refl: "pt_ok s \<Longrightarrow> unmapped s s []"
  by (simp add: unmapped_def refs_in_def drop_refs_def)

lemma unmap_loop_spec:
  assumes "pt_ok s" "\<forall>c\<in>set cs. pd_index c < 1023 \<and> mapping s c \<noteq> None" "distinct (map pageno cs)" "refs_held s cs"
  shows "\<exists>s'. unmap_loop cs s = Some s' \<and> unmapped s s' cs"
  using assms
proof (induction cs arbitrary: s)
  case Nil
  then show ?case using unmapped_refl by auto
next
  case (Cons c cs)
  obtain raw where raw: "mapping s c = Some raw" using Cons.prems(2) by auto
  have i: "pd_index c < 1023" and ht: "has_table s (pd_index c)" and e: "frame s (table s (pd_index c)) (pt_index c) = raw" "pte_present raw"
    using raw Cons.prems(2) by (auto simp: mapping_def Let_def split: if_splits)
  obtain ps where ps: "page_unref (mm_pages s) (pte_page raw) = Some ps"
    and u: "unmapped s (store (s\<lparr>mm_pages := ps\<rparr>) (table s (pd_index c)) (pt_index c) 0) [c]"
    using unmap_one [OF Cons.prems(1) raw Cons.prems(4)] by blast
  define t where "t = store (s\<lparr>mm_pages := ps\<rparr>) (table s (pd_index c)) (pt_index c) 0"
  have step: "unmap_loop (c # cs) s = unmap_loop cs t"
    using get_pte_eq [OF Cons.prems(1) i] ht e ps by (simp add: t_def)
  have u: "unmapped s t [c]" using u by (simp add: t_def)
  have np: "npages t = npages s" using u by (simp add: unmapped_def same_env_def)
  have same: "mapping t x = mapping s x" if "x \<in> set cs" for x
  proof -
    have "pageno x \<noteq> pageno c" using that Cons.prems(3) by (auto simp: image_iff)
    then show ?thesis using u by (simp add: unmapped_def)
  qed
  have refs: "refs_in (mapping t) cs p = refs_in (mapping s) cs p" for p by (rule refs_in_cong) (rule same)
  have cnt: "counts t ! p = drop_refs (counts s ! p) (refs_in (mapping s) [c] p)" if "p < npages s" for p
    using u that by (simp add: unmapped_def)
  have le: "counts s ! p = 255 \<or> refs_in (mapping s) [c] p + refs_in (mapping s) cs p \<le> unat (counts s ! p)" if "p < npages s" for p
    using Cons.prems(4) that refs_in_Cons [of "mapping s" c cs p] by (auto simp: refs_held_def Let_def)
  have held: "refs_held t cs"
    unfolding refs_held_def Let_def refs np
  proof (intro allI impI conjI)
    fix p assume p: "p < npages s"
    show "counts t ! p = 255 \<or> refs_in (mapping s) cs p \<le> unat (counts t ! p)"
      using drop_refs_add(2) [OF le [OF p]] cnt [OF p] by simp
    assume "0 < refs_in (mapping s) cs p"
    then show "\<not> is_table t (page_addr p)"
      using Cons.prems(4) p refs_in_Cons [of "mapping s" c cs p] u by (auto simp: refs_held_def Let_def unmapped_def)
  qed
  have okt: "pt_ok t" using u by (simp add: unmapped_def)
  have all: "\<forall>x\<in>set cs. pd_index x < 1023 \<and> mapping t x \<noteq> None" using Cons.prems(2) same by simp
  obtain s' where s': "unmap_loop cs t = Some s'" "unmapped t s' cs"
    using Cons.IH [OF okt all _ held] Cons.prems(3) by auto
  have cnt': "counts s' ! p = drop_refs (counts s ! p) (refs_in (mapping s) (c # cs) p)" if "p < npages s" for p
    using s'(2) cnt [OF that] that np refs drop_refs_add(1) [OF le [OF that]] refs_in_Cons [of "mapping s" c cs p]
    by (simp add: unmapped_def)
  have env: "same_env s s'" using u s'(2) same_env_trans unfolding unmapped_def by blast
  have "unmapped s s' (c # cs)"
    unfolding unmapped_def using cnt' env u s'(2) by (auto simp: unmapped_def fun_eq_iff)
  with s'(1) step show ?case by auto
qed

section \<open>Ranges and flushes\<close>

lemma nth_cursors:
  assumes "unat va + n * 4096 \<le> 2 ^ 32" "i < n"
  shows "unat (va + of_nat i * PAGE_SIZE) = unat va + i * 4096"
proof -
  have "unat va + i * 4096 < 2 ^ 32" using assms unat_u32_less [of va] by simp
  then show ?thesis by (simp add: unat_word_ariths unat_of_nat)
qed

lemma cursors_pages:
  assumes "unat va + n * 4096 < 2 ^ 32"
  shows "cursors va (va + of_nat n * PAGE_SIZE) = map (\<lambda>i. va + of_nat i * PAGE_SIZE) [0..<n]"
proof -
  have "unat (va + of_nat n * PAGE_SIZE) = unat va + n * 4096"
    using assms by (simp add: unat_word_ariths unat_of_nat)
  then show ?thesis by (simp add: cursors_def)
qed

lemma map_pageno_cursors:
  assumes "unat va + n * 4096 < 2 ^ 32"
  shows "map pageno (map (\<lambda>i. va + of_nat i * PAGE_SIZE) [0..<n]) = [pageno va..<pageno va + n]"
proof (rule nth_equalityI)
  fix i assume "i < length (map pageno (map (\<lambda>i. va + of_nat i * PAGE_SIZE) [0..<n]))"
  then have i: "i < n" by simp
  have "unat (va + of_nat i * PAGE_SIZE) = unat va + i * 4096" using nth_cursors [of va n i] assms i by simp
  then show "map pageno (map (\<lambda>i. va + of_nat i * PAGE_SIZE) [0..<n]) ! i = [pageno va..<pageno va + n] ! i"
    using i by (simp add: pageno_def)
qed simp

lemma ROUND_UP_aligned: "sz mod PAGE_SIZE = 0 \<Longrightarrow> ROUND_UP sz PAGE_SIZE = sz"
proof -
  assume "sz mod PAGE_SIZE = 0"
  then have lo: "\<not> bit sz k" if "k < 12" for k
    using that pte_page_aligned [of sz] bit_pte_page [of sz k] by simp
  have d: "sz + mask 12 = sz OR mask 12"
    by (rule disjunctive_add) (use lo in \<open>auto simp: bit_simps\<close>)
  have "ROUND_UP sz PAGE_SIZE = (sz + mask 12) AND NOT (mask 12)" by (simp add: ROUND_UP_def mask_12 [symmetric])
  also have "\<dots> = sz" unfolding d by (rule bit_word_eqI) (use lo in \<open>auto simp: bit_simps\<close>)
  finally show ?thesis .
qed

text \<open>A range the caches can be flushed for: kernel addresses, or user addresses of the current task.\<close>

definition flushable :: "mmu \<Rightarrow> u32 \<Rightarrow> u32 \<Rightarrow> bool" where
  "flushable s va sz \<longleftrightarrow> is_kernel_address va \<or> is_user_range va sz \<and> cpu_vms s ! this_cpu s \<noteq> None"

text \<open>The processors that may hold translations of the range for the current address space.\<close>

definition concerned :: "mmu \<Rightarrow> u32 \<Rightarrow> nat \<Rightarrow> bool" where
  "concerned s va cpu \<longleftrightarrow> cpu = this_cpu s \<or> smp_active s \<and> cpu < length (cpu_vms s)
     \<and> (is_kernel_address va \<or> cpu_vms s ! cpu \<noteq> None \<and> cpu_vms s ! cpu = cpu_vms s ! this_cpu s)"

lemma flush_targets_spec:
  assumes "flushable s va sz" "this_cpu s < length (cpu_vms s)"
  shows "\<exists>cpus. flush_targets s va sz = Some cpus \<and> set cpus = {i. concerned s va i}"
proof -
  consider (one) "\<not> smp_active s" | (kernel) "smp_active s" "is_kernel_address va"
    | (user) vm where "smp_active s" "\<not> is_kernel_address va" "is_user_range va sz" "cpu_vms s ! this_cpu s = Some vm"
    using assms(1) by (auto simp: flushable_def)
  then show ?thesis
  proof cases
    case one
    then show ?thesis by (auto simp: flush_targets_def concerned_def)
  next
    case kernel
    then show ?thesis using assms(2) by (auto simp: flush_targets_def concerned_def)
  next
    case user
    then show ?thesis using assms(2) by (auto simp: flush_targets_def concerned_def Let_def filter_empty_conv)
  qed
qed

lemma flush_tlb_range_spec:
  assumes "flushable s va sz" "this_cpu s < length (cpu_vms s)" "va mod PAGE_SIZE = 0" "sz mod PAGE_SIZE = 0"
  shows "flush_tlb_range s va sz = Some (s\<lparr>tlb := tlb s - {i. concerned s va i} \<times> set (cursors va (va + sz))\<rparr>)"
  using flush_targets_spec [OF assms(1,2)] assms(3,4) by (auto simp: flush_tlb_range_def)

definition page_range :: "u32 \<Rightarrow> nat \<Rightarrow> u32 list" where
  "page_range va n = map (\<lambda>i. va + of_nat i * PAGE_SIZE) [0..<n]"

text \<open>\<open>n\<close> pages from \<open>va\<close> on, below the window of the recursive entry.\<close>

definition range_ok :: "u32 \<Rightarrow> nat \<Rightarrow> bool" where
  "range_ok va n \<longleftrightarrow> va mod PAGE_SIZE = 0 \<and> unat va + n * 4096 \<le> 0xffc00000"

lemma page_range_simps [simp]:
  "length (page_range va n) = n" "i < n \<Longrightarrow> page_range va n ! i = va + of_nat i * PAGE_SIZE"
  by (simp_all add: page_range_def)

lemma range_okD:
  assumes "range_ok va n"
  shows "cursors va (va + of_nat n * PAGE_SIZE) = page_range va n"
    "map pageno (page_range va n) = [pageno va..<pageno va + n]"
    "distinct (map pageno (page_range va n))"
    "c \<in> set (page_range va n) \<Longrightarrow> pd_index c < 1023"
    "(of_nat n * PAGE_SIZE) mod PAGE_SIZE = 0" "va mod PAGE_SIZE = 0"
    "unat (of_nat n * PAGE_SIZE :: u32) = n * 4096"
proof -
  have le: "unat va + n * 4096 \<le> 0xffc00000" and al: "va mod PAGE_SIZE = 0" using assms by (simp_all add: range_ok_def)
  show "va mod PAGE_SIZE = 0" by (rule al)
  show "cursors va (va + of_nat n * PAGE_SIZE) = page_range va n"
    using le cursors_pages [of va n] by (simp add: page_range_def)
  show pn: "map pageno (page_range va n) = [pageno va..<pageno va + n]"
    using le map_pageno_cursors [of va n] by (simp add: page_range_def)
  show "distinct (map pageno (page_range va n))" unfolding pn by simp
  show u: "unat (of_nat n * PAGE_SIZE :: u32) = n * 4096" using le by (simp add: unat_word_ariths unat_of_nat)
  show "(of_nat n * PAGE_SIZE) mod PAGE_SIZE = 0" using u by (simp add: word_unat_eq_iff unat_mod)
  assume "c \<in> set (page_range va n)"
  then obtain i where i: "i < n" "c = va + of_nat i * PAGE_SIZE" by (auto simp: page_range_def)
  then have "unat c = unat va + i * 4096" using nth_cursors [of va n i] le by simp
  with i le have "unat c < 0xffc00000" by simp
  then show "pd_index c < 1023" by (simp add: pd_index_pageno pageno_def)
qed

lemma with_tlb_simps [simp]:
  "pde (s\<lparr>tlb := t\<rparr>) = pde s" "table (s\<lparr>tlb := t\<rparr>) = table s" "has_table (s\<lparr>tlb := t\<rparr>) = has_table s"
  "is_table (s\<lparr>tlb := t\<rparr>) = is_table s" "mapping (s\<lparr>tlb := t\<rparr>) = mapping s" "pt_ok (s\<lparr>tlb := t\<rparr>) = pt_ok s"
  "same_env r (s\<lparr>tlb := t\<rparr>) = same_env r s" "new_table r (s\<lparr>tlb := t\<rparr>) = new_table r s"
  by (simp_all add: fun_eq_iff pde_def table_def has_table_def is_table_def mapping_def pt_ok_def in_use_def managed_def
      count_def current_page_directory_def same_env_def new_table_def cong: option.case_cong)

lemma pt_ok_cpu: "pt_ok s \<Longrightarrow> this_cpu s < length (cpu_vms s)"
  using pt_okD(2) [of s] by (cases "this_cpu s < length (cpu_vms s)") (simp_all add: current_page_directory_def)

lemma same_env_flush:
  assumes "same_env s s'"
  shows "flushable s' va sz = flushable s va sz" "concerned s' va i = concerned s va i"
  using assms by (simp_all add: same_env_def flushable_def concerned_def)

lemma flush_range:
  assumes "pt_ok s" "range_ok va n" "flushable s va (of_nat n * PAGE_SIZE)"
  shows "flush_tlb_range s va (of_nat n * PAGE_SIZE)
    = Some (s\<lparr>tlb := tlb s - {i. concerned s va i} \<times> set (page_range va n)\<rparr>)"
  using flush_tlb_range_spec [OF assms(3) pt_ok_cpu [OF assms(1)]] range_okD [OF assms(2)] by simp

lemma page_table_unmap_run:
  assumes "pt_ok s" "range_ok va n" "flushable s va (of_nat n * PAGE_SIZE)"
    "\<forall>c\<in>set (page_range va n). mapping s c \<noteq> None" "refs_held s (page_range va n)"
  shows "\<exists>t. page_table_unmap s va (of_nat n * PAGE_SIZE)
      = Some (t\<lparr>tlb := tlb s - {i. concerned s va i} \<times> set (page_range va n)\<rparr>) \<and> unmapped s t (page_range va n)"
proof -
  note r = range_okD [OF assms(2)]
  obtain t where t: "unmap_loop (page_range va n) s = Some t" "unmapped s t (page_range va n)"
    using unmap_loop_spec [OF assms(1) _ r(3) assms(5)] r(4) assms(4) by blast
  have ok: "pt_ok t" "same_env s t" "tlb t = tlb s" using t(2) by (simp_all add: unmapped_def)
  have f: "flushable t va (of_nat n * PAGE_SIZE)" using same_env_flush(1) [OF ok(2)] assms(3) by simp
  show ?thesis
    using flush_range [OF ok(1) assms(2) f] t ok(3) same_env_flush(2) [OF ok(2)] r
    by (intro exI [of _ t]) (simp add: page_table_unmap_def ROUND_UP_aligned [OF r(5)] Let_def)
qed

section \<open>Properties\<close>

text \<open>
  C20. \<^verbatim>\<open>page_table_unmap\<close> of \<open>n\<close> mapped pages, each of which holds the reference its mapping counts for, fails no
  assertion. Afterwards none of the pages is mapped and every other page is mapped as before, each physical
  page has lost as many references as it had mappings in the range (a saturated count stays), no other
  memory is written, and no processor that could use the address space keeps a translation of the range.
\<close>

theorem page_table_unmap_correct:
  assumes "pt_ok s" "range_ok va n" "flushable s va (of_nat n * PAGE_SIZE)"
    and "\<forall>c\<in>set (page_range va n). mapping s c \<noteq> None" "refs_held s (page_range va n)"
  shows "\<exists>s'. page_table_unmap s va (of_nat n * PAGE_SIZE) = Some s' \<and> pt_ok s'
    \<and> (\<forall>a. mapping s' a = (if pageno a \<in> {pageno va..<pageno va + n} then None else mapping s a))
    \<and> (\<forall>p<npages s. counts s' ! p = drop_refs (counts s ! p) (refs_in (mapping s) (page_range va n) p))
    \<and> (\<forall>a. \<not> is_table s a \<longrightarrow> frame s' a = frame s a)
    \<and> (\<forall>cpu c. concerned s va cpu \<longrightarrow> c \<in> set (page_range va n) \<longrightarrow> (cpu, c) \<notin> tlb s')"
proof -
  obtain t where t: "page_table_unmap s va (of_nat n * PAGE_SIZE)
      = Some (t\<lparr>tlb := tlb s - {i. concerned s va i} \<times> set (page_range va n)\<rparr>)" "unmapped s t (page_range va n)"
    using page_table_unmap_run [OF assms] by blast
  have "set (map pageno (page_range va n)) = {pageno va..<pageno va + n}" unfolding range_okD(2) [OF assms(2)] by simp
  with t show ?thesis by (simp add: unmapped_def)
qed

text \<open>What the pages of a finished mapping hold.\<close>

lemma mapped_nth:
  assumes "mapped s s' cs ps f" "distinct (map pageno cs)" "i < length cs"
  shows "mapping s' (cs ! i) = Some (page_addr (ps ! i) OR f OR PTE_PRESENT)"
proof -
  note a = mappedD [OF assms(1)]
  have "map_of (zip (map pageno cs) ps) (map pageno cs ! i) = Some (ps ! i)"
    using assms(2,3) a(4) by (intro map_of_zip_nth) simp_all
  with assms(3) show ?thesis unfolding a(11) by (simp add: mapped_to_def)
qed

lemma length_filter_distinct: "distinct xs \<Longrightarrow> length (filter (\<lambda>x. x = a) xs) = (if a \<in> set xs then 1 else 0)"
  by (induction xs) auto

lemma refs_in_mapped:
  assumes m: "mapped s s' cs ps f" and d: "distinct (map pageno cs)" and f: "is_flags f" and ok: "pt_ok s" and p: "p < npages s"
  shows "refs_in (mapping s') cs p = (if p \<in> set ps then 1 else 0)"
proof -
  note a = mappedD [OF m]
  have "map_option pte_page (mapping s' (cs ! i)) = Some (page_addr (ps ! i))" if "i < length cs" for i
  proof -
    have "ps ! i < npages s" using a(4) a(9) [of "ps ! i"] that by simp
    then show ?thesis using mapped_nth [OF m d that] pt_ok_less [OF ok] f by (simp add: pte_page_page_addr)
  qed
  then have e: "map (\<lambda>c. map_option pte_page (mapping s' c)) cs = map (\<lambda>q. Some (page_addr q)) ps"
    using a(4) by (intro nth_equalityI) simp_all
  have "refs_in (mapping s') cs p = length (filter (\<lambda>x. x = Some (page_addr p)) (map (\<lambda>c. map_option pte_page (mapping s' c)) cs))"
    by (simp add: refs_in_def filter_map o_def)
  also have "\<dots> = length (filter (\<lambda>q. page_addr q = page_addr p) ps)"
    unfolding e by (simp add: filter_map o_def)
  also have "filter (\<lambda>q. page_addr q = page_addr p) ps = filter (\<lambda>q. q = p) ps"
    using a(9) page_addr_inj pt_ok_less [OF ok] p by (intro filter_cong) auto
  finally show ?thesis using length_filter_distinct [OF a(5)] by simp
qed

lemma mapped_refs_held:
  assumes "mapped s s' cs ps f" "distinct (map pageno cs)" "is_flags f" "pt_ok s"
  shows "refs_held s' cs"
  unfolding refs_held_def Let_def
proof (intro allI impI)
  fix p assume "p < npages s'"
  then have p: "p < npages s" using mappedD(12) [OF assms(1)] by simp
  show "(counts s' ! p = 255 \<or> refs_in (mapping s') cs p \<le> unat (counts s' ! p))
    \<and> (0 < refs_in (mapping s') cs p \<longrightarrow> \<not> is_table s' (page_addr p))"
    using refs_in_mapped [OF assms p] mappedD(9,10) [OF assms(1), of p] p by simp
qed

text \<open>Taking back a mapping that was not finished leaves only the new tables.\<close>

lemma mapped_unmapped_back:
  assumes m: "mapped s t cs ps f" and u: "unmapped t u cs" and d: "distinct (map pageno cs)" and f: "is_flags f"
    and ok: "pt_ok s" and free: "\<forall>c\<in>set cs. mapping s c = None"
  shows "mapping u = mapping s" "\<And>p. p < npages s \<Longrightarrow> counts u ! p = (if new_table s u p then 1 else counts s ! p)"
proof -
  note a = mappedD [OF m]
  show "mapping u = mapping s"
  proof
    fix x
    show "mapping u x = mapping s x"
    proof (cases "pageno x \<in> set (map pageno cs)")
      case True
      then obtain c where "c \<in> set cs" "pageno x = pageno c" by auto
      then have "mapping s x = None" using free pageno_eq_iff [of x c] by (simp add: mapping_def Let_def split: if_splits)
      with True u show ?thesis by (simp add: unmapped_def)
    next
      case False
      then show ?thesis using u mapped_unmapped [OF m False] by (simp add: unmapped_def)
    qed
  qed
  fix p assume p: "p < npages s"
  have nt: "new_table s u p = new_table s t p" using u by (simp add: unmapped_def new_table_def)
  have "counts u ! p = drop_refs (counts t ! p) (if p \<in> set ps then 1 else 0)"
    using u p a(12) refs_in_mapped [OF m d f ok p] by (simp add: unmapped_def)
  with a(9) [of p] a(10) [OF p] nt show "counts u ! p = (if new_table s u p then 1 else counts s ! p)"
    by (auto simp: drop_refs_def new_table_def)
qed

text \<open>The two ways out of \<^verbatim>\<open>page_table_map_anon\<close>.\<close>

lemma map_anon_success:
  assumes "range_ok va n" "flushable s va (of_nat n * PAGE_SIZE)"
    and run: "map_anon_loop (page_range va n) (ucast flags) s = Some (None, s1)"
    and m: "mapped s s1 (page_range va n) ps (ucast flags)"
  shows "page_table_map_anon s va (of_nat n * PAGE_SIZE) flags
    = Some (Inr (), s1\<lparr>tlb := tlb s1 - {i. concerned s va i} \<times> set (page_range va n)\<rparr>)"
proof -
  note a = mappedD [OF m] and r = range_okD [OF assms(1)]
  have "flushable s1 va (of_nat n * PAGE_SIZE)" using same_env_flush(1) [OF a(2)] assms(2) by simp
  from flush_range [OF a(1) assms(1) this] run r same_env_flush(2) [OF a(2)] show ?thesis
    by (simp add: page_table_map_anon_def)
qed

lemma flushable_shorter:
  assumes "flushable s va (of_nat n * PAGE_SIZE)" "range_ok va n" "k \<le> n"
  shows "flushable s va (of_nat k * PAGE_SIZE)"
proof -
  have "range_ok va k" using assms(2,3) by (simp add: range_ok_def)
  with assms range_okD(7) [OF assms(2)] range_okD(7) [OF this] show ?thesis
    by (auto simp: flushable_def is_user_range_def range_ok_def Let_def word_le_nat_alt unat_word_ariths)
qed

lemma map_anon_failure:
  assumes ok: "pt_ok s" and rn: "range_ok va n" and fl: "flushable s va (of_nat n * PAGE_SIZE)" and f: "is_flags (ucast flags)"
    and free: "\<forall>c\<in>set (page_range va n). mapping s c = None"
    and run: "map_anon_loop (page_range va n) (ucast flags) s = Some (Some (e, c), s1)"
    and cut: "page_range va n = xs @ c # ys" and m: "mapped s s1 xs ps (ucast flags)"
  shows "\<exists>s'. page_table_map_anon s va (of_nat n * PAGE_SIZE) flags = Some (Inl e, s') \<and> pt_ok s' \<and> same_env s s' \<and> mapping s' = mapping s
    \<and> (\<forall>a. \<not> is_table s' a \<longrightarrow> frame s' a = frame s a)
    \<and> (\<forall>p<npages s. counts s' ! p = (if new_table s s' p then 1 else counts s ! p))"
proof -
  define k where "k = length xs"
  have k: "k < n" using arg_cong [OF cut, of length] by (simp add: k_def)
  have "take k (page_range va n) = xs" unfolding cut by (simp add: k_def)
  then have xs: "xs = page_range va k" using k by (simp add: page_range_def take_map)
  have c: "c = va + of_nat k * PAGE_SIZE"
    using arg_cong [OF cut, of "\<lambda>xs. xs ! k"] k by (simp add: k_def nth_append)
  note a = mappedD [OF m]
  have rk: "range_ok va k" using rn k by (simp add: range_ok_def)
  note q = range_okD [OF rk] and r = range_okD [OF rn]
  have fk: "flushable s1 va (of_nat k * PAGE_SIZE)"
    using flushable_shorter [OF fl rn] k same_env_flush(1) [OF a(2)] by simp
  have d: "distinct (map pageno xs)" using q(3) xs by simp
  have "\<forall>x\<in>set (page_range va k). mapping s1 x \<noteq> None"
    using mapped_nth [OF m d] xs by (auto simp: in_set_conv_nth)
  then obtain t where t: "page_table_unmap s1 va (of_nat k * PAGE_SIZE)
      = Some (t\<lparr>tlb := tlb s1 - {i. concerned s1 va i} \<times> set (page_range va k)\<rparr>)" "unmapped s1 t (page_range va k)"
    using page_table_unmap_run [OF a(1) rk fk] mapped_refs_held [OF m d f ok] xs by blast
  let ?s = "t\<lparr>tlb := tlb s1 - {i. concerned s1 va i} \<times> set (page_range va k)\<rparr>"
  have go: "page_table_map_anon s va (of_nat n * PAGE_SIZE) flags = Some (Inl e, ?s)"
    using run c t(1) r by (simp add: page_table_map_anon_def)
  have u: "unmapped s1 t xs" using t(2) xs by simp
  have none: "\<forall>x\<in>set xs. mapping s x = None" using free cut by simp
  note bk = mapped_unmapped_back [OF m u d f ok none]
  have "pt_ok t" "same_env s1 t" "\<forall>x. is_table t x = is_table s1 x" "\<forall>x. \<not> is_table s1 x \<longrightarrow> frame t x = frame s1 x"
    using u by (simp_all add: unmapped_def)
  with go bk a(7) same_env_trans [OF a(2)] show ?thesis by (intro exI [of _ ?s]) simp
qed

text \<open>Both together, as the callers use it.\<close>

lemma map_anon_spec:
  assumes "pt_ok s" "range_ok va n" "flushable s va (of_nat n * PAGE_SIZE)" "flags < 0x1000"
    and "\<forall>c\<in>set (page_range va n). mapping s c = None"
  shows "\<exists>r s'. page_table_map_anon s va (of_nat n * PAGE_SIZE) flags = Some (r, s') \<and> pt_ok s' \<and> same_env s s'
    \<and> (\<forall>a. pageno a \<notin> {pageno va..<pageno va + n} \<longrightarrow> mapping s' a = mapping s a)
    \<and> (\<forall>a. \<not> is_table s' a \<longrightarrow> frame s' a = frame s a)
    \<and> (case r of
         Inr _ \<Rightarrow> (\<exists>ps. length ps = n \<and> distinct ps \<and> (\<forall>i<n. ps ! i \<in> free_set (mm_pages s) \<and> counts s' ! (ps ! i) = 1
           \<and> mapping s' (va + of_nat i * PAGE_SIZE) = Some (page_addr (ps ! i) OR ucast flags OR PTE_PRESENT)
           \<and> (\<forall>cpu. concerned s va cpu \<longrightarrow> (cpu, va + of_nat i * PAGE_SIZE) \<notin> tlb s')))
       | Inl e \<Rightarrow> e = ENOMEM \<and> mapping s' = mapping s
           \<and> (\<forall>p<npages s. counts s' ! p = (if new_table s s' p then 1 else counts s ! p)))"
proof -
  let ?f = "ucast flags :: u32"
  note r = range_okD [OF assms(2)]
  have pn: "set (map pageno (page_range va n)) = {pageno va..<pageno va + n}" unfolding r(2) by simp
  have "?f < 0x1000"
    using assms(4) le_less_trans [OF take_bit_nat_less_eq_self] by (simp add: word_less_nat_alt unsigned_ucast_eq)
  then have fl: "is_flags ?f" by (rule pte_page_small)
  obtain w s1 where run: "map_anon_loop (page_range va n) ?f s = Some (w, s1)"
    and w: "case w of None \<Rightarrow> \<exists>ps. mapped s s1 (page_range va n) ps ?f
      | Some (e, c) \<Rightarrow> e = ENOMEM \<and> (\<exists>xs ys ps. page_range va n = xs @ c # ys \<and> mapped s s1 xs ps ?f)"
    using map_anon_loop_spec [OF assms(1) _ r(3)] r(4) assms(5) by blast
  show ?thesis
  proof (cases w)
    case None
    then obtain ps where m: "mapped s s1 (page_range va n) ps ?f" using w by auto
    note a = mappedD [OF m]
    let ?s = "s1\<lparr>tlb := tlb s1 - {i. concerned s va i} \<times> set (page_range va n)\<rparr>"
    have out: "mapping ?s x = mapping s x" if "pageno x \<notin> {pageno va..<pageno va + n}" for x
      using mapped_unmapped [OF m, of x] that unfolding pn by simp
    have each: "ps ! i \<in> free_set (mm_pages s) \<and> counts ?s ! (ps ! i) = 1
        \<and> mapping ?s (va + of_nat i * PAGE_SIZE) = Some (page_addr (ps ! i) OR ?f OR PTE_PRESENT)
        \<and> (\<forall>cpu. concerned s va cpu \<longrightarrow> (cpu, va + of_nat i * PAGE_SIZE) \<notin> tlb ?s)" if "i < n" for i
    proof -
      have p: "ps ! i \<in> set ps" using that a(4) by simp
      have "va + of_nat i * PAGE_SIZE \<in> set (page_range va n)" using that by (auto simp: page_range_def)
      moreover have "mapping s1 (page_range va n ! i) = Some (page_addr (ps ! i) OR ?f OR PTE_PRESENT)"
        using mapped_nth [OF m r(3), of i] that by simp
      moreover have "ps ! i \<in> free_set (mm_pages s)"
        using a(9) [OF p] page_inv_free_iff [OF pt_okD(1) [OF assms(1)]] by simp
      moreover have "counts s1 ! (ps ! i) = 1" using a(9,10) p by simp
      ultimately show ?thesis using that by simp
    qed
    have "pt_ok ?s" "same_env s ?s" "\<forall>x. \<not> is_table ?s x \<longrightarrow> frame ?s x = frame s x" using a(1,2,7) by simp_all
    with map_anon_success [OF assms(2,3) run [unfolded None] m] out each a(4,5) show ?thesis
      by (intro exI [of _ "Inr ()"] exI [of _ ?s]) auto
  next
    case (Some ec)
    with w obtain c xs ys ps where ec: "ec = (ENOMEM, c)" "page_range va n = xs @ c # ys" "mapped s s1 xs ps ?f"
      by (cases ec) auto
    from map_anon_failure [OF assms(1-3) fl assms(5) run [unfolded Some ec(1)] ec(2,3)] show ?thesis
      by (auto intro!: exI [of _ "Inl ENOMEM"])
  qed
qed

text \<open>
  C21. \<^verbatim>\<open>page_table_map_anon\<close> on \<open>n\<close> unmapped pages fails no assertion. When it succeeds, the \<open>n\<close> pages are mapped
  with the given flags to \<open>n\<close> different physical pages that were free and now have one reference, and no
  stale translation of the range is cached. When memory runs out it answers \<^verbatim>\<open>ENOMEM\<close> and takes everything back:
  the address space is as before, and the only pages it keeps are the new page tables. In both cases the
  other pages stay mapped as they were and no memory outside the page tables is written.
\<close>

theorem page_table_map_anon_correct:
  assumes "pt_ok s" "range_ok va n" "flushable s va (of_nat n * PAGE_SIZE)" "flags < 0x1000"
    and "\<forall>c\<in>set (page_range va n). mapping s c = None"
  shows "\<exists>r s'. page_table_map_anon s va (of_nat n * PAGE_SIZE) flags = Some (r, s') \<and> pt_ok s'
    \<and> (\<forall>a. pageno a \<notin> {pageno va..<pageno va + n} \<longrightarrow> mapping s' a = mapping s a)
    \<and> (\<forall>a. \<not> is_table s' a \<longrightarrow> frame s' a = frame s a)
    \<and> (case r of
         Inr _ \<Rightarrow> (\<exists>ps. length ps = n \<and> distinct ps \<and> (\<forall>i<n. ps ! i \<in> free_set (mm_pages s) \<and> counts s' ! (ps ! i) = 1
           \<and> mapping s' (va + of_nat i * PAGE_SIZE) = Some (page_addr (ps ! i) OR ucast flags OR PTE_PRESENT)
           \<and> (\<forall>cpu. concerned s va cpu \<longrightarrow> (cpu, va + of_nat i * PAGE_SIZE) \<notin> tlb s')))
       | Inl e \<Rightarrow> e = ENOMEM \<and> mapping s' = mapping s
           \<and> (\<forall>p<npages s. counts s' ! p = (if new_table s s' p then 1 else counts s ! p)))"
  using map_anon_spec [OF assms] by blast

text \<open>Destroying a table whose own entry \<open>i\<close> is empty drops references to page 0 only.\<close>

lemma page_unref_saturated:
  assumes "page_inv ps" "0 < num_pages ps" "ref_counts ps ! 0 = 255"
  shows "page_unref ps 0 = Some ps"
  using page_unref_eq [OF assms(1,2)] assms(3) by (simp add: page_addr_def)

lemma destroy_entries_empty:
  assumes "page_inv (mm_pages s)" "0 < npages s" "counts s ! 0 = 255" "frame s pt i = 0"
  shows "destroy_entries js pt i s = Some s"
  using assms page_unref_saturated [OF assms(1-3)] by (induction js) simp_all

lemma destroy_tables_empty:
  assumes "pt_ok s" "0 < npages s" "counts s ! 0 = 255"
    and "\<forall>i\<in>set js. i < 1023 \<and> (has_table s i \<longrightarrow> frame s (table s i) i = 0)"
  shows "destroy_tables js (cr3 s) s = Some s"
  using assms(4)
proof (induction js)
  case (Cons i js)
  note d = pt_okD [OF assms(1)]
  show ?case
  proof (cases "pte_present (frame s (cr3 s) i)")
    case True
    then have "get_page_table_from_index s i = Some (table s i)" "has_table s i"
      using get_page_table_eq [of s i] d(3,4) Cons.prems by (simp_all add: pde_def has_table_def)
    with Cons destroy_entries_empty [OF d(1) assms(2,3)] True show ?thesis by simp
  qed (use Cons in simp)
qed simp

lemma unref_tables_counts:
  assumes "page_inv (mm_pages s)" "distinct js"
    and "\<forall>i\<in>set js. pte_present (frame s pd i) \<longrightarrow> in_use s (pte_page (frame s pd i))"
    and "\<forall>i\<in>set js. \<forall>j\<in>set js. pte_present (frame s pd i) \<longrightarrow> pte_present (frame s pd j)
      \<longrightarrow> pte_page (frame s pd i) = pte_page (frame s pd j) \<longrightarrow> i = j"
  shows "\<exists>s'. unref_tables js pd s = Some s' \<and> npages s' = npages s
    \<and> (\<forall>p<npages s. (\<forall>i\<in>set js. pte_present (frame s pd i) \<longrightarrow> pte_page (frame s pd i) \<noteq> page_addr p) \<longrightarrow> counts s' ! p = counts s ! p)"
  using assms
proof (induction js arbitrary: s)
  case (Cons i js)
  show ?case
  proof (cases "pte_present (frame s pd i)")
    case False
    then show ?thesis using Cons by simp
  next
    case True
    let ?a = "pte_page (frame s pd i)"
    define q where "q = unat (?a div PAGE_SIZE)"
    have q: "?a = page_addr q" "q < 2 ^ 20" using page_addr_index [OF pte_page_mod, of "frame s pd i"] by (simp_all add: q_def)
    have use: "q < npages s \<Longrightarrow> counts s ! q \<noteq> 0"
      using Cons.prems(3) True q_def by (simp add: in_use_def managed_def count_def)
    obtain ps where ps: "page_unref (mm_pages s) ?a = Some ps" "page_inv ps" "num_pages ps = npages s"
      "ref_counts ps = (if q < npages s \<and> counts s ! q \<noteq> 255 then (counts s)[q := counts s ! q - 1] else counts s)"
      using page_unref_counts [OF Cons.prems(1) pte_page_mod q_def] use by blast
    let ?t = "s\<lparr>mm_pages := ps\<rparr>"
    have keep: "counts ?t ! p = counts s ! p" if "p \<noteq> q" for p using ps(4) that by simp
    have "in_use ?t (pte_page (frame s pd j))" if "j \<in> set js" "pte_present (frame s pd j)" for j
    proof -
      have "pte_page (frame s pd j) \<noteq> ?a" using Cons.prems(2,4) that True by auto
      then have "unat (pte_page (frame s pd j) div PAGE_SIZE) \<noteq> q"
        using q(1) page_addr_index(1) [OF pte_page_mod, of "frame s pd j"] by metis
      with keep Cons.prems(3) that ps(3) show ?thesis by (auto simp: in_use_def managed_def count_def)
    qed
    with Cons.IH [of ?t] Cons.prems ps(2) obtain s' where s': "unref_tables js pd ?t = Some s'" "npages s' = npages ?t"
      "\<forall>p<npages ?t. (\<forall>i\<in>set js. pte_present (frame s pd i) \<longrightarrow> pte_page (frame s pd i) \<noteq> page_addr p) \<longrightarrow> counts s' ! p = counts ?t ! p"
      by auto
    have "counts s' ! p = counts s ! p"
      if "p < npages s" "\<forall>j\<in>set (i # js). pte_present (frame s pd j) \<longrightarrow> pte_page (frame s pd j) \<noteq> page_addr p" for p
    proof -
      have "p \<noteq> q" using that(2) True q(1) by auto
      with that s'(3) keep ps(3) show ?thesis by simp
    qed
    with s'(1,2) True ps(1,3) show ?thesis by simp
  qed
qed simp

lemma switch_to_kernel:
  assumes "frame s k 1023 = raw" "pte_present raw" "pte_page raw = k" "current_page_directory (s\<lparr>cr3 := k\<rparr>) = Some k"
  shows "page_directory_switch s k = Some (s\<lparr>cr3 := k\<rparr>)"
proof -
  let ?s = "s\<lparr>cr3 := k\<rparr>"
  have i: "pd_index 0xfffff000 = 1023" "pt_index 0xfffff000 = 1023" using window_index [of 1023] by simp_all
  have "get_page_table_from_index ?s 1023 = Some k"
    using get_page_table_eq [of ?s 1023] assms(1-3) by (simp add: pde_def table_def)
  with assms i have "virt_to_phys ?s 0xfffff000 = Some k"
    by (simp add: virt_to_phys_def get_pte_def pte_page_def)
  then show ?thesis by (simp add: page_directory_switch_def Let_def)
qed

text \<open>
  Leaving an address space leaks its pages. Take a task whose user page tables are empty at the one index
  that \<^verbatim>\<open>page_directory_destroy_current\<close> reads (entry \<open>i\<close> of table \<open>i\<close>), with page 0 reserved as it is after boot. Then
  destroying the address space succeeds, but no page that is not a page table loses a reference, so every
  page the task had mapped stays allocated for ever.
\<close>

theorem destroy_current_leaks_pages:
  assumes ok: "pt_ok s" and vm: "cpu_vms s ! this_cpu s = Some vm"
    and kernel: "kernel_page_directory s \<noteq> cr3 s" "pte_present (frame s (kernel_page_directory s) 1023)"
      "pte_page (frame s (kernel_page_directory s) 1023) = kernel_page_directory s"
    and page0: "0 < npages s" "counts s ! 0 = 255"
    and empty: "\<forall>i<KERNEL_PDE_IDX. has_table s i \<longrightarrow> frame s (table s i) i = 0"
  shows "\<exists>s'. page_directory_destroy_current s = Some (cr3 s, s')
    \<and> (\<forall>p<npages s. \<not> is_table s (page_addr p) \<longrightarrow> counts s' ! p = counts s ! p)"
proof -
  note d = pt_okD [OF ok]
  let ?k = "kernel_page_directory s"
  let ?t = "s\<lparr>vm_page_directory := (vm_page_directory s)(vm \<mapsto> ?k)\<rparr>"
  let ?u = "?t\<lparr>cr3 := ?k\<rparr>"
  have cur: "arr_get (cpu_vms s) (this_cpu s) = Some (Some vm)" using pt_ok_cpu [OF ok] vm by simp
  have "destroy_tables [0..<KERNEL_PDE_IDX] (cr3 s) s = Some s"
    by (rule destroy_tables_empty [OF ok page0]) (use empty in auto)
  moreover have "page_directory_switch ?t ?k = Some ?u"
    by (rule switch_to_kernel) (use kernel cur in \<open>simp_all add: current_page_directory_def\<close>)
  moreover obtain s' where s': "unref_tables [0..<KERNEL_PDE_IDX] (cr3 s) ?u = Some s'"
    "\<forall>p<npages s. (\<forall>i\<in>set [0..<KERNEL_PDE_IDX]. pte_present (pde s i) \<longrightarrow> table s i \<noteq> page_addr p) \<longrightarrow> counts s' ! p = counts s ! p"
  proof -
    have h: "has_table s i" if "i \<in> set [0..<KERNEL_PDE_IDX]" "pte_present (pde s i)" for i
      using that by (simp add: has_table_def)
    have "in_use ?u (table s i) = in_use s (table s i)" for i by (simp add: in_use_def managed_def count_def)
    moreover have "in_use s (table s i)" if "has_table s i" for i using that d(5) by (auto simp: is_table_def)
    ultimately have "\<forall>i\<in>set [0..<KERNEL_PDE_IDX]. pte_present (frame ?u (cr3 s) i) \<longrightarrow> in_use ?u (pte_page (frame ?u (cr3 s) i))"
      using h by (simp add: pde_def table_def)
    moreover have "i = j" if "i \<in> set [0..<KERNEL_PDE_IDX]" "j \<in> set [0..<KERNEL_PDE_IDX]" "pte_present (pde s i)" "pte_present (pde s j)"
      "table s i = table s j" for i j using d(7) h that by blast
    then have "\<forall>i\<in>set [0..<KERNEL_PDE_IDX]. \<forall>j\<in>set [0..<KERNEL_PDE_IDX]. pte_present (frame ?u (cr3 s) i)
        \<longrightarrow> pte_present (frame ?u (cr3 s) j) \<longrightarrow> pte_page (frame ?u (cr3 s) i) = pte_page (frame ?u (cr3 s) j) \<longrightarrow> i = j"
      by (simp add: pde_def table_def)
    ultimately show thesis
      using unref_tables_counts [of ?u "[0..<KERNEL_PDE_IDX]" "cr3 s"] d(1) that by (simp add: pde_def table_def) blast
  qed
  ultimately have "page_directory_destroy_current s = Some (cr3 s, s')"
    using d(2) kernel(1) cur by (simp add: page_directory_destroy_current_def)
  moreover have "table s i \<noteq> page_addr p" if "\<not> is_table s (page_addr p)" "i \<in> set [0..<KERNEL_PDE_IDX]" "pte_present (pde s i)" for i p
    using that by (auto simp: is_table_def has_table_def)
  ultimately show ?thesis using s'(2) by blast
qed

section \<open>A small machine\<close>

text \<open>
  One task with one page of memory at \<^verbatim>\<open>0x8048000\<close>: its directory is page 4, its table page 5, its data page 6 with one
  reference; the directory of the kernel is page 7. The kernel heap has one page, page 9, under the table in
  page 8. Pages 2 and 3 are free.
\<close>

definition example_frame :: "u32 \<Rightarrow> nat \<Rightarrow> u32" where
  "example_frame p i =
     (if p = 0x4000 \<and> i = 32 then 0x5007 else if p = 0x4000 \<and> i = 769 then 0x8003 else if p = 0x4000 \<and> i = 1023 then 0x4003
      else if p = 0x8000 \<and> i = 0 then 0x9103 else if p = 0x5000 \<and> i = 72 then 0x6007 else if p = 0x7000 \<and> i = 1023 then 0x7003 else 0)"

definition example_mmu :: mmu where
  "example_mmu = \<lparr>mm_pages = two_free_pages\<lparr>ref_counts := (ref_counts two_free_pages)[6 := 1]\<rparr>, frame = example_frame,
     cr3 = 0x4000, kernel_page_directory = 0x7000, vm_page_directory = [1 \<mapsto> 0x4000], cpu_vms = [Some 1],
     this_cpu = 0, smp_active = False, tlb = {(0, 0x8048000)}\<rparr>"

lemma example_counts:
  "npages example_mmu = 32" "page_inv (mm_pages example_mmu)"
  "p < 32 \<Longrightarrow> counts example_mmu ! p = (if p = 6 then 1 else if p = 2 \<or> p = 3 then 0 else 255)"
proof -
  have n: "num_pages two_free_pages = 32" by (simp add: num_pages_def two_free_pages_def)
  then show "npages example_mmu = 32" by (simp add: example_mmu_def num_pages_def)
  have len: "length (ref_counts two_free_pages) = MAX_NUM_PAGES" "32 \<le> MAX_NUM_PAGES"
    by (simp_all add: two_free_pages_def MAX_NUM_PAGES_def)
  show "counts example_mmu ! p = (if p = 6 then 1 else if p = 2 \<or> p = 3 then 0 else 255)" if "p < 32" for p
    using that len by (auto simp: example_mmu_def two_free_pages_def nth_list_update)
  have "ref_counts two_free_pages ! 6 \<noteq> 0" using len by (simp add: two_free_pages_def)
  then show "page_inv (mm_pages example_mmu)"
    using page_inv_count [OF two_free_pages_ok(1), of 6 1] n by (simp add: example_mmu_def)
qed

lemma example_cr3: "cr3 example_mmu = 0x4000"
  by (simp add: example_mmu_def)

lemma example_tables:
  "has_table example_mmu i \<longleftrightarrow> i = 32 \<or> i = 769" "table example_mmu 32 = 0x5000" "table example_mmu 769 = 0x8000"
  "is_table example_mmu a \<longleftrightarrow> a = 0x4000 \<or> a = 0x5000 \<or> a = 0x8000"
proof -
  show h: "has_table example_mmu i \<longleftrightarrow> i = 32 \<or> i = 769" for i
    by (auto simp: has_table_def pde_def example_mmu_def example_frame_def pte_present_def)
  show t: "table example_mmu 32 = 0x5000" "table example_mmu 769 = 0x8000"
    by (simp_all add: table_def pde_def example_mmu_def example_frame_def pte_page_def)
  show "is_table example_mmu a \<longleftrightarrow> a = 0x4000 \<or> a = 0x5000 \<or> a = 0x8000"
    unfolding is_table_def h using t by (auto simp: example_cr3)
qed

lemma example_pt_ok: "pt_ok example_mmu"
proof -
  have 1: "pte_present (pde example_mmu 1023)" "table example_mmu 1023 = cr3 example_mmu"
    by (simp_all add: table_def pde_def example_mmu_def example_frame_def pte_present_def pte_page_def)
  have 2: "current_page_directory example_mmu = Some (cr3 example_mmu)" by (simp add: current_page_directory_def example_mmu_def)
  have u: "unat ((0x4000::u32) div 4096) = 4" "unat ((0x5000::u32) div 4096) = 5" "unat ((0x8000::u32) div 4096) = 8" by simp_all
  have "in_use example_mmu a" if "is_table example_mmu a" for a
    using that u example_counts(3) [of 4] example_counts(3) [of 5] example_counts(3) [of 8] unfolding example_tables(4) in_use_def count_def
    by (elim disjE) simp_all
  moreover have "table example_mmu i \<noteq> cr3 example_mmu" if "has_table example_mmu i" for i
    using that unfolding example_tables(1) example_cr3 by (elim disjE) (simp_all add: example_tables(2,3))
  moreover have "i = j" if "has_table example_mmu i" "has_table example_mmu j" "table example_mmu i = table example_mmu j" for i j
    using that unfolding example_tables(1) by (elim disjE) (simp_all add: example_tables(2,3))
  ultimately show ?thesis unfolding pt_ok_def using 1 2 example_counts(2) by blast
qed

lemma example_mapping:
  "mapping example_mmu a = (if pageno a = 0x8048 then Some 0x6007 else if pageno a = 0xc0400 then Some 0x9103 else None)"
proof -
  have pn: "pageno a = 0x8048 \<longleftrightarrow> pd_index a = 32 \<and> pt_index a = 72" "pageno a = 0xc0400 \<longleftrightarrow> pd_index a = 769 \<and> pt_index a = 0"
    using pageno_eq_iff [of a "0x8048000"] pageno_eq_iff [of a "0xc0400000"]
    by (simp_all add: pd_index_pageno pt_index_pageno) (simp_all add: pageno_def)
  have f: "frame example_mmu = example_frame" by (simp add: example_mmu_def)
  have e: "example_frame 0x5000 i = (if i = 72 then 0x6007 else 0)" "example_frame 0x8000 i = (if i = 0 then 0x9103 else 0)" for i
    by (simp_all add: example_frame_def)
  have p: "pte_present 0x6007" "pte_present 0x9103" by (simp_all add: pte_present_def)
  consider "pd_index a = 32" | "pd_index a = 769" | "pd_index a \<noteq> 32" "pd_index a \<noteq> 769" by blast
  then show ?thesis
    by cases (simp_all add: mapping_def example_tables(1-3) f e p pn)
qed

theorem page_table_unmap_correct_witness:
  "\<exists>s'. page_table_unmap example_mmu 0x8048000 0x1000 = Some s' \<and> mapping s' 0x8048000 = None \<and> counts s' ! 6 = 0
     \<and> (0, 0x8048000) \<notin> tlb s'"
proof -
  have r: "page_range 0x8048000 1 = [0x8048000]" by (simp add: page_range_def)
  have p: "pageno 0x8048000 = 0x8048" by (simp add: pageno_def)
  have refs: "refs_in (mapping example_mmu) [0x8048000] q = (if page_addr q = 0x6000 then 1 else 0)" for q
    by (auto simp: refs_in_def example_mapping p pte_page_def)
  have six: "page_addr q = 0x6000 \<longleftrightarrow> q = 6" if "q < 32" for q
  proof -
    have "(0x6000::u32) = page_addr 6" by (simp add: page_addr_def)
    then show ?thesis using page_addr_inj [of q 6] that by simp
  qed
  have "refs_held example_mmu [0x8048000]"
    unfolding refs_held_def Let_def example_counts(1) refs example_tables(4)
    using six example_counts(3) by (auto simp: page_addr_def)
  moreover have "flushable example_mmu 0x8048000 0x1000"
    by (simp add: flushable_def is_user_range_def is_user_address_def KERNEL_VIRT_ADDR_def example_mmu_def)
  ultimately obtain s' where s': "page_table_unmap example_mmu 0x8048000 0x1000 = Some s'"
    "\<forall>a. mapping s' a = (if pageno a \<in> {pageno 0x8048000..<pageno 0x8048000 + 1} then None else mapping example_mmu a)"
    "\<forall>p<npages example_mmu. counts s' ! p = drop_refs (counts example_mmu ! p) (refs_in (mapping example_mmu) [0x8048000] p)"
    "\<forall>cpu c. concerned example_mmu 0x8048000 cpu \<longrightarrow> c \<in> set [0x8048000] \<longrightarrow> (cpu, c) \<notin> tlb s'"
    using page_table_unmap_correct [OF example_pt_ok, of "0x8048000" 1] unfolding r
    by (auto simp: range_ok_def example_mapping p)
  have "counts s' ! 6 = drop_refs 1 1" using s'(3) example_counts(1) example_counts(3) [of 6] refs [of 6] six [of 6] by simp
  moreover have "concerned example_mmu 0x8048000 0" by (simp add: concerned_def example_mmu_def)
  ultimately show ?thesis using s' by (auto simp: drop_refs_def)
qed

theorem page_table_map_anon_correct_witness:
  "\<exists>r s'. page_table_map_anon example_mmu 0x8049000 0x1000 6 = Some (r, s') \<and> mapping s' 0x8048000 = Some 0x6007
     \<and> (case r of Inr _ \<Rightarrow> \<exists>p\<in>{2, 3}. mapping s' 0x8049000 = Some (page_addr p OR 6 OR 1)
        | Inl e \<Rightarrow> mapping s' 0x8049000 = None)"
proof -
  have r: "page_range 0x8049000 1 = [0x8049000]" by (simp add: page_range_def)
  have p: "pageno 0x8049000 = 0x8049" "pageno 0x8048000 = 0x8048" by (simp_all add: pageno_def)
  have free: "q \<in> free_set (mm_pages example_mmu) \<Longrightarrow> q = 2 \<or> q = 3" for q
    using page_inv_free_iff [OF example_counts(2)] example_counts(1) example_counts(3) [of q] by (auto split: if_splits)
  have "flushable example_mmu 0x8049000 0x1000"
    by (simp add: flushable_def is_user_range_def is_user_address_def KERNEL_VIRT_ADDR_def example_mmu_def)
  then obtain r s' where s': "page_table_map_anon example_mmu 0x8049000 0x1000 6 = Some (r, s')"
    "\<forall>a. pageno a \<notin> {pageno 0x8049000..<pageno 0x8049000 + 1} \<longrightarrow> mapping s' a = mapping example_mmu a"
    "case r of
         Inr _ \<Rightarrow> (\<exists>ps. length ps = 1 \<and> distinct ps \<and> (\<forall>i<1. ps ! i \<in> free_set (mm_pages example_mmu) \<and> counts s' ! (ps ! i) = 1
           \<and> mapping s' (0x8049000 + of_nat i * PAGE_SIZE) = Some (page_addr (ps ! i) OR ucast (6::u16) OR PTE_PRESENT)
           \<and> (\<forall>cpu. concerned example_mmu 0x8049000 cpu \<longrightarrow> (cpu, 0x8049000 + of_nat i * PAGE_SIZE) \<notin> tlb s')))
       | Inl e \<Rightarrow> e = ENOMEM \<and> mapping s' = mapping example_mmu
           \<and> (\<forall>p<npages example_mmu. counts s' ! p = (if new_table example_mmu s' p then 1 else counts example_mmu ! p))"
    using page_table_map_anon_correct [OF example_pt_ok, of "0x8049000" 1 6] unfolding r
    by (auto simp: range_ok_def example_mapping p)
  have "mapping s' 0x8048000 = Some 0x6007" using s'(2) p by (simp add: example_mapping)
  with s'(1,3) p show ?thesis
    by (intro exI [of _ r] exI [of _ s']) (auto simp: example_mapping dest!: free split: sum.splits)
qed

theorem destroy_current_leaks_pages_witness:
  "\<exists>s'. page_directory_destroy_current example_mmu = Some (0x4000, s') \<and> counts s' ! 6 = 1"
proof -
  have k: "kernel_page_directory example_mmu = 0x7000" "cr3 example_mmu = 0x4000" "frame example_mmu = example_frame"
    "cpu_vms example_mmu ! this_cpu example_mmu = Some 1"
    by (simp_all add: example_mmu_def)
  have empty: "\<forall>i<768. has_table example_mmu i \<longrightarrow> frame example_mmu (table example_mmu i) i = 0"
    unfolding example_tables(1) k by (auto simp: example_tables(2) example_frame_def)
  obtain s' where s': "page_directory_destroy_current example_mmu = Some (cr3 example_mmu, s')"
    "\<forall>p<npages example_mmu. \<not> is_table example_mmu (page_addr p) \<longrightarrow> counts s' ! p = counts example_mmu ! p"
    using destroy_current_leaks_pages [OF example_pt_ok k(4) _ _ _ _ _ empty] example_counts(1) example_counts(3) [of 0]
    unfolding k by (auto simp: example_frame_def pte_present_def pte_page_def)
  have "\<not> is_table example_mmu (page_addr 6)" unfolding example_tables(4) by (simp add: page_addr_def)
  with s' example_counts(1) example_counts(3) [of 6] k show ?thesis by auto
qed

end
