(* ===== verification/Vm.thy ===== *)
theory Vm
  imports Page_Table
begin

text \<open>
  Address spaces: \<^verbatim>\<open>kernel/memory/vm.c\<close>, with the slab cache its region nodes come from (\<^verbatim>\<open>kernel/memory/slab.c\<close>) and the
  kernel heap built on it (\<^verbatim>\<open>kernel/memory/kmalloc.c\<close>). The linked list of regions is a list of nodes that carry
  their own addresses, so that a cursor is the address of a node. The lock of an address space is held for a
  whole operation, which makes each operation one step.
\<close>

unbundle bit_operations_syntax

section \<open>State\<close>

record vm_region =
  node :: u32
  rstart :: u32
  rend :: u32
  rflags :: u32

record vm =
  vstart :: u32
  vend :: u32
  pd_block :: u32
  regions :: "vm_region list"
  vm_ref_count :: nat

record slab_cache =
  obj_size :: nat
  free_list :: "u32 list"

record memory =
  mmu_of :: mmu
  vms :: "nat \<Rightarrow> vm option"
  kernel_vm :: nat
  region_cache :: slab_cache

abbreviation (input) VM_READ :: u32 where "VM_READ \<equiv> 1"
abbreviation (input) VM_WRITE :: u32 where "VM_WRITE \<equiv> 2"
abbreviation (input) VM_USER :: u32 where "VM_USER \<equiv> 4"
abbreviation (input) VM_SHARED :: u32 where "VM_SHARED \<equiv> 8"
abbreviation (input) VM_WC :: u32 where "VM_WC \<equiv> 0x10"
abbreviation (input) VM_RW :: u32 where "VM_RW \<equiv> 3"
abbreviation (input) PTE_PAT :: u16 where "PTE_PAT \<equiv> 0x80"
abbreviation (input) PTE_GLOBAL :: u16 where "PTE_GLOBAL \<equiv> 0x100"
abbreviation (input) KERNEL_HEAP_START :: u32 where "KERNEL_HEAP_START \<equiv> 0xc0400000"
abbreviation (input) KERNEL_HEAP_END :: u32 where "KERNEL_HEAP_END \<equiv> 0xffc00000"

text \<open>\<open>sizeof(struct vm_region)\<close> and \<open>sizeof(struct vm)\<close> of the 32-bit kernel.\<close>

abbreviation (input) sizeof_vm_region :: nat where "sizeof_vm_region \<equiv> 20"
abbreviation (input) sizeof_vm :: u32 where "sizeof_vm \<equiv> 32"

definition current_vm :: "memory \<Rightarrow> nat option option" where
  "current_vm m = arr_get (cpu_vms (mmu_of m)) (this_cpu (mmu_of m))"

definition set_regions :: "memory \<Rightarrow> nat \<Rightarrow> vm_region list \<Rightarrow> memory option" where
  "set_regions m v rs = do { vm \<leftarrow> vms m v; Some (m\<lparr>vms := (vms m)(v \<mapsto> vm\<lparr>regions := rs\<rparr>)\<rparr>) }"

section \<open>The list of regions\<close>

text \<open>\<open>ASSERT(it->end <= it->next->start)\<close> at each step of a walk.\<close>

fun assert_next :: "vm_region \<Rightarrow> vm_region list \<Rightarrow> unit option" where
  "assert_next it [] = Some ()"
| "assert_next it (n # rs) = c_assert (rend it \<le> rstart n)"

fun vm_find_region :: "vm_region list \<Rightarrow> u32 \<Rightarrow> vm_region option option" where
  "vm_find_region [] addr = Some None"
| "vm_find_region (it # rs) addr =
     do {
       assert_next it rs;
       if rstart it \<le> addr \<and> addr < rend it then Some (Some it) else vm_find_region rs addr
     }"

text \<open>The search keeps the region before the one it looks at. A gap is its address and the node before it.\<close>

fun gap_loop :: "vm_region option \<Rightarrow> vm_region list \<Rightarrow> u32 \<Rightarrow> u32 \<Rightarrow> (u32 \<times> u32 option) result option" where
  "gap_loop prev [] vm_end sz =
     Some (case prev of
       Some p \<Rightarrow> if rend p + sz \<le> vm_end then Inr (rend p, Some (node p)) else Inl ENOMEM
     | None \<Rightarrow> Inl ENOMEM)"
| "gap_loop prev (it # rs) vm_end sz =
     do {
       assert_next it rs;
       case prev of
         Some p \<Rightarrow> if rend p + sz \<le> rstart it then Some (Inr (rend p, Some (node p))) else gap_loop (Some it) rs vm_end sz
       | None \<Rightarrow> gap_loop (Some it) rs vm_end sz
     }"

definition vm_find_gap :: "vm \<Rightarrow> u32 \<Rightarrow> (u32 \<times> u32 option) result option" where
  "vm_find_gap vm sz =
     (if vstart vm + sz > vend vm then Some (Inl ENOMEM)
      else if regions vm = [] then Some (Inr (vstart vm, None))
      else gap_loop None (regions vm) (vend vm) sz)"

fun insert_after :: "vm_region list \<Rightarrow> u32 \<Rightarrow> vm_region \<Rightarrow> vm_region list option" where
  "insert_after [] cursor inserted = None"
| "insert_after (it # rs) cursor inserted =
     (if node it = cursor
      then do {
        c_assert (rend it \<le> rstart inserted);
        assert_next inserted rs;
        Some (it # inserted # rs)
      }
      else do { rs' \<leftarrow> insert_after rs cursor inserted; Some (it # rs') })"

definition vm_insert_region_after :: "vm_region list \<Rightarrow> u32 option \<Rightarrow> vm_region \<Rightarrow> vm_region list option" where
  "vm_insert_region_after rs cursor inserted =
     (case cursor of
        Some c \<Rightarrow> insert_after rs c inserted
      | None \<Rightarrow> do { assert_next inserted rs; Some (inserted # rs) })"

definition vm_remove_region :: "vm_region list \<Rightarrow> u32 \<Rightarrow> vm_region list" where
  "vm_remove_region rs region = filter (\<lambda>r. node r \<noteq> region) rs"

text \<open>Assignments to the fields of one node.\<close>

definition update_region :: "vm_region list \<Rightarrow> u32 \<Rightarrow> (vm_region \<Rightarrow> vm_region) \<Rightarrow> vm_region list" where
  "update_region rs region f = map (\<lambda>r. if node r = region then f r else r) rs"

section \<open>Slab cache\<close>

definition slab_cache_init :: "nat \<Rightarrow> slab_cache option" where
  "slab_cache_init sz = do { c_assert (sizeof_vm_region + sz \<le> 4096); Some \<lparr>obj_size = sz, free_list = []\<rparr> }"

text \<open>The objects of a new page are pushed one by one after the region node at its start.\<close>

fun push_objs :: "nat \<Rightarrow> u32 \<Rightarrow> nat \<Rightarrow> u32 list \<Rightarrow> u32 list" where
  "push_objs 0 obj sz fl = fl"
| "push_objs (Suc n) obj sz fl = push_objs n (obj + of_nat sz) sz (obj # fl)"

definition ensure_cache :: "memory \<Rightarrow> (unit result \<times> memory) option" where
  "ensure_cache m =
     (if free_list (region_cache m) \<noteq> [] then Some (Inr (), m)
      else do {
        kvm \<leftarrow> vms m (kernel_vm m);
        gap \<leftarrow> vm_find_gap kvm PAGE_SIZE;
        case gap of
          Inl e \<Rightarrow> Some (Inl e, m)
        | Inr (virt_addr, cursor) \<Rightarrow>
            do {
              (r, s) \<leftarrow> page_table_map_anon (mmu_of m) virt_addr PAGE_SIZE (2 OR PTE_GLOBAL);
              let m = m\<lparr>mmu_of := s\<rparr>;
              case r of
                Inl e \<Rightarrow> Some (Inl e, m)
              | Inr _ \<Rightarrow>
                  do {
                    let region = \<lparr>node = virt_addr, rstart = virt_addr, rend = virt_addr + PAGE_SIZE, rflags = VM_RW\<rparr>;
                    rs \<leftarrow> vm_insert_region_after (regions kvm) cursor region;
                    m \<leftarrow> set_regions m (kernel_vm m) rs;
                    let c = region_cache m;
                    let fl = push_objs (4096 div obj_size c - 1) (virt_addr + of_nat sizeof_vm_region) (obj_size c) (free_list c);
                    Some (Inr (), m\<lparr>region_cache := c\<lparr>free_list := fl\<rparr>\<rparr>)
                  }
            }
      })"

definition slab_cache_alloc :: "memory \<Rightarrow> (u32 result \<times> memory) option" where
  "slab_cache_alloc m =
     do {
       (r, m) \<leftarrow> ensure_cache m;
       case r of
         Inl e \<Rightarrow> Some (Inl e, m)
       | Inr _ \<Rightarrow>
           (case free_list (region_cache m) of
              [] \<Rightarrow> None
            | obj # fl \<Rightarrow> Some (Inr obj, m\<lparr>region_cache := (region_cache m)\<lparr>free_list := fl\<rparr>\<rparr>))
     }"

definition slab_cache_free :: "memory \<Rightarrow> u32 \<Rightarrow> memory" where
  "slab_cache_free m obj = m\<lparr>region_cache := (region_cache m)\<lparr>free_list := obj # free_list (region_cache m)\<rparr>\<rparr>"

section \<open>Flags and ranges\<close>

definition vm_for_flags :: "memory \<Rightarrow> u32 \<Rightarrow> nat option" where
  "vm_for_flags m vm_flags =
     (if vm_flags AND VM_USER = 0 then Some (kernel_vm m)
      else do { cur \<leftarrow> current_vm m; v \<leftarrow> cur; c_assert (v \<noteq> kernel_vm m); Some v })"

definition vm_for_addr :: "memory \<Rightarrow> u32 \<Rightarrow> nat option" where
  "vm_for_addr m addr =
     do {
       c_assert (addr \<noteq> 0);
       if is_kernel_address addr then Some (kernel_vm m)
       else do { cur \<leftarrow> current_vm m; v \<leftarrow> cur; c_assert (v \<noteq> kernel_vm m); Some v }
     }"

definition validate_range :: "u32 \<Rightarrow> u32 \<Rightarrow> unit result" where
  "validate_range start sz =
     (if start = 0 then Inl EFAULT else if sz = 0 then Inl EINVAL else if start + sz < start then Inl EINVAL else Inr ())"

definition validate_vm_flags :: "memory \<Rightarrow> u32 \<Rightarrow> bool option" where
  "validate_vm_flags m vm_flags =
     do {
       cur \<leftarrow> current_vm m;
       Some (if vm_flags AND VM_USER \<noteq> 0 \<and> (cur = None \<or> cur = Some (kernel_vm m)) then False
             else if vm_flags AND VM_WRITE \<noteq> 0 \<and> vm_flags AND VM_READ = 0 then False
             else if vm_flags AND VM_SHARED \<noteq> 0 \<and> vm_flags AND VM_RW = 0 then False
             else True)
     }"

definition to_pte_flags :: "memory \<Rightarrow> u32 \<Rightarrow> u16 option" where
  "to_pte_flags m vm_flags =
     do {
       ok \<leftarrow> validate_vm_flags m vm_flags;
       c_assert ok;
       Some ((if vm_flags AND VM_USER \<noteq> 0 then 4 else PTE_GLOBAL)
         OR (if vm_flags AND VM_WRITE \<noteq> 0 then 2 else 0)
         OR (if vm_flags AND VM_SHARED \<noteq> 0 then 0x200 else 0)
         OR (if vm_flags AND VM_WC \<noteq> 0 then PTE_PAT else 0))
     }"

definition page_align_range :: "u32 \<Rightarrow> u32 \<Rightarrow> u32 \<times> u32" where
  "page_align_range start sz =
     (let aligned_start = ROUND_DOWN start PAGE_SIZE; aligned_end = ROUND_UP (start + sz) PAGE_SIZE
      in (aligned_start, aligned_end - aligned_start))"

section \<open>Operations under the lock of an address space\<close>

text \<open>The calls that change the page tables, on the memory state.\<close>

definition pt_call :: "memory \<Rightarrow> (mmu \<Rightarrow> mmu option) \<Rightarrow> memory option" where
  "pt_call m f = do { s \<leftarrow> f (mmu_of m); Some (m\<lparr>mmu_of := s\<rparr>) }"

definition pt_try :: "memory \<Rightarrow> (mmu \<Rightarrow> (unit result \<times> mmu) option) \<Rightarrow> (unit result \<times> memory) option" where
  "pt_try m f = do { (r, s) \<leftarrow> f (mmu_of m); Some (r, m\<lparr>mmu_of := s\<rparr>) }"

text \<open>The common end of \<^verbatim>\<open>alloc\<close>, \<^verbatim>\<open>alloc_at\<close>, \<^verbatim>\<open>phys_map\<close> and \<^verbatim>\<open>virt_map\<close>: fill the node and link it, or give it back.\<close>

definition link_region :: "memory \<Rightarrow> nat \<Rightarrow> u32 option \<Rightarrow> vm_region \<Rightarrow> memory option" where
  "link_region m v cursor region =
     do { vm \<leftarrow> vms m v; rs \<leftarrow> vm_insert_region_after (regions vm) cursor region; set_regions m v rs }"

definition alloc_with :: "memory \<Rightarrow> nat \<Rightarrow> u32 \<Rightarrow> u32 \<Rightarrow> (memory \<Rightarrow> u32 \<Rightarrow> (unit result \<times> memory) option) \<Rightarrow> (u32 result \<times> memory) option" where
  "alloc_with m v sz vm_flags map_pages =
     do {
       (r, m) \<leftarrow> slab_cache_alloc m;
       case r of
         Inl e \<Rightarrow> Some (Inl e, m)
       | Inr region \<Rightarrow>
           do {
             vm \<leftarrow> vms m v;
             gap \<leftarrow> vm_find_gap vm sz;
             case gap of
               Inl e \<Rightarrow> Some (Inl e, slab_cache_free m region)
             | Inr (virt_addr, cursor) \<Rightarrow>
                 do {
                   (r, m) \<leftarrow> map_pages m virt_addr;
                   case r of
                     Inl e \<Rightarrow> Some (Inl e, slab_cache_free m region)
                   | Inr _ \<Rightarrow>
                       do {
                         m \<leftarrow> link_region m v cursor \<lparr>node = region, rstart = virt_addr, rend = virt_addr + sz, rflags = vm_flags\<rparr>;
                         Some (Inr virt_addr, m)
                       }
                 }
           }
     }"

text \<open>\<^verbatim>\<open>if (vm_flags & VM_RW) ret = ...\<close> with the flags of the entries computed only then.\<close>

definition if_rw :: "u32 \<Rightarrow> (memory \<Rightarrow> u16 \<Rightarrow> (unit result \<times> memory) option) \<Rightarrow> memory \<Rightarrow> (unit result \<times> memory) option" where
  "if_rw vm_flags f m =
     (if vm_flags AND VM_RW \<noteq> 0 then do { fl \<leftarrow> to_pte_flags m vm_flags; f m fl } else Some (Inr (), m))"

definition vm_alloc_in :: "memory \<Rightarrow> nat \<Rightarrow> u32 \<Rightarrow> u32 \<Rightarrow> (u32 result \<times> memory) option" where
  "vm_alloc_in m v sz vm_flags =
     alloc_with m v sz vm_flags
       (\<lambda>m virt_addr. if_rw vm_flags (\<lambda>m fl. pt_try m (\<lambda>s. page_table_map_anon s virt_addr sz fl)) m)"

definition phys_map :: "memory \<Rightarrow> nat \<Rightarrow> u32 \<Rightarrow> u32 \<Rightarrow> u32 \<Rightarrow> (u32 result \<times> memory) option" where
  "phys_map m v phys_addr sz vm_flags =
     alloc_with m v sz vm_flags
       (\<lambda>m virt_addr. if_rw vm_flags (\<lambda>m fl. pt_try m (\<lambda>s. page_table_map_phys s virt_addr phys_addr sz fl)) m)"

text \<open>The walk of \<^verbatim>\<open>alloc_at\<close>: the regions that start before \<open>virt_addr\<close>, with the last one as the cursor.\<close>

fun alloc_at_loop :: "vm_region option \<Rightarrow> vm_region list \<Rightarrow> u32 \<Rightarrow> vm_region option result" where
  "alloc_at_loop prev [] virt_addr = Inr prev"
| "alloc_at_loop prev (it # rs) virt_addr =
     (if rstart it < virt_addr
      then if rend it > virt_addr then Inl EEXIST else alloc_at_loop (Some it) rs virt_addr
      else Inr prev)"

definition alloc_at :: "memory \<Rightarrow> nat \<Rightarrow> u32 \<Rightarrow> u32 \<Rightarrow> u32 \<Rightarrow> (u32 result \<times> memory) option" where
  "alloc_at m v virt_addr sz vm_flags =
     do {
       (r, m) \<leftarrow> slab_cache_alloc m;
       case r of
         Inl e \<Rightarrow> Some (Inl e, m)
       | Inr region \<Rightarrow>
           do {
             vm \<leftarrow> vms m v;
             case alloc_at_loop None (regions vm) virt_addr of
               Inl e \<Rightarrow> Some (Inl e, slab_cache_free m region)
             | Inr prev \<Rightarrow>
                 if (case prev of Some p \<Rightarrow> rend p > virt_addr \<and> rstart p < virt_addr + sz | None \<Rightarrow> False)
                 then Some (Inl EEXIST, slab_cache_free m region)
                 else do {
                   (r, m) \<leftarrow> if_rw vm_flags (\<lambda>m fl. pt_try m (\<lambda>s. page_table_map_anon s virt_addr sz fl)) m;
                   case r of
                     Inl e \<Rightarrow> Some (Inl e, slab_cache_free m region)
                   | Inr _ \<Rightarrow>
                       do {
                         m \<leftarrow> link_region m v (map_option node prev)
                                \<lparr>node = region, rstart = virt_addr, rend = virt_addr + sz, rflags = vm_flags\<rparr>;
                         Some (Inr virt_addr, m)
                       }
                 }
           }
     }"

text \<open>Splitting a region: the nodes that \<^verbatim>\<open>set_flags\<close> makes, by the part of the region that changes.\<close>

definition set_flags :: "memory \<Rightarrow> nat \<Rightarrow> u32 \<Rightarrow> u32 \<Rightarrow> u32 \<Rightarrow> (unit result \<times> memory) option" where
  "set_flags m v addr sz vm_flags =
     do {
       vm \<leftarrow> vms m v;
       found \<leftarrow> vm_find_region (regions vm) addr;
       case found of
         None \<Rightarrow> Some (Inl ENOENT, m)
       | Some region \<Rightarrow>
           if rend region < addr + sz then Some (Inl EINVAL, m)
           else if rflags region = vm_flags then Some (Inr (), m)
           else if rflags region AND VM_RW = 0 \<and> vm_flags AND VM_RW \<noteq> 0 then Some (Inl EINVAL, m)
           else do {
             let id = node region;
             (r, m) \<leftarrow>
               (if rstart region = addr \<and> rstart region + sz = rend region then do {
                  m \<leftarrow> set_regions m v (update_region (regions vm) id (\<lambda>r. r\<lparr>rflags := vm_flags\<rparr>));
                  Some (Inr (), m)
                }
                else if rstart region = addr then do {
                  (r, m) \<leftarrow> slab_cache_alloc m;
                  case r of
                    Inl e \<Rightarrow> Some (Inl e, m)
                  | Inr right \<Rightarrow>
                      do {
                        vm \<leftarrow> vms m v;
                        m \<leftarrow> set_regions m v (update_region (regions vm) id (\<lambda>r. r\<lparr>rend := rstart region + sz, rflags := vm_flags\<rparr>));
                        m \<leftarrow> link_region m v (Some id)
                               \<lparr>node = right, rstart = rstart region + sz, rend = rend region, rflags = rflags region\<rparr>;
                        Some (Inr (), m)
                      }
                }
                else if rend region = addr + sz then do {
                  (r, m) \<leftarrow> slab_cache_alloc m;
                  case r of
                    Inl e \<Rightarrow> Some (Inl e, m)
                  | Inr right \<Rightarrow>
                      do {
                        vm \<leftarrow> vms m v;
                        m \<leftarrow> set_regions m v (update_region (regions vm) id (\<lambda>r. r\<lparr>rend := addr\<rparr>));
                        m \<leftarrow> link_region m v (Some id) \<lparr>node = right, rstart = addr, rend = rend region, rflags = vm_flags\<rparr>;
                        Some (Inr (), m)
                      }
                }
                else do {
                  (r, m) \<leftarrow> slab_cache_alloc m;
                  case r of
                    Inl e \<Rightarrow> Some (Inl e, m)
                  | Inr middle \<Rightarrow>
                      do {
                        (r, m) \<leftarrow> slab_cache_alloc m;
                        case r of
                          Inl e \<Rightarrow> Some (Inl e, slab_cache_free m middle)
                        | Inr right \<Rightarrow>
                            do {
                              vm \<leftarrow> vms m v;
                              m \<leftarrow> set_regions m v (update_region (regions vm) id (\<lambda>r. r\<lparr>rend := addr\<rparr>));
                              m \<leftarrow> link_region m v (Some id) \<lparr>node = middle, rstart = addr, rend = addr + sz, rflags = vm_flags\<rparr>;
                              m \<leftarrow> link_region m v (Some middle)
                                     \<lparr>node = right, rstart = addr + sz, rend = rend region, rflags = rflags region\<rparr>;
                              Some (Inr (), m)
                            }
                      }
                });
             case r of
               Inl e \<Rightarrow> Some (Inl e, m)
             | Inr _ \<Rightarrow>
                 if rflags region AND VM_RW \<noteq> 0 \<and> vm_flags AND VM_RW = 0
                 then do { m \<leftarrow> pt_call m (\<lambda>s. page_table_unmap s addr sz); Some (Inr (), m) }
                 else do {
                   fl \<leftarrow> to_pte_flags m vm_flags;
                   m \<leftarrow> pt_call m (\<lambda>s. page_table_set_flags s addr sz fl);
                   Some (Inr (), m)
                 }
           }
     }"

fun memcpy_pages :: "nat \<Rightarrow> u32 \<Rightarrow> u32 \<Rightarrow> mmu \<Rightarrow> mmu option" where
  "memcpy_pages 0 dest src s = Some s"
| "memcpy_pages (Suc n) dest src s = do { s \<leftarrow> memcpy_page s dest src; memcpy_pages n (dest + PAGE_SIZE) (src + PAGE_SIZE) s }"

definition virt_map :: "memory \<Rightarrow> nat \<Rightarrow> u32 \<Rightarrow> u32 \<Rightarrow> u32 \<Rightarrow> (u32 result \<times> memory) option" where
  "virt_map m v src_virt_addr sz vm_flags =
     (if vm_flags AND VM_SHARED = 0 then do {
        (r, m) \<leftarrow> vm_alloc_in m v sz (vm_flags OR VM_WRITE);
        case r of
          Inl e \<Rightarrow> Some (Inl e, m)
        | Inr dest \<Rightarrow>
            do {
              m \<leftarrow> pt_call m (memcpy_pages (unat sz div 4096) dest src_virt_addr);
              (_, m) \<leftarrow> (if vm_flags AND VM_WRITE = 0 then set_flags m v dest sz vm_flags else Some (Inr (), m));
              Some (Inr dest, m)
            }
      }
      else do {
        c_assert (vm_flags AND VM_RW \<noteq> 0);
        (r, m) \<leftarrow> alloc_with m v sz vm_flags
          (\<lambda>m dest. do { fl \<leftarrow> to_pte_flags m vm_flags; pt_try m (\<lambda>s. page_table_shallow_copy s dest src_virt_addr sz fl) });
        Some (r, m)
      })"

definition vm_resize_in :: "memory \<Rightarrow> nat \<Rightarrow> u32 \<Rightarrow> u32 \<Rightarrow> (u32 result \<times> memory) option" where
  "vm_resize_in m v virt_addr new_size =
     do {
       vm \<leftarrow> vms m v;
       found \<leftarrow> vm_find_region (regions vm) virt_addr;
       case found of
         None \<Rightarrow> Some (Inl ENOENT, m)
       | Some region \<Rightarrow>
           if virt_addr \<noteq> rstart region then Some (Inl EINVAL, m)
           else if rstart region + new_size = rend region then Some (Inr virt_addr, m)
           else do {
             let id = node region;
             let old_size = rend region - rstart region;
             let next = (case dropWhile (\<lambda>r. node r \<noteq> id) (regions vm) of _ # n # _ \<Rightarrow> Some n | _ \<Rightarrow> None);
             if new_size < old_size then do {
               m \<leftarrow> pt_call m (\<lambda>s. page_table_unmap s (rstart region + new_size) (old_size - new_size));
               m \<leftarrow> set_regions m v (update_region (regions vm) id (\<lambda>r. r\<lparr>rend := rstart region + new_size\<rparr>));
               Some (Inr virt_addr, m)
             }
             else do {
               pte_flags \<leftarrow> to_pte_flags m (rflags region);
               if (case next of None \<Rightarrow> True | Some n \<Rightarrow> rstart region + new_size < rstart n) then do {
                 (r, m) \<leftarrow> (if rflags region AND VM_RW \<noteq> 0
                   then pt_try m (\<lambda>s. page_table_map_anon s (rstart region + old_size) (new_size - old_size) pte_flags)
                   else Some (Inr (), m));
                 case r of
                   Inl e \<Rightarrow> Some (Inl e, m)
                 | Inr _ \<Rightarrow>
                     do {
                       m \<leftarrow> set_regions m v (update_region (regions vm) id (\<lambda>r. r\<lparr>rend := rstart region + new_size\<rparr>));
                       Some (Inr virt_addr, m)
                     }
               }
               else do {
                 gap \<leftarrow> vm_find_gap vm new_size;
                 case gap of
                   Inl e \<Rightarrow> Some (Inl e, m)
                 | Inr (new_virt_addr, cursor) \<Rightarrow>
                     do {
                       (r, m) \<leftarrow> pt_try m (\<lambda>s. page_table_shallow_copy s new_virt_addr (rstart region) old_size pte_flags);
                       case r of
                         Inl e \<Rightarrow> Some (Inl e, m)
                       | Inr _ \<Rightarrow>
                           do {
                             (r, m) \<leftarrow> (if rflags region AND VM_RW \<noteq> 0
                               then pt_try m (\<lambda>s. page_table_map_anon s (new_virt_addr + old_size) (new_size - old_size) pte_flags)
                               else Some (Inr (), m));
                             case r of
                               Inl e \<Rightarrow> do { m \<leftarrow> pt_call m (\<lambda>s. page_table_unmap s new_virt_addr old_size); Some (Inl e, m) }
                             | Inr _ \<Rightarrow>
                                 do {
                                   m \<leftarrow> pt_call m (\<lambda>s. page_table_unmap s (rstart region) old_size);
                                   m \<leftarrow> set_regions m v (vm_remove_region (regions vm) id);
                                   m \<leftarrow> link_region m v cursor
                                          (region\<lparr>rstart := new_virt_addr, rend := new_virt_addr + new_size\<rparr>);
                                   Some (Inr new_virt_addr, m)
                                 }
                           }
                     }
               }
             }
           }
     }"

definition vm_unmap_in :: "memory \<Rightarrow> nat \<Rightarrow> u32 \<Rightarrow> u32 \<Rightarrow> (unit result \<times> memory) option" where
  "vm_unmap_in m v addr sz =
     do {
       vm \<leftarrow> vms m v;
       found \<leftarrow> vm_find_region (regions vm) addr;
       case found of
         None \<Rightarrow> Some (Inl ENOENT, m)
       | Some region \<Rightarrow>
           let id = node region in
           if rend region < addr + sz then Some (Inl EINVAL, m)
           else if rstart region = addr \<and> rstart region + sz = rend region then do {
             m \<leftarrow> pt_call m (\<lambda>s. page_table_unmap s addr sz);
             m \<leftarrow> set_regions m v (vm_remove_region (regions vm) id);
             Some (Inr (), slab_cache_free m id)
           }
           else if rstart region = addr then do {
             m \<leftarrow> pt_call m (\<lambda>s. page_table_unmap s addr sz);
             m \<leftarrow> set_regions m v (update_region (regions vm) id (\<lambda>r. r\<lparr>rstart := rstart r + sz\<rparr>));
             Some (Inr (), m)
           }
           else if rend region = addr + sz then do {
             m \<leftarrow> pt_call m (\<lambda>s. page_table_unmap s addr sz);
             m \<leftarrow> set_regions m v (update_region (regions vm) id (\<lambda>r. r\<lparr>rend := rend r - sz\<rparr>));
             Some (Inr (), m)
           }
           else do {
             (r, m) \<leftarrow> slab_cache_alloc m;
             case r of
               Inl e \<Rightarrow> Some (Inl e, m)
             | Inr right \<Rightarrow>
                 do {
                   m \<leftarrow> pt_call m (\<lambda>s. page_table_unmap s addr sz);
                   vm \<leftarrow> vms m v;
                   m \<leftarrow> set_regions m v (update_region (regions vm) id (\<lambda>r. r\<lparr>rend := addr\<rparr>));
                   m \<leftarrow> link_region m v (Some id)
                          \<lparr>node = right, rstart = addr + sz, rend = rend region, rflags = rflags region\<rparr>;
                   Some (Inr (), m)
                 }
           }
     }"

section \<open>The interface\<close>

definition vm_alloc :: "memory \<Rightarrow> u32 \<Rightarrow> u32 \<Rightarrow> (u32 result \<times> memory) option" where
  "vm_alloc m sz vm_flags =
     (if sz = 0 then Some (Inl EINVAL, m)
      else do {
        ok \<leftarrow> validate_vm_flags m vm_flags;
        if \<not> ok then Some (Inl EINVAL, m)
        else do { v \<leftarrow> vm_for_flags m vm_flags; vm_alloc_in m v (ROUND_UP sz PAGE_SIZE) vm_flags }
      })"

text \<open>The offset of the address in its page is added to the address of the region.\<close>

definition plus_offset :: "u32 \<Rightarrow> u32 \<Rightarrow> u32 result \<Rightarrow> u32 result" where
  "plus_offset addr aligned_addr r = (case r of Inl e \<Rightarrow> Inl e | Inr a \<Rightarrow> Inr (a + (addr - aligned_addr)))"

definition vm_alloc_at :: "memory \<Rightarrow> u32 \<Rightarrow> u32 \<Rightarrow> u32 \<Rightarrow> (u32 result \<times> memory) option" where
  "vm_alloc_at m virt_addr sz vm_flags =
     (case validate_range virt_addr sz of
        Inl e \<Rightarrow> Some (Inl e, m)
      | Inr _ \<Rightarrow>
          do {
            ok \<leftarrow> validate_vm_flags m vm_flags;
            if \<not> ok then Some (Inl EINVAL, m)
            else if is_user_address virt_addr \<and> vm_flags AND VM_USER = 0 then Some (Inr 0, m)
            else do {
              let (aligned_addr, sz) = page_align_range virt_addr sz;
              v \<leftarrow> vm_for_flags m vm_flags;
              vm \<leftarrow> vms m v;
              if aligned_addr < vstart vm \<or> vend vm < aligned_addr + sz then Some (Inl ERANGE, m)
              else do { (r, m) \<leftarrow> alloc_at m v aligned_addr sz vm_flags; Some (plus_offset virt_addr aligned_addr r, m) }
            }
          })"

definition vm_phys_map :: "memory \<Rightarrow> u32 \<Rightarrow> u32 \<Rightarrow> u32 \<Rightarrow> (u32 result \<times> memory) option" where
  "vm_phys_map m phys_addr sz vm_flags =
     (case validate_range phys_addr sz of
        Inl e \<Rightarrow> Some (Inl e, m)
      | Inr _ \<Rightarrow>
          do {
            ok \<leftarrow> validate_vm_flags m vm_flags;
            if \<not> ok then Some (Inl EINVAL, m)
            else do {
              let (aligned_addr, sz) = page_align_range phys_addr sz;
              v \<leftarrow> vm_for_flags m vm_flags;
              (r, m) \<leftarrow> phys_map m v aligned_addr sz vm_flags;
              Some (plus_offset phys_addr aligned_addr r, m)
            }
          })"

definition vm_virt_map :: "memory \<Rightarrow> u32 \<Rightarrow> u32 \<Rightarrow> u32 \<Rightarrow> (u32 result \<times> memory) option" where
  "vm_virt_map m virt_addr sz vm_flags =
     (case validate_range virt_addr sz of
        Inl e \<Rightarrow> Some (Inl e, m)
      | Inr _ \<Rightarrow>
          do {
            ok \<leftarrow> validate_vm_flags m vm_flags;
            if \<not> ok then Some (Inl EINVAL, m)
            else if is_user_address virt_addr \<and> vm_flags AND VM_USER = 0 then Some (Inl EINVAL, m)
            else do {
              let (aligned_addr, sz) = page_align_range virt_addr sz;
              v \<leftarrow> vm_for_flags m vm_flags;
              (r, m) \<leftarrow> virt_map m v aligned_addr sz vm_flags;
              Some (plus_offset virt_addr aligned_addr r, m)
            }
          })"

definition vm_resize :: "memory \<Rightarrow> u32 \<Rightarrow> u32 \<Rightarrow> (u32 result \<times> memory) option" where
  "vm_resize m virt_addr new_size =
     (case validate_range virt_addr new_size of
        Inl e \<Rightarrow> Some (Inl e, m)
      | Inr _ \<Rightarrow>
          do {
            let (aligned_addr, new_size) = page_align_range virt_addr new_size;
            v \<leftarrow> vm_for_addr m virt_addr;
            (r, m) \<leftarrow> vm_resize_in m v aligned_addr new_size;
            Some (plus_offset virt_addr aligned_addr r, m)
          })"

definition vm_set_flags :: "memory \<Rightarrow> u32 \<Rightarrow> u32 \<Rightarrow> u32 \<Rightarrow> (unit result \<times> memory) option" where
  "vm_set_flags m addr sz vm_flags =
     (case validate_range addr sz of
        Inl e \<Rightarrow> Some (Inl e, m)
      | Inr _ \<Rightarrow>
          do {
            ok \<leftarrow> validate_vm_flags m vm_flags;
            if \<not> ok then Some (Inl EINVAL, m)
            else do {
              let (aligned_addr, sz) = page_align_range addr sz;
              v \<leftarrow> vm_for_addr m addr;
              set_flags m v aligned_addr sz vm_flags
            }
          })"

definition vm_unmap :: "memory \<Rightarrow> u32 \<Rightarrow> u32 \<Rightarrow> (unit result \<times> memory) option" where
  "vm_unmap m addr sz =
     (case validate_range addr sz of
        Inl e \<Rightarrow> Some (Inl e, m)
      | Inr _ \<Rightarrow>
          do {
            let (aligned_addr, sz) = page_align_range addr sz;
            v \<leftarrow> vm_for_addr m addr;
            vm_unmap_in m v aligned_addr sz
          })"

definition vm_free :: "memory \<Rightarrow> u32 \<Rightarrow> (unit result \<times> memory) option" where
  "vm_free m addr =
     (if addr = 0 then Some (Inl EFAULT, m)
      else do {
        v \<leftarrow> vm_for_addr m addr;
        vm \<leftarrow> vms m v;
        found \<leftarrow> vm_find_region (regions vm) addr;
        case found of
          None \<Rightarrow> Some (Inl ENOENT, m)
        | Some region \<Rightarrow>
            if rstart region \<noteq> ROUND_DOWN addr PAGE_SIZE then Some (Inl EINVAL, m)
            else do {
              m \<leftarrow> pt_call m (\<lambda>s. page_table_unmap s (rstart region) (rend region - rstart region));
              m \<leftarrow> set_regions m v (vm_remove_region (regions vm) (node region));
              Some (Inr (), slab_cache_free m (node region))
            }
      })"

section \<open>Kernel heap\<close>

text \<open>\<open>None\<close> inside the pair is the \<^verbatim>\<open>NULL\<close> of a failed allocation.\<close>

definition or_null :: "u32 result \<Rightarrow> u32 option" where
  "or_null r = (case r of Inl _ \<Rightarrow> None | Inr a \<Rightarrow> Some a)"

definition kmalloc :: "memory \<Rightarrow> u32 \<Rightarrow> (u32 option \<times> memory) option" where
  "kmalloc m sz = do { (r, m) \<leftarrow> vm_alloc m sz (VM_READ OR VM_WRITE); Some (or_null r, m) }"

definition kaligned_alloc :: "memory \<Rightarrow> u32 \<Rightarrow> u32 \<Rightarrow> (u32 option \<times> memory) option" where
  "kaligned_alloc m alignment sz = do { c_assert (alignment \<le> PAGE_SIZE); kmalloc m sz }"

definition krealloc :: "memory \<Rightarrow> u32 option \<Rightarrow> u32 \<Rightarrow> (u32 option \<times> memory) option" where
  "krealloc m ptr new_size =
     (case ptr of
        None \<Rightarrow> kmalloc m new_size
      | Some p \<Rightarrow> do { (r, m) \<leftarrow> vm_resize m p new_size; Some (or_null r, m) })"

definition kfree :: "memory \<Rightarrow> u32 option \<Rightarrow> memory option" where
  "kfree m ptr =
     (case ptr of
        None \<Rightarrow> Some m
      | Some p \<Rightarrow> do { (r, m) \<leftarrow> vm_free m p; case r of Inl e \<Rightarrow> None | Inr _ \<Rightarrow> Some m })"

section \<open>Whole address spaces\<close>

definition vm_init :: "memory \<Rightarrow> memory option" where
  "vm_init m =
     do {
       c \<leftarrow> slab_cache_init sizeof_vm_region;
       Some (m\<lparr>mmu_of := (mmu_of m)\<lparr>vm_page_directory := (vm_page_directory (mmu_of m))(kernel_vm m \<mapsto> kernel_page_directory (mmu_of m))\<rparr>,
               vms := (vms m)(kernel_vm m \<mapsto> \<lparr>vstart = KERNEL_HEAP_START, vend = KERNEL_HEAP_END, pd_block = 0, regions = [], vm_ref_count = 1\<rparr>),
               region_cache := c\<rparr>)
     }"

text \<open>
  A new directory is a block of the kernel heap, and \<^verbatim>\<open>page_directory_create\<close> or
  \<^verbatim>\<open>page_directory_clone_current\<close> fills it. The address of the block comes back with the physical page.
\<close>

definition new_directory ::
  "(mmu \<Rightarrow> u32 option \<Rightarrow> (u32 result \<times> mmu) option) \<Rightarrow> memory \<Rightarrow> ((u32 \<times> u32) result \<times> memory) option" where
  "new_directory mk_pd m =
     do {
       (b, m) \<leftarrow> kmalloc m PAGE_SIZE;
       case b of
         None \<Rightarrow> do { (r, s) \<leftarrow> mk_pd (mmu_of m) None; case r of Inl e \<Rightarrow> Some (Inl e, m\<lparr>mmu_of := s\<rparr>) | Inr _ \<Rightarrow> None }
       | Some block \<Rightarrow>
           do {
             phys \<leftarrow> virt_to_phys (mmu_of m) block;
             (r, s) \<leftarrow> mk_pd (mmu_of m) (Some phys);
             Some (case r of Inl e \<Rightarrow> Inl e | Inr pd \<Rightarrow> Inr (block, pd), m\<lparr>mmu_of := s\<rparr>)
           }
     }"

definition new_vm :: "memory \<Rightarrow> u32 \<Rightarrow> u32 \<Rightarrow> u32 \<Rightarrow> u32 \<Rightarrow> u32 \<Rightarrow> memory" where
  "new_vm m v start e block pd =
     m\<lparr>vms := (vms m)(unat v \<mapsto> \<lparr>vstart = start, vend = e, pd_block = block, regions = [], vm_ref_count = 1\<rparr>),
       mmu_of := (mmu_of m)\<lparr>vm_page_directory := (vm_page_directory (mmu_of m))(unat v \<mapsto> pd)\<rparr>\<rparr>"

definition vm_create :: "memory \<Rightarrow> u32 \<Rightarrow> u32 \<Rightarrow> (u32 result \<times> memory) option" where
  "vm_create m start e =
     do {
       (p, m) \<leftarrow> kmalloc m sizeof_vm;
       case p of
         None \<Rightarrow> Some (Inl ENOMEM, m)
       | Some v \<Rightarrow>
           do {
             (r, m) \<leftarrow> new_directory page_directory_create m;
             case r of
               Inl err \<Rightarrow> do { m \<leftarrow> kfree m (Some v); Some (Inl err, m) }
             | Inr (block, pd) \<Rightarrow> Some (Inr v, new_vm m v start e block pd)
           }
     }"

definition vm_ref :: "memory \<Rightarrow> nat \<Rightarrow> memory option" where
  "vm_ref m v =
     do {
       c_assert (v \<noteq> kernel_vm m);
       vm \<leftarrow> vms m v;
       Some (m\<lparr>vms := (vms m)(v \<mapsto> vm\<lparr>vm_ref_count := vm_ref_count vm + 1\<rparr>)\<rparr>)
     }"

definition vm_enter :: "memory \<Rightarrow> nat \<Rightarrow> memory option" where
  "vm_enter m v =
     do {
       cur \<leftarrow> current_vm m;
       c_assert (cur \<noteq> None);
       let s = mmu_of m;
       let s = s\<lparr>cpu_vms := (cpu_vms s)[this_cpu s := Some v]\<rparr>;
       pd \<leftarrow> vm_page_directory s v;
       s \<leftarrow> page_directory_switch s pd;
       Some (m\<lparr>mmu_of := s\<rparr>)
     }"

definition vm_unref :: "memory \<Rightarrow> nat option \<Rightarrow> memory option" where
  "vm_unref m vo =
     (case vo of
        None \<Rightarrow> Some m
      | Some v \<Rightarrow>
          do {
            c_assert (v \<noteq> kernel_vm m);
            vm \<leftarrow> vms m v;
            c_assert (vm_ref_count vm > 0);
            let vm = vm\<lparr>vm_ref_count := vm_ref_count vm - 1\<rparr>;
            let m = m\<lparr>vms := (vms m)(v \<mapsto> vm)\<rparr>;
            if vm_ref_count vm > 0 then Some m
            else do {
              cur \<leftarrow> current_vm m;
              saved_vm \<leftarrow> cur;
              m \<leftarrow> (if v \<noteq> saved_vm then vm_enter m v else Some m);
              cur \<leftarrow> current_vm m;
              c_assert (cur = Some v);
              let m = foldl slab_cache_free m (map node (regions vm));
              (_, s) \<leftarrow> page_directory_destroy_current (mmu_of m);
              m \<leftarrow> kfree (m\<lparr>mmu_of := s\<rparr>) (Some (pd_block vm));
              m \<leftarrow> vm_enter m (if v = saved_vm then kernel_vm m else saved_vm);
              m \<leftarrow> kfree m (Some (of_nat v));
              Some (m\<lparr>vms := (vms m)(v := None)\<rparr>)
            }
          })"

fun clone_regions :: "vm_region list \<Rightarrow> nat \<Rightarrow> memory \<Rightarrow> (unit result \<times> memory) option" where
  "clone_regions [] v m = Some (Inr (), m)"
| "clone_regions (it # rs) v m =
     do {
       (r, m) \<leftarrow> slab_cache_alloc m;
       case r of
         Inl e \<Rightarrow> Some (Inl e, m)
       | Inr cloned \<Rightarrow>
           do {
             vm \<leftarrow> vms m v;
             m \<leftarrow> set_regions m v (regions vm @ [it\<lparr>node := cloned\<rparr>]);
             clone_regions rs v m
           }
     }"

definition vm_clone :: "memory \<Rightarrow> (u32 result \<times> memory) option" where
  "vm_clone m =
     do {
       cur \<leftarrow> current_vm m;
       v \<leftarrow> cur;
       c_assert (v \<noteq> kernel_vm m);
       (p, m) \<leftarrow> kmalloc m sizeof_vm;
       case p of
         None \<Rightarrow> Some (Inl ENOMEM, m)
       | Some n \<Rightarrow>
           do {
             (r, m) \<leftarrow> new_directory page_directory_clone_current m;
             case r of
               Inl err \<Rightarrow> do { m \<leftarrow> kfree m (Some n); Some (Inl err, m) }
             | Inr (block, pd) \<Rightarrow>
                 do {
                   vm \<leftarrow> vms m v;
                   let m = new_vm m n (vstart vm) (vend vm) block pd;
                   (r, m) \<leftarrow> clone_regions (regions vm) (unat n) m;
                   case r of
                     Inl err \<Rightarrow> do { m \<leftarrow> vm_unref m (Some (unat n)); Some (Inl err, m) }
                   | Inr _ \<Rightarrow> Some (Inr n, m)
                 }
           }
     }"

section \<open>Memory system calls\<close>

text \<open>\<^verbatim>\<open>sys_munmap\<close> of \<^verbatim>\<open>kernel/syscall/mmap.c\<close>.\<close>

definition sys_munmap :: "memory \<Rightarrow> u32 \<Rightarrow> u32 \<Rightarrow> (unit result \<times> memory) option" where
  "sys_munmap m addr len =
     (if addr mod PAGE_SIZE \<noteq> 0 \<or> len = 0 then Some (Inl EINVAL, m)
      else do {
        (rc, m) \<leftarrow> vm_unmap m addr len;
        Some (if rc = Inl ENOENT then Inr () else rc, m)
      })"

section \<open>Well-formed lists of regions\<close>

definition aligned :: "u32 \<Rightarrow> bool" where
  "aligned a \<longleftrightarrow> a mod PAGE_SIZE = 0"

definition in_region :: "vm_region \<Rightarrow> u32 \<Rightarrow> bool" where
  "in_region r a \<longleftrightarrow> rstart r \<le> a \<and> a < rend r"

definition before :: "vm_region \<Rightarrow> vm_region \<Rightarrow> bool" where
  "before r q \<longleftrightarrow> rend r \<le> rstart q"

definition region_ok :: "vm \<Rightarrow> vm_region \<Rightarrow> bool" where
  "region_ok vm r \<longleftrightarrow> aligned (rstart r) \<and> aligned (rend r) \<and> vstart vm \<le> rstart r \<and> rstart r < rend r \<and> rend r \<le> vend vm"

text \<open>Regions are page-aligned, not empty, inside the address space, in order and disjoint, on different nodes.\<close>

definition vm_ok :: "vm \<Rightarrow> bool" where
  "vm_ok vm \<longleftrightarrow> aligned (vstart vm) \<and> aligned (vend vm) \<and> (\<forall>r\<in>set (regions vm). region_ok vm r)
     \<and> sorted_wrt before (regions vm) \<and> distinct (map node (regions vm))"

lemma assert_next_sorted: "sorted_wrt before (it # rs) \<Longrightarrow> assert_next it rs = Some ()"
  by (cases rs) (simp_all add: before_def)

lemma vm_find_region_eq:
  "sorted_wrt before rs \<Longrightarrow> vm_find_region rs addr = Some (find (\<lambda>r. in_region r addr) rs)"
  by (induction rs) (simp_all add: assert_next_sorted in_region_def)

lemma in_region_unique:
  assumes "sorted_wrt before rs" "r \<in> set rs" "q \<in> set rs" "in_region r a" "in_region q a"
  shows "r = q"
  using assms
proof (induction rs)
  case (Cons x xs)
  have "\<not> (before x y \<and> in_region x a \<and> in_region y a)" for y
    by (auto simp: before_def in_region_def)
  with Cons show ?case by auto
qed simp

lemma find_region_iff:
  assumes "sorted_wrt before rs"
  shows "find (\<lambda>r. in_region r a) rs = Some r \<longleftrightarrow> r \<in> set rs \<and> in_region r a"
proof
  assume "find (\<lambda>r. in_region r a) rs = Some r"
  then show "r \<in> set rs \<and> in_region r a" by (auto simp: find_Some_iff)
next
  assume r: "r \<in> set rs \<and> in_region r a"
  then obtain q where q: "find (\<lambda>r. in_region r a) rs = Some q"
    by (cases "find (\<lambda>r. in_region r a) rs") (auto simp: find_None_iff)
  then have "q \<in> set rs \<and> in_region q a" by (auto simp: find_Some_iff)
  with r q in_region_unique [OF assms] show "find (\<lambda>r. in_region r a) rs = Some r" by blast
qed

text \<open>A range of an address space that no region touches.\<close>

definition free_range :: "vm_region list \<Rightarrow> u32 \<Rightarrow> u32 \<Rightarrow> bool" where
  "free_range rs a e \<longleftrightarrow> (\<forall>r\<in>set rs. rend r \<le> a \<or> e \<le> rstart r)"

text \<open>Inserting a region behind a cursor at the end of which it fits.\<close>

definition fits_after :: "vm_region list \<Rightarrow> u32 option \<Rightarrow> u32 \<Rightarrow> u32 \<Rightarrow> bool" where
  "fits_after rs cursor a e \<longleftrightarrow>
     (case cursor of
        None \<Rightarrow> (\<forall>r\<in>set rs. e \<le> rstart r)
      | Some c \<Rightarrow> \<exists>xs p ys. rs = xs @ p # ys \<and> node p = c \<and> (\<forall>r\<in>set (xs @ [p]). rend r \<le> a) \<and> (\<forall>r\<in>set ys. e \<le> rstart r))"

lemma fits_afterI:
  assumes "rs = xs @ p # ys" "\<forall>r\<in>set (xs @ [p]). rend r \<le> a" "\<forall>r\<in>set ys. e \<le> rstart r"
  shows "fits_after rs (Some (node p)) a e"
  using assms by (auto simp: fits_after_def)

lemma fits_after_free: "fits_after rs c a e \<Longrightarrow> free_range rs a e"
  by (auto simp: fits_after_def free_range_def split: option.splits)

lemma insert_after_split:
  assumes "node p = c" "c \<notin> node ` set xs" "rend p \<le> rstart i" "assert_next i ys = Some ()"
  shows "insert_after (xs @ p # ys) c i = Some (xs @ p # i # ys)"
  using assms by (induction xs) auto

lemma vm_insert_region_after_spec:
  assumes ok: "vm_ok vm" and fit: "fits_after (regions vm) c (rstart i) (rend i)" and i: "region_ok vm i" "node i \<notin> node ` set (regions vm)"
  shows "\<exists>rs. vm_insert_region_after (regions vm) c i = Some rs \<and> vm_ok (vm\<lparr>regions := rs\<rparr>) \<and> set rs = insert i (set (regions vm))"
proof -
  have rok: "region_ok (vm\<lparr>regions := rs\<rparr>) = region_ok vm" for rs by (simp add: fun_eq_iff region_ok_def)
  have s: "sorted_wrt before (regions vm)" and d: "distinct (map node (regions vm))" using ok by (simp_all add: vm_ok_def)
  have nx: "assert_next i ys = Some ()" if "\<forall>r\<in>set ys. rend i \<le> rstart r" for ys
    using that by (cases ys) simp_all
  show ?thesis
  proof (cases c)
    case None
    with fit have f: "\<forall>r\<in>set (regions vm). rend i \<le> rstart r" by (simp add: fits_after_def)
    then have "sorted_wrt before (i # regions vm)" using s by (simp add: before_def)
    with None f nx ok i d show ?thesis by (auto simp: vm_insert_region_after_def vm_ok_def rok)
  next
    case (Some cn)
    with fit obtain xs p ys where x: "regions vm = xs @ p # ys" "node p = cn" "\<forall>r\<in>set (xs @ [p]). rend r \<le> rstart i"
      "\<forall>r\<in>set ys. rend i \<le> rstart r" by (auto simp: fits_after_def)
    have "cn \<notin> node ` set xs" using d x(1,2) by auto
    then have run: "insert_after (regions vm) cn i = Some (xs @ p # i # ys)"
      unfolding x(1) using x by (intro insert_after_split nx) auto
    have "sorted_wrt before (xs @ p # i # ys)"
      using s x unfolding x(1) by (auto simp: sorted_wrt_append before_def)
    moreover have "distinct (map node (xs @ p # i # ys))" using d i(2) unfolding x(1) by auto
    moreover have "\<forall>r\<in>set (xs @ p # i # ys). region_ok vm r" using ok i(1) unfolding vm_ok_def x(1) by auto
    ultimately show ?thesis using run Some ok x(1) by (auto simp: vm_insert_region_after_def vm_ok_def rok)
  qed
qed

text \<open>What the search for a gap returns, when no end of a region plus the size leaves the 32 bits.\<close>

lemma word_add_le: "unat a + unat b < 2 ^ 32 \<Longrightarrow> unat (a + b :: u32) = unat a + unat b"
  by (simp add: unat_word_ariths)

lemma gap_loop_spec:
  assumes "sorted_wrt before (xs @ rs)" "\<forall>r\<in>set (xs @ rs). unat (rend r) + unat sz < 2 ^ 32 \<and> rstart r < rend r \<and> rend r \<le> vm_end"
    and "prev = (if xs = [] then None else Some (last xs))" "xs \<noteq> [] \<or> rs \<noteq> []"
  shows "\<exists>g. gap_loop prev rs vm_end sz = Some g \<and>
    (case g of
       Inl e \<Rightarrow> e = ENOMEM
     | Inr (a, c) \<Rightarrow> \<exists>p\<in>set (xs @ rs). a = rend p \<and> fits_after (xs @ rs) c a (a + sz) \<and> a + sz \<le> vm_end)"
  using assms
proof (induction rs arbitrary: xs prev)
  case Nil
  then obtain ys p where xs: "xs = ys @ [p]" by (cases xs rule: rev_cases) auto
  then have before: "\<forall>r\<in>set xs. rend r \<le> rend p"
    using Nil.prems(1,2) by (fastforce simp: sorted_wrt_append before_def)
  have "fits_after xs (Some (node p)) (rend p) (rend p + sz)"
    by (rule fits_afterI [of _ ys _ "[]"]) (use before xs in auto)
  with Nil xs show ?case by (auto split: option.splits)
next
  case (Cons it rs)
  have srt: "sorted_wrt before (it # rs)" using Cons.prems(1) by (simp add: sorted_wrt_append)
  have step: "\<exists>g. gap_loop (Some it) rs vm_end sz = Some g \<and>
    (case g of Inl e \<Rightarrow> e = ENOMEM
     | Inr (a, c) \<Rightarrow> \<exists>p\<in>set (xs @ it # rs). a = rend p \<and> fits_after (xs @ it # rs) c a (a + sz) \<and> a + sz \<le> vm_end)"
    using Cons.IH [of "xs @ [it]" "Some it", unfolded append_assoc append_Cons append_Nil] Cons.prems by simp
  show ?case
  proof (cases xs rule: rev_cases)
    case Nil
    then show ?thesis using step Cons.prems(3) assert_next_sorted [OF srt] by simp
  next
    case (snoc ys p)
    then have prev: "prev = Some p" using Cons.prems(3) by simp
    show ?thesis
    proof (cases "rend p + sz \<le> rstart it")
      case False
      then show ?thesis using step prev assert_next_sorted [OF srt] by simp
    next
      case True
      have bp: "\<forall>r\<in>set xs. rend r \<le> rend p"
        using Cons.prems(1,2) snoc by (fastforce simp: sorted_wrt_append before_def)
      have ends: "rstart it < rend it" "\<forall>r\<in>set rs. rend it \<le> rstart r"
        using Cons.prems(2) srt by (auto simp: before_def)
      have "\<forall>r\<in>set (it # rs). rend p + sz \<le> rstart r" using True ends by auto
      then have "fits_after (xs @ it # rs) (Some (node p)) (rend p) (rend p + sz)"
        by (intro fits_afterI [of _ ys _ "it # rs"]) (use bp snoc in auto)
      moreover have "rend p + sz \<le> vm_end" using True ends Cons.prems(2) by (meson in_set_conv_decomp le_less_trans less_imp_le order_trans)
      ultimately show ?thesis using True prev snoc assert_next_sorted [OF srt] by auto
    qed
  qed
qed

lemma aligned_iff: "aligned a \<longleftrightarrow> unat a mod 4096 = 0"
  by (simp add: aligned_def word_unat_eq_iff unat_mod)

lemma aligned_add: "aligned a \<Longrightarrow> aligned b \<Longrightarrow> unat a + unat b < 2 ^ 32 \<Longrightarrow> aligned (a + b)"
  unfolding aligned_iff by (metis word_add_le mod_add_eq add_0 mod_0)

lemma vm_find_gap_spec:
  assumes ok: "vm_ok vm" and sz: "aligned sz" "sz \<noteq> 0" "unat (vend vm) + unat sz < 2 ^ 32" and ne: "vstart vm \<le> vend vm"
  shows "\<exists>g. vm_find_gap vm sz = Some g \<and>
    (case g of
       Inl e \<Rightarrow> e = ENOMEM
     | Inr (a, c) \<Rightarrow> aligned a \<and> vstart vm \<le> a \<and> unat a + unat sz \<le> unat (vend vm) \<and> fits_after (regions vm) c a (a + sz))"
proof -
  have st: "unat (vstart vm + sz) = unat (vstart vm) + unat sz"
    using sz(3) ne by (intro word_add_le) (simp add: word_le_nat_alt)
  have srt: "sorted_wrt before (regions vm)" and rok: "\<And>r. r \<in> set (regions vm) \<Longrightarrow> region_ok vm r" using ok by (simp_all add: vm_ok_def)
  consider (big) "vstart vm + sz > vend vm" | (empty) "\<not> vstart vm + sz > vend vm" "regions vm = []"
    | (some) "\<not> vstart vm + sz > vend vm" "regions vm \<noteq> []" by blast
  then show ?thesis
  proof cases
    case big
    then show ?thesis by (simp add: vm_find_gap_def)
  next
    case empty
    then show ?thesis using ok st by (simp add: vm_find_gap_def vm_ok_def fits_after_def word_le_nat_alt not_less)
  next
    case some
    have all: "\<forall>r\<in>set (regions vm). unat (rend r) + unat sz < 2 ^ 32 \<and> rstart r < rend r \<and> rend r \<le> vend vm"
      using rok sz(3) by (fastforce simp: region_ok_def word_le_nat_alt)
    obtain g where g: "gap_loop None (regions vm) (vend vm) sz = Some g"
      "case g of Inl e \<Rightarrow> e = ENOMEM
       | Inr (a, c) \<Rightarrow> \<exists>p\<in>set (regions vm). a = rend p \<and> fits_after (regions vm) c a (a + sz) \<and> a + sz \<le> vend vm"
      using gap_loop_spec [of "[]" "regions vm" sz "vend vm" None, unfolded append_Nil] srt all some(2) by auto
    have "case g of Inl e \<Rightarrow> e = ENOMEM
      | Inr (a, c) \<Rightarrow> aligned a \<and> vstart vm \<le> a \<and> unat a + unat sz \<le> unat (vend vm) \<and> fits_after (regions vm) c a (a + sz)"
    proof (cases g)
      case (Inr ac)
      obtain a c where ac: "ac = (a, c)" by (cases ac)
      with Inr g(2) obtain p where p: "p \<in> set (regions vm)" "a = rend p" "fits_after (regions vm) c a (a + sz)" "a + sz \<le> vend vm"
        by auto
      have "unat (a + sz) = unat a + unat sz" using all p(1,2) by (intro word_add_le) auto
      moreover have "region_ok vm p" using rok p(1) by blast
      ultimately show ?thesis using p Inr ac by (auto simp: region_ok_def word_le_nat_alt word_less_nat_alt)
    qed (use g in simp)
    with g(1) some show ?thesis by (simp add: vm_find_gap_def)
  qed
qed

section \<open>Regions and page tables together\<close>

text \<open>Inside an address space exactly the pages of the readable or writable regions are mapped.\<close>

definition rw :: "u32 \<Rightarrow> bool" where
  "rw fl \<longleftrightarrow> fl AND VM_RW \<noteq> 0"

definition in_vm :: "vm \<Rightarrow> u32 \<Rightarrow> bool" where
  "in_vm vm a \<longleftrightarrow> vstart vm \<le> a \<and> a < vend vm"

definition maps_exactly :: "mmu \<Rightarrow> vm \<Rightarrow> bool" where
  "maps_exactly s vm \<longleftrightarrow> (\<forall>a. in_vm vm a \<longrightarrow> (mapping s a \<noteq> None \<longleftrightarrow> (\<exists>r\<in>set (regions vm). in_region r a \<and> rw (rflags r))))"

text \<open>
  The invariant of the memory state. \<open>h\<close> lists the nodes that an operation has taken from the slab cache and
  not linked yet. The address spaces in use are the one of the kernel, above \<^verbatim>\<open>KERNEL_VIRT_ADDR\<close>, and the one of the
  current task, below it. Every node lies in a region of the kernel and is used once.
\<close>

definition active :: "memory \<Rightarrow> nat \<Rightarrow> bool" where
  "active m v \<longleftrightarrow> v = kernel_vm m \<or> current_vm m = Some (Some v)"

definition vm_place :: "memory \<Rightarrow> nat \<Rightarrow> vm \<Rightarrow> bool" where
  "vm_place m v vm \<longleftrightarrow> 0 < vstart vm \<and> vstart vm \<le> vend vm \<and>
     (if v = kernel_vm m then KERNEL_VIRT_ADDR \<le> vstart vm \<and> vend vm \<le> KERNEL_HEAP_END else vend vm \<le> KERNEL_VIRT_ADDR)"

definition used_nodes :: "memory \<Rightarrow> nat \<Rightarrow> u32 set" where
  "used_nodes m v = (case vms m v of None \<Rightarrow> {} | Some vm \<Rightarrow> node ` set (regions vm))"

definition nodes_ok :: "u32 list \<Rightarrow> memory \<Rightarrow> bool" where
  "nodes_ok h m \<longleftrightarrow> obj_size (region_cache m) = sizeof_vm_region
     \<and> distinct (h @ free_list (region_cache m))
     \<and> (\<forall>v. used_nodes m v \<inter> set (h @ free_list (region_cache m)) = {})
     \<and> (\<forall>v w. v \<noteq> w \<longrightarrow> used_nodes m v \<inter> used_nodes m w = {})
     \<and> (\<forall>kvm. vms m (kernel_vm m) = Some kvm \<longrightarrow>
          (\<forall>x. x \<in> set (h @ free_list (region_cache m)) \<or> (\<exists>v. x \<in> used_nodes m v) \<longrightarrow> (\<exists>r\<in>set (regions kvm). in_region r x)))"

definition mem_inv :: "u32 list \<Rightarrow> memory \<Rightarrow> bool" where
  "mem_inv h m \<longleftrightarrow> pt_ok (mmu_of m) \<and> nodes_ok h m
     \<and> (\<forall>v. active m v \<longrightarrow> (\<exists>vm. vms m v = Some vm \<and> vm_ok vm \<and> vm_place m v vm \<and> maps_exactly (mmu_of m) vm))"

lemma pageno_range:
  assumes "aligned va" "unat va + n * 4096 < 2 ^ 32"
  shows "pageno a \<in> {pageno va..<pageno va + n} \<longleftrightarrow> va \<le> a \<and> a < va + of_nat n * PAGE_SIZE"
proof -
  have e: "unat (va + of_nat n * PAGE_SIZE) = unat va + n * 4096" using assms(2) by (simp add: unat_word_ariths unat_of_nat)
  have "unat va = pageno va * 4096" using assms(1) by (auto simp: aligned_iff pageno_def)
  moreover have "k \<le> pageno a \<longleftrightarrow> k * 4096 \<le> unat a" for k by (simp add: pageno_def less_eq_div_iff_mult_less_eq)
  ultimately show ?thesis
    unfolding word_le_nat_alt word_less_nat_alt e by (simp add: not_le [symmetric] distrib_right)
qed

lemma in_page_range:
  assumes "range_ok va n" "c \<in> set (page_range va n)"
  shows "va \<le> c \<and> c < va + of_nat n * PAGE_SIZE"
proof -
  have "pageno c \<in> set (map pageno (page_range va n))" using assms(2) by simp
  then have "pageno c \<in> {pageno va..<pageno va + n}" unfolding range_okD(2) [OF assms(1)] by simp
  then show ?thesis using pageno_range [of va n c] assms(1) by (simp add: range_ok_def aligned_def)
qed

lemma aligned_pages:
  assumes "aligned sz"
  shows "sz = of_nat (unat sz div 4096) * PAGE_SIZE" "unat sz = unat sz div 4096 * 4096"
proof -
  show e: "unat sz = unat sz div 4096 * 4096" using assms by (auto simp: aligned_iff)
  have "unat (of_nat (unat sz div 4096) * PAGE_SIZE :: u32) = unat sz"
    using unat_u32_less [of sz] e by (simp add: unat_word_ariths unat_of_nat)
  then show "sz = of_nat (unat sz div 4096) * PAGE_SIZE" by (simp add: word_unat_eq_iff)
qed

lemma mem_invD:
  assumes "mem_inv h m"
  shows "pt_ok (mmu_of m)" "nodes_ok h m"
    "active m v \<Longrightarrow> \<exists>vm. vms m v = Some vm \<and> vm_ok vm \<and> vm_place m v vm \<and> maps_exactly (mmu_of m) vm"
  using assms by (auto simp: mem_inv_def)

lemma mem_inv_vm:
  assumes "mem_inv h m" "active m v" "vms m v = Some vm"
  shows "vm_ok vm" "vm_place m v vm" "maps_exactly (mmu_of m) vm"
  using mem_invD(3) [OF assms(1,2)] assms(3) by auto

lemma current_vm_env: "same_env (mmu_of m) s \<Longrightarrow> current_vm (m\<lparr>mmu_of := s\<rparr>) = current_vm m"
  by (simp add: current_vm_def same_env_def)

text \<open>Mapping a free range of an address space in use.\<close>

lemma map_free_range:
  assumes inv: "mem_inv h m" and act: "active m v" and vm: "vms m v = Some vm"
    and a: "aligned a" "vstart vm \<le> a" "unat a + unat sz \<le> unat (vend vm)" "aligned sz" "sz \<noteq> 0"
    and free: "free_range (regions vm) a (a + sz)" and fl: "fl < 0x1000"
  shows "\<exists>r s. page_table_map_anon (mmu_of m) a sz fl = Some (r, s) \<and> pt_ok s \<and> same_env (mmu_of m) s
    \<and> (case r of Inr _ \<Rightarrow> (\<forall>x. mapping s x \<noteq> None \<longleftrightarrow> (a \<le> x \<and> x < a + sz) \<or> mapping (mmu_of m) x \<noteq> None)
       | Inl e \<Rightarrow> e = ENOMEM \<and> mapping s = mapping (mmu_of m))"
proof -
  define n where "n = unat sz div 4096"
  have n: "sz = of_nat n * PAGE_SIZE" "unat sz = n * 4096" using aligned_pages [OF a(4)] by (simp_all add: n_def)
  have pl: "vm_place m v vm" and mx: "maps_exactly (mmu_of m) vm" and pt: "pt_ok (mmu_of m)"
    using mem_invD(1) [OF inv] mem_inv_vm [OF inv act vm] by auto
  have top: "unat (vend vm) \<le> 0xffc00000" using pl by (auto simp: vm_place_def word_le_nat_alt KERNEL_VIRT_ADDR_def split: if_splits)
  have rng: "range_ok a n" using a(1,3) top n(2) by (simp add: range_ok_def aligned_def)
  have end_eq: "unat (a + sz) = unat a + unat sz" using a(3) top by (intro word_add_le) simp
  have unmapped: "mapping (mmu_of m) c = None" if "a \<le> c" "c < a + sz" for c
  proof -
    have "in_vm vm c" using that a(2,3) end_eq by (auto simp: in_vm_def word_le_nat_alt word_less_nat_alt)
    moreover have "\<not> (r \<in> set (regions vm) \<and> in_region r c)" for r
      using free that by (auto simp: free_range_def in_region_def)
    ultimately show ?thesis using mx by (fastforce simp: maps_exactly_def)
  qed
  have fr: "\<forall>c\<in>set (page_range a n). mapping (mmu_of m) c = None"
    using unmapped in_page_range [OF rng] n(1) by simp
  have fla: "flushable (mmu_of m) a (of_nat n * PAGE_SIZE)"
  proof (cases "v = kernel_vm m")
    case True
    then have "is_kernel_address a" using pl a(2) by (auto simp: vm_place_def is_kernel_address_def KERNEL_VIRT_ADDR_def)
    then show ?thesis by (simp add: flushable_def)
  next
    case False
    then have "cpu_vms (mmu_of m) ! this_cpu (mmu_of m) = Some v"
      using act pt_ok_cpu [OF pt] by (simp add: active_def current_vm_def)
    moreover have "is_user_range a sz"
      using False pl a(2,3,5) end_eq
      by (auto simp: vm_place_def is_user_range_def is_user_address_def Let_def KERNEL_VIRT_ADDR_def word_le_nat_alt word_less_nat_alt word_unat_eq_iff)
    ultimately show ?thesis using n(1) by (simp add: flushable_def)
  qed
  obtain r s where s: "page_table_map_anon (mmu_of m) a sz fl = Some (r, s)" "pt_ok s" "same_env (mmu_of m) s"
    "\<forall>x. pageno x \<notin> {pageno a..<pageno a + n} \<longrightarrow> mapping s x = mapping (mmu_of m) x"
    "case r of Inr _ \<Rightarrow> \<forall>i<n. \<exists>raw. mapping s (a + of_nat i * PAGE_SIZE) = Some raw
     | Inl e \<Rightarrow> e = ENOMEM \<and> mapping s = mapping (mmu_of m)"
    using map_anon_spec [OF pt rng fla fl fr] unfolding n(1) by (fastforce split: sum.splits)
  have iff: "pageno x \<in> {pageno a..<pageno a + n} \<longleftrightarrow> a \<le> x \<and> x < a + sz" for x
    using pageno_range [of a n x] rng n(1) by (simp add: range_ok_def aligned_def)
  have "mapping s x \<noteq> None \<longleftrightarrow> (a \<le> x \<and> x < a + sz) \<or> mapping (mmu_of m) x \<noteq> None"
    if all: "\<forall>i<n. \<exists>raw. mapping s (a + of_nat i * PAGE_SIZE) = Some raw" for x
  proof (cases "a \<le> x \<and> x < a + sz")
    case True
    then have "pageno x \<in> set (map pageno (page_range a n))" unfolding range_okD(2) [OF rng] using iff [of x] by simp
    then obtain i where i: "i < n" "pageno x = pageno (a + of_nat i * PAGE_SIZE)" by (auto simp: page_range_def)
    then have "mapping s x = mapping s (a + of_nat i * PAGE_SIZE)" using pageno_eq_iff [of x] by (simp add: mapping_def)
    with i all True show ?thesis by auto
  next
    case False
    then have "mapping s x = mapping (mmu_of m) x" using s(4) iff [of x] by blast
    with False show ?thesis by auto
  qed
  then have "case r of Inr _ \<Rightarrow> (\<forall>x. mapping s x \<noteq> None \<longleftrightarrow> (a \<le> x \<and> x < a + sz) \<or> mapping (mmu_of m) x \<noteq> None)
       | Inl e \<Rightarrow> e = ENOMEM \<and> mapping s = mapping (mmu_of m)"
    using s(5) by (simp split: sum.splits)
  with s(1-3) show ?thesis by blast
qed

text \<open>What a new region does to the map of an address space, its own and another one.\<close>

lemma maps_exactly_insert:
  assumes "maps_exactly s vm" "set rs = insert r (set (regions vm))"
    and "\<forall>x. mapping s' x \<noteq> None \<longleftrightarrow> (rw (rflags r) \<and> in_region r x) \<or> mapping s x \<noteq> None"
  shows "maps_exactly s' (vm\<lparr>regions := rs\<rparr>)"
  using assms by (auto simp: maps_exactly_def in_vm_def)

lemma maps_exactly_other:
  assumes "maps_exactly s vm" "\<And>x. in_vm vm x \<Longrightarrow> mapping s' x \<noteq> None \<longleftrightarrow> mapping s x \<noteq> None"
  shows "maps_exactly s' vm"
  using assms by (simp add: maps_exactly_def)

lemma places_disjoint:
  assumes "vm_place m v vm" "vm_place m w wm" "v \<noteq> w" "v = kernel_vm m \<or> w = kernel_vm m" "in_vm vm x"
  shows "\<not> in_vm wm x"
  using assms by (auto simp: vm_place_def in_vm_def)

lemma active_two: "active m v \<Longrightarrow> active m w \<Longrightarrow> v \<noteq> w \<Longrightarrow> v = kernel_vm m \<or> w = kernel_vm m"
  by (auto simp: active_def)

text \<open>Everything but the nodes, when a region is linked and its pages are mapped.\<close>

lemma link_spaces:
  assumes inv: "mem_inv h m" and act: "active m v" and vm: "vms m v = Some vm"
    and i: "region_ok vm i" "node i \<notin> node ` set (regions vm)" "fits_after (regions vm) c (rstart i) (rend i)"
    and s: "pt_ok s" "same_env (mmu_of m) s"
    and mp: "\<forall>x. mapping s x \<noteq> None \<longleftrightarrow> (rw (rflags i) \<and> in_region i x) \<or> mapping (mmu_of m) x \<noteq> None"
  defines "m1 \<equiv> m\<lparr>mmu_of := s\<rparr>"
  shows "\<exists>rs. vm_insert_region_after (regions vm) c i = Some rs \<and> set rs = insert i (set (regions vm)) \<and> vm_ok (vm\<lparr>regions := rs\<rparr>)
    \<and> link_region m1 v c i = Some (m1\<lparr>vms := (vms m)(v \<mapsto> vm\<lparr>regions := rs\<rparr>)\<rparr>)
    \<and> (\<forall>w. active m w \<longrightarrow> (\<exists>wm. ((vms m)(v \<mapsto> vm\<lparr>regions := rs\<rparr>)) w = Some wm \<and> vm_ok wm \<and> vm_place m w wm \<and> maps_exactly s wm))"
proof -
  note d = mem_invD [OF inv]
  have vok: "vm_ok vm" "vm_place m v vm" "maps_exactly (mmu_of m) vm" using mem_inv_vm [OF inv act vm] by auto
  obtain rs where rs: "vm_insert_region_after (regions vm) c i = Some rs" "vm_ok (vm\<lparr>regions := rs\<rparr>)" "set rs = insert i (set (regions vm))"
    using vm_insert_region_after_spec [OF vok(1) i(3,1,2)] by blast
  have "\<exists>wm. ((vms m)(v \<mapsto> vm\<lparr>regions := rs\<rparr>)) w = Some wm \<and> vm_ok wm \<and> vm_place m w wm \<and> maps_exactly s wm" if aw: "active m w" for w
  proof (cases "w = v")
    case True
    have "vm_place m v (vm\<lparr>regions := rs\<rparr>)" using vok(2) by (simp add: vm_place_def)
    with True rs(2) maps_exactly_insert [OF vok(3) rs(3) mp] show ?thesis by simp
  next
    case False
    obtain wm where wm: "vms m w = Some wm" "vm_ok wm" "vm_place m w wm" "maps_exactly (mmu_of m) wm" using d(3) [OF aw] by blast
    have "mapping s x \<noteq> None \<longleftrightarrow> mapping (mmu_of m) x \<noteq> None" if x: "in_vm wm x" for x
    proof -
      have "\<not> in_vm vm x" using places_disjoint [OF wm(3) vok(2) False _ x] active_two [OF act aw] False by auto
      then have "\<not> in_region i x" using i(1) by (auto simp: region_ok_def in_region_def in_vm_def)
      then show ?thesis using mp by blast
    qed
    with maps_exactly_other [OF wm(4)] wm False show ?thesis by auto
  qed
  moreover have "link_region m1 v c i = Some (m1\<lparr>vms := (vms m)(v \<mapsto> vm\<lparr>regions := rs\<rparr>)\<rparr>)"
    using vm rs(1) by (simp add: link_region_def set_regions_def m1_def)
  ultimately show ?thesis using rs by blast
qed

lemma used_nodes_upd:
  "used_nodes (m\<lparr>vms := (vms m)(v \<mapsto> vm), mmu_of := s, region_cache := rc\<rparr>) w = (if w = v then node ` set (regions vm) else used_nodes m w)"
  by (simp add: used_nodes_def)

section \<open>Slab objects\<close>

lemma push_objs_eq:
  "push_objs n obj sz fl = rev (map (\<lambda>i. obj + of_nat (i * sz)) [0..<n]) @ fl"
proof (induction n arbitrary: obj fl)
  case (Suc n)
  have "map (\<lambda>i. obj + of_nat (i * sz)) [0..<Suc n] = obj # map (\<lambda>i. obj + of_nat sz + of_nat (i * sz)) [0..<n]"
    by (simp add: upt_conv_Cons map_Suc_upt [symmetric] algebra_simps del: upt_Suc)
  with Suc.IH show ?case by simp
qed simp

text \<open>
  The objects of a new slab page lie behind the region node and inside the page, and do not overlap, for every
  object at least as large as a region node.
\<close>

lemma slab_objs_inside:
  assumes "sizeof_vm_region \<le> sz" "sz \<le> 4096" "i < 4096 div sz - 1"
  shows "sizeof_vm_region + i * sz + sz \<le> 4096"
proof -
  have "(i + 2) * sz \<le> 4096 div sz * sz" using assms(3) by (intro mult_right_mono) simp_all
  also have "\<dots> \<le> 4096" by simp
  finally have "i * sz + 2 * sz \<le> 4096" by (simp add: distrib_right)
  with assms(1) show ?thesis by linarith
qed

definition slab_page_objs :: "u32 \<Rightarrow> u32 list" where
  "slab_page_objs a = rev (map (\<lambda>i. a + of_nat sizeof_vm_region + of_nat (i * sizeof_vm_region)) [0..<203])"

lemma slab_page_objs:
  assumes "unat a + 4096 < 2 ^ 32"
  shows "x \<in> set (slab_page_objs a) \<Longrightarrow> a < x \<and> x < a + PAGE_SIZE" "distinct (slab_page_objs a)" "slab_page_objs a \<noteq> []"
proof -
  have u: "unat (a + of_nat sizeof_vm_region + of_nat (i * sizeof_vm_region)) = unat a + 20 + i * 20" if "i < 203" for i
    using that assms by (simp add: unat_word_ariths unat_of_nat)
  have e: "unat (a + PAGE_SIZE) = unat a + 4096" using assms by (simp add: unat_word_ariths)
  show "a < x \<and> x < a + PAGE_SIZE" if x: "x \<in> set (slab_page_objs a)" for x
  proof -
    obtain i where "i < 203" "x = a + of_nat sizeof_vm_region + of_nat (i * sizeof_vm_region)" using x by (auto simp: slab_page_objs_def)
    with u [of i] e show ?thesis by (simp only: word_less_nat_alt) simp
  qed
  have "inj_on (\<lambda>i. a + of_nat sizeof_vm_region + of_nat (i * sizeof_vm_region)) {0..<203}"
  proof (rule inj_onI)
    fix i j assume "i \<in> {0..<203}" "j \<in> {0..<203}"
      and "a + of_nat sizeof_vm_region + of_nat (i * sizeof_vm_region) = a + of_nat sizeof_vm_region + of_nat (j * sizeof_vm_region)"
    then have "unat a + 20 + i * 20 = unat a + 20 + j * 20" using u [of i] u [of j] by simp
    then show "i = j" by simp
  qed
  then show "distinct (slab_page_objs a)" by (simp add: slab_page_objs_def distinct_map)
  show "slab_page_objs a \<noteq> []" by (simp add: slab_page_objs_def)
qed

text \<open>What is known after a call on a memory state, whatever it returned.\<close>

definition same_tasks :: "memory \<Rightarrow> memory \<Rightarrow> bool" where
  "same_tasks m m' \<longleftrightarrow> kernel_vm m' = kernel_vm m \<and> same_env (mmu_of m) (mmu_of m')"

lemma same_tasks_refl [simp]: "same_tasks m m"
  by (simp add: same_tasks_def)

lemma same_tasks_trans: "same_tasks m1 m2 \<Longrightarrow> same_tasks m2 m3 \<Longrightarrow> same_tasks m1 m3"
  using same_env_trans by (auto simp: same_tasks_def)

lemma same_tasks_active:
  assumes "same_tasks m m'"
  shows "active m' v = active m v" "vm_place m' v vm = vm_place m v vm" "current_vm m' = current_vm m"
  using assms by (simp_all add: same_tasks_def active_def current_vm_def vm_place_def same_env_def)

lemma mem_inv_only_pages:
  assumes "mem_inv h m" "pt_ok s" "same_env (mmu_of m) s" "mapping s = mapping (mmu_of m)"
  shows "mem_inv h (m\<lparr>mmu_of := s\<rparr>)" "same_tasks m (m\<lparr>mmu_of := s\<rparr>)"
proof -
  show st: "same_tasks m (m\<lparr>mmu_of := s\<rparr>)" using assms(3) by (simp add: same_tasks_def)
  have "nodes_ok h (m\<lparr>mmu_of := s\<rparr>)" using mem_invD(2) [OF assms(1)] by (simp add: nodes_ok_def used_nodes_def)
  moreover have "maps_exactly s vm = maps_exactly (mmu_of m) vm" for vm using assms(4) by (simp add: maps_exactly_def)
  ultimately show "mem_inv h (m\<lparr>mmu_of := s\<rparr>)"
    unfolding mem_inv_def same_tasks_active [OF st] using assms(1,2) by (simp add: mem_inv_def)
qed

lemma kernel_active: "active m (kernel_vm m)"
  by (simp add: active_def)

text \<open>A refill of the cache adds one page of nodes to the kernel and keeps the invariant.\<close>

lemma nodes_ok_refill:
  assumes nodes: "nodes_ok h m" and k: "vms m (kernel_vm m) = Some kvm" and fl: "free_list (region_cache m) = []"
    and free: "free_range (regions kvm) a (a + PAGE_SIZE)" and a: "unat a + 4096 < 2 ^ 32"
    and rs: "set rs = insert \<lparr>node = a, rstart = a, rend = a + PAGE_SIZE, rflags = VM_RW\<rparr> (set (regions kvm))"
  shows "nodes_ok h (m\<lparr>mmu_of := s, vms := (vms m)(kernel_vm m \<mapsto> kvm\<lparr>regions := rs\<rparr>),
    region_cache := (region_cache m)\<lparr>free_list := slab_page_objs a\<rparr>\<rparr>)"
proof -
  let ?m = "m\<lparr>mmu_of := s, vms := (vms m)(kernel_vm m \<mapsto> kvm\<lparr>regions := rs\<rparr>), region_cache := (region_cache m)\<lparr>free_list := slab_page_objs a\<rparr>\<rparr>"
  let ?i = "\<lparr>node = a, rstart = a, rend = a + PAGE_SIZE, rflags = VM_RW\<rparr>"
  note so = slab_page_objs [OF a]
  have lt: "a < a + PAGE_SIZE" using a by (simp add: word_less_nat_alt unat_word_ariths)
  have used: "used_nodes ?m v = (if v = kernel_vm m then insert a (used_nodes m v) else used_nodes m v)" for v
    using k rs by (auto simp: used_nodes_def)
  have old: "\<not> (a \<le> x \<and> x < a + PAGE_SIZE)" if x: "x \<in> set h \<or> (\<exists>v. x \<in> used_nodes m v)" for x
  proof -
    obtain r where "r \<in> set (regions kvm)" "in_region r x" using nodes k fl x by (auto simp: nodes_ok_def)
    with free show ?thesis by (auto simp: free_range_def in_region_def)
  qed
  have "distinct h" "obj_size (region_cache m) = 20" "\<And>v. used_nodes m v \<inter> set h = {}" "\<And>v w. v \<noteq> w \<Longrightarrow> used_nodes m v \<inter> used_nodes m w = {}"
    using nodes fl by (auto simp: nodes_ok_def)
  moreover have "a \<notin> set h" "\<And>v. a \<notin> used_nodes m v" using old lt by auto
  moreover have "x \<notin> set (slab_page_objs a)" if "x \<in> set h \<or> (\<exists>v. x \<in> used_nodes m v)" for x
    using old [OF that] so(1) [of x] by auto
  then have "set (slab_page_objs a) \<inter> set h = {}" "\<And>v. used_nodes m v \<inter> set (slab_page_objs a) = {}" by blast+
  moreover have "a \<notin> set (slab_page_objs a)" using so(1) [of a] by auto
  moreover have "\<exists>r\<in>set rs. in_region r x" if "x \<in> set h \<or> x \<in> set (slab_page_objs a) \<or> (\<exists>v. x \<in> used_nodes ?m v)" for x
  proof (cases "x \<in> set h \<or> (\<exists>v. x \<in> used_nodes m v)")
    case True
    then obtain r where "r \<in> set (regions kvm)" "in_region r x" using nodes k fl by (auto simp: nodes_ok_def)
    with rs show ?thesis by auto
  next
    case False
    then have "x = a \<or> x \<in> set (slab_page_objs a)" using that used by (auto split: if_splits)
    then have "in_region ?i x" using so(1) [of x] lt by (auto simp: in_region_def)
    with rs show ?thesis by auto
  qed
  ultimately show ?thesis
    unfolding nodes_ok_def used using so(2) by (auto simp: disjoint_iff split: if_splits)
qed

lemma mem_inv_kernel:
  assumes "mem_inv h m"
  shows "\<exists>kvm. vms m (kernel_vm m) = Some kvm"
  using mem_invD(3) [OF assms kernel_active] by blast

text \<open>\<open>kept m m' v\<close>: the regions of \<open>v\<close> are as before.\<close>

definition kept :: "memory \<Rightarrow> memory \<Rightarrow> nat \<Rightarrow> bool" where
  "kept m m' v \<longleftrightarrow> vms m' v = vms m v"

lemma refill_link:
  assumes inv: "mem_inv h m" and k: "vms m (kernel_vm m) = Some kvm" and empty: "free_list (region_cache m) = []"
    and a: "aligned a" "vstart kvm \<le> a" "unat a + unat PAGE_SIZE \<le> unat (vend kvm)" "fits_after (regions kvm) c a (a + PAGE_SIZE)"
    and s: "pt_ok s" "same_env (mmu_of m) s"
      "\<forall>x. mapping s x \<noteq> None \<longleftrightarrow> (a \<le> x \<and> x < a + PAGE_SIZE) \<or> mapping (mmu_of m) x \<noteq> None"
  shows "\<exists>rs. vm_insert_region_after (regions kvm) c \<lparr>node = a, rstart = a, rend = a + PAGE_SIZE, rflags = VM_RW\<rparr> = Some rs
    \<and> set (regions kvm) \<subseteq> set rs
    \<and> mem_inv h (m\<lparr>mmu_of := s, vms := (vms m)(kernel_vm m \<mapsto> kvm\<lparr>regions := rs\<rparr>), region_cache := (region_cache m)\<lparr>free_list := slab_page_objs a\<rparr>\<rparr>)"
proof -
  let ?i = "\<lparr>node = a, rstart = a, rend = a + PAGE_SIZE, rflags = VM_RW\<rparr>"
  have al: "aligned PAGE_SIZE" by (simp add: aligned_def)
  have "vend kvm \<le> KERNEL_HEAP_END" using mem_inv_vm(2) [OF inv kernel_active k] by (simp add: vm_place_def)
  then have lt: "unat a + 4096 < 2 ^ 32" "unat (a + PAGE_SIZE) = unat a + 4096"
    using a(3) by (auto simp: unat_word_ariths word_le_nat_alt)
  have nodes: "nodes_ok h m" using mem_invD(2) [OF inv] .
  have inr: "in_region ?i a" using lt by (simp add: in_region_def word_less_nat_alt)
  have new: "node ?i \<notin> node ` set (regions kvm)"
  proof
    assume "node ?i \<in> node ` set (regions kvm)"
    then have "a \<in> used_nodes m (kernel_vm m)" using k by (simp add: used_nodes_def)
    then obtain q where q: "q \<in> set (regions kvm)" "in_region q a" using nodes k by (auto simp: nodes_ok_def)
    with fits_after_free [OF a(4)] inr show False by (auto simp: free_range_def in_region_def)
  qed
  have rok: "region_ok kvm ?i"
    using a lt aligned_add [OF a(1) al] by (auto simp: region_ok_def word_le_nat_alt word_less_nat_alt)
  have fit: "fits_after (regions kvm) c (rstart ?i) (rend ?i)" using a(4) by simp
  have mp: "\<forall>x. mapping s x \<noteq> None \<longleftrightarrow> (rw (rflags ?i) \<and> in_region ?i x) \<or> mapping (mmu_of m) x \<noteq> None"
    using s(3) by (simp add: rw_def in_region_def)
  obtain rs where rs: "vm_insert_region_after (regions kvm) c ?i = Some rs" "set rs = insert ?i (set (regions kvm))"
    "\<forall>w. active m w \<longrightarrow> (\<exists>wm. ((vms m)(kernel_vm m \<mapsto> kvm\<lparr>regions := rs\<rparr>)) w = Some wm \<and> vm_ok wm \<and> vm_place m w wm \<and> maps_exactly s wm)"
    using link_spaces [OF inv kernel_active k rok new fit s(1,2) mp] by blast
  let ?m = "m\<lparr>mmu_of := s, vms := (vms m)(kernel_vm m \<mapsto> kvm\<lparr>regions := rs\<rparr>), region_cache := (region_cache m)\<lparr>free_list := slab_page_objs a\<rparr>\<rparr>"
  have st: "same_tasks m ?m" using s(2) by (simp add: same_tasks_def)
  have "nodes_ok h ?m" by (rule nodes_ok_refill [OF nodes k empty fits_after_free [OF a(4)] lt(1) rs(2)])
  then have "mem_inv h ?m" unfolding mem_inv_def same_tasks_active [OF st] using s(1) rs(3) by simp
  with rs(1,2) show ?thesis by auto
qed

lemma ensure_cache_spec:
  assumes inv: "mem_inv h m"
  shows "\<exists>r m'. ensure_cache m = Some (r, m') \<and> mem_inv h m' \<and> same_tasks m m' \<and> (\<forall>v. v \<noteq> kernel_vm m \<longrightarrow> kept m m' v)
    \<and> (\<forall>kvm. vms m (kernel_vm m) = Some kvm \<longrightarrow> (\<exists>kvm'. vms m' (kernel_vm m) = Some kvm' \<and> vstart kvm' = vstart kvm
         \<and> vend kvm' = vend kvm \<and> set (regions kvm) \<subseteq> set (regions kvm')))
    \<and> (case r of Inr _ \<Rightarrow> free_list (region_cache m') \<noteq> [] | Inl e \<Rightarrow> e = ENOMEM)"
proof (cases "free_list (region_cache m) = []")
  case False
  then show ?thesis using inv by (auto simp: ensure_cache_def kept_def)
next
  case True
  obtain kvm where k: "vms m (kernel_vm m) = Some kvm" using mem_inv_kernel [OF inv] by blast
  note v = mem_inv_vm [OF inv kernel_active k]
  have al: "aligned PAGE_SIZE" "vstart kvm \<le> vend kvm" "unat (vend kvm) + unat PAGE_SIZE < 2 ^ 32"
    using v(2) by (auto simp: aligned_def vm_place_def word_le_nat_alt)
  obtain g where g: "vm_find_gap kvm PAGE_SIZE = Some g"
    "case g of Inl e \<Rightarrow> e = ENOMEM
     | Inr (a, c) \<Rightarrow> aligned a \<and> vstart kvm \<le> a \<and> unat a + unat PAGE_SIZE \<le> unat (vend kvm) \<and> fits_after (regions kvm) c a (a + PAGE_SIZE)"
    using vm_find_gap_spec [OF v(1) al(1) _ al(3,2)] by auto
  show ?thesis
  proof (cases g)
    case (Inl e)
    then show ?thesis using g True inv k by (simp add: ensure_cache_def kept_def)
  next
    case (Inr ac)
    obtain a c where ac: "ac = (a, c)" by (cases ac)
    then have a: "aligned a" "vstart kvm \<le> a" "unat a + unat PAGE_SIZE \<le> unat (vend kvm)" "fits_after (regions kvm) c a (a + PAGE_SIZE)"
      using g(2) Inr by auto
    have pfl: "(2 OR PTE_GLOBAL) < 0x1000" by simp
    obtain r s where s: "page_table_map_anon (mmu_of m) a PAGE_SIZE (2 OR PTE_GLOBAL) = Some (r, s)" "pt_ok s" "same_env (mmu_of m) s"
      "case r of Inr _ \<Rightarrow> (\<forall>x. mapping s x \<noteq> None \<longleftrightarrow> (a \<le> x \<and> x < a + PAGE_SIZE) \<or> mapping (mmu_of m) x \<noteq> None)
         | Inl e \<Rightarrow> e = ENOMEM \<and> mapping s = mapping (mmu_of m)"
      using map_free_range [OF inv kernel_active k a(1-3) al(1) _ fits_after_free [OF a(4)] pfl] by auto
    show ?thesis
    proof (cases r)
      case (Inl e)
      have "mapping s = mapping (mmu_of m)" "e = ENOMEM" using s(4) Inl by auto
      with mem_inv_only_pages [OF inv s(2,3)] g(1) Inr ac s(1) Inl True k show ?thesis
        by (simp add: ensure_cache_def kept_def Let_def)
    next
      case (Inr u)
      obtain rs where rs: "vm_insert_region_after (regions kvm) c \<lparr>node = a, rstart = a, rend = a + PAGE_SIZE, rflags = VM_RW\<rparr> = Some rs"
        "set (regions kvm) \<subseteq> set rs"
        "mem_inv h (m\<lparr>mmu_of := s, vms := (vms m)(kernel_vm m \<mapsto> kvm\<lparr>regions := rs\<rparr>), region_cache := (region_cache m)\<lparr>free_list := slab_page_objs a\<rparr>\<rparr>)"
        using refill_link [OF inv k True a s(2,3)] s(4) Inr by auto
      let ?m = "m\<lparr>mmu_of := s, vms := (vms m)(kernel_vm m \<mapsto> kvm\<lparr>regions := rs\<rparr>), region_cache := (region_cache m)\<lparr>free_list := slab_page_objs a\<rparr>\<rparr>"
      have st: "same_tasks m ?m" using s(3) by (simp add: same_tasks_def)
      have lt: "unat a + 4096 < 2 ^ 32" using a(3) al(3) by simp
      have "obj_size (region_cache m) = 20" using mem_invD(2) [OF inv] by (simp add: nodes_ok_def)
      then have "ensure_cache m = Some (Inr (), ?m)"
        using True k g(1) \<open>g = Inr ac\<close> ac s(1) Inr rs(1)
        by (simp add: ensure_cache_def Let_def set_regions_def push_objs_eq slab_page_objs_def)
      with rs(2,3) st slab_page_objs(3) [OF lt] k show ?thesis
        by (intro exI [of _ "Inr ()"] exI [of _ ?m]) (auto simp: kept_def)
    qed
  qed
qed

text \<open>A step that only adds nodes to the kernel.\<close>

definition slab_step :: "memory \<Rightarrow> memory \<Rightarrow> bool" where
  "slab_step m m' \<longleftrightarrow> same_tasks m m' \<and> (\<forall>v. v \<noteq> kernel_vm m \<longrightarrow> kept m m' v)
     \<and> (\<forall>kvm. vms m (kernel_vm m) = Some kvm \<longrightarrow> (\<exists>kvm'. vms m' (kernel_vm m) = Some kvm' \<and> vstart kvm' = vstart kvm
          \<and> vend kvm' = vend kvm \<and> set (regions kvm) \<subseteq> set (regions kvm')))"

lemma slab_stepD:
  assumes "slab_step m m'" "vms m v = Some vm"
  shows "\<exists>vm'. vms m' v = Some vm' \<and> vstart vm' = vstart vm \<and> vend vm' = vend vm \<and> set (regions vm) \<subseteq> set (regions vm')
    \<and> (v \<noteq> kernel_vm m \<longrightarrow> vm' = vm)"
  using assms by (cases "v = kernel_vm m") (auto simp: slab_step_def kept_def)

lemma mem_inv_take:
  assumes inv: "mem_inv h m" and fl: "free_list (region_cache m) = x # xs"
  shows "mem_inv (x # h) (m\<lparr>region_cache := (region_cache m)\<lparr>free_list := xs\<rparr>\<rparr>)"
proof -
  let ?m = "m\<lparr>region_cache := (region_cache m)\<lparr>free_list := xs\<rparr>\<rparr>"
  have st: "same_tasks m ?m" by (simp add: same_tasks_def)
  have u: "used_nodes ?m v = used_nodes m v" for v by (simp add: used_nodes_def)
  have "nodes_ok (x # h) ?m" using mem_invD(2) [OF inv] fl unfolding nodes_ok_def u by (auto simp: disjoint_iff)
  with inv show ?thesis unfolding mem_inv_def same_tasks_active [OF st] by simp
qed

lemma mem_inv_give:
  assumes inv: "mem_inv (x # h) m"
  shows "mem_inv h (slab_cache_free m x)"
proof -
  have st: "same_tasks m (slab_cache_free m x)" by (simp add: same_tasks_def slab_cache_free_def)
  have u: "used_nodes (slab_cache_free m x) v = used_nodes m v" for v by (simp add: used_nodes_def slab_cache_free_def)
  have "nodes_ok h (slab_cache_free m x)"
    using mem_invD(2) [OF inv] unfolding nodes_ok_def u by (auto simp: disjoint_iff slab_cache_free_def)
  with inv show ?thesis unfolding mem_inv_def same_tasks_active [OF st] by (simp add: slab_cache_free_def)
qed

lemma slab_step_free: "slab_step m m' \<Longrightarrow> slab_step m (slab_cache_free m' x)"
  by (simp add: slab_step_def slab_cache_free_def same_tasks_def kept_def)

lemma slab_cache_alloc_spec:
  assumes inv: "mem_inv h m"
  shows "\<exists>r m'. slab_cache_alloc m = Some (r, m') \<and> slab_step m m'
    \<and> (case r of Inr x \<Rightarrow> mem_inv (x # h) m' | Inl e \<Rightarrow> e = ENOMEM \<and> mem_inv h m')"
proof -
  obtain r m1 where e: "ensure_cache m = Some (r, m1)" "mem_inv h m1" "slab_step m m1"
    "case r of Inr _ \<Rightarrow> free_list (region_cache m1) \<noteq> [] | Inl e \<Rightarrow> e = ENOMEM"
    using ensure_cache_spec [OF inv] unfolding slab_step_def by blast
  show ?thesis
  proof (cases r)
    case (Inl e)
    with e(4) have "e = ENOMEM" by simp
    with e Inl show ?thesis by (simp add: slab_cache_alloc_def)
  next
    case (Inr u)
    then obtain x xs where x: "free_list (region_cache m1) = x # xs" using e(4) by (cases "free_list (region_cache m1)") auto
    let ?m = "m1\<lparr>region_cache := (region_cache m1)\<lparr>free_list := xs\<rparr>\<rparr>"
    have "slab_step m ?m" using e(3) by (simp add: slab_step_def same_tasks_def kept_def)
    with mem_inv_take [OF e(2) x] e(1) Inr x show ?thesis by (simp add: slab_cache_alloc_def)
  qed
qed

text \<open>Linking a node in hand.\<close>

lemma mem_inv_link:
  assumes inv: "mem_inv (x # h) m" and act: "active m v" and vm: "vms m v = Some vm"
    and i: "region_ok vm i" "node i = x" "fits_after (regions vm) c (rstart i) (rend i)"
    and s: "pt_ok s" "same_env (mmu_of m) s"
      "\<forall>y. mapping s y \<noteq> None \<longleftrightarrow> (rw (rflags i) \<and> in_region i y) \<or> mapping (mmu_of m) y \<noteq> None"
  shows "\<exists>rs m'. link_region (m\<lparr>mmu_of := s\<rparr>) v c i = Some m' \<and> mem_inv h m' \<and> same_tasks m m'
    \<and> vms m' = (vms m)(v \<mapsto> vm\<lparr>regions := rs\<rparr>) \<and> set rs = insert i (set (regions vm))"
proof -
  have nodes: "nodes_ok (x # h) m" using mem_invD(2) [OF inv] .
  have "used_nodes m v \<inter> set ((x # h) @ free_list (region_cache m)) = {}" using nodes unfolding nodes_ok_def by blast
  then have new: "node i \<notin> node ` set (regions vm)" using vm i(2) by (auto simp: used_nodes_def)
  obtain rs where rs: "vm_insert_region_after (regions vm) c i = Some rs" "set rs = insert i (set (regions vm))"
    "link_region (m\<lparr>mmu_of := s\<rparr>) v c i = Some (m\<lparr>mmu_of := s, vms := (vms m)(v \<mapsto> vm\<lparr>regions := rs\<rparr>)\<rparr>)"
    "\<forall>w. active m w \<longrightarrow> (\<exists>wm. ((vms m)(v \<mapsto> vm\<lparr>regions := rs\<rparr>)) w = Some wm \<and> vm_ok wm \<and> vm_place m w wm \<and> maps_exactly s wm)"
    using link_spaces [OF inv act vm i(1) new i(3) s] by blast
  let ?m = "m\<lparr>mmu_of := s, vms := (vms m)(v \<mapsto> vm\<lparr>regions := rs\<rparr>)\<rparr>"
  have st: "same_tasks m ?m" using s(2) by (simp add: same_tasks_def)
  have u: "used_nodes ?m w = (if w = v then insert x (used_nodes m w) else used_nodes m w)" for w
    using vm rs(2) i(2) by (auto simp: used_nodes_def)
  have k: "set (regions kvm) \<subseteq> set (regions kvm')" if "vms m (kernel_vm m) = Some kvm" "vms ?m (kernel_vm ?m) = Some kvm'" for kvm kvm'
    using that vm rs(2) by (auto split: if_splits)
  obtain kvm where kvm: "vms m (kernel_vm m) = Some kvm" using mem_inv_kernel [OF inv] by blast
  have inside: "\<exists>r\<in>set (regions kvm'). in_region r y"
    if "vms ?m (kernel_vm ?m) = Some kvm'" "y \<in> set (h @ free_list (region_cache m)) \<or> (\<exists>w. y \<in> used_nodes ?m w)" for kvm' y
  proof -
    have "y \<in> set ((x # h) @ free_list (region_cache m)) \<or> (\<exists>w. y \<in> used_nodes m w)" using that(2) unfolding u by (auto split: if_splits)
    then have "\<exists>r\<in>set (regions kvm). in_region r y" using nodes kvm unfolding nodes_ok_def by blast
    with k [OF kvm that(1)] show ?thesis by blast
  qed
  have "nodes_ok h ?m"
    using nodes inside unfolding nodes_ok_def u by (auto simp: disjoint_iff split: if_splits)
  then have "mem_inv h ?m" unfolding mem_inv_def same_tasks_active [OF st] using s(1) rs(4) by simp
  with rs st show ?thesis by (intro exI [of _ rs] exI [of _ ?m]) simp
qed

section \<open>Allocation\<close>

lemma to_pte_flags_ok:
  assumes "validate_vm_flags m fl = Some True"
  shows "\<exists>f. to_pte_flags m fl = Some f \<and> f < 0x1000"
  using assms by (auto simp: to_pte_flags_def)

lemma validate_same: "same_tasks m m' \<Longrightarrow> validate_vm_flags m' fl = validate_vm_flags m fl"
  using same_tasks_active(3) [of m m'] by (simp add: validate_vm_flags_def same_tasks_def)

text \<open>\<open>map_anon_if\<close>: the mapping step of \<^verbatim>\<open>alloc\<close>, for regions with and without memory.\<close>

lemma map_anon_if_spec:
  assumes inv: "mem_inv h m" and act: "active m v" and vm: "vms m v = Some vm" and fl: "validate_vm_flags m fl = Some True"
    and a: "aligned a" "vstart vm \<le> a" "unat a + unat sz \<le> unat (vend vm)" "aligned sz" "sz \<noteq> 0"
    and free: "free_range (regions vm) a (a + sz)"
  shows "\<exists>r s. if_rw fl (\<lambda>m f. pt_try m (\<lambda>s. page_table_map_anon s a sz f)) m = Some (r, m\<lparr>mmu_of := s\<rparr>)
    \<and> pt_ok s \<and> same_env (mmu_of m) s
    \<and> (case r of
         Inr _ \<Rightarrow> (\<forall>x. mapping s x \<noteq> None \<longleftrightarrow> (rw fl \<and> a \<le> x \<and> x < a + sz) \<or> mapping (mmu_of m) x \<noteq> None)
       | Inl e \<Rightarrow> e = ENOMEM \<and> mapping s = mapping (mmu_of m))"
proof (cases "rw fl")
  case False
  then show ?thesis using mem_invD(1) [OF inv] by (intro exI [of _ "Inr ()"] exI [of _ "mmu_of m"]) (simp add: if_rw_def rw_def)
next
  case True
  obtain f where f: "to_pte_flags m fl = Some f" "f < 0x1000" using to_pte_flags_ok [OF fl] by blast
  from map_free_range [OF inv act vm a free f(2)] obtain r s where
    s: "page_table_map_anon (mmu_of m) a sz f = Some (r, s)" "pt_ok s" "same_env (mmu_of m) s"
      "case r of Inr _ \<Rightarrow> (\<forall>x. mapping s x \<noteq> None \<longleftrightarrow> (a \<le> x \<and> x < a + sz) \<or> mapping (mmu_of m) x \<noteq> None)
       | Inl e \<Rightarrow> e = ENOMEM \<and> mapping s = mapping (mmu_of m)" by blast
  show ?thesis
    using s f(1) True by (intro exI [of _ r] exI [of _ s]) (simp add: if_rw_def rw_def pt_try_def split: sum.splits)
qed

text \<open>What an allocation of \<open>sz\<close> bytes in \<open>v\<close> promises, for the state before and after.\<close>

definition alloc_post :: "memory \<Rightarrow> nat \<Rightarrow> vm \<Rightarrow> u32 \<Rightarrow> u32 \<Rightarrow> u32 result \<Rightarrow> memory \<Rightarrow> bool" where
  "alloc_post m v vm sz fl r m' \<longleftrightarrow> same_tasks m m' \<and> (\<forall>w. w \<noteq> kernel_vm m \<longrightarrow> w \<noteq> v \<longrightarrow> kept m m' w) \<and>
     (case r of
        Inl e \<Rightarrow> e = ENOMEM \<and> (v \<noteq> kernel_vm m \<longrightarrow> kept m m' v)
      | Inr a \<Rightarrow> aligned a \<and> vstart vm \<le> a \<and> unat a + unat sz \<le> unat (vend vm) \<and> free_range (regions vm) a (a + sz)
          \<and> (\<exists>vm' i. vms m' v = Some vm' \<and> i \<in> set (regions vm') \<and> rstart i = a \<and> rend i = a + sz \<and> rflags i = fl
               \<and> (v \<noteq> kernel_vm m \<longrightarrow> set (regions vm') = insert i (set (regions vm)))))"

lemma free_range_subset: "free_range rs a e \<Longrightarrow> set qs \<subseteq> set rs \<Longrightarrow> free_range qs a e"
  by (auto simp: free_range_def)

text \<open>The end of an allocation: map the pages at \<open>a\<close> and link the node \<open>x\<close>, or give it back.\<close>

lemma map_and_link_spec:
  assumes inv: "mem_inv (x # h) m" and act: "active m v" and vm: "vms m v = Some vm" and fl: "validate_vm_flags m fl = Some True"
    and sz: "aligned sz" "sz \<noteq> 0" "unat (vend vm) + unat sz < 2 ^ 32"
    and a: "aligned a" "vstart vm \<le> a" "unat a + unat sz \<le> unat (vend vm)" "fits_after (regions vm) c a (a + sz)"
  defines "i \<equiv> \<lparr>node = x, rstart = a, rend = a + sz, rflags = fl\<rparr>"
  shows "\<exists>r m'. do { (r, m) \<leftarrow> if_rw fl (\<lambda>m f. pt_try m (\<lambda>s. page_table_map_anon s a sz f)) m;
        case r of Inl e \<Rightarrow> Some (Inl e, slab_cache_free m x) | Inr _ \<Rightarrow> do { m \<leftarrow> link_region m v c i; Some (Inr a, m) } } = Some (r, m')
    \<and> mem_inv h m' \<and> same_tasks m m'
    \<and> (case r of Inl e \<Rightarrow> e = ENOMEM \<and> vms m' = vms m
       | Inr b \<Rightarrow> b = a \<and> (\<exists>rs. vms m' = (vms m)(v \<mapsto> vm\<lparr>regions := rs\<rparr>) \<and> set rs = insert i (set (regions vm))))"
proof -
  obtain r s where s: "if_rw fl (\<lambda>m f. pt_try m (\<lambda>s. page_table_map_anon s a sz f)) m = Some (r, m\<lparr>mmu_of := s\<rparr>)"
    "pt_ok s" "same_env (mmu_of m) s"
    "case r of Inr _ \<Rightarrow> (\<forall>x. mapping s x \<noteq> None \<longleftrightarrow> (rw fl \<and> a \<le> x \<and> x < a + sz) \<or> mapping (mmu_of m) x \<noteq> None)
     | Inl e \<Rightarrow> e = ENOMEM \<and> mapping s = mapping (mmu_of m)"
    using map_anon_if_spec [OF inv act vm fl a(1-3) sz(1,2) fits_after_free [OF a(4)]] by blast
  show ?thesis
  proof (cases r)
    case (Inl e)
    then have e: "e = ENOMEM" "mapping s = mapping (mmu_of m)" using s(4) by auto
    note o = mem_inv_only_pages [OF inv s(2,3) e(2)]
    have "same_tasks m (slab_cache_free (m\<lparr>mmu_of := s\<rparr>) x)" using o(2) by (simp add: same_tasks_def slab_cache_free_def)
    with mem_inv_give [OF o(1)] s(1) Inl e(1) show ?thesis
      by (intro exI [of _ "Inl e"] exI [of _ "slab_cache_free (m\<lparr>mmu_of := s\<rparr>) x"]) (simp add: slab_cache_free_def)
  next
    case (Inr u)
    have le: "unat (a + sz) = unat a + unat sz" using a(3) sz(3) by (intro word_add_le) simp
    have al: "aligned (a + sz)" using a(1,3) sz(1,3) by (intro aligned_add) auto
    have "0 < unat sz" using sz(2) by (simp add: unat_gt_0)
    then have rok: "region_ok vm i" using a le al by (simp add: region_ok_def word_le_nat_alt word_less_nat_alt i_def)
    have fit: "fits_after (regions vm) c (rstart i) (rend i)" "node i = x" using a(4) by (simp_all add: i_def)
    have mp: "\<forall>y. mapping s y \<noteq> None \<longleftrightarrow> (rw (rflags i) \<and> in_region i y) \<or> mapping (mmu_of m) y \<noteq> None"
      using s(4) Inr by (simp add: in_region_def i_def)
    obtain rs m' where l: "link_region (m\<lparr>mmu_of := s\<rparr>) v c i = Some m'" "mem_inv h m'" "same_tasks m m'"
      "vms m' = (vms m)(v \<mapsto> vm\<lparr>regions := rs\<rparr>)" "set rs = insert i (set (regions vm))"
      using mem_inv_link [OF inv act vm rok fit(2,1) s(2,3) mp] by blast
    with s(1) Inr show ?thesis by (intro exI [of _ "Inr a"] exI [of _ m']) auto
  qed
qed

lemma vm_alloc_in_spec:
  assumes inv: "mem_inv h m" and act: "active m v" and vm: "vms m v = Some vm" and fl: "validate_vm_flags m fl = Some True"
    and sz: "aligned sz" "sz \<noteq> 0" "unat (vend vm) + unat sz < 2 ^ 32"
  shows "\<exists>r m'. vm_alloc_in m v sz fl = Some (r, m') \<and> mem_inv h m' \<and> alloc_post m v vm sz fl r m'"
proof -
  obtain r1 m1 where s1: "slab_cache_alloc m = Some (r1, m1)" "slab_step m m1"
    "case r1 of Inr x \<Rightarrow> mem_inv (x # h) m1 | Inl e \<Rightarrow> e = ENOMEM \<and> mem_inv h m1"
    using slab_cache_alloc_spec [OF inv] by blast
  have st: "same_tasks m m1" and kp: "\<And>w. w \<noteq> kernel_vm m \<Longrightarrow> kept m m1 w" using s1(2) by (simp_all add: slab_step_def)
  obtain vm1 where vm1: "vms m1 v = Some vm1" "vstart vm1 = vstart vm" "vend vm1 = vend vm" "set (regions vm) \<subseteq> set (regions vm1)"
    "v \<noteq> kernel_vm m \<Longrightarrow> vm1 = vm" using slab_stepD [OF s1(2) vm] by blast
  show ?thesis
  proof (cases r1)
    case (Inl e)
    with s1 st kp show ?thesis by (simp add: vm_alloc_in_def alloc_with_def alloc_post_def)
  next
    case r1: (Inr x)
    then have inv1: "mem_inv (x # h) m1" using s1(3) by simp
    have act1: "active m1 v" and fl1: "validate_vm_flags m1 fl = Some True"
      using act same_tasks_active(1) [OF st] fl validate_same [OF st] by simp_all
    note v1 = mem_inv_vm [OF inv1 act1 vm1(1)]
    have ne: "vstart vm1 \<le> vend vm1" "unat (vend vm1) + unat sz < 2 ^ 32" using v1(2) sz(3) vm1(3) by (simp_all add: vm_place_def)
    obtain g where g: "vm_find_gap vm1 sz = Some g"
      "case g of Inl e \<Rightarrow> e = ENOMEM
       | Inr (a, c) \<Rightarrow> aligned a \<and> vstart vm1 \<le> a \<and> unat a + unat sz \<le> unat (vend vm1) \<and> fits_after (regions vm1) c a (a + sz)"
      using vm_find_gap_spec [OF v1(1) sz(1,2) ne(2,1)] by auto
    show ?thesis
    proof (cases g)
      case (Inl e)
      have "same_tasks m (slab_cache_free m1 x)" using st by (simp add: same_tasks_def slab_cache_free_def)
      with Inl g r1 s1(1) vm vm1(1,5) mem_inv_give [OF inv1] kp show ?thesis
        by (simp add: vm_alloc_in_def alloc_with_def alloc_post_def kept_def slab_cache_free_def)
    next
      case (Inr ac)
      obtain a c where ac: "ac = (a, c)" by (cases ac)
      then have a: "aligned a" "vstart vm1 \<le> a" "unat a + unat sz \<le> unat (vend vm1)" "fits_after (regions vm1) c a (a + sz)"
        using g(2) Inr by auto
      obtain r m' where l: "do { (r, m) \<leftarrow> if_rw fl (\<lambda>m f. pt_try m (\<lambda>s. page_table_map_anon s a sz f)) m1;
          case r of Inl e \<Rightarrow> Some (Inl e, slab_cache_free m x)
          | Inr _ \<Rightarrow> do { m \<leftarrow> link_region m v c \<lparr>node = x, rstart = a, rend = a + sz, rflags = fl\<rparr>; Some (Inr a, m) } } = Some (r, m')"
        "mem_inv h m'" "same_tasks m1 m'"
        "case r of Inl e \<Rightarrow> e = ENOMEM \<and> vms m' = vms m1
         | Inr b \<Rightarrow> b = a \<and> (\<exists>rs. vms m' = (vms m1)(v \<mapsto> vm1\<lparr>regions := rs\<rparr>)
             \<and> set rs = insert \<lparr>node = x, rstart = a, rend = a + sz, rflags = fl\<rparr> (set (regions vm1)))"
        using map_and_link_spec [OF inv1 act1 vm1(1) fl1 sz(1,2) ne(2) a] by blast
      have run: "vm_alloc_in m v sz fl = Some (r, m')"
        using s1(1) r1 vm1(1) g(1) Inr ac l(1) by (simp add: vm_alloc_in_def alloc_with_def)
      have "alloc_post m v vm sz fl r m'"
        unfolding alloc_post_def
        using same_tasks_trans [OF st l(3)] l(4) kp a(1-3) vm vm1 free_range_subset [OF fits_after_free [OF a(4)] vm1(4)]
        by (auto simp: kept_def split: sum.splits intro!: exI [of _ "\<lparr>node = x, rstart = a, rend = a + sz, rflags = fl\<rparr>"])
      with run l(2) show ?thesis by blast
    qed
  qed
qed

section \<open>Unmapping a part of an address space\<close>

text \<open>The view of an address space that its users have: which addresses belong to it, with which flags.\<close>

definition flags_at :: "vm \<Rightarrow> u32 \<Rightarrow> u32 option" where
  "flags_at vm a = map_option rflags (find (\<lambda>r. in_region r a) (regions vm))"

lemma flags_at_iff: "vm_ok vm \<Longrightarrow> flags_at vm a = Some f \<longleftrightarrow> (\<exists>r\<in>set (regions vm). in_region r a \<and> rflags r = f)"
  using find_region_iff [of "regions vm" a] by (auto simp: flags_at_def vm_ok_def)

lemma maps_exactly_flags:
  "vm_ok vm \<Longrightarrow> maps_exactly s vm \<longleftrightarrow> (\<forall>a. in_vm vm a \<longrightarrow> (mapping s a \<noteq> None \<longleftrightarrow> (\<exists>f. flags_at vm a = Some f \<and> rw f)))"
  unfolding maps_exactly_def by (simp add: flags_at_iff) blast

definition within :: "u32 \<Rightarrow> u32 \<Rightarrow> u32 \<Rightarrow> bool" where
  "within lo sz a \<longleftrightarrow> lo \<le> a \<and> a < lo + sz"

definition cut_out :: "u32 \<Rightarrow> u32 \<Rightarrow> (u32 \<Rightarrow> 'a option) \<Rightarrow> u32 \<Rightarrow> 'a option" where
  "cut_out lo sz m a = (if within lo sz a then None else m a)"

text \<open>A non-empty aligned part of a region.\<close>

definition part_of :: "vm_region \<Rightarrow> u32 \<Rightarrow> u32 \<Rightarrow> bool" where
  "part_of r lo sz \<longleftrightarrow> aligned lo \<and> aligned sz \<and> sz \<noteq> 0 \<and> rstart r \<le> lo \<and> unat lo + unat sz \<le> unat (rend r)"

lemma part_of_end: "part_of r lo sz \<Longrightarrow> unat (lo + sz) = unat lo + unat sz"
  using unat_u32_less [of "rend r"] by (auto simp: part_of_def intro!: word_add_le)

lemma pt_unmap_part:
  assumes inv: "mem_inv h m" and act: "active m v" and vm: "vms m v = Some vm" and r: "r \<in> set (regions vm)" "rw (rflags r)"
    and p: "part_of r lo sz" and held: "refs_held (mmu_of m) (page_range lo (unat sz div 4096))"
  shows "\<exists>s. page_table_unmap (mmu_of m) lo sz = Some s \<and> pt_ok s \<and> same_env (mmu_of m) s
    \<and> mapping s = cut_out lo sz (mapping (mmu_of m))"
proof -
  define n where "n = unat sz div 4096"
  have n: "sz = of_nat n * PAGE_SIZE" "unat sz = n * 4096" using aligned_pages p by (auto simp: n_def part_of_def)
  note v = mem_inv_vm [OF inv act vm] and e = part_of_end [OF p]
  have rok: "region_ok vm r" using v(1) r(1) by (simp add: vm_ok_def)
  have top: "unat (vend vm) \<le> 0xffc00000" using v(2) by (auto simp: vm_place_def word_le_nat_alt KERNEL_VIRT_ADDR_def split: if_splits)
  have rng: "range_ok lo n" using p top rok n(2) by (auto simp: range_ok_def part_of_def aligned_def region_ok_def word_le_nat_alt)
  have pt: "pt_ok (mmu_of m)" using mem_invD(1) [OF inv] .
  have fla: "flushable (mmu_of m) lo (of_nat n * PAGE_SIZE)"
  proof (cases "v = kernel_vm m")
    case True
    then have "is_kernel_address lo" using v(2) rok p by (auto simp: vm_place_def region_ok_def part_of_def is_kernel_address_def KERNEL_VIRT_ADDR_def)
    then show ?thesis by (simp add: flushable_def)
  next
    case False
    then have c: "cpu_vms (mmu_of m) ! this_cpu (mmu_of m) = Some v"
      using act pt_ok_cpu [OF pt] by (simp add: active_def current_vm_def)
    have "0 < unat sz" using p by (auto simp: part_of_def unat_gt_0)
    moreover have "0 < unat (vstart vm)" "unat (vstart vm) \<le> unat lo" "unat (vend vm) \<le> unat (KERNEL_VIRT_ADDR)" "unat lo + unat sz \<le> unat (vend vm)"
      using False v(2) rok p by (auto simp: vm_place_def region_ok_def part_of_def word_le_nat_alt word_less_nat_alt)
    ultimately have "is_user_range lo sz"
      unfolding is_user_range_def is_user_address_def Let_def
      using e by (auto simp: word_le_nat_alt word_less_nat_alt)
    with c show ?thesis using n(1) by (simp add: flushable_def)
  qed
  have "mapping (mmu_of m) c \<noteq> None" if "c \<in> set (page_range lo n)" for c
  proof -
    have "lo \<le> c" "c < lo + sz" using in_page_range [OF rng that] n(1) by simp_all
    then have ir: "in_region r c" using p e by (auto simp: in_region_def part_of_def word_le_nat_alt word_less_nat_alt)
    moreover have "in_vm vm c" using ir rok by (auto simp: in_vm_def in_region_def region_ok_def)
    ultimately show ?thesis using v(3) r by (auto simp: maps_exactly_def)
  qed
  then obtain t where t: "page_table_unmap (mmu_of m) lo (of_nat n * PAGE_SIZE)
      = Some (t\<lparr>tlb := tlb (mmu_of m) - {i. concerned (mmu_of m) lo i} \<times> set (page_range lo n)\<rparr>)" "unmapped (mmu_of m) t (page_range lo n)"
    using page_table_unmap_run [OF pt rng fla] held by (auto simp: n_def)
  have pn: "set (map pageno (page_range lo n)) = {pageno lo..<pageno lo + n}" unfolding range_okD(2) [OF rng] by simp
  have "pageno x \<in> {pageno lo..<pageno lo + n} \<longleftrightarrow> within lo sz x" for x
    using pageno_range [of lo n x] rng n(1) by (simp add: range_ok_def aligned_def within_def)
  with t(2) have "mapping t = cut_out lo sz (mapping (mmu_of m))" unfolding unmapped_def pn by (simp add: cut_out_def fun_eq_iff)
  with t n(1) show ?thesis by (simp add: unmapped_def)
qed

text \<open>Replacing the regions of a user address space, with the nodes that come and go.\<close>

lemma nodes_ok_change:
  assumes nodes: "nodes_ok h m" and nk: "v \<noteq> kernel_vm m" and vm: "vms m v = Some vm"
    and nd: "distinct (h' @ free)" "node ` set rs \<inter> set (h' @ free) = {}"
      "node ` set rs \<union> set (h' @ free) \<subseteq> node ` set (regions vm) \<union> set (h @ free_list (region_cache m))"
  shows "nodes_ok h' (m\<lparr>mmu_of := s, vms := (vms m)(v \<mapsto> vm\<lparr>regions := rs\<rparr>), region_cache := (region_cache m)\<lparr>free_list := free\<rparr>\<rparr>)"
    (is "nodes_ok h' ?m")
proof -
  have u: "used_nodes ?m w = (if w = v then node ` set rs else used_nodes m w)" "used_nodes m v = node ` set (regions vm)" for w
    using vm by (simp_all add: used_nodes_def)
  have other: "used_nodes m w \<inter> (node ` set (regions vm) \<union> set (h @ free_list (region_cache m))) = {}" if "w \<noteq> v" for w
    using nodes that u(2) unfolding nodes_ok_def by (metis Int_Un_distrib Un_empty)
  have fr: "free_list (region_cache ?m) = free" "obj_size (region_cache ?m) = obj_size (region_cache m)"
    "vms ?m (kernel_vm ?m) = vms m (kernel_vm m)" using nk by simp_all
  show ?thesis
    unfolding nodes_ok_def fr u(1)
  proof (intro conjI allI impI)
    show "obj_size (region_cache m) = sizeof_vm_region" using nodes by (simp add: nodes_ok_def)
    show "distinct (h' @ free)" by (rule nd(1))
    show "(if w = v then node ` set rs else used_nodes m w) \<inter> set (h' @ free) = {}" for w
    proof (cases "w = v")
      case False
      have "set (h' @ free) \<subseteq> node ` set (regions vm) \<union> set (h @ free_list (region_cache m))" using nd(3) by blast
      with other [OF False] have "used_nodes m w \<inter> set (h' @ free) = {}" by blast
      with False show ?thesis by simp
    qed (use nd(2) in simp)
    show "(if w = v then node ` set rs else used_nodes m w) \<inter> (if w' = v then node ` set rs else used_nodes m w') = {}" if "w \<noteq> w'" for w w'
    proof -
      have sub: "node ` set rs \<subseteq> node ` set (regions vm) \<union> set (h @ free_list (region_cache m))" using nd(3) by blast
      have out: "node ` set rs \<inter> used_nodes m x = {}" if "x \<noteq> v" for x using other [OF that] sub by blast
      have "used_nodes m w \<inter> used_nodes m w' = {}" using nodes that by (simp add: nodes_ok_def)
      with out [of w] out [of w'] that show ?thesis by (simp add: Int_commute split: if_splits)
    qed
    show "\<exists>r\<in>set (regions kvm). in_region r x"
      if "vms m (kernel_vm m) = Some kvm" "x \<in> set (h' @ free) \<or> (\<exists>w. x \<in> (if w = v then node ` set rs else used_nodes m w))" for kvm x
    proof -
      have "x \<in> set (h @ free_list (region_cache m)) \<or> (\<exists>w. x \<in> used_nodes m w)"
      proof (cases "x \<in> set (h' @ free) \<or> x \<in> node ` set rs")
        case True
        then have "x \<in> node ` set (regions vm) \<union> set (h @ free_list (region_cache m))" using nd(3) by blast
        then show ?thesis using u(2) by blast
      next
        case False
        then show ?thesis using that(2) by (auto split: if_splits)
      qed
      then show ?thesis using nodes that(1) unfolding nodes_ok_def by blast
    qed
  qed
qed

lemma mem_inv_change:
  assumes inv: "mem_inv h m" and act: "active m v" "v \<noteq> kernel_vm m" and vm: "vms m v = Some vm"
    and new: "vm_ok (vm\<lparr>regions := rs\<rparr>)" and r: "r \<in> set (regions vm)" and p: "part_of r lo sz"
    and fl: "flags_at (vm\<lparr>regions := rs\<rparr>) = cut_out lo sz (flags_at vm)"
    and s: "pt_ok s" "same_env (mmu_of m) s" "mapping s = cut_out lo sz (mapping (mmu_of m))"
    and nd: "distinct (h' @ free)" "node ` set rs \<inter> set (h' @ free) = {}"
      "node ` set rs \<union> set (h' @ free) \<subseteq> node ` set (regions vm) \<union> set (h @ free_list (region_cache m))"
  shows "mem_inv h' (m\<lparr>mmu_of := s, vms := (vms m)(v \<mapsto> vm\<lparr>regions := rs\<rparr>), region_cache := (region_cache m)\<lparr>free_list := free\<rparr>\<rparr>)"
    (is "mem_inv h' ?m")
proof -
  have st: "same_tasks m ?m" using s(2) by (simp add: same_tasks_def)
  note v = mem_inv_vm [OF inv act(1) vm]
  have nodes: "nodes_ok h m" using mem_invD(2) [OF inv] .
  have "nodes_ok h' ?m" by (rule nodes_ok_change [OF nodes act(2) vm nd])
  moreover have "\<exists>wm. ((vms m)(v \<mapsto> vm\<lparr>regions := rs\<rparr>)) w = Some wm \<and> vm_ok wm \<and> vm_place m w wm \<and> maps_exactly s wm" if aw: "active m w" for w
  proof (cases "w = v")
    case True
    have "maps_exactly s (vm\<lparr>regions := rs\<rparr>)"
      using v(3) unfolding maps_exactly_flags [OF new] maps_exactly_flags [OF v(1)] fl s(3) by (auto simp: cut_out_def in_vm_def)
    moreover have "vm_place m v (vm\<lparr>regions := rs\<rparr>)" using v(2) by (simp add: vm_place_def)
    ultimately show ?thesis using True new by simp
  next
    case False
    obtain wm where wm: "vms m w = Some wm" "vm_ok wm" "vm_place m w wm" "maps_exactly (mmu_of m) wm" using mem_invD(3) [OF inv aw] by blast
    have "mapping s x \<noteq> None \<longleftrightarrow> mapping (mmu_of m) x \<noteq> None" if x: "in_vm wm x" for x
    proof -
      have "\<not> in_vm vm x" using places_disjoint [OF wm(3) v(2) False _ x] active_two [OF act(1) aw] False by auto
      moreover have "region_ok vm r" using v(1) r by (simp add: vm_ok_def)
      ultimately have "\<not> within lo sz x"
        using p part_of_end [OF p] by (auto simp: region_ok_def part_of_def within_def in_vm_def word_le_nat_alt word_less_nat_alt)
      then show ?thesis using s(3) by (simp add: cut_out_def)
    qed
    with maps_exactly_other [OF wm(4)] wm False show ?thesis by auto
  qed
  ultimately show ?thesis unfolding mem_inv_def same_tasks_active [OF st] using s(1) by simp
qed

lemma region_split:
  assumes "vm_ok vm" "r \<in> set (regions vm)"
  shows "\<exists>xs ys. regions vm = xs @ r # ys \<and> node r \<notin> node ` set (xs @ ys)"
proof -
  obtain xs ys where x: "regions vm = xs @ r # ys" using split_list [OF assms(2)] by blast
  then have "distinct (map node (xs @ r # ys))" using assms(1) by (simp add: vm_ok_def)
  with x show ?thesis by auto
qed

lemma node_ne: "node r \<notin> node ` A \<Longrightarrow> q \<in> A \<Longrightarrow> node q \<noteq> node r"
  by (metis image_eqI)

lemma remove_split: "node r \<notin> node ` set (xs @ ys) \<Longrightarrow> vm_remove_region (xs @ r # ys) (node r) = xs @ ys"
proof -
  assume "node r \<notin> node ` set (xs @ ys)"
  then have "filter (\<lambda>q. node q \<noteq> node r) xs = xs" "filter (\<lambda>q. node q \<noteq> node r) ys = ys" using node_ne [of r "set (xs @ ys)"] by (simp_all add: filter_id_conv)
  then show ?thesis by (simp add: vm_remove_region_def)
qed

lemma update_split: "node r \<notin> node ` set (xs @ ys) \<Longrightarrow> update_region (xs @ r # ys) (node r) f = xs @ f r # ys"
proof -
  assume "node r \<notin> node ` set (xs @ ys)"
  then have "map (\<lambda>q. if node q = node r then f q else q) xs = xs" "map (\<lambda>q. if node q = node r then f q else q) ys = ys"
    using node_ne [of r "set (xs @ ys)"] by (simp_all add: map_idI)
  then show ?thesis by (simp add: update_region_def)
qed

text \<open>A region replaced by parts of itself.\<close>

lemma replace_ok:
  assumes ok: "vm_ok vm" and x: "regions vm = xs @ r # ys"
    and q: "\<forall>q\<in>set qs. aligned (rstart q) \<and> aligned (rend q) \<and> rstart r \<le> rstart q \<and> rstart q < rend q \<and> rend q \<le> rend r"
    and s: "sorted_wrt before qs" and d: "distinct (map node (xs @ qs @ ys))"
  shows "vm_ok (vm\<lparr>regions := xs @ qs @ ys\<rparr>)"
proof -
  have rok: "region_ok (vm\<lparr>regions := rs\<rparr>) = region_ok vm" for rs by (simp add: fun_eq_iff region_ok_def)
  have r: "region_ok vm r" using ok x by (auto simp: vm_ok_def)
  have "region_ok vm p" if "p \<in> set (xs @ qs @ ys)" for p
    using that ok x q r by (auto simp: vm_ok_def region_ok_def)
  moreover have "sorted_wrt before (xs @ r # ys)" using ok x by (simp add: vm_ok_def)
  then have "sorted_wrt before (xs @ qs @ ys)"
    using s q by (fastforce simp: sorted_wrt_append before_def)
  ultimately show ?thesis using ok d by (simp add: vm_ok_def rok)
qed

lemma replace_flags:
  assumes ok: "vm_ok vm" "vm_ok (vm\<lparr>regions := xs @ qs @ ys\<rparr>)" and x: "regions vm = xs @ r # ys"
    and q: "\<forall>q\<in>set qs. rflags q = rflags r" "\<forall>a. (\<exists>q\<in>set qs. in_region q a) \<longleftrightarrow> in_region r a \<and> \<not> within lo sz a"
    and p: "\<forall>a. within lo sz a \<longrightarrow> in_region r a"
  shows "flags_at (vm\<lparr>regions := xs @ qs @ ys\<rparr>) = cut_out lo sz (flags_at vm)"
proof
  fix a
  have uniq: "r' = r" if "r' \<in> set (xs @ r # ys)" "in_region r' a" "in_region r a" for r'
    using in_region_unique [of "regions vm" r' r a] ok(1) x that by (simp add: vm_ok_def)
  have nr: "r \<notin> set (xs @ ys)"
  proof -
    have "distinct (map node (xs @ r # ys))" using ok(1) x by (simp add: vm_ok_def)
    then show ?thesis by auto
  qed
  have alone: "\<not> (\<exists>r'\<in>set (xs @ ys). in_region r' a)" if "in_region r a"
    using uniq that nr by auto
  have "flags_at (vm\<lparr>regions := xs @ qs @ ys\<rparr>) a = Some f \<longleftrightarrow> cut_out lo sz (flags_at vm) a = Some f" for f
  proof -
    define ot where "ot \<longleftrightarrow> (\<exists>r'\<in>set (xs @ ys). in_region r' a \<and> rflags r' = f)"
    have "flags_at (vm\<lparr>regions := xs @ qs @ ys\<rparr>) a = Some f \<longleftrightarrow> ot \<or> in_region r a \<and> \<not> within lo sz a \<and> rflags r = f"
    proof -
      have "(\<exists>q\<in>set qs. in_region q a \<and> rflags q = f) \<longleftrightarrow> in_region r a \<and> \<not> within lo sz a \<and> rflags r = f"
        using q(1) q(2) [rule_format, of a] by auto
      then show ?thesis unfolding flags_at_iff [OF ok(2)] ot_def by auto
    qed
    moreover have "flags_at vm a = Some f \<longleftrightarrow> ot \<or> in_region r a \<and> rflags r = f"
      unfolding flags_at_iff [OF ok(1)] x ot_def by auto
    moreover have "\<not> ot" if "in_region r a" using alone [OF that] by (auto simp: ot_def)
    ultimately show ?thesis using p by (auto simp: cut_out_def)
  qed
  then show "flags_at (vm\<lparr>regions := xs @ qs @ ys\<rparr>) a = cut_out lo sz (flags_at vm) a" by (metis option.exhaust)
qed

text \<open>The parts that are left of a region when \<open>[lo, lo + sz)\<close> is cut out of it.\<close>

definition rest_of :: "vm_region \<Rightarrow> u32 \<Rightarrow> u32 \<Rightarrow> u32 \<Rightarrow> vm_region list" where
  "rest_of r lo sz x =
     (if rstart r = lo \<and> rstart r + sz = rend r then []
      else if rstart r = lo then [r\<lparr>rstart := rstart r + sz\<rparr>]
      else if rend r = lo + sz then [r\<lparr>rend := rend r - sz\<rparr>]
      else [r\<lparr>rend := lo\<rparr>, \<lparr>node = x, rstart = lo + sz, rend = rend r, rflags = rflags r\<rparr>])"

lemma rest_of_props:
  assumes p: "part_of r lo sz" and r: "aligned (rstart r)" "aligned (rend r)" "rstart r < rend r"
  shows "\<forall>q\<in>set (rest_of r lo sz x). aligned (rstart q) \<and> aligned (rend q) \<and> rstart r \<le> rstart q \<and> rstart q < rend q \<and> rend q \<le> rend r"
    "sorted_wrt before (rest_of r lo sz x)" "\<forall>q\<in>set (rest_of r lo sz x). rflags q = rflags r"
    "\<forall>a. (\<exists>q\<in>set (rest_of r lo sz x). in_region q a) \<longleftrightarrow> in_region r a \<and> \<not> within lo sz a"
    "\<forall>a. within lo sz a \<longrightarrow> in_region r a"
proof -
  note e = part_of_end [OF p]
  have al: "aligned lo" "aligned (lo + sz)" using p aligned_add [of lo sz] unat_u32_less [of "rend r"] by (auto simp: part_of_def)
  have z: "0 < unat sz" using p by (auto simp: part_of_def unat_gt_0)
  have le: "rstart r \<le> lo" "lo < lo + sz" "lo + sz \<le> rend r"
    using p e z by (auto simp: part_of_def word_le_nat_alt word_less_nat_alt)
  have sub: "rend r - sz = lo" if "rend r = lo + sz" using that by simp
  show "\<forall>q\<in>set (rest_of r lo sz x). aligned (rstart q) \<and> aligned (rend q) \<and> rstart r \<le> rstart q \<and> rstart q < rend q \<and> rend q \<le> rend r"
    using al r le sub by (auto simp: rest_of_def)
  show "sorted_wrt before (rest_of r lo sz x)" using le by (auto simp: rest_of_def before_def)
  show "\<forall>q\<in>set (rest_of r lo sz x). rflags q = rflags r" by (auto simp: rest_of_def)
  show "\<forall>a. within lo sz a \<longrightarrow> in_region r a" using le by (auto simp: within_def in_region_def)
  show "\<forall>a. (\<exists>q\<in>set (rest_of r lo sz x). in_region q a) \<longleftrightarrow> in_region r a \<and> \<not> within lo sz a"
    using le sub by (auto simp: rest_of_def within_def in_region_def)
qed

text \<open>A change that cuts \<open>[lo, lo + sz)\<close> out of region \<open>r\<close>, node \<open>x\<close> being the one a split uses.\<close>

lemma cut_region:
  assumes inv: "mem_inv h m" and act: "active m v" "v \<noteq> kernel_vm m" and vm: "vms m v = Some vm"
    and x: "regions vm = xs @ r # ys" and p: "part_of r lo sz"
    and s: "pt_ok s" "same_env (mmu_of m) s" "mapping s = cut_out lo sz (mapping (mmu_of m))"
    and nd: "distinct (map node (xs @ rest_of r lo sz y @ ys))" "distinct (h' @ free)"
      "node ` set (xs @ rest_of r lo sz y @ ys) \<inter> set (h' @ free) = {}"
      "node ` set (xs @ rest_of r lo sz y @ ys) \<union> set (h' @ free) \<subseteq> node ` set (regions vm) \<union> set (h @ free_list (region_cache m))"
  shows "mem_inv h' (m\<lparr>mmu_of := s, vms := (vms m)(v \<mapsto> vm\<lparr>regions := xs @ rest_of r lo sz y @ ys\<rparr>), region_cache := (region_cache m)\<lparr>free_list := free\<rparr>\<rparr>)"
    "flags_at (vm\<lparr>regions := xs @ rest_of r lo sz y @ ys\<rparr>) = cut_out lo sz (flags_at vm)"
proof -
  note v = mem_inv_vm [OF inv act(1) vm]
  have r: "r \<in> set (regions vm)" using x by simp
  then have rok: "aligned (rstart r)" "aligned (rend r)" "rstart r < rend r" using v(1) by (auto simp: vm_ok_def region_ok_def)
  note q = rest_of_props [OF p rok]
  have ok: "vm_ok (vm\<lparr>regions := xs @ rest_of r lo sz y @ ys\<rparr>)" by (rule replace_ok [OF v(1) x q(1,2) nd(1)])
  show fl: "flags_at (vm\<lparr>regions := xs @ rest_of r lo sz y @ ys\<rparr>) = cut_out lo sz (flags_at vm)"
    by (rule replace_flags [OF v(1) ok x q(3,4,5)])
  show "mem_inv h' (m\<lparr>mmu_of := s, vms := (vms m)(v \<mapsto> vm\<lparr>regions := xs @ rest_of r lo sz y @ ys\<rparr>), region_cache := (region_cache m)\<lparr>free_list := free\<rparr>\<rparr>)"
    by (rule mem_inv_change [OF inv act vm ok r p fl s nd(2-4)])
qed

lemma vm_unmap_in_spec:
  assumes inv: "mem_inv [] m" and act: "active m v" "v \<noteq> kernel_vm m" and vm: "vms m v = Some vm"
    and r: "r \<in> set (regions vm)" "rw (rflags r)" and p: "part_of r addr sz"
    and held: "refs_held (mmu_of m) (page_range addr (unat sz div 4096))"
    and cache: "rstart r = addr \<or> rend r = addr + sz \<or> free_list (region_cache m) \<noteq> []"
  shows "\<exists>m' vm'. vm_unmap_in m v addr sz = Some (Inr (), m') \<and> mem_inv [] m' \<and> vms m' v = Some vm'
    \<and> flags_at vm' = cut_out addr sz (flags_at vm) \<and> mapping (mmu_of m') = cut_out addr sz (mapping (mmu_of m))"
proof -
  note v = mem_inv_vm [OF inv act(1) vm] and e = part_of_end [OF p]
  have srt: "sorted_wrt before (regions vm)" using v(1) by (simp add: vm_ok_def)
  obtain s where s: "page_table_unmap (mmu_of m) addr sz = Some s" "pt_ok s" "same_env (mmu_of m) s"
    "mapping s = cut_out addr sz (mapping (mmu_of m))" using pt_unmap_part [OF inv act(1) vm r p held] by blast
  have "0 < unat sz" using p by (auto simp: part_of_def unat_gt_0)
  then have "in_region r addr" using p by (auto simp: in_region_def part_of_def word_le_nat_alt word_less_nat_alt)
  then have found: "vm_find_region (regions vm) addr = Some (Some r)"
    using vm_find_region_eq [OF srt] find_region_iff [OF srt] r(1) by simp
  have le: "\<not> rend r < addr + sz" using p e by (simp add: part_of_def word_less_nat_alt)
  obtain xs ys where x: "regions vm = xs @ r # ys" "node r \<notin> node ` set (xs @ ys)" using region_split [OF v(1) r(1)] by blast
  have dn: "distinct (map node (xs @ r # ys))" using v(1) x(1) by (simp add: vm_ok_def)
  let ?fl = "free_list (region_cache m)"
  have nodes: "distinct ?fl" "node ` set (xs @ r # ys) \<inter> set ?fl = {}"
    using mem_invD(2) [OF inv] vm x(1) unfolding nodes_ok_def used_nodes_def by (simp, metis (no_types, lifting) append_Nil option.simps(5))
  note c = cut_region [OF inv act vm x(1) p s(2-4)]
  show ?thesis
  proof (cases "rstart r \<noteq> addr \<and> rend r \<noteq> addr + sz")
    case False
    define free where "free = (if rstart r = addr \<and> rstart r + sz = rend r then node r # ?fl else ?fl)"
    let ?rs = "xs @ rest_of r addr sz 0 @ ys"
    let ?m = "m\<lparr>mmu_of := s, vms := (vms m)(v \<mapsto> vm\<lparr>regions := ?rs\<rparr>), region_cache := (region_cache m)\<lparr>free_list := free\<rparr>\<rparr>"
    have run: "vm_unmap_in m v addr sz = Some (Inr (), ?m)"
      using vm found le s(1) False x
      by (auto simp: vm_unmap_in_def Let_def pt_call_def set_regions_def slab_cache_free_def remove_split update_split rest_of_def free_def)
    have "distinct (map node ?rs)" "distinct ([] @ free)" "node ` set ?rs \<inter> set ([] @ free) = {}"
      "node ` set ?rs \<union> set ([] @ free) \<subseteq> node ` set (regions vm) \<union> set ([] @ ?fl)"
      using dn nodes False x unfolding x(1) by (auto simp: rest_of_def free_def)
    note d = c [OF this]
    from run d s(4) show ?thesis by (intro exI [of _ ?m] exI [of _ "vm\<lparr>regions := ?rs\<rparr>"]) simp
  next
    case True
    then obtain y fl where y: "?fl = y # fl" using cache by (cases ?fl) auto
    let ?rs = "xs @ rest_of r addr sz y @ ys"
    let ?m = "m\<lparr>mmu_of := s, vms := (vms m)(v \<mapsto> vm\<lparr>regions := ?rs\<rparr>), region_cache := (region_cache m)\<lparr>free_list := fl\<rparr>\<rparr>"
    have slab: "slab_cache_alloc m = Some (Inr y, m\<lparr>region_cache := (region_cache m)\<lparr>free_list := fl\<rparr>\<rparr>)"
      using y by (simp add: slab_cache_alloc_def ensure_cache_def)
    have nx: "assert_next \<lparr>node = y, rstart = addr + sz, rend = rend r, rflags = rflags r\<rparr> ys = Some ()"
      using srt x(1) by (cases ys) (auto simp: sorted_wrt_append before_def)
    have lo: "addr \<le> addr + sz" using e by (simp add: word_le_nat_alt)
    have ins: "insert_after (xs @ r\<lparr>rend := addr\<rparr> # ys) (node r) \<lparr>node = y, rstart = addr + sz, rend = rend r, rflags = rflags r\<rparr> = Some ?rs"
      using insert_after_split [of "r\<lparr>rend := addr\<rparr>" "node r" xs "\<lparr>node = y, rstart = addr + sz, rend = rend r, rflags = rflags r\<rparr>" ys]
        x(2) lo nx True by (auto simp: rest_of_def)
    have run: "vm_unmap_in m v addr sz = Some (Inr (), ?m)"
      using vm found le s(1) True x slab ins
      by (simp add: vm_unmap_in_def Let_def pt_call_def set_regions_def update_split link_region_def vm_insert_region_after_def)
    have "distinct (map node ?rs)" "distinct ([] @ fl)" "node ` set ?rs \<inter> set ([] @ fl) = {}"
      "node ` set ?rs \<union> set ([] @ fl) \<subseteq> node ` set (regions vm) \<union> set ([] @ ?fl)"
      using dn nodes True x y unfolding x(1) by (auto simp: rest_of_def)
    note d = c [OF this]
    from run d s(4) show ?thesis by (intro exI [of _ ?m] exI [of _ "vm\<lparr>regions := ?rs\<rparr>"]) simp
  qed
qed

section \<open>Properties\<close>

lemma unat_pte_page: "unat (pte_page x) = unat x div 4096 * 4096"
proof -
  have "pte_page x = x - take_bit 12 x"
  proof -
    have "pte_page x + take_bit 12 x = pte_page x OR take_bit 12 x"
      by (rule disjunctive_add) (auto simp: bit_simps bit_pte_page)
    also have "\<dots> = x" by (rule bit_word_eqI) (auto simp: bit_simps bit_pte_page)
    finally show ?thesis by (metis add_diff_cancel_right')
  qed
  then have "pte_page x = x - x mod 4096" by (simp add: take_bit_eq_mod)
  moreover have "unat (x - x mod 4096) = unat x - unat (x mod 4096)" by (rule unat_sub) (simp add: word_le_nat_alt unat_mod)
  ultimately show ?thesis by (simp add: unat_mod minus_mod_eq_div_mult)
qed

lemma ROUND_UP_page: "ROUND_UP x PAGE_SIZE = pte_page (x + 0xfff)"
  by (simp add: ROUND_UP_def pte_page_def)

lemma ROUND_UP_bounds:
  assumes "unat x + 4096 \<le> 2 ^ 32" "x \<noteq> 0"
  shows "aligned (ROUND_UP x PAGE_SIZE)" "ROUND_UP x PAGE_SIZE \<noteq> 0" "unat (ROUND_UP x PAGE_SIZE) < unat x + 4096" "x \<le> ROUND_UP x PAGE_SIZE"
proof -
  have u: "unat (ROUND_UP x PAGE_SIZE) = (unat x + 4095) div 4096 * 4096"
    using assms(1) by (simp add: ROUND_UP_page unat_pte_page unat_word_ariths)
  show "aligned (ROUND_UP x PAGE_SIZE)" by (simp add: aligned_iff u)
  have x: "0 < unat x" using assms(2) by (simp add: unat_gt_0)
  then have "unat x \<le> (unat x + 4095) div 4096 * 4096" by linarith
  then show le: "x \<le> ROUND_UP x PAGE_SIZE" using u by (simp add: word_le_nat_alt)
  show "ROUND_UP x PAGE_SIZE \<noteq> 0" using le x by (auto simp: word_le_nat_alt)
  show "unat (ROUND_UP x PAGE_SIZE) < unat x + 4096" using u by linarith
qed

lemma vm_for_flags_active: "vm_for_flags m fl = Some v \<Longrightarrow> active m v"
  by (auto simp: vm_for_flags_def active_def split: if_splits option.splits bind_splits)

text \<open>
  C22. \<^verbatim>\<open>vm_alloc\<close> with valid flags, for a size that is not 0 and does not leave 32 bits when it and a page are added to the end of
  the address space, fails no assertion and keeps the memory invariant: regions stay ordered, disjoint and inside their
  address space, exactly the pages of readable or writable regions are mapped, and no list node is used
  twice. It returns a page-aligned range that no region touched, now covered by a region with the given
  flags, and for a user address space that is the only change; or it answers \<^verbatim>\<open>ENOMEM\<close> and a user address space
  keeps its regions. Larger sizes wrap in the search for a gap (\<open>vm_find_gap_wraps\<close>).
\<close>

theorem vm_alloc_correct:
  assumes "mem_inv [] m" "sz \<noteq> 0" "validate_vm_flags m fl = Some True" "vm_for_flags m fl = Some v" "vms m v = Some vm"
    and "unat (vend vm) + unat sz + 4096 \<le> 2 ^ 32"
  shows "\<exists>r m'. vm_alloc m sz fl = Some (r, m') \<and> mem_inv [] m' \<and> alloc_post m v vm (ROUND_UP sz PAGE_SIZE) fl r m'"
proof -
  note b = ROUND_UP_bounds [of sz]
  have "unat (vend vm) + unat (ROUND_UP sz PAGE_SIZE) < 2 ^ 32" using b(3) assms(2,6) by simp
  with vm_alloc_in_spec [OF assms(1) vm_for_flags_active [OF assms(4)] assms(5,3) b(1,2)] assms show ?thesis
    by (simp add: vm_alloc_def)
qed

lemma align_range_aligned:
  assumes "aligned a" "aligned (a + sz)"
  shows "page_align_range a sz = (a, sz)"
  using assms ROUND_UP_aligned [of "a + sz"] pte_page_aligned [of a]
  by (simp add: page_align_range_def Let_def aligned_def ROUND_DOWN_def pte_page_def)

lemma part_of_valid:
  assumes "part_of r a sz" "0 < rstart r"
  shows "validate_range a sz = Inr ()" "page_align_range a sz = (a, sz)" "a mod PAGE_SIZE = 0" "a \<noteq> 0"
proof -
  note e = part_of_end [OF assms(1)]
  have al: "aligned a" "aligned sz" "sz \<noteq> 0" "rstart r \<le> a" using assms(1) by (simp_all add: part_of_def)
  then show "a \<noteq> 0" using assms(2) by auto
  moreover have "\<not> a + sz < a" using e by (simp add: word_less_nat_alt)
  ultimately show "validate_range a sz = Inr ()" using al(3) by (simp add: validate_range_def)
  have "aligned (a + sz)" using e al aligned_add [of a sz] unat_u32_less [of "a + sz"] by simp
  with al(1) show "page_align_range a sz = (a, sz)" by (rule align_range_aligned)
  show "a mod PAGE_SIZE = 0" using al(1) by (simp add: aligned_def)
qed

text \<open>
  C23. \<^verbatim>\<open>sys_munmap\<close> of a page-aligned part of a readable or writable region of the current task succeeds and keeps the
  memory invariant. Exactly the addresses of the part leave the address space, all others keep their flags,
  and exactly its pages are unmapped, whether the part is all of the region, its beginning, its end or its
  middle. Each mapping has to hold its reference, and a split needs a node in the cache.
\<close>

theorem sys_munmap_correct:
  assumes inv: "mem_inv [] m" and cur: "current_vm m = Some (Some v)" "v \<noteq> kernel_vm m" and vm: "vms m v = Some vm"
    and r: "r \<in> set (regions vm)" "rw (rflags r)" and p: "part_of r addr sz"
    and held: "refs_held (mmu_of m) (page_range addr (unat sz div 4096))"
    and cache: "rstart r = addr \<or> rend r = addr + sz \<or> free_list (region_cache m) \<noteq> []"
  shows "\<exists>m' vm'. sys_munmap m addr sz = Some (Inr (), m') \<and> mem_inv [] m' \<and> vms m' v = Some vm'
    \<and> flags_at vm' = cut_out addr sz (flags_at vm) \<and> mapping (mmu_of m') = cut_out addr sz (mapping (mmu_of m))"
proof -
  have act: "active m v" using cur(1) by (simp add: active_def)
  note w = mem_inv_vm [OF inv act vm]
  have rok: "region_ok vm r" using w(1) r(1) by (simp add: vm_ok_def)
  have "0 < vstart vm" "vend vm \<le> KERNEL_VIRT_ADDR" using w(2) cur(2) by (simp_all add: vm_place_def)
  then have pos: "0 < rstart r" and "rend r \<le> KERNEL_VIRT_ADDR" using rok by (auto simp: region_ok_def)
  moreover have "0 < unat sz" using p by (auto simp: part_of_def unat_gt_0)
  then have "addr < rend r" using p by (simp add: part_of_def word_less_nat_alt)
  ultimately have user: "\<not> is_kernel_address addr" by (auto simp: is_kernel_address_def KERNEL_VIRT_ADDR_def)
  note q = part_of_valid [OF p pos]
  have "vm_for_addr m addr = Some v" using cur q(4) user by (simp add: vm_for_addr_def)
  moreover have "sz \<noteq> 0" using p by (simp add: part_of_def)
  ultimately have "sys_munmap m addr sz = do { (rc, m) \<leftarrow> vm_unmap_in m v addr sz; Some (if rc = Inl ENOENT then Inr () else rc, m) }"
    using q by (simp add: sys_munmap_def vm_unmap_def)
  with vm_unmap_in_spec [OF inv act cur(2) vm r p held cache] show ?thesis by auto
qed


lemma page_table_unmap_absent:
  assumes "pt_ok s" "range_ok a n" "0 < n" "mapping s a = None"
  shows "page_table_unmap s a (of_nat n * PAGE_SIZE) = None"
proof -
  note r = range_okD [OF assms(2)]
  have pr: "page_range a n = a # map (\<lambda>i. a + of_nat i * PAGE_SIZE) [1..<n]"
    using assms(3) by (simp add: page_range_def upt_conv_Cons)
  then have i: "pd_index a < 1023" using r(4) [of a] by simp
  have "unmap_loop (page_range a n) s = None"
    using get_pte_eq [OF assms(1) i] assms(4) unfolding pr by (simp add: mapping_def Let_def split: if_splits)
  with r show ?thesis by (simp add: page_table_unmap_def ROUND_UP_aligned [OF r(5)] Let_def)
qed

text \<open>
  A region without access rights, such as the guard pages around a stack, has no mapped pages, but
  \<^verbatim>\<open>sys_munmap\<close> unmaps it like any other: when a task unmaps such a region, or its beginning or end, an assertion in
  \<^verbatim>\<open>page_table_unmap\<close> stops the kernel.
\<close>

theorem sys_munmap_guard_panics:
  assumes inv: "mem_inv [] m" and cur: "current_vm m = Some (Some v)" "v \<noteq> kernel_vm m" and vm: "vms m v = Some vm"
    and r: "r \<in> set (regions vm)" "\<not> rw (rflags r)" and p: "part_of r addr sz" and edge: "rstart r = addr \<or> rend r = addr + sz"
  shows "sys_munmap m addr sz = None"
proof -
  have act: "active m v" using cur(1) by (simp add: active_def)
  note w = mem_inv_vm [OF inv act vm] and e = part_of_end [OF p]
  have rok: "region_ok vm r" and srt: "sorted_wrt before (regions vm)" using w(1) r(1) by (simp_all add: vm_ok_def)
  have place: "0 < vstart vm" "vend vm \<le> KERNEL_VIRT_ADDR" using w(2) cur(2) by (simp_all add: vm_place_def)
  then have pos: "0 < rstart r" and top: "rend r \<le> KERNEL_VIRT_ADDR" using rok by (auto simp: region_ok_def)
  have z: "0 < unat sz" using p by (auto simp: part_of_def unat_gt_0)
  then have ir: "in_region r addr" using p by (auto simp: part_of_def word_less_nat_alt in_region_def)
  then have user: "\<not> is_kernel_address addr" using top by (auto simp: is_kernel_address_def in_region_def)
  note q = part_of_valid [OF p pos]
  have found: "vm_find_region (regions vm) addr = Some (Some r)"
    using vm_find_region_eq [OF srt] find_region_iff [OF srt] r(1) ir by simp
  have "\<not> (\<exists>r'\<in>set (regions vm). in_region r' addr \<and> rw (rflags r'))" using in_region_unique [OF srt _ r(1) _ ir] r(2) by blast
  moreover have "in_vm vm addr" using ir rok by (auto simp: in_vm_def in_region_def region_ok_def)
  ultimately have none: "mapping (mmu_of m) addr = None" using w(3) by (auto simp: maps_exactly_def)
  define n where "n = unat sz div 4096"
  have n: "sz = of_nat n * PAGE_SIZE" "unat sz = n * 4096" using aligned_pages p by (auto simp: n_def part_of_def)
  have "range_ok addr n" using p top n(2) by (auto simp: range_ok_def part_of_def aligned_def word_le_nat_alt KERNEL_VIRT_ADDR_def)
  then have pt: "page_table_unmap (mmu_of m) addr sz = None"
    using page_table_unmap_absent [OF mem_invD(1) [OF inv] _ _ none, of n] n z by auto
  have le: "\<not> rend r < addr + sz" using p e by (simp add: part_of_def word_less_nat_alt)
  have "vm_unmap_in m v addr sz = None"
    using vm found le pt edge by (auto simp: vm_unmap_in_def Let_def pt_call_def)
  moreover have "vm_for_addr m addr = Some v" using cur q(4) user by (simp add: vm_for_addr_def)
  moreover have "sz \<noteq> 0" using p by (simp add: part_of_def)
  ultimately show ?thesis using q by (simp add: sys_munmap_def vm_unmap_def)
qed

text \<open>
  The sums in \<^verbatim>\<open>vm_find_gap\<close> wrap around: for a size just below 4 GiB it finds a \<open>gap\<close> between the first two regions of any
  address space, although no such range exists.
\<close>

lemma vm_find_gap_wraps:
  assumes "vm_ok vm" "regions vm = p # q # rs" "0x1000 \<le> vstart vm" "vstart vm \<le> vend vm"
  shows "vm_find_gap vm 0xfffff000 = Some (Inr (rend p, Some (node p)))"
proof -
  have o: "sorted_wrt before (p # q # rs)" and ok: "region_ok vm p" using assms(1,2) by (auto simp: vm_ok_def)
  have sub: "x + 0xfffff000 = x - 0x1000" for x :: u32 by simp
  have le: "x - 0x1000 \<le> x" if "0x1000 \<le> x" for x :: u32 using that by (simp add: word_le_nat_alt unat_sub)
  have "0x1000 \<le> rend p" using ok assms(3) by (auto simp: region_ok_def)
  moreover have "rend p \<le> rstart q" using o by (simp add: before_def)
  ultimately have "rend p + 0xfffff000 \<le> rstart q" unfolding sub using le order_trans by blast
  moreover have "\<not> vstart vm + 0xfffff000 > vend vm" unfolding sub using le [OF assms(3)] assms(4) by simp
  moreover have "sorted_wrt before (q # rs)" using o by simp
  ultimately show ?thesis
    using assms(2) assert_next_sorted [OF o] assert_next_sorted [of q rs] by (simp add: vm_find_gap_def)
qed

section \<open>A small memory\<close>

text \<open>
  The machine of the page tables with its address spaces: the kernel heap has one slab page, and the task has one
  page of memory followed by a guard page.
\<close>

definition example_slab :: vm_region where
  "example_slab = \<lparr>node = 0xc0400000, rstart = 0xc0400000, rend = 0xc0401000, rflags = 3\<rparr>"

definition example_text :: vm_region where
  "example_text = \<lparr>node = 0xc0400014, rstart = 0x8048000, rend = 0x8049000, rflags = 7\<rparr>"

definition example_guard :: vm_region where
  "example_guard = \<lparr>node = 0xc0400028, rstart = 0x8049000, rend = 0x804a000, rflags = 4\<rparr>"

lemmas example_regions = example_slab_def example_text_def example_guard_def

definition example_kvm :: vm where
  "example_kvm = \<lparr>vstart = 0xc0400000, vend = 0xffc00000, pd_block = 0, regions = [example_slab], vm_ref_count = 1\<rparr>"

definition example_vm :: vm where
  "example_vm = \<lparr>vstart = 0x100000, vend = 0xc0000000, pd_block = 0, regions = [example_text, example_guard], vm_ref_count = 1\<rparr>"

definition example_mem :: memory where
  "example_mem = \<lparr>mmu_of = example_mmu, vms = [0 \<mapsto> example_kvm, 1 \<mapsto> example_vm], kernel_vm = 0,
     region_cache = \<lparr>obj_size = 20, free_list = [0xc040003c, 0xc0400050]\<rparr>\<rparr>"

lemma example_maps:
  "mapping example_mmu a \<noteq> None \<longleftrightarrow> in_region example_text a \<or> in_region example_slab a"
proof -
  have "pageno a = 0x8048 \<longleftrightarrow> in_region example_text a"
    using pageno_range [of "0x8048000" 1 a] by (auto simp: aligned_def pageno_def in_region_def example_regions)
  moreover have "pageno a = 0xc0400 \<longleftrightarrow> in_region example_slab a"
    using pageno_range [of "0xc0400000" 1 a] by (auto simp: aligned_def pageno_def in_region_def example_regions)
  ultimately show ?thesis unfolding example_mapping by auto
qed

lemma example_mem_inv: "mem_inv [] example_mem"
proof -
  have c: "current_vm example_mem = Some (Some 1)" by (simp add: current_vm_def example_mem_def example_mmu_def)
  have ok: "vm_ok example_kvm" "vm_ok example_vm"
    by (simp_all add: vm_ok_def region_ok_def example_kvm_def example_vm_def example_regions before_def aligned_def)
  have pl: "vm_place example_mem 0 example_kvm" "vm_place example_mem 1 example_vm"
    by (simp_all add: vm_place_def example_mem_def example_kvm_def example_vm_def KERNEL_VIRT_ADDR_def)
  have "\<not> in_region example_text a" if "in_vm example_kvm a" for a
    using that by (auto simp: in_vm_def in_region_def example_kvm_def example_regions word_le_nat_alt word_less_nat_alt)
  then have k: "maps_exactly example_mmu example_kvm"
    unfolding maps_exactly_def example_maps by (simp add: example_kvm_def rw_def) (auto simp: example_regions)
  have "\<not> in_region example_slab a" if "in_vm example_vm a" for a
    using that by (auto simp: in_vm_def in_region_def example_vm_def example_regions word_le_nat_alt word_less_nat_alt)
  then have u: "maps_exactly example_mmu example_vm"
    unfolding maps_exactly_def example_maps by (simp add: example_vm_def rw_def) (auto simp: example_regions)
  have un: "used_nodes example_mem v = (if v = 0 then {0xc0400000} else if v = 1 then {0xc0400014, 0xc0400028} else {})" for v
    by (simp add: used_nodes_def example_mem_def example_kvm_def example_vm_def example_regions)
  have ir: "in_region example_slab x" if "x \<in> {0xc0400000, 0xc0400014, 0xc0400028, 0xc040003c, 0xc0400050}" for x
    using that by (auto simp: in_region_def example_regions)
  have "nodes_ok [] example_mem"
    unfolding nodes_ok_def un using ir
    by (auto simp: example_mem_def example_kvm_def split: if_splits)
  moreover have "active example_mem v \<longleftrightarrow> v = 0 \<or> v = 1" for v using c by (auto simp: active_def example_mem_def)
  ultimately show ?thesis
    unfolding mem_inv_def using example_pt_ok ok pl k u by (auto simp: example_mem_def)
qed

lemma example_current: "current_vm example_mem = Some (Some 1)" "kernel_vm example_mem = 0" "vms example_mem 1 = Some example_vm"
  "vms example_mem 0 = Some example_kvm" "mmu_of example_mem = example_mmu" "example_text \<in> set (regions example_vm)"
  "example_guard \<in> set (regions example_vm)" "example_slab \<in> set (regions example_kvm)"
  by (simp_all add: current_vm_def example_mem_def example_mmu_def example_vm_def example_kvm_def)

theorem vm_alloc_correct_witness:
  "\<exists>r m'. vm_alloc example_mem 5000 7 = Some (r, m') \<and> mem_inv [] m' \<and> alloc_post example_mem 1 example_vm 0x2000 7 r m'"
proof -
  have "validate_vm_flags example_mem 7 = Some True" "vm_for_flags example_mem 7 = Some 1" "unat (vend example_vm) + unat (5000::u32) + 4096 \<le> 2 ^ 32"
    by (simp_all add: validate_vm_flags_def vm_for_flags_def example_current) (simp add: example_vm_def)
  moreover have "ROUND_UP 5000 PAGE_SIZE = 0x2000" by (simp add: ROUND_UP_def)
  ultimately show ?thesis using vm_alloc_correct [OF example_mem_inv, of 5000 7 1 example_vm] example_current(3) by simp
qed

lemma example_refs:
  "refs_held example_mmu [0x8048000]" "refs_held example_mmu [0xc0400000]"
proof -
  have p: "pageno 0x8048000 = 0x8048" "pageno 0xc0400000 = 0xc0400" by (simp_all add: pageno_def)
  have a: "(0x6000::u32) = page_addr 6" "(0x9000::u32) = page_addr 9" by (simp_all add: page_addr_def)
  have r: "refs_in (mapping example_mmu) [0x8048000] q = (if q = 6 then 1 else 0)" "refs_in (mapping example_mmu) [0xc0400000] q = (if q = 9 then 1 else 0)"
    if "q < 32" for q
    using that page_addr_inj [of q 6] page_addr_inj [of q 9] a by (auto simp: refs_in_def example_mapping p pte_page_def)
  have t: "\<not> is_table example_mmu (page_addr 6)" "\<not> is_table example_mmu (page_addr 9)"
    unfolding example_tables(4) by (simp_all add: page_addr_def)
  show "refs_held example_mmu [0x8048000]" "refs_held example_mmu [0xc0400000]"
    unfolding refs_held_def Let_def example_counts(1) using r t example_counts(3) by auto
qed

theorem sys_munmap_correct_witness:
  "\<exists>m' vm'. sys_munmap example_mem 0x8048000 0x1000 = Some (Inr (), m') \<and> mem_inv [] m' \<and> vms m' 1 = Some vm'
     \<and> flags_at vm' 0x8048000 = None \<and> flags_at vm' 0x8049000 = Some 4"
proof -
  have p: "part_of example_text 0x8048000 0x1000" by (simp add: part_of_def aligned_def example_text_def)
  have pr: "page_range 0x8048000 (unat (0x1000::u32) div 4096) = [0x8048000]" by (simp add: page_range_def)
  have rw: "rw (rflags example_text)" by (simp add: rw_def example_text_def)
  obtain m' vm' where m': "sys_munmap example_mem 0x8048000 0x1000 = Some (Inr (), m')" "mem_inv [] m'" "vms m' 1 = Some vm'"
    "flags_at vm' = cut_out 0x8048000 0x1000 (flags_at example_vm)"
    using sys_munmap_correct [OF example_mem_inv example_current(1) _ example_current(3,6) rw p] example_refs(1) pr
    by (auto simp: example_current example_text_def)
  have "flags_at example_vm 0x8049000 = Some 4" by (simp add: flags_at_def example_vm_def in_region_def example_regions)
  with m' show ?thesis by (auto simp: cut_out_def within_def)
qed


theorem sys_munmap_guard_panics_witness: "sys_munmap example_mem 0x8049000 0x1000 = None"
proof (rule sys_munmap_guard_panics [OF example_mem_inv example_current(1) _ example_current(3,7)])
  show "part_of example_guard 0x8049000 0x1000" by (simp add: part_of_def aligned_def example_guard_def)
qed (simp_all add: example_current rw_def example_guard_def)

end
