(* ===== verification/Cstring.thy ===== *)
theory Cstring
  imports Prelude
begin

text \<open>
  The byte and string routines that the kernel and the user programs share: \<^verbatim>\<open>common/string.c\<close>,
  \<^verbatim>\<open>common/strings.c\<close>, \<^verbatim>\<open>common/ctype.h\<close> and \<^verbatim>\<open>common/libgen.c\<close>.

  These routines trust their pointers, so memory is a total function from 32-bit addresses to bytes
  and address arithmetic wraps. A \<^verbatim>\<open>char\<close> is signed on this target: comparing it with an \<^verbatim>\<open>int\<close>, or with
  \<open><\<close>, sign-extends it. A null pointer is the address 0. Loops whose end depends on a terminator in
  memory are partial functions: the value \<open>None\<close> means that no terminator is found and the loop runs
  forever.
\<close>

type_synonym ram = "u32 \<Rightarrow> u8"

section \<open>Blocks of bytes\<close>

text \<open>A 32-bit store and load of the little-endian target.\<close>

definition store32 :: "u32 \<Rightarrow> u32 \<Rightarrow> ram \<Rightarrow> ram" where
  "store32 a v r =
     r(a := ucast v, a + 1 := ucast (drop_bit 8 v), a + 2 := ucast (drop_bit 16 v),
       a + 3 := ucast (drop_bit 24 v))"

definition load32 :: "u32 \<Rightarrow> ram \<Rightarrow> u32" where
  "load32 a r =
     ucast (r a) OR push_bit 8 (ucast (r (a + 1))) OR push_bit 16 (ucast (r (a + 2)))
       OR push_bit 24 (ucast (r (a + 3)))"

text \<open>
  The string instructions with the direction flag clear: \<^verbatim>\<open>rep stosl\<close>, \<^verbatim>\<open>rep stosb\<close>, \<^verbatim>\<open>rep movsl\<close> and
  \<^verbatim>\<open>rep movsb\<close>. The results have the final \<^verbatim>\<open>edi\<close> (and \<^verbatim>\<open>esi\<close>) where the code uses it.
\<close>

fun stosl :: "nat \<Rightarrow> u32 \<Rightarrow> u32 \<Rightarrow> ram \<Rightarrow> u32 \<times> ram" where
  "stosl 0 edi eax r = (edi, r)"
| "stosl (Suc ecx) edi eax r = stosl ecx (edi + 4) eax (store32 edi eax r)"

fun stosb :: "nat \<Rightarrow> u32 \<Rightarrow> u8 \<Rightarrow> ram \<Rightarrow> ram" where
  "stosb 0 edi al r = r"
| "stosb (Suc ecx) edi al r = stosb ecx (edi + 1) al (r(edi := al))"

fun movsl :: "nat \<Rightarrow> u32 \<Rightarrow> u32 \<Rightarrow> ram \<Rightarrow> u32 \<times> u32 \<times> ram" where
  "movsl 0 edi esi r = (edi, esi, r)"
| "movsl (Suc ecx) edi esi r = movsl ecx (edi + 4) (esi + 4) (store32 edi (load32 esi r) r)"

fun movsb :: "nat \<Rightarrow> u32 \<Rightarrow> u32 \<Rightarrow> ram \<Rightarrow> ram" where
  "movsb 0 edi esi r = r"
| "movsb (Suc ecx) edi esi r = movsb ecx (edi + 1) (esi + 1) (r(edi := r esi))"

definition memset :: "u32 \<Rightarrow> u32 \<Rightarrow> u32 \<Rightarrow> ram \<Rightarrow> ram" where
  "memset s c n r =
     (if s AND 3 = 0 \<and> n \<ge> 4 then
        let nd = n div 4;
            d = push_bit 24 c OR push_bit 16 c OR push_bit 8 c OR c;
            (dest, r) = stosl (unat nd) s d r;
            n = n - 4 * nd
        in if n = 0 then r else stosb (unat n) dest (ucast c) r
      else stosb (unat n) s (ucast c) r)"

definition memcpy :: "u32 \<Rightarrow> u32 \<Rightarrow> u32 \<Rightarrow> ram \<Rightarrow> ram" where
  "memcpy dest_ptr src_ptr n r =
     (if dest_ptr AND 3 = 0 \<and> src_ptr AND 3 = 0 \<and> n \<ge> 4 then
        let nd = n div 4;
            (dest, src, r) = movsl (unat nd) dest_ptr src_ptr r;
            n = n - 4 * nd
        in if n = 0 then r else movsb (unat n) dest src r
      else movsb (unat n) dest_ptr src_ptr r)"

text \<open>The downward loop of \<^verbatim>\<open>memmove\<close>: both pointers are decremented before the copy.\<close>

fun move_down :: "nat \<Rightarrow> u32 \<Rightarrow> u32 \<Rightarrow> ram \<Rightarrow> ram" where
  "move_down 0 dest src r = r"
| "move_down (Suc n) dest src r = move_down n (dest - 1) (src - 1) (r(dest - 1 := r (src - 1)))"

definition memmove :: "u32 \<Rightarrow> u32 \<Rightarrow> u32 \<Rightarrow> ram \<Rightarrow> ram" where
  "memmove dest_ptr src_ptr n r =
     (if dest_ptr - src_ptr \<ge> n then memcpy dest_ptr src_ptr n r
      else move_down (unat n) (dest_ptr + n) (src_ptr + n) r)"

fun memcmp_loop :: "nat \<Rightarrow> u32 \<Rightarrow> u32 \<Rightarrow> ram \<Rightarrow> int" where
  "memcmp_loop 0 c1 c2 r = 0"
| "memcmp_loop (Suc n) c1 c2 r =
     (if r c1 \<noteq> r c2 then (if r c1 < r c2 then - 1 else 1) else memcmp_loop n (c1 + 1) (c2 + 1) r)"

definition memcmp :: "u32 \<Rightarrow> u32 \<Rightarrow> u32 \<Rightarrow> ram \<Rightarrow> int" where
  "memcmp s1 s2 n r = memcmp_loop (unat n) s1 s2 r"

section \<open>Strings\<close>

text \<open>A \<^verbatim>\<open>char\<close> promoted to \<^verbatim>\<open>int\<close>.\<close>

definition char_int :: "u8 \<Rightarrow> u32" where
  "char_int c = scast c"

partial_function (option) strcmp :: "u32 \<Rightarrow> u32 \<Rightarrow> ram \<Rightarrow> int option" where
  "strcmp s1 s2 r =
     (if r s1 = r s2 then if r s1 = 0 then Some 0 else strcmp (s1 + 1) (s2 + 1) r
      else Some (if sint (r s1) < sint (r s2) then - 1 else 1))"

fun strncmp_loop :: "nat \<Rightarrow> u32 \<Rightarrow> u32 \<Rightarrow> ram \<Rightarrow> int" where
  "strncmp_loop 0 s1 s2 r = 0"
| "strncmp_loop (Suc n) s1 s2 r =
     (if r s1 \<noteq> r s2 then uint (r s1) - uint (r s2)
      else if r s1 = 0 then 0
      else strncmp_loop n (s1 + 1) (s2 + 1) r)"

definition strncmp :: "u32 \<Rightarrow> u32 \<Rightarrow> u32 \<Rightarrow> ram \<Rightarrow> int" where
  "strncmp s1 s2 n r = (if n = 0 then 0 else strncmp_loop (unat n) s1 s2 r)"

partial_function (option) strlen_from :: "u32 \<Rightarrow> u32 \<Rightarrow> ram \<Rightarrow> u32 option" where
  "strlen_from len str r = (if r str = 0 then Some len else strlen_from (len + 1) (str + 1) r)"

definition strlen :: "u32 \<Rightarrow> ram \<Rightarrow> u32 option" where
  "strlen str r = strlen_from 0 str r"

fun strnlen_from :: "nat \<Rightarrow> u32 \<Rightarrow> u32 \<Rightarrow> ram \<Rightarrow> u32" where
  "strnlen_from 0 len str r = len"
| "strnlen_from (Suc n) len str r =
     (if r str = 0 then len else strnlen_from n (len + 1) (str + 1) r)"

definition strnlen :: "u32 \<Rightarrow> u32 \<Rightarrow> ram \<Rightarrow> u32" where
  "strnlen str n r = strnlen_from (unat n) 0 str r"

partial_function (option) strcpy :: "u32 \<Rightarrow> u32 \<Rightarrow> ram \<Rightarrow> ram option" where
  "strcpy d src r =
     (if r src = 0 then Some (r(d := 0)) else strcpy (d + 1) (src + 1) (r(d := r src)))"

text \<open>
  \<^verbatim>\<open>strncpy\<close>: the first loop copies until the terminator or the bound, the second fills with zeros.
  The counter of the recursion is \<^verbatim>\<open>n - i\<close>.
\<close>

fun strncpy_fill :: "nat \<Rightarrow> u32 \<Rightarrow> ram \<Rightarrow> ram" where
  "strncpy_fill 0 dest r = r"
| "strncpy_fill (Suc k) dest r = strncpy_fill k (dest + 1) (r(dest := 0))"

fun strncpy_copy :: "nat \<Rightarrow> u32 \<Rightarrow> u32 \<Rightarrow> ram \<Rightarrow> ram" where
  "strncpy_copy 0 dest src r = r"
| "strncpy_copy (Suc k) dest src r =
     (if r src \<noteq> 0 then strncpy_copy k (dest + 1) (src + 1) (r(dest := r src))
      else strncpy_fill (Suc k) dest r)"

definition strncpy :: "u32 \<Rightarrow> u32 \<Rightarrow> u32 \<Rightarrow> ram \<Rightarrow> ram" where
  "strncpy dest src n r = strncpy_copy (unat n) dest src r"

text \<open>\<^verbatim>\<open>strlcpy\<close>: the copying loop, the terminator, and the loop that counts the rest of the source.\<close>

partial_function (option) strlcpy_copy ::
  "u32 \<Rightarrow> u32 \<Rightarrow> u32 \<Rightarrow> u32 \<Rightarrow> ram \<Rightarrow> (u32 \<times> u32 \<times> u32 \<times> ram) option" where
  "strlcpy_copy len dst src sz r =
     (if len + 1 < sz \<and> r src \<noteq> 0 then strlcpy_copy (len + 1) (dst + 1) (src + 1) sz (r(dst := r src))
      else Some (len, dst, src, r))"

definition strlcpy :: "u32 \<Rightarrow> u32 \<Rightarrow> u32 \<Rightarrow> ram \<Rightarrow> (u32 \<times> ram) option" where
  "strlcpy dst src sz r =
     do {
       (len, dst, src, r) \<leftarrow> strlcpy_copy 0 dst src sz r;
       let r = (if sz > 0 then r(dst := 0) else r);
       len \<leftarrow> strlen_from len src r;
       Some (len, r)
     }"

partial_function (option) strcat_copy :: "u32 \<Rightarrow> u32 \<Rightarrow> ram \<Rightarrow> ram option" where
  "strcat_copy d src r =
     (if r src \<noteq> 0 then strcat_copy (d + 1) (src + 1) (r(d := r src)) else Some (r(d := 0)))"

definition strcat :: "u32 \<Rightarrow> u32 \<Rightarrow> ram \<Rightarrow> ram option" where
  "strcat dest src r = do { dest_len \<leftarrow> strlen dest r; strcat_copy (dest + dest_len) src r }"

fun strncat_copy :: "nat \<Rightarrow> u32 \<Rightarrow> u32 \<Rightarrow> ram \<Rightarrow> ram" where
  "strncat_copy 0 d src r = r(d := 0)"
| "strncat_copy (Suc k) d src r =
     (if r src \<noteq> 0 then strncat_copy k (d + 1) (src + 1) (r(d := r src)) else r(d := 0))"

definition strncat :: "u32 \<Rightarrow> u32 \<Rightarrow> u32 \<Rightarrow> ram \<Rightarrow> ram option" where
  "strncat dest src n r =
     do { dest_len \<leftarrow> strlen dest r; Some (strncat_copy (unat n) (dest + dest_len) src r) }"

partial_function (option) strchr :: "u32 \<Rightarrow> u32 \<Rightarrow> ram \<Rightarrow> u32 option" where
  "strchr str ch r =
     (if r str = 0 then Some 0
      else if char_int (r str) = ch then Some str
      else strchr (str + 1) ch r)"

partial_function (option) strrchr_from :: "u32 \<Rightarrow> u32 \<Rightarrow> u32 \<Rightarrow> ram \<Rightarrow> u32 option" where
  "strrchr_from last_ptr str ch r =
     (if r str = 0 then Some last_ptr
      else strrchr_from (if char_int (r str) = ch then str else last_ptr) (str + 1) ch r)"

definition strrchr :: "u32 \<Rightarrow> u32 \<Rightarrow> ram \<Rightarrow> u32 option" where
  "strrchr str ch r = strrchr_from 0 str ch r"

text \<open>
  \<^verbatim>\<open>strtok_r\<close>: skip the separators, find the end of the token, cut it there. The cell that \<^verbatim>\<open>last\<close>
  points to is an argument and a result; \<^verbatim>\<open>strtok\<close> keeps it in a static variable.
\<close>

partial_function (option) skip_seps :: "u32 \<Rightarrow> u32 \<Rightarrow> ram \<Rightarrow> u32 option" where
  "skip_seps str sep r =
     (if r str = 0 then Some str
      else do {
        q \<leftarrow> strchr sep (char_int (r str)) r;
        if q = 0 then Some str else skip_seps (str + 1) sep r
      })"

partial_function (option) token_end :: "u32 \<Rightarrow> u32 \<Rightarrow> ram \<Rightarrow> u32 option" where
  "token_end e sep r =
     (if r e = 0 then Some e
      else do {
        q \<leftarrow> strchr sep (char_int (r e)) r;
        if q \<noteq> 0 then Some e else token_end (e + 1) sep r
      })"

definition strtok_r :: "u32 \<Rightarrow> u32 \<Rightarrow> u32 \<Rightarrow> ram \<Rightarrow> (u32 \<times> u32 \<times> ram) option" where
  "strtok_r str sep last_ptr r =
     (if str = 0 \<and> last_ptr = 0 then Some (0, last_ptr, r)
      else do {
        let str = (if str = 0 then last_ptr else str);
        str \<leftarrow> skip_seps str sep r;
        if r str = 0 then Some (0, 0, r)
        else do {
          e \<leftarrow> token_end str sep r;
          let last_ptr = (if r e \<noteq> 0 then e + 1 else 0);
          Some (str, last_ptr, r(e := 0))
        }
      })"

definition strtok :: "u32 \<Rightarrow> u32 \<Rightarrow> u32 \<Rightarrow> ram \<Rightarrow> (u32 \<times> u32 \<times> ram) option" where
  "strtok str sep saved_ptr r = strtok_r str sep saved_ptr r"

partial_function (option) strstr_from :: "u32 \<Rightarrow> u32 \<Rightarrow> u32 \<Rightarrow> ram \<Rightarrow> u32 option" where
  "strstr_from str substr len r =
     (if r str = 0 then Some 0
      else if strncmp str substr len r = 0 then Some str
      else strstr_from (str + 1) substr len r)"

definition strstr :: "u32 \<Rightarrow> u32 \<Rightarrow> ram \<Rightarrow> u32 option" where
  "strstr str substr r = do { len \<leftarrow> strlen substr r; strstr_from str substr len r }"

section \<open>Character classes, comparison without case, and the last component of a path\<close>

definition isprint :: "u32 \<Rightarrow> bool" where
  "isprint c \<longleftrightarrow> 0x20 \<le> sint c \<and> sint c \<le> 0x7e"

definition isspace :: "u32 \<Rightarrow> bool" where
  "isspace c \<longleftrightarrow> c \<in> {9, 10, 11, 12, 13, 32}"

definition isgraph :: "u32 \<Rightarrow> bool" where
  "isgraph c \<longleftrightarrow> 0x21 \<le> sint c \<and> sint c \<le> 0x7e"

definition isdigit :: "u32 \<Rightarrow> bool" where
  "isdigit c \<longleftrightarrow> 48 \<le> sint c \<and> sint c \<le> 57"

definition isalnum :: "u32 \<Rightarrow> bool" where
  "isalnum c \<longleftrightarrow> isdigit c \<or> 65 \<le> sint c \<and> sint c \<le> 90 \<or> 97 \<le> sint c \<and> sint c \<le> 122"

definition isxdigit :: "u32 \<Rightarrow> bool" where
  "isxdigit c \<longleftrightarrow> isdigit c \<or> 65 \<le> sint c \<and> sint c \<le> 70 \<or> 97 \<le> sint c \<and> sint c \<le> 102"

definition isascii :: "u32 \<Rightarrow> bool" where
  "isascii c \<longleftrightarrow> c \<le> 127"

definition tolower :: "u32 \<Rightarrow> u32" where
  "tolower c = (if 65 \<le> sint c \<and> sint c \<le> 90 then c OR 0x20 else c)"

definition toupper :: "u32 \<Rightarrow> u32" where
  "toupper c = (if 97 \<le> sint c \<and> sint c \<le> 122 then c AND NOT 0x20 else c)"

partial_function (option) strcasecmp :: "u32 \<Rightarrow> u32 \<Rightarrow> ram \<Rightarrow> int option" where
  "strcasecmp s1 s2 r =
     (let c1 = tolower (char_int (r s1)); c2 = tolower (char_int (r s2)) in
      if c1 = c2 then if r s1 = 0 then Some 0 else strcasecmp (s1 + 1) (s2 + 1) r
      else Some (if sint c1 < sint c2 then - 1 else 1))"

fun strncasecmp_loop :: "nat \<Rightarrow> u32 \<Rightarrow> u32 \<Rightarrow> ram \<Rightarrow> int" where
  "strncasecmp_loop 0 s1 s2 r = 0"
| "strncasecmp_loop (Suc n) s1 s2 r =
     (if tolower (char_int (r s1)) \<noteq> tolower (char_int (r s2))
      then sint (tolower (ucast (r s1))) - sint (tolower (ucast (r s2)))
      else if r s1 = 0 then 0
      else strncasecmp_loop n (s1 + 1) (s2 + 1) r)"

definition strncasecmp :: "u32 \<Rightarrow> u32 \<Rightarrow> u32 \<Rightarrow> ram \<Rightarrow> int" where
  "strncasecmp s1 s2 n r = (if n = 0 then 0 else strncasecmp_loop (unat n) s1 s2 r)"

text \<open>The result of \<^verbatim>\<open>basename\<close>: a pointer into the path, or one of its two string literals.\<close>

datatype base_name = In_path u32 | Dot | Slash

fun trim_slashes :: "nat \<Rightarrow> u32 \<Rightarrow> ram \<Rightarrow> nat \<times> ram" where
  "trim_slashes 0 path r = (0, r)"
| "trim_slashes (Suc n) path r =
     (if n > 0 \<and> r (path + of_nat n) = 47 then trim_slashes n path (r(path + of_nat n := 0))
      else (Suc n, r))"

definition basename :: "u32 \<Rightarrow> ram \<Rightarrow> (base_name \<times> ram) option" where
  "basename path r =
     (if path = 0 then Some (Dot, r)
      else do {
        len \<leftarrow> strlen path r;
        if len = 0 then Some (Dot, r)
        else do {
          let (len, r) = trim_slashes (unat len) path r;
          last_slash \<leftarrow> strrchr path 47 r;
          Some (if last_slash = 0 then In_path path else if len = 1 then Slash
                else In_path (last_slash + 1), r)
        }
      })"

section \<open>What the block routines do\<close>

text \<open>
  The reference definitions: the bytes at distance less than \<open>n\<close> from the destination get the value,
  or the byte at the same distance from the source in the memory before the call.
\<close>

definition fill_ref :: "u32 \<Rightarrow> u8 \<Rightarrow> nat \<Rightarrow> ram \<Rightarrow> ram" where
  "fill_ref d c n r = (\<lambda>a. if unat (a - d) < n then c else r a)"

definition copy_ref :: "u32 \<Rightarrow> u32 \<Rightarrow> nat \<Rightarrow> ram \<Rightarrow> ram" where
  "copy_ref d s n r = (\<lambda>a. if unat (a - d) < n then r (s + (a - d)) else r a)"

lemma window_Suc:
  fixes a d :: u32
  assumes "n < 2 ^ 32"
  shows "unat (a - d) < Suc n \<longleftrightarrow> a = d \<or> unat (a - (d + 1)) < n"
proof (cases "a = d")
  case False
  then have "unat (a - d - 1) = unat (a - d) - 1" and "0 < unat (a - d)"
    by (simp_all add: unat_minus_one unat_gt_0)
  then show ?thesis
    using False by (auto simp: diff_diff_eq)
qed simp

lemma stosb_ref: "n \<le> 2 ^ 32 \<Longrightarrow> stosb n d c r = fill_ref d c n r"
proof (induction n arbitrary: d r)
  case (Suc n)
  then show ?case
    by (auto simp: fill_ref_def fun_eq_iff window_Suc)
qed (simp add: fill_ref_def)

lemma stosb_append: "stosb (m + n) d c r = stosb n (d + of_nat m) c (stosb m d c r)"
  by (induction m arbitrary: d r) (simp_all add: add.assoc)

lemma movsb_append:
  "movsb (m + n) d s r = movsb n (d + of_nat m) (s + of_nat m) (movsb m d s r)"
  by (induction m arbitrary: d s r) (simp_all add: add.assoc)

lemma stosl_stosb:
  assumes "\<And>a r. store32 a v r = stosb 4 a c r"
  shows "stosl k d v r = (d + of_nat (4 * k), stosb (4 * k) d c r)"
proof (induction k arbitrary: d r)
  case (Suc k)
  have "stosb (4 * Suc k) d c r = stosb (4 * k) (d + 4) c (stosb 4 d c r)"
    using stosb_append [of 4 "4 * k" d c r] by simp
  with Suc show ?case
    by (simp add: assms)
qed simp

lemma movsl_movsb:
  assumes "\<And>a b r. a - b = d - s \<Longrightarrow> store32 a (load32 b r) r = movsb 4 a b r"
  shows "movsl k d s r = (d + of_nat (4 * k), s + of_nat (4 * k), movsb (4 * k) d s r)"
  using assms
proof (induction k arbitrary: d s r)
  case (Suc k)
  have "movsb (4 * Suc k) d s r = movsb (4 * k) (d + 4) (s + 4) (movsb 4 d s r)"
    using movsb_append [of 4 "4 * k" d s r] by simp
  moreover have "movsl k (d + 4) (s + 4) r' =
      (d + 4 + of_nat (4 * k), s + 4 + of_nat (4 * k), movsb (4 * k) (d + 4) (s + 4) r')" for r'
    by (rule Suc.IH) (simp add: Suc.prems)
  ultimately show ?case
    by (simp add: Suc.prems)
qed simp

lemma movsb_ref:
  assumes "n \<le> unat (d - s)"
  shows "movsb n d s r = copy_ref d s n r"
  using assms
proof (induction n arbitrary: d s r)
  case (Suc n)
  have n: "n < 2 ^ 32"
    using Suc.prems unat_u32_less [of "d - s"] by simp
  have keep: "s + (a - d) \<noteq> d" if "unat (a - (d + 1)) < n" for a
  proof
    assume "s + (a - d) = d"
    then have "a - d = d - s"
      by (simp add: algebra_simps)
    moreover have "unat (a - d) < Suc n"
      using that window_Suc [OF n, of a d] by simp
    ultimately show False
      using Suc.prems by simp
  qed
  have "movsb (Suc n) d s r = copy_ref (d + 1) (s + 1) n (r(d := r s))"
    using Suc.prems Suc.IH [of "d + 1" "s + 1"] by simp
  also have "\<dots> = copy_ref d s (Suc n) r"
    using keep by (auto simp: copy_ref_def fun_eq_iff window_Suc [OF n])
  finally show ?case .
qed (simp add: copy_ref_def)

lemma move_down_ref:
  assumes "unat (d - s) + n \<le> 2 ^ 32"
  shows "move_down n (d + of_nat n) (s + of_nat n) r = copy_ref d s n r"
  using assms
proof (induction n arbitrary: r)
  case (Suc n)
  define w where "w = (of_nat n :: u32)"
  have w: "unat w = n"
    using Suc.prems by (simp add: w_def unat_of_nat_u32)
  have keep: "s + (a - d) \<noteq> d + w" if "unat (a - d) < n" for a
  proof
    assume "s + (a - d) = d + w"
    then have "a - d = (d - s) + w"
      by (simp add: algebra_simps)
    moreover have "unat ((d - s) + w) = unat (d - s) + n"
      using w Suc.prems by (simp add: unat_word_ariths(1))
    ultimately have "unat (a - d) = unat (d - s) + n"
      by (simp only:)
    with that show False
      by linarith
  qed
  have last: "unat (a - d) < Suc n \<longleftrightarrow> a = d + w \<or> unat (a - d) < n" for a
    using w by (metis add_diff_cancel_left' diff_add_cancel less_Suc_eq word_unat_eq_iff add.commute)
  have "move_down (Suc n) (d + of_nat (Suc n)) (s + of_nat (Suc n)) r =
      copy_ref d s n (r(d + w := r (s + w)))"
    using Suc by (simp add: w_def add.commute [of 1])
  also have "\<dots> = copy_ref d s (Suc n) r"
    using keep w by (auto simp: copy_ref_def fun_eq_iff last)
  finally show ?case .
qed (simp add: copy_ref_def)

lemma load32_bytes:
  "ucast (load32 a r) = r a"
  "ucast (drop_bit 8 (load32 a r)) = r (a + 1)"
  "ucast (drop_bit 16 (load32 a r)) = r (a + 2)"
  "ucast (drop_bit 24 (load32 a r)) = r (a + 3)"
  by (rule bit_word_eqI, auto simp: load32_def bit_simps dest: bit_imp_le_length)+

lemma near_shift:
  fixes a b :: u32
  shows "a - b \<noteq> k \<Longrightarrow> b + k \<noteq> a"
  by (auto simp: algebra_simps)

lemma store32_movsb:
  fixes a b :: u32
  assumes "a - b \<notin> {1, 2, 3}"
  shows "store32 a (load32 b r) r = movsb 4 a b r"
proof -
  have "b + 1 \<noteq> a" "b + 2 \<noteq> a" "b + 3 \<noteq> a"
    using assms by (auto intro: near_shift)
  moreover have "b + 2 \<noteq> a + 1" "b + 3 \<noteq> a + 2"
    using near_shift [of a b 1] assms by (auto simp: algebra_simps)
  moreover have "b + 3 \<noteq> a + 1"
    using near_shift [of a b 2] assms by (auto simp: algebra_simps)
  moreover have "movsb 4 a b r = movsb (Suc (Suc (Suc (Suc 0)))) a b r"
    by (simp add: numeral_eq_Suc)
  ultimately show ?thesis
    by (simp add: store32_def load32_bytes add.assoc)
qed

lemma store32_stosb:
  assumes "c \<le> 255"
  shows "store32 a (push_bit 24 c OR push_bit 16 c OR push_bit 8 c OR c) r = stosb 4 a (ucast c) r"
proof -
  define d where "d = push_bit 24 c OR push_bit 16 c OR push_bit 8 c OR c"
  have c: "\<not> bit c i" if "8 \<le> i" for i
  proof -
    have "c < 256"
      using assms by (simp add: word_le_nat_alt word_less_nat_alt)
    then have "c mod 256 = c"
      by (rule mod_word_less)
    then have "take_bit 8 c = c"
      by (simp add: take_bit_eq_mod)
    then have "bit c i = bit (take_bit 8 c) i"
      by simp
    then show ?thesis
      using that by (simp add: bit_simps)
  qed
  have "ucast d = (ucast c :: u8)" "ucast (drop_bit 8 d) = (ucast c :: u8)"
    "ucast (drop_bit 16 d) = (ucast c :: u8)" "ucast (drop_bit 24 d) = (ucast c :: u8)"
    by (rule bit_word_eqI, auto simp: d_def bit_simps c)+
  moreover have "stosb 4 a (ucast c) r = stosb (Suc (Suc (Suc (Suc 0)))) a (ucast c) r"
    by (simp add: numeral_eq_Suc)
  ultimately show ?thesis
    by (simp add: store32_def add.assoc flip: d_def)
qed

text \<open>The word-at-a-time loops are the byte loops.\<close>

lemma div4_parts: "4 * unat (n div 4 :: u32) + unat (n - 4 * (n div 4)) = unat n"
  "of_nat (4 * unat (n div 4)) = (4 * (n div 4) :: u32)"
proof -
  have le: "4 * unat (n div 4) \<le> unat n"
    by (simp add: unat_div)
  then have u: "unat (4 * (n div 4)) = 4 * unat (n div 4)"
    using unat_u32_less [of n] by (simp add: unat_word_ariths(2))
  then have "4 * (n div 4) \<le> n"
    using le by (simp add: word_le_nat_alt)
  then show "4 * unat (n div 4) + unat (n - 4 * (n div 4)) = unat n"
    using le u by (simp add: unat_sub)
  show "of_nat (4 * unat (n div 4)) = (4 * (n div 4) :: u32)"
    by simp
qed

lemma memcpy_movsb:
  assumes "unat n \<le> unat (d - s)"
  shows "memcpy d s n r = movsb (unat n) d s r"
proof (cases "d AND 3 = 0 \<and> s AND 3 = 0 \<and> n \<ge> 4")
  case True
  have "d - s \<notin> {1, 2, 3}"
    using True assms by (auto simp: word_le_nat_alt)
  then have "movsl k d s r = (d + of_nat (4 * k), s + of_nat (4 * k), movsb (4 * k) d s r)" for k
    by (intro movsl_movsb store32_movsb) simp
  moreover have "movsb (unat n) d s r =
      movsb (unat (n - 4 * (n div 4))) (d + 4 * (n div 4)) (s + 4 * (n div 4))
        (movsb (4 * unat (n div 4)) d s r)"
    using movsb_append [of "4 * unat (n div 4)" "unat (n - 4 * (n div 4))" d s r] div4_parts [of n]
    by simp
  ultimately show ?thesis
    using True div4_parts [of n] by (simp add: memcpy_def Let_def)
next
  case False
  then show ?thesis
    by (simp only: memcpy_def if_False)
qed

lemma memset_correct:
  assumes "c \<le> 255"
  shows "memset s c n r = fill_ref s (ucast c) (unat n) r"
proof -
  let ?d = "push_bit 24 c OR push_bit 16 c OR push_bit 8 c OR c"
  have "stosl k a ?d r = (a + of_nat (4 * k), stosb (4 * k) a (ucast c) r)" for k a r
    by (intro stosl_stosb store32_stosb assms)
  moreover have "stosb (unat n) s (ucast c) r =
      stosb (unat (n - 4 * (n div 4))) (s + 4 * (n div 4)) (ucast c)
        (stosb (4 * unat (n div 4)) s (ucast c) r)"
    using stosb_append [of "4 * unat (n div 4)" "unat (n - 4 * (n div 4))" s] div4_parts [of n]
    by simp
  ultimately have "memset s c n r = stosb (unat n) s (ucast c) r"
    using div4_parts [of n] by (simp add: memset_def Let_def)
  then show ?thesis
    using unat_u32_less [of n] by (simp add: stosb_ref)
qed

text \<open>
  \<^verbatim>\<open>memset\<close> builds its word from the whole \<^verbatim>\<open>int\<close> and not from its low byte, so a value outside the range of
  a byte gives different bytes in one block, and the result depends on the alignment of the block.
\<close>

lemma memset_wide_value:
  "memset 0x1000 0x100 4 (\<lambda>_. 0) 0x1001 = 1"
  "memset 0x1001 0x100 4 (\<lambda>_. 0) 0x1001 = 0"
  by code_simp+

text \<open>
  C25. \<^verbatim>\<open>memmove\<close> copies the block as it was before the call, also when the two blocks overlap, and
  changes no other byte: the word-at-a-time copy of \<^verbatim>\<open>memcpy\<close> and the downward loop, with the unsigned
  test on the distance that chooses between them, agree with copying all bytes at once.
\<close>

theorem memmove_correct:
  assumes "n \<le> 0x80000000"
  shows "memmove dest src n r = copy_ref dest src (unat n) r"
proof (cases "dest - src \<ge> n")
  case True
  then show ?thesis
    by (simp add: memmove_def word_le_nat_alt memcpy_movsb movsb_ref)
next
  case False
  have "unat (dest - src) + unat n \<le> 2 ^ 32"
    using False assms by (simp add: word_le_nat_alt)
  then have "move_down (unat n) (dest + of_nat (unat n)) (src + of_nat (unat n)) r =
      copy_ref dest src (unat n) r"
    by (rule move_down_ref)
  with False show ?thesis
    by (simp add: memmove_def)
qed

theorem memmove_correct_witness:
  "(7 :: u32) \<le> 0x80000000 \<and>
   map (memmove 0x1002 0x1000 7 (\<lambda>a. ucast a)) [0x1001, 0x1002, 0x1008, 0x1009] = [1, 0, 6, 9] \<and>
   map (memmove 0x1000 0x1004 7 (\<lambda>a. ucast a)) [0x1000, 0x1006, 0x1007] = [4, 10, 7]"
  by (simp add: memmove_correct copy_ref_def unsigned_minus_1_eq_mask mask_eq_exp_minus_1)

section \<open>What the string routines do\<close>

text \<open>The terminated string at an address, the addresses of a block, and storing bytes one after another.\<close>

primrec cstr :: "ram \<Rightarrow> u32 \<Rightarrow> u8 list \<Rightarrow> bool" where
  "cstr r p [] \<longleftrightarrow> r p = 0"
| "cstr r p (x # xs) \<longleftrightarrow> r p = x \<and> x \<noteq> 0 \<and> cstr r (p + 1) xs"

primrec block :: "u32 \<Rightarrow> nat \<Rightarrow> u32 list" where
  "block p 0 = []"
| "block p (Suc n) = p # block (p + 1) n"

primrec write_bytes :: "u32 \<Rightarrow> u8 list \<Rightarrow> ram \<Rightarrow> ram" where
  "write_bytes p [] r = r"
| "write_bytes p (x # xs) r = write_bytes (p + 1) xs (r(p := x))"

lemma block_append: "block p (m + n) = block p m @ block (p + of_nat m) n"
  by (induction m arbitrary: p) (simp_all add: add.assoc)

lemma set_block: "set (block p n) = (\<lambda>i. p + of_nat i) ` {..<n}"
proof (induction n arbitrary: p)
  case (Suc n)
  have "(\<lambda>i. p + of_nat i) ` {..<Suc n} = insert p ((\<lambda>i. p + 1 + of_nat i) ` {..<n})"
    by (force simp: lessThan_Suc_eq_insert_0 image_image add.assoc)
  with Suc show ?case
    by simp
qed simp

lemma set_block_mono: "m \<le> n \<Longrightarrow> set (block p m) \<subseteq> set (block p n)"
  by (auto simp: set_block)

lemma cstr_cong:
  "(\<And>a. a \<in> set (block p (Suc (length s))) \<Longrightarrow> r' a = r a) \<Longrightarrow> cstr r' p s \<longleftrightarrow> cstr r p s"
proof (induction s arbitrary: p)
  case (Cons x s)
  have "cstr r' (p + 1) s \<longleftrightarrow> cstr r (p + 1) s"
    by (rule Cons.IH) (use Cons.prems in simp)
  with Cons.prems [of p] show ?case
    by simp
qed simp

lemma cstr_upd:
  "a \<notin> set (block p (Suc (length s))) \<Longrightarrow> cstr (r(a := v)) p s \<longleftrightarrow> cstr r p s"
  by (rule cstr_cong) auto

lemma cstr_append:
  "cstr r p (s @ t) \<longleftrightarrow> cstr (r(p + of_nat (length s) := 0)) p s \<and> cstr r (p + of_nat (length s)) t"
  if "length s < 2 ^ 32"
  using that
proof (induction s arbitrary: p)
  case (Cons x s)
  have "p \<noteq> p + 1 + of_nat (length s)"
  proof
    assume "p = p + 1 + of_nat (length s)"
    then have "of_nat (Suc (length s)) = (0 :: u32)"
      by (simp add: algebra_simps)
    then have "unat (of_nat (Suc (length s)) :: u32) = 0"
      by simp
    then show False
      using Cons.prems unat_of_nat_u32 [of "Suc (length s)"] by simp
  qed
  with Cons show ?case
    by (auto simp: add.assoc)
qed simp

lemma cstr_nonzero: "cstr r p s \<Longrightarrow> 0 \<notin> set s"
  by (induction s arbitrary: p) auto

lemma strlen_from_cstr: "cstr r p s \<Longrightarrow> strlen_from len p r = Some (len + of_nat (length s))"
  by (induction s arbitrary: p len) (subst strlen_from.simps, simp add: add.assoc)+

lemma strlen_cstr: "cstr r p s \<Longrightarrow> strlen p r = Some (of_nat (length s))"
  by (simp add: strlen_def strlen_from_cstr)

lemma strnlen_from_cstr:
  "cstr r p s \<Longrightarrow> strnlen_from n len p r = len + of_nat (min n (length s))"
proof (induction s arbitrary: p len n)
  case Nil
  then show ?case by (cases n) auto
next
  case (Cons x s)
  then show ?case by (cases n) (auto simp: add.assoc)
qed

lemma strcmp_cstr:
  assumes "cstr r p s" "cstr r q t"
  shows "\<exists>v. strcmp p q r = Some v \<and> (v = 0 \<longleftrightarrow> s = t)"
  using assms
proof (induction s arbitrary: p q t)
  case Nil
  then show ?case
    by (cases t) (subst strcmp.simps, auto)+
next
  case (Cons x s)
  then show ?case
    by (cases t) (subst strcmp.simps, auto)+
qed

lemma strncmp_loop_cstr:
  assumes "cstr r p s" "cstr r q t"
  shows "strncmp_loop n p q r = 0 \<longleftrightarrow> take n s = take n t"
  using assms
proof (induction n arbitrary: p q s t)
  case (Suc n)
  then show ?case
    by (cases s; cases t) (auto simp: uint_0_iff simp flip: word_uint_eq_iff)
qed simp

lemma char_int_inj [simp]: "char_int a = char_int b \<longleftrightarrow> a = b"
proof
  assume eq: "char_int a = char_int b"
  have "ucast (char_int c) = c" for c
    by (rule bit_word_eqI) (simp add: char_int_def bit_simps min_absorb2)
  then show "a = b"
    using eq by metis
qed simp

lemma write_bytes_outside: "a \<notin> set (block p (length xs)) \<Longrightarrow> write_bytes p xs r a = r a"
  by (induction xs arbitrary: p r) auto

lemma write_bytes_append:
  "write_bytes p (xs @ ys) r = write_bytes (p + of_nat (length xs)) ys (write_bytes p xs r)"
  by (induction xs arbitrary: p r) (simp_all add: add.assoc)

lemma block_ahead: "p \<notin> set (block (p + 1) n)" if "n < 2 ^ 32 - 1"
proof
  assume "p \<in> set (block (p + 1) n)"
  then obtain i where i: "i < n" "p = p + 1 + of_nat i"
    by (auto simp: set_block)
  then have "of_nat (Suc i) = (0 :: u32)"
    by (simp add: algebra_simps)
  then have "unat (of_nat (Suc i) :: u32) = 0"
    by simp
  then show False
    using i(1) that unat_of_nat_u32 [of "Suc i"] by simp
qed

lemma cstr_write_bytes:
  assumes "length s < 2 ^ 32 - 1" "0 \<notin> set s"
  shows "cstr (write_bytes p (s @ [0]) r) p s"
  using assms
proof (induction s arbitrary: p r)
  case (Cons x s)
  have "p \<notin> set (block (p + 1) (length (s @ [0])))"
    by (rule block_ahead) (use Cons.prems in simp)
  then have "write_bytes (p + 1) (s @ [0]) (r(p := x)) p = x"
    by (simp add: write_bytes_outside)
  then show ?case
    using Cons by auto
qed simp

lemma cstr_drop: "cstr r p s \<Longrightarrow> k \<le> length s \<Longrightarrow> cstr r (p + of_nat k) (drop k s)"
proof (induction s arbitrary: p k)
  case (Cons x s)
  then show ?case
    by (cases k) (auto simp: add.assoc [symmetric])
qed simp

lemma cstr_write_disjoint:
  "set (block d (length xs)) \<inter> set (block p (Suc (length s))) = {} \<Longrightarrow>
   cstr (write_bytes d xs r) p s \<longleftrightarrow> cstr r p s"
  by (rule cstr_cong) (blast intro: write_bytes_outside)

lemma strcpy_cstr:
  assumes "cstr r src s" "set (block d (Suc (length s))) \<inter> set (block src (Suc (length s))) = {}"
  shows "strcpy d src r = Some (write_bytes d (s @ [0]) r)"
  using assms
proof (induction s arbitrary: d src r)
  case Nil
  then show ?case
    by (subst strcpy.simps) simp
next
  case (Cons x s)
  have sub: "d \<notin> set (block (src + 1) (Suc (length s)))"
    "set (block (d + 1) (Suc (length s))) \<inter> set (block (src + 1) (Suc (length s))) = {}"
    using Cons.prems(2) by auto
  then have "cstr (r(d := x)) (src + 1) s"
    using Cons.prems(1) cstr_upd by simp
  then have "strcpy (d + 1) (src + 1) (r(d := x)) = Some (write_bytes (d + 1) (s @ [0]) (r(d := x)))"
    using sub(2) by (rule Cons.IH)
  then show ?case
    using Cons.prems(1) by (subst strcpy.simps) simp
qed

lemma strlcpy_copy_cstr:
  assumes "cstr r src s" "len < sz" "k = min (length s) (unat sz - 1 - unat len)"
    and "set (block d k) \<inter> set (block src (Suc (length s))) = {}"
  shows "strlcpy_copy len d src sz r =
    Some (len + of_nat k, d + of_nat k, src + of_nat k, write_bytes d (take k s) r)"
  using assms
proof (induction s arbitrary: len d src r k)
  case Nil
  then show ?case
    by (subst strlcpy_copy.simps) simp
next
  case (Cons x s)
  have len1: "unat (len + 1) = unat len + 1"
    using Cons.prems(2) unat_u32_less [of sz] by (simp add: word_less_nat_alt unat_word_ariths(1))
  show ?case
  proof (cases "len + 1 < sz")
    case False
    then have "k = 0"
      using Cons.prems(2,3) len1 by (simp add: word_less_nat_alt)
    then show ?thesis
      using False by (subst strlcpy_copy.simps) simp
  next
    case True
    define k' where "k' = min (length s) (unat sz - 1 - unat (len + 1))"
    have k: "k = Suc k'"
      using True Cons.prems(3) len1 by (simp add: k'_def word_less_nat_alt)
    have sub: "d \<notin> set (block (src + 1) (Suc (length s)))"
      "set (block (d + 1) k') \<inter> set (block (src + 1) (Suc (length s))) = {}"
      using Cons.prems(4) k by auto
    then have "cstr (r(d := x)) (src + 1) s"
      using Cons.prems(1) cstr_upd by simp
    then have "strlcpy_copy (len + 1) (d + 1) (src + 1) sz (r(d := x)) =
      Some (len + 1 + of_nat k', d + 1 + of_nat k', src + 1 + of_nat k',
            write_bytes (d + 1) (take k' s) (r(d := x)))"
      using True k'_def sub(2) by (rule Cons.IH)
    then show ?thesis
      using Cons.prems(1) True k by (subst strlcpy_copy.simps) (simp add: add.assoc)
  qed
qed

text \<open>
  C26. \<^verbatim>\<open>strlcpy\<close> returns the length of the source, leaves every byte outside the \<^verbatim>\<open>size\<close> bytes of the
  destination alone, and, unless that size is 0, leaves there a terminated string: the longest prefix
  of the source that fits.
\<close>

theorem strlcpy_bounded:
  assumes "cstr r src s" "set (block dst (unat sz)) \<inter> set (block src (Suc (length s))) = {}"
  shows "\<exists>r'. strlcpy dst src sz r = Some (of_nat (length s), r') \<and>
    (\<forall>a. a \<notin> set (block dst (unat sz)) \<longrightarrow> r' a = r a) \<and>
    (sz \<noteq> 0 \<longrightarrow> cstr r' dst (take (unat sz - 1) s))"
proof (cases "sz = 0")
  case True
  have "strlcpy_copy 0 dst src sz r = Some (0, dst, src, r)"
    using True by (subst strlcpy_copy.simps) simp
  then show ?thesis
    using True strlen_from_cstr [OF assms(1), of 0] by (simp add: strlcpy_def)
next
  case False
  define k where "k = min (length s) (unat sz - 1)"
  have szpos: "0 < unat sz"
    using False by (simp add: unat_gt_0)
  then have k: "Suc k \<le> unat sz"
    by (simp add: k_def)
  let ?r' = "write_bytes dst (take k s @ [0]) r"
  have len: "length (take k s @ [0]) = Suc k"
    by (simp add: k_def)
  have sub: "set (block dst (Suc k)) \<subseteq> set (block dst (unat sz))"
    using k by (rule set_block_mono)
  have "strlcpy_copy 0 dst src sz r =
    Some (0 + of_nat k, dst + of_nat k, src + of_nat k, write_bytes dst (take k s) r)"
    using assms False set_block_mono [of k "unat sz" dst] k
    by (intro strlcpy_copy_cstr) (auto simp: k_def word_neq_0_conv)
  moreover have "(write_bytes dst (take k s) r)(dst + of_nat k := 0) = ?r'"
    by (simp add: write_bytes_append k_def)
  moreover have "strlen_from (of_nat k) (src + of_nat k) ?r' = Some (of_nat (length s))"
  proof -
    have "cstr ?r' src s"
      using assms sub len by (subst cstr_write_disjoint) auto
    then have "cstr ?r' (src + of_nat k) (drop k s)"
      by (rule cstr_drop) (simp add: k_def)
    then have "strlen_from (of_nat k) (src + of_nat k) ?r' =
        Some (of_nat k + of_nat (length (drop k s)))"
      by (rule strlen_from_cstr)
    then show ?thesis
      by (simp add: k_def flip: of_nat_add)
  qed
  ultimately have "strlcpy dst src sz r = Some (of_nat (length s), ?r')"
    using False by (simp add: strlcpy_def word_neq_0_conv)
  moreover have "\<forall>a. a \<notin> set (block dst (unat sz)) \<longrightarrow> ?r' a = r a"
  proof (intro allI impI)
    fix a
    assume "a \<notin> set (block dst (unat sz))"
    with sub have "a \<notin> set (block dst (length (take k s @ [0])))"
      unfolding len by blast
    then show "?r' a = r a"
      by (rule write_bytes_outside)
  qed
  moreover have "cstr ?r' dst (take k s)"
  proof (rule cstr_write_bytes)
    show "length (take k s) < 2 ^ 32 - 1"
      using k unat_u32_less [of sz] by simp
    show "0 \<notin> set (take k s)"
      using cstr_nonzero [OF assms(1)] by (auto dest: in_set_takeD)
  qed
  moreover have "take k s = take (unat sz - 1) s"
    by (simp add: k_def min_def)
  ultimately show ?thesis
    by (intro exI [of _ ?r'] conjI) simp_all
qed

definition example_ram :: ram where
  "example_ram = write_bytes 0x2000 [104, 101, 108, 108, 111, 0] (\<lambda>_. 7)"

theorem strlcpy_bounded_witness:
  "\<exists>r'. strlcpy 0x3000 0x2000 3 example_ram = Some (5, r') \<and> cstr r' 0x3000 [104, 101] \<and>
     r' 0x3003 = 7"
proof -
  have "cstr example_ram 0x2000 [104, 101, 108, 108, 111]"
    by (simp add: example_ram_def)
  moreover have "set (block 0x3000 (unat (3 :: u32))) \<inter>
      set (block 0x2000 (Suc (length [104, 101, 108, 108, 111 :: u8]))) = {}"
    by code_simp
  ultimately obtain r' where r':
    "strlcpy 0x3000 0x2000 3 example_ram = Some (of_nat (length [104, 101, 108, 108, 111 :: u8]), r')"
    "\<forall>a. a \<notin> set (block 0x3000 (unat (3 :: u32))) \<longrightarrow> r' a = example_ram a"
    "(3 :: u32) \<noteq> 0 \<longrightarrow> cstr r' 0x3000 (take (unat (3 :: u32) - 1) [104, 101, 108, 108, 111])"
    using strlcpy_bounded by blast
  have "0x3003 \<notin> set (block 0x3000 (unat (3 :: u32)))"
    by code_simp
  then have "r' 0x3003 = example_ram 0x3003"
    using r'(2) by blast
  moreover have "example_ram 0x3003 = 7"
    by (simp add: example_ram_def)
  moreover have "take (unat (3 :: u32) - 1) [104, 101, 108, 108, 111] = [104, 101 :: u8]"
    by simp
  ultimately show ?thesis
    using r'(1,3) by (intro exI [of _ r'] conjI) simp_all
qed

text \<open>Searching: the separators of \<^verbatim>\<open>strtok_r\<close> do not lie across the address 0.\<close>

lemma strchr_cstr:
  assumes "cstr r p s" "0 \<notin> set (block p (length s))"
  shows "\<exists>q. strchr p (char_int c) r = Some q \<and> (q = 0 \<longleftrightarrow> c \<notin> set s)"
  using assms
proof (induction s arbitrary: p)
  case Nil
  then show ?case
    by (subst strchr.simps) simp
next
  case (Cons x s)
  then show ?case
    by (subst strchr.simps) auto
qed

lemma skip_seps_cstr:
  assumes "cstr r p s" "cstr r sep t" "0 \<notin> set (block sep (length t))"
  shows "skip_seps p sep r = Some (p + of_nat (length (takeWhile (\<lambda>c. c \<in> set t) s)))"
  using assms(1)
proof (induction s arbitrary: p)
  case Nil
  then show ?case
    by (subst skip_seps.simps) simp
next
  case (Cons x s)
  obtain q where "strchr sep (char_int x) r = Some q" "q = 0 \<longleftrightarrow> x \<notin> set t"
    using strchr_cstr [OF assms(2,3)] by blast
  with Cons show ?case
    by (subst skip_seps.simps) (auto simp: add.assoc)
qed

lemma token_end_cstr:
  assumes "cstr r p s" "cstr r sep t" "0 \<notin> set (block sep (length t))"
  shows "token_end p sep r = Some (p + of_nat (length (takeWhile (\<lambda>c. c \<notin> set t) s)))"
  using assms(1)
proof (induction s arbitrary: p)
  case Nil
  then show ?case
    by (subst token_end.simps) simp
next
  case (Cons x s)
  obtain q where "strchr sep (char_int x) r = Some q" "q = 0 \<longleftrightarrow> x \<notin> set t"
    using strchr_cstr [OF assms(2,3)] by blast
  with Cons show ?case
    by (subst token_end.simps) (auto simp: add.assoc)
qed

lemma cstr_at_zero: "cstr r p s \<Longrightarrow> r p = 0 \<longleftrightarrow> s = []"
  by (cases s) auto

lemma cstr_cut:
  assumes "cstr r p s" "k \<le> length s" "k < 2 ^ 32"
  shows "cstr (r(p + of_nat k := 0)) p (take k s)"
proof -
  have "cstr r p (take k s @ drop k s)"
    using assms(1) by simp
  then show ?thesis
    using assms by (subst (asm) cstr_append) (simp_all add: min_absorb2)
qed

text \<open>
  C27. One call of \<^verbatim>\<open>strtok_r\<close> on a terminated string: it skips the leading separators and, if anything is
  left, returns the first token as a terminated string in place and remembers the text after the
  separator that ended it; the memory changes in at most that one byte. With nothing left it returns
  a null pointer, and so does every later call.
\<close>

theorem strtok_r_token:
  assumes "cstr r p s" "length s < 2 ^ 32" "str = p \<and> p \<noteq> 0 \<or> str = 0 \<and> last_ptr = p \<and> p \<noteq> 0"
    and "cstr r sep t" "0 \<notin> set (block sep (length t))"
    and "rest = dropWhile (\<lambda>c. c \<in> set t) s" "tok = takeWhile (\<lambda>c. c \<notin> set t) rest"
  shows "if rest = [] then strtok_r str sep last_ptr r = Some (0, 0, r) \<and> strtok_r 0 sep 0 r = Some (0, 0, r)
    else let q = p + of_nat (length s - length rest); e = q + of_nat (length tok); r' = r(e := 0) in
      strtok_r str sep last_ptr r = Some (q, if tok = rest then 0 else e + 1, r') \<and>
      cstr r' q tok \<and> (tok \<noteq> rest \<longrightarrow> cstr r (e + 1) (drop (Suc (length tok)) rest))"
proof -
  define n where "n = length (takeWhile (\<lambda>c. c \<in> set t) s)"
  have "length s = n + length rest"
    unfolding n_def assms(6) by (metis length_append takeWhile_dropWhile_id)
  then have n: "n = length s - length rest" "n \<le> length s"
    by simp_all
  have rest: "cstr r (p + of_nat n) rest"
    using cstr_drop [OF assms(1) n(2)] by (simp add: assms(6) n_def flip: dropWhile_eq_drop)
  have skip: "skip_seps p sep r = Some (p + of_nat n)"
    unfolding n_def by (rule skip_seps_cstr [OF assms(1,4,5)])
  have start: "strtok_r str sep last_ptr r =
      (if rest = [] then Some (0, 0, r)
       else do { e \<leftarrow> token_end (p + of_nat n) sep r;
                 Some (p + of_nat n, if r e \<noteq> 0 then e + 1 else 0, r(e := 0)) })"
    using assms(3) skip cstr_at_zero [OF rest] by (auto simp: strtok_r_def Let_def)
  show ?thesis
  proof (cases "rest = []")
    case True
    then show ?thesis
      using start by (simp add: strtok_r_def)
  next
    case False
    let ?q = "p + of_nat n"
    let ?e = "?q + of_nat (length tok)"
    have tok: "tok = take (length tok) rest" "length tok \<le> length rest"
      unfolding assms(7) by (simp_all add: length_takeWhile_le flip: takeWhile_eq_take)
    have "token_end ?q sep r = Some ?e"
      unfolding assms(7) by (rule token_end_cstr [OF rest assms(4,5)])
    moreover have "r ?e = 0 \<longleftrightarrow> tok = rest"
      using cstr_at_zero [OF cstr_drop [OF rest tok(2)]] tok
      by (metis append_Nil2 append_take_drop_id drop_all order_refl)
    ultimately have "strtok_r str sep last_ptr r = Some (?q, if tok = rest then 0 else ?e + 1, r(?e := 0))"
      using start False by simp
    moreover have "cstr (r(?e := 0)) ?q tok"
      using cstr_cut [OF rest tok(2)] assms(2) tok(2) \<open>length s = n + length rest\<close>
      by (simp flip: tok(1))
    moreover have "cstr r (?e + 1) (drop (Suc (length tok)) rest)" if "tok \<noteq> rest"
    proof -
      have "Suc (length tok) \<le> length rest"
        using that tok by (metis not_less_eq_eq take_all)
      from cstr_drop [OF rest this] show ?thesis
        by (simp add: ac_simps)
    qed
    ultimately show ?thesis
      using False unfolding n(1) by (simp add: Let_def)
  qed
qed

definition example_line :: ram where
  "example_line = write_bytes 0x3000 [32, 44, 0] (write_bytes 0x2000 [32, 97, 98, 44, 99, 0] (\<lambda>_. 7))"

theorem strtok_r_token_witness:
  "strtok_r 0x2000 0x3000 0 example_line = Some (0x2001, 0x2004, example_line(0x2003 := 0)) \<and>
   cstr (example_line(0x2003 := 0)) 0x2001 [97, 98] \<and> cstr example_line 0x2004 [99]"
proof -
  have "cstr example_line 0x2000 [32, 97, 98, 44, 99]" "cstr example_line 0x3000 [32, 44]"
    by (simp_all add: example_line_def)
  moreover have "0 \<notin> set (block 0x3000 (length [32, 44 :: u8]))"
    by simp
  ultimately show ?thesis
    using strtok_r_token [of example_line "0x2000" "[32, 97, 98, 44, 99]" "0x2000" 0 "0x3000" "[32, 44]"
        "[97, 98, 44, 99]" "[97, 98]"]
    by (simp add: Let_def)
qed
end
