(* ===== verification/Stdlib.thy ===== *)
theory Stdlib
  imports Cstring "HOL-Library.Multiset"
begin

text \<open>
  \<^verbatim>\<open>common/stdlib.c\<close>: reading decimal numbers and sorting an array in place. Both work on the memory of
  theory \<open>Cstring\<close>. The array of \<^verbatim>\<open>qsort\<close> is a block of \<^verbatim>\<open>nmemb * size\<close> bytes and its elements are moved
  byte by byte; the comparison function is a parameter that gets two addresses and the memory.
\<close>

section \<open>Decimal numbers\<close>

partial_function (option) skip_spaces :: "u32 \<Rightarrow> ram \<Rightarrow> u32 option" where
  "skip_spaces str r =
     (if r str \<noteq> 0 \<and> isspace (char_int (r str)) then skip_spaces (str + 1) r else Some str)"

partial_function (option) read_digits :: "u32 \<Rightarrow> u32 \<Rightarrow> ram \<Rightarrow> u32 option" where
  "read_digits res str r =
     (if 48 \<le> sint (r str) \<and> sint (r str) \<le> 57
      then read_digits (res * 10 + (char_int (r str) - 48)) (str + 1) r
      else Some res)"

partial_function (option) atoi :: "u32 \<Rightarrow> ram \<Rightarrow> u32 option" where
  "atoi str r =
     (if r str = 0 then Some 0
      else do {
        str \<leftarrow> skip_spaces str r;
        if r str = 45 then do { v \<leftarrow> atoi (str + 1) r; Some (- v) }
        else read_digits 0 str r
      })"

definition abs_int :: "u32 \<Rightarrow> u32" where
  "abs_int i = (if sint i < 0 then - i else i)"

section \<open>Sorting\<close>

type_synonym compar = "u32 \<Rightarrow> u32 \<Rightarrow> ram \<Rightarrow> int"

fun memswap :: "nat \<Rightarrow> u32 \<Rightarrow> u32 \<Rightarrow> ram \<Rightarrow> ram" where
  "memswap 0 c1 c2 r = r"
| "memswap (Suc n) c1 c2 r = memswap n (c1 + 1) (c2 + 1) (r(c1 := r c2, c2 := r c1))"

text \<open>
  The partitioning loop: \<open>k\<close> is \<^verbatim>\<open>nmemb - j\<close>, \<open>i\<close> is where the next element below the pivot goes. The
  pivot stays in the first element.
\<close>

fun partition_loop :: "compar \<Rightarrow> u32 \<Rightarrow> u32 \<Rightarrow> nat \<Rightarrow> u32 \<Rightarrow> u32 \<Rightarrow> ram \<Rightarrow> u32 \<times> ram" where
  "partition_loop compar start sz 0 j i r = (i, r)"
| "partition_loop compar start sz (Suc k) j i r =
     (if compar (start + j * sz) start r < 0
      then partition_loop compar start sz k (j + 1) (i + 1)
             (memswap (unat sz) (start + j * sz) (start + i * sz) r)
      else partition_loop compar start sz k (j + 1) i r)"

lemma partition_loop_bound:
  assumes "partition_loop compar start sz k j i r = (i', r')" "unat i + k < 2 ^ 32"
  shows "unat i \<le> unat i' \<and> unat i' \<le> unat i + k"
  using assms
proof (induction k arbitrary: j i r)
  case (Suc k)
  then have "unat (i + 1) = unat i + 1"
    by (simp add: unat_word_ariths(1))
  with Suc.prems show ?case
    by (auto split: if_splits dest!: Suc.IH)
qed simp

function qsort :: "compar \<Rightarrow> u32 \<Rightarrow> u32 \<Rightarrow> u32 \<Rightarrow> ram \<Rightarrow> ram" where
  "qsort compar start nmemb sz r =
     (if nmemb > 1 then
        let pivot_point = nmemb div 2;
            r = (if pivot_point \<noteq> 0 then memswap (unat sz) (start + pivot_point * sz) start r else r);
            (i, r) = partition_loop compar start sz (unat nmemb - 1) 1 1 r;
            r = memswap (unat sz) start (start + (i - 1) * sz) r
        in if i > nmemb div 2 then
             let r = qsort compar (start + i * sz) (nmemb - i) sz r
             in qsort compar start (i - 1) sz r
           else
             let r = qsort compar start (i - 1) sz r
             in qsort compar (start + i * sz) (nmemb - i) sz r
      else r)"
  by pat_completeness auto

lemma partition_index:
  assumes "nmemb > 1" "partition_loop compar start sz (unat nmemb - 1) 1 1 r = (i, r')"
  shows "0 < unat i" "unat i \<le> unat nmemb" "unat (i - 1) = unat i - 1"
    "unat (nmemb - i) = unat nmemb - unat i"
proof -
  have "1 < unat nmemb"
    using assms(1) by (simp add: word_less_nat_alt)
  then show i: "0 < unat i" "unat i \<le> unat nmemb"
    using partition_loop_bound [OF assms(2)] unat_u32_less [of nmemb] by simp_all
  then have "i \<noteq> 0"
    by (simp add: unat_gt_0)
  then show "unat (i - 1) = unat i - 1"
    by (simp add: unat_minus_one)
  show "unat (nmemb - i) = unat nmemb - unat i"
    using i by (simp add: unat_sub word_le_nat_alt)
qed

lemma partition_smaller:
  assumes "(i, r') = partition_loop compar start sz (unat nmemb - Suc 0) 1 1 r" "nmemb > 1"
  shows "unat (i - 1) < unat nmemb" "unat (nmemb - i) < unat nmemb"
  using partition_index [OF assms(2), of compar start sz r i r'] assms(1) by simp_all

termination qsort
  by (relation "measure (\<lambda>(compar, start, nmemb, sz, r). unat nmemb)")
     (auto dest: partition_smaller)

declare qsort.simps [simp del]

section \<open>The elements of an array\<close>

definition elem :: "ram \<Rightarrow> u32 \<Rightarrow> u32 \<Rightarrow> u8 list" where
  "elem r sz a = map r (block a (unat sz))"

definition elems :: "ram \<Rightarrow> u32 \<Rightarrow> u32 \<Rightarrow> nat \<Rightarrow> u8 list list" where
  "elems r start sz n = map (\<lambda>i. elem r sz (start + of_nat i * sz)) [0..<n]"

definition in_array :: "u32 \<Rightarrow> u32 \<Rightarrow> nat \<Rightarrow> u32 \<Rightarrow> bool" where
  "in_array start sz n a \<longleftrightarrow> unat (a - start) < n * unat sz"

lemma block_map: "block p n = map (\<lambda>k. p + of_nat k) [0..<n]"
  by (induction n arbitrary: p)
    (simp_all add: upt_conv_Cons comp_def add.assoc del: upt_Suc flip: map_Suc_upt)

lemma length_elems [simp]: "length (elems r start sz n) = n"
  by (simp add: elems_def)

lemma elems_nth: "i < n \<Longrightarrow> elems r start sz n ! i = elem r sz (start + of_nat i * sz)"
  by (simp add: elems_def)

lemma elems_split:
  "elems r start sz (m + n) = elems r start sz m @ elems r (start + of_nat m * sz) sz n"
  by (rule nth_equalityI) (auto simp: elems_nth nth_append algebra_simps of_nat_diff)

lemma elem_cong: "(\<And>a. unat (a - p) < unat sz \<Longrightarrow> r' a = r a) \<Longrightarrow> elem r' sz p = elem r sz p"
  using unat_u32_less [of sz] by (auto simp: elem_def block_map unat_of_nat_u32)

text \<open>Two elements of one array are the same element or disjoint.\<close>

lemma offset_unique:
  fixes start sz :: u32
  assumes "n * unat sz \<le> 2 ^ 32" "i < n" "m < n" "k < unat sz"
    "unat (start + of_nat m * sz + of_nat k - (start + of_nat i * sz)) < unat sz"
  shows "m = i"
proof -
  define d where "d = start + of_nat m * sz + of_nat k - (start + of_nat i * sz)"
  have le: "l * unat sz + e < 2 ^ 32" if "l < n" "e < unat sz" for l e
  proof -
    have "Suc l * unat sz \<le> n * unat sz"
      using that by (intro mult_le_mono1) simp
    then show ?thesis
      using that assms(1) by simp
  qed
  have d: "unat d < unat sz"
    using assms(5) by (simp add: d_def)
  have "of_nat i * sz + d = of_nat m * sz + of_nat k"
    by (simp add: d_def algebra_simps)
  then have "of_nat (i * unat sz + unat d) = (of_nat (m * unat sz + k) :: u32)"
    by simp
  then have eq: "i * unat sz + unat d = m * unat sz + k"
    using le [OF assms(2) d] le [OF assms(3,4)] by (simp only: of_nat_u32_inj)
  have "(i * unat sz + unat d) div unat sz = i" "(m * unat sz + k) div unat sz = m"
    using d assms(4) by simp_all
  with eq show ?thesis
    by simp
qed

lemma in_array_elem:
  assumes "n * unat sz \<le> 2 ^ 32" "i < n" "unat (a - (start + of_nat i * sz)) < unat sz"
  shows "in_array start sz n a"
proof -
  define d where "d = a - (start + of_nat i * sz)"
  have "Suc i * unat sz \<le> n * unat sz"
    using assms(2) by (intro mult_le_mono1) simp
  then have lt: "i * unat sz + unat d < n * unat sz"
    using assms(3) by (simp add: d_def)
  have "a - start = of_nat (i * unat sz + unat d)"
    by (simp add: d_def)
  then have "unat (a - start) = i * unat sz + unat d"
    using lt assms(1) by (simp only: unat_of_nat_u32)
  with lt show ?thesis
    by (simp add: in_array_def)
qed

section \<open>Swapping\<close>

lemma memswap_same: "memswap n c c r = r"
  by (induction n arbitrary: c r) simp_all

lemma window_shift:
  fixes a d :: u32
  assumes "unat (a - (d + 1)) < n" "n < 2 ^ 32"
  shows "unat (a - d) < Suc n"
  using assms window_Suc [of n a d] by simp

lemma memswap_disjoint:
  assumes "n \<le> unat (c2 - c1)" "n \<le> unat (c1 - c2)"
  shows "memswap n c1 c2 r =
    (\<lambda>a. if unat (a - c1) < n then r (c2 + (a - c1))
         else if unat (a - c2) < n then r (c1 + (a - c2)) else r a)"
  using assms
proof (induction n arbitrary: c1 c2 r)
  case (Suc n)
  have n: "n < 2 ^ 32"
    using Suc.prems(1) unat_u32_less [of "c2 - c1"] by simp
  let ?r = "r(c1 := r c2, c2 := r c1)"
  have keep: "q + (a - p) \<noteq> p" "q + (a - p) \<noteq> q" "a \<noteq> p"
    if "unat (a - (p + 1)) < n" "Suc n \<le> unat (p - q)" for a p q :: u32
  proof -
    show "a \<noteq> p"
      using that(1) n by (auto simp: unsigned_minus_1_eq_mask mask_eq_exp_minus_1)
    then show "q + (a - p) \<noteq> q"
      by simp
    show "q + (a - p) \<noteq> p"
    proof
      assume "q + (a - p) = p"
      then have "a - p = p - q"
        by (metis add_diff_cancel_left')
      then show False
        using window_shift [OF that(1) n] that(2) by simp
    qed
  qed
  have shift: "x + 1 + (a - (y + 1)) = x + (a - y)" for a x y :: u32
    by simp
  have ne: "c1 \<noteq> c2"
    using Suc.prems by auto
  have "memswap (Suc n) c1 c2 r = (\<lambda>a. if unat (a - (c1 + 1)) < n then ?r (c2 + (a - c1))
      else if unat (a - (c2 + 1)) < n then ?r (c1 + (a - c2)) else ?r a)"
    using Suc.IH [of "c2 + 1" "c1 + 1" ?r] Suc.prems by (simp add: shift del: fun_upd_apply cong: if_cong)
  also have "\<dots> = (\<lambda>a. if unat (a - c1) < Suc n then r (c2 + (a - c1))
         else if unat (a - c2) < Suc n then r (c1 + (a - c2)) else r a)"
  proof
    fix a
    show "(if unat (a - (c1 + 1)) < n then ?r (c2 + (a - c1))
        else if unat (a - (c2 + 1)) < n then ?r (c1 + (a - c2)) else ?r a) =
      (if unat (a - c1) < Suc n then r (c2 + (a - c1))
       else if unat (a - c2) < Suc n then r (c1 + (a - c2)) else r a)"
      using keep [of a c1 c2] keep [of a c2 c1] Suc.prems ne window_Suc [OF n, of a c1] window_Suc [OF n, of a c2]
      by auto
  qed
  finally show ?case .
qed simp

text \<open>Swapping two elements of an array exchanges two entries of the list of its elements.\<close>

lemma memswap_elem_far:
  fixes start sz :: u32
  assumes "n * unat sz \<le> 2 ^ 32" "i < n" "j < n" "i \<noteq> j"
  shows "unat sz \<le> unat (start + of_nat j * sz - (start + of_nat i * sz))"
proof (rule ccontr)
  assume "\<not> ?thesis"
  then have "unat (start + of_nat j * sz + of_nat 0 - (start + of_nat i * sz)) < unat sz"
    by simp
  moreover from this have "0 < unat sz"
    by linarith
  ultimately show False
    using offset_unique [OF assms(1-3)] assms(4) by blast
qed

lemma elem_memswap:
  fixes start sz :: u32
  assumes n: "n * unat sz \<le> 2 ^ 32" and ij: "i < n" "j < n" "m < n" "i \<noteq> j"
  defines "p \<equiv> \<lambda>k. start + of_nat k * sz"
  shows "elem (memswap (unat sz) (p i) (p j) r) sz (p m) =
    elem r sz (p (if m = i then j else if m = j then i else m))"
proof -
  have sw: "memswap (unat sz) (p i) (p j) r =
    (\<lambda>a. if unat (a - p i) < unat sz then r (p j + (a - p i))
         else if unat (a - p j) < unat sz then r (p i + (a - p j)) else r a)"
    unfolding p_def using memswap_elem_far [OF n] ij by (intro memswap_disjoint) auto
  have at: "unat (p m + of_nat k - p l) < unat sz \<longleftrightarrow> m = l" if "k < unat sz" "l < n" for k l
    using offset_unique [OF n that(2) ij(3) that(1), of start] that(1) unat_u32_less [of sz]
    by (auto simp: p_def unat_of_nat_u32)
  show ?thesis
    using ij by (auto simp: elem_def block_map sw at)
qed

lemma elems_memswap:
  fixes start sz :: u32 and r :: ram
  assumes "n * unat sz \<le> 2 ^ 32" "i < n" "j < n"
  defines "xs \<equiv> elems r start sz n"
  shows "elems (memswap (unat sz) (start + of_nat i * sz) (start + of_nat j * sz) r) start sz n =
    xs[j := xs ! i, i := xs ! j]"
proof (cases "i = j")
  case True
  then show ?thesis
    by (simp add: memswap_same xs_def)
next
  case False
  show ?thesis
    by (rule nth_equalityI)
      (use assms(1-3) False in \<open>auto simp: xs_def elems_nth elem_memswap [OF assms(1)] nth_list_update\<close>)
qed

lemma memswap_outside:
  assumes "n * unat sz \<le> 2 ^ 32" "i < n" "j < n" "\<not> in_array start sz n a"
  shows "memswap (unat sz) (start + of_nat i * sz) (start + of_nat j * sz) r a = r a"
proof (cases "i = j")
  case True
  then show ?thesis
    by (simp add: memswap_same)
next
  case False
  then have far: "unat sz \<le> unat (start + of_nat j * sz - (start + of_nat i * sz))"
    "unat sz \<le> unat (start + of_nat i * sz - (start + of_nat j * sz))"
    using memswap_elem_far assms(1-3) by metis+
  have "\<not> unat (a - (start + of_nat l * sz)) < unat sz" if "l < n" for l
    using in_array_elem [OF assms(1) that] assms(4) by blast
  then show ?thesis
    using assms(2,3) by (simp add: memswap_disjoint [OF far])
qed

section \<open>Partitioning\<close>

text \<open>A comparison function that looks only at the two elements it gets, and orders them.\<close>

definition compares :: "compar \<Rightarrow> u32 \<Rightarrow> (u8 list \<Rightarrow> u8 list \<Rightarrow> int) \<Rightarrow> bool" where
  "compares compar sz cmp \<longleftrightarrow> (\<forall>p q r. compar p q r = cmp (elem r sz p) (elem r sz q))"

definition ordering :: "('a \<Rightarrow> 'a \<Rightarrow> int) \<Rightarrow> bool" where
  "ordering cmp \<longleftrightarrow>
     (\<forall>x y. cmp x y < 0 \<longrightarrow> \<not> cmp y x < 0) \<and>
     (\<forall>x y z. \<not> cmp y x < 0 \<longrightarrow> \<not> cmp z y < 0 \<longrightarrow> \<not> cmp z x < 0)"

definition parted :: "('a \<Rightarrow> 'a \<Rightarrow> int) \<Rightarrow> nat \<Rightarrow> nat \<Rightarrow> 'a list \<Rightarrow> bool" where
  "parted cmp i j xs \<longleftrightarrow>
     (\<forall>m. 1 \<le> m \<and> m < i \<longrightarrow> cmp (xs ! m) (xs ! 0) < 0) \<and>
     (\<forall>m. i \<le> m \<and> m < j \<longrightarrow> \<not> cmp (xs ! m) (xs ! 0) < 0)"

lemma parted_skip:
  "parted cmp i j xs \<Longrightarrow> \<not> cmp (xs ! j) (xs ! 0) < 0 \<Longrightarrow> parted cmp i (Suc j) xs"
  by (auto simp: parted_def less_Suc_eq)

lemma parted_swap:
  assumes "parted cmp i j xs" "1 \<le> i" "i \<le> j" "j < length xs" "cmp (xs ! j) (xs ! 0) < 0"
  shows "parted cmp (Suc i) (Suc j) (xs[i := xs ! j, j := xs ! i])"
proof -
  have "(xs[i := xs ! j, j := xs ! i]) ! 0 = xs ! 0"
    using assms(2,3) by simp
  then show ?thesis
    using assms by (auto simp: parted_def nth_list_update less_Suc_eq)
qed

lemma partition_loop_elems:
  assumes "compares compar sz cmp" "n * unat sz \<le> 2 ^ 32"
    and "1 \<le> i" "i \<le> j" "j + k = n" "parted cmp i j (elems r start sz n)"
    and "partition_loop compar start sz k (of_nat j) (of_nat i) r = (i', r')"
  shows "\<exists>l. i' = of_nat l \<and> 1 \<le> l \<and> l \<le> n \<and> parted cmp l n (elems r' start sz n) \<and>
    elems r' start sz n ! 0 = elems r start sz n ! 0 \<and>
    mset (elems r' start sz n) = mset (elems r start sz n) \<and>
    (\<forall>a. \<not> in_array start sz n a \<longrightarrow> r' a = r a)"
  using assms(3-)
proof (induction k arbitrary: i j r)
  case 0
  then show ?case
    by auto
next
  case (Suc k)
  let ?xs = "elems r start sz n"
  have j: "j < n" and i: "i < n"
    using Suc.prems by simp_all
  have cmp: "compar (start + of_nat j * sz) start r = cmp (?xs ! j) (?xs ! 0)"
    using assms(1) j by (simp add: compares_def elems_nth)
  have one: "of_nat j + 1 = (of_nat (Suc j) :: u32)" "of_nat i + 1 = (of_nat (Suc i) :: u32)"
    by simp_all
  show ?case
  proof (cases "cmp (?xs ! j) (?xs ! 0) < 0")
    case False
    have "partition_loop compar start sz k (of_nat (Suc j)) (of_nat i) r = (i', r')"
      using Suc.prems(5) False cmp by (simp only: partition_loop.simps if_False one)
    moreover have "i \<le> Suc j" "Suc j + k = n"
      using Suc.prems(2,3) by simp_all
    ultimately show ?thesis
      using Suc.IH Suc.prems(1) parted_skip [OF Suc.prems(4) False] by blast
  next
    case True
    let ?r = "memswap (unat sz) (start + of_nat j * sz) (start + of_nat i * sz) r"
    have sw: "elems ?r start sz n = ?xs[i := ?xs ! j, j := ?xs ! i]"
      by (rule elems_memswap [OF assms(2) j i])
    have "parted cmp (Suc i) (Suc j) (elems ?r start sz n)"
      unfolding sw using Suc.prems j True by (intro parted_swap) simp_all
    moreover have "partition_loop compar start sz k (of_nat (Suc j)) (of_nat (Suc i)) ?r = (i', r')"
      using Suc.prems(5) True cmp by (simp only: partition_loop.simps if_True one)
    ultimately obtain l where l: "i' = of_nat l" "1 \<le> l" "l \<le> n"
      "parted cmp l n (elems r' start sz n)"
      "elems r' start sz n ! 0 = elems ?r start sz n ! 0"
      "mset (elems r' start sz n) = mset (elems ?r start sz n)"
      "\<forall>a. \<not> in_array start sz n a \<longrightarrow> r' a = ?r a"
      using Suc.IH [of "Suc i" "Suc j" ?r] Suc.prems(1-3) by auto
    moreover have "elems ?r start sz n ! 0 = ?xs ! 0"
      unfolding sw using Suc.prems(1,2) by simp
    moreover have "mset (elems ?r start sz n) = mset ?xs"
      unfolding sw using i j by (simp add: mset_swap)
    ultimately show ?thesis
      using memswap_outside [OF assms(2) j i] by (intro exI [of _ l]) simp
  qed
qed

section \<open>Sorting the two parts\<close>

lemma elems_cong:
  assumes "n * unat sz \<le> 2 ^ 32" "\<And>a. in_array start sz n a \<Longrightarrow> r' a = r a"
  shows "elems r' start sz n = elems r start sz n"
  unfolding elems_def using assms(2) in_array_elem [OF assms(1)]
  by (intro map_cong refl elem_cong) auto

lemma in_array_mono: "in_array start sz m a \<Longrightarrow> m \<le> n \<Longrightarrow> in_array start sz n a"
  unfolding in_array_def by (erule less_le_trans) (rule mult_le_mono1)

lemma in_array_upper:
  assumes "n * unat sz \<le> 2 ^ 32" "m \<le> n" "in_array (start + of_nat m * sz) sz (n - m) a"
  shows "in_array start sz n a" "\<not> in_array start sz m a"
proof -
  define e where "e = a - (start + of_nat m * sz)"
  have "unat e < (n - m) * unat sz"
    using assms(3) by (simp add: in_array_def e_def)
  then have lt: "m * unat sz + unat e < n * unat sz"
    using assms(2) by (simp add: diff_mult_distrib)
  have "a - start = of_nat (m * unat sz + unat e)"
    by (simp add: e_def)
  then have "unat (a - start) = m * unat sz + unat e"
    using lt assms(1) by (simp only: unat_of_nat_u32)
  with lt show "in_array start sz n a" "\<not> in_array start sz m a"
    by (simp_all add: in_array_def)
qed

text \<open>The result of sorting an array: an ordered permutation, with the rest of the memory unchanged.\<close>

definition sorts :: "(u8 list \<Rightarrow> u8 list \<Rightarrow> int) \<Rightarrow> u32 \<Rightarrow> ram \<Rightarrow> ram \<Rightarrow> u32 \<Rightarrow> nat \<Rightarrow> bool" where
  "sorts cmp sz r r' start n \<longleftrightarrow>
     mset (elems r' start sz n) = mset (elems r start sz n) \<and>
     sorted_wrt (\<lambda>x y. \<not> cmp y x < 0) (elems r' start sz n) \<and>
     (\<forall>a. \<not> in_array start sz n a \<longrightarrow> r' a = r a)"

lemma sorts_lower_keeps:
  assumes "n * unat sz \<le> 2 ^ 32" "m \<le> n" "sorts cmp sz r r' start m"
  shows "elems r' (start + of_nat m * sz) sz (n - m) = elems r (start + of_nat m * sz) sz (n - m)"
proof (rule elems_cong)
  have "(n - m) * unat sz \<le> n * unat sz"
    by (rule mult_le_mono1) simp
  then show "(n - m) * unat sz \<le> 2 ^ 32"
    using assms(1) by (rule le_trans)
next
  fix a
  assume "in_array (start + of_nat m * sz) sz (n - m) a"
  then show "r' a = r a"
    using assms(3) in_array_upper(2) [OF assms(1,2), of start a] unfolding sorts_def by blast
qed

lemma sorts_upper_keeps:
  assumes "n * unat sz \<le> 2 ^ 32" "m \<le> n" "sorts cmp sz r r' (start + of_nat m * sz) (n - m)"
  shows "elems r' start sz m = elems r start sz m"
proof (rule elems_cong)
  have "m * unat sz \<le> n * unat sz"
    using assms(2) by (rule mult_le_mono1)
  then show "m * unat sz \<le> 2 ^ 32"
    using assms(1) by (rule le_trans)
next
  fix a
  assume "in_array start sz m a"
  then show "r' a = r a"
    using assms(3) in_array_upper(2) [OF assms(1,2), of start a] unfolding sorts_def by blast
qed

lemma elems_pivot:
  assumes "Suc m \<le> n"
  shows "elems r start sz n = elems r start sz m @ elem r sz (start + of_nat m * sz) #
    elems r (start + of_nat (Suc m) * sz) sz (n - Suc m)"
    "elems r start sz (Suc m) = elems r start sz m @ [elem r sz (start + of_nat m * sz)]"
    "elems r (start + of_nat m * sz) sz (n - m) =
      elem r sz (start + of_nat m * sz) # elems r (start + of_nat (Suc m) * sz) sz (n - Suc m)"
proof -
  show one: "elems r start sz (Suc m) = elems r start sz m @ [elem r sz (start + of_nat m * sz)]"
    by (simp add: elems_def)
  have "elems r start sz n = elems r start sz (Suc m) @ elems r (start + of_nat (Suc m) * sz) sz (n - Suc m)"
    using elems_split [of r start sz "Suc m" "n - Suc m"] assms by simp
  then show "elems r start sz n = elems r start sz m @ elem r sz (start + of_nat m * sz) #
    elems r (start + of_nat (Suc m) * sz) sz (n - Suc m)"
    by (simp add: one)
  have "n - m = 1 + (n - Suc m)"
    using assms by simp
  then have "elems r (start + of_nat m * sz) sz (n - m) =
      elems r (start + of_nat m * sz) sz 1 @ elems r (start + of_nat m * sz + of_nat 1 * sz) sz (n - Suc m)"
    using elems_split by metis
  then show "elems r (start + of_nat m * sz) sz (n - m) =
      elem r sz (start + of_nat m * sz) # elems r (start + of_nat (Suc m) * sz) sz (n - Suc m)"
    by (simp add: elems_def algebra_simps)
qed

text \<open>What one round of the loop leaves: smaller elements, the pivot, and the others.\<close>

definition split_at :: "(u8 list \<Rightarrow> u8 list \<Rightarrow> int) \<Rightarrow> u32 \<Rightarrow> ram \<Rightarrow> u32 \<Rightarrow> nat \<Rightarrow> nat \<Rightarrow> bool" where
  "split_at cmp sz r start n m \<longleftrightarrow> m < n \<and>
     (\<forall>x \<in> set (elems r start sz m). cmp x (elem r sz (start + of_nat m * sz)) < 0) \<and>
     (\<forall>y \<in> set (elems r (start + of_nat (Suc m) * sz) sz (n - Suc m)).
        \<not> cmp y (elem r sz (start + of_nat m * sz)) < 0)"

lemma sorts_join:
  assumes "ordering cmp" "split_at cmp sz r start n m"
    and lo: "mset (elems r' start sz m) = mset (elems r start sz m)"
      "sorted_wrt (\<lambda>x y. \<not> cmp y x < 0) (elems r' start sz m)"
    and hi: "mset (elems r' (start + of_nat (Suc m) * sz) sz (n - Suc m)) =
        mset (elems r (start + of_nat (Suc m) * sz) sz (n - Suc m))"
      "sorted_wrt (\<lambda>x y. \<not> cmp y x < 0) (elems r' (start + of_nat (Suc m) * sz) sz (n - Suc m))"
    and piv: "elem r' sz (start + of_nat m * sz) = elem r sz (start + of_nat m * sz)"
    and out: "\<forall>a. \<not> in_array start sz n a \<longrightarrow> r' a = r a"
  shows "sorts cmp sz r r' start n"
proof -
  have m: "Suc m \<le> n"
    using assms(2) by (simp add: split_at_def)
  have sets: "set (elems r' start sz m) = set (elems r start sz m)"
    "set (elems r' (start + of_nat (Suc m) * sz) sz (n - Suc m)) =
      set (elems r (start + of_nat (Suc m) * sz) sz (n - Suc m))"
    using lo(1) hi(1) by (auto dest: mset_eq_setD)
  have "mset (elems r' start sz n) = mset (elems r start sz n)"
    using lo(1) hi(1) piv by (simp only: elems_pivot(1) [OF m]) simp
  moreover have "sorted_wrt (\<lambda>x y. \<not> cmp y x < 0) (elems r' start sz n)"
  proof -
    let ?p = "elem r' sz (start + of_nat m * sz)"
    have "\<forall>x \<in> set (elems r' start sz m). \<not> cmp ?p x < 0"
      using assms(1,2) unfolding split_at_def ordering_def piv sets(1) by blast
    moreover have "\<forall>y \<in> set (elems r' (start + of_nat (Suc m) * sz) sz (n - Suc m)). \<not> cmp y ?p < 0"
      using assms(2) unfolding split_at_def piv sets(2) by blast
    moreover have "\<not> cmp z x < 0" if "\<not> cmp y x < 0" "\<not> cmp z y < 0" for x y z
      using assms(1) that unfolding ordering_def by blast
    ultimately show ?thesis
      using lo(2) hi(2) unfolding elems_pivot(1) [OF m] sorted_wrt_append sorted_wrt.simps
      by (auto simp del: of_nat_Suc)
  qed
  ultimately show ?thesis
    using out by (simp add: sorts_def)
qed

lemma sorts_outside:
  assumes "n * unat sz \<le> 2 ^ 32" "m \<le> n"
  shows "sorts cmp sz r r' start m \<Longrightarrow> \<not> in_array start sz n a \<Longrightarrow> r' a = r a"
    "sorts cmp sz r r' (start + of_nat m * sz) (n - m) \<Longrightarrow> \<not> in_array start sz n a \<Longrightarrow> r' a = r a"
  using in_array_mono [OF _ assms(2)] in_array_upper(1) [OF assms] unfolding sorts_def by blast+

text \<open>The two parts may be sorted in either order.\<close>

lemma sorts_both:
  assumes "ordering cmp" "n * unat sz \<le> 2 ^ 32" "split_at cmp sz r start n m"
    and "sorts cmp sz r r1 start m \<and> sorts cmp sz r1 r2 (start + of_nat (Suc m) * sz) (n - Suc m) \<or>
      sorts cmp sz r r1 (start + of_nat (Suc m) * sz) (n - Suc m) \<and> sorts cmp sz r1 r2 start m"
  shows "sorts cmp sz r r2 start n"
proof -
  have m: "Suc m \<le> n" "m \<le> n"
    using assms(3) by (simp_all add: split_at_def)
  note keeps = sorts_lower_keeps [OF assms(2) m(2), of cmp _ _ start, unfolded elems_pivot(3) [OF m(1)]]
    sorts_upper_keeps [OF assms(2) m(1), of cmp _ _ start, unfolded elems_pivot(2) [OF m(1)]]
  note outside = sorts_outside(1) [OF assms(2) m(2), of cmp _ _ start]
    sorts_outside(2) [OF assms(2) m(1), of cmp _ _ start]
  from assms(4) consider
    (low_first) "sorts cmp sz r r1 start m" "sorts cmp sz r1 r2 (start + of_nat (Suc m) * sz) (n - Suc m)" |
    (high_first) "sorts cmp sz r r1 (start + of_nat (Suc m) * sz) (n - Suc m)" "sorts cmp sz r1 r2 start m"
    by blast
  then show ?thesis
  proof cases
    case low_first
    have k1: "elem r1 sz (start + of_nat m * sz) = elem r sz (start + of_nat m * sz)" "elems r1 (start + of_nat (Suc m) * sz) sz (n - Suc m) = elems r (start + of_nat (Suc m) * sz) sz (n - Suc m)"
      using keeps(1) [OF low_first(1)] by (simp_all del: of_nat_Suc)
    have k2: "elems r2 start sz m = elems r1 start sz m" "elem r2 sz (start + of_nat m * sz) = elem r1 sz (start + of_nat m * sz)"
      using keeps(2) [OF low_first(2)] by (simp_all del: of_nat_Suc)
    note s1 = low_first(1) [unfolded sorts_def] and s2 = low_first(2) [unfolded sorts_def]
    show ?thesis
    proof (rule sorts_join [OF assms(1,3)])
      show "\<forall>a. \<not> in_array start sz n a \<longrightarrow> r2 a = r a"
        using outside(1) [OF low_first(1)] outside(2) [OF low_first(2)] by simp
    qed (use s1 s2 k1 k2 in \<open>simp_all del: of_nat_Suc\<close>)
  next
    case high_first
    have k1: "elems r1 start sz m = elems r start sz m" "elem r1 sz (start + of_nat m * sz) = elem r sz (start + of_nat m * sz)"
      using keeps(2) [OF high_first(1)] by (simp_all del: of_nat_Suc)
    have k2: "elem r2 sz (start + of_nat m * sz) = elem r1 sz (start + of_nat m * sz)" "elems r2 (start + of_nat (Suc m) * sz) sz (n - Suc m) = elems r1 (start + of_nat (Suc m) * sz) sz (n - Suc m)"
      using keeps(1) [OF high_first(2)] by (simp_all del: of_nat_Suc)
    note s1 = high_first(1) [unfolded sorts_def] and s2 = high_first(2) [unfolded sorts_def]
    show ?thesis
    proof (rule sorts_join [OF assms(1,3)])
      show "\<forall>a. \<not> in_array start sz n a \<longrightarrow> r2 a = r a"
        using outside(2) [OF high_first(1)] outside(1) [OF high_first(2)] by simp
    qed (use s1 s2 k1 k2 in \<open>simp_all del: of_nat_Suc\<close>)
  qed
qed

lemma split_atI:
  assumes "m < n" "\<And>k. k < m \<Longrightarrow> cmp (elems r start sz n ! k) (elems r start sz n ! m) < 0"
    and "\<And>k. m < k \<Longrightarrow> k < n \<Longrightarrow> \<not> cmp (elems r start sz n ! k) (elems r start sz n ! m) < 0"
  shows "split_at cmp sz r start n m"
proof -
  let ?lo = "elems r start sz m" and ?p = "elem r sz (start + of_nat m * sz)"
  let ?hi = "elems r (start + of_nat (Suc m) * sz) sz (n - Suc m)"
  have zs: "elems r start sz n = ?lo @ ?p # ?hi"
    using assms(1) by (intro elems_pivot(1)) simp
  then have p: "elems r start sz n ! m = ?p"
    by (simp add: nth_append)
  have "cmp x ?p < 0" if x: "x \<in> set ?lo" for x
  proof -
    obtain k where "k < m" "x = ?lo ! k"
      using x by (auto simp: in_set_conv_nth)
    then show ?thesis
      using assms(2) [of k] p zs by (simp add: nth_append)
  qed
  moreover have "\<not> cmp y ?p < 0" if y: "y \<in> set ?hi" for y
  proof -
    obtain k where k: "k < n - Suc m" "y = ?hi ! k"
      using y by (auto simp: in_set_conv_nth)
    then have "elems r start sz n ! (Suc m + k) = y"
      unfolding zs by (simp add: nth_append del: of_nat_Suc)
    then show ?thesis
      using assms(3) [of "Suc m + k"] k(1) p by simp
  qed
  ultimately show ?thesis
    using assms(1) by (simp add: split_at_def del: of_nat_Suc)
qed

lemma qsort_round:
  assumes "compares compar sz cmp" "n * unat sz \<le> 2 ^ 32" "1 < n" "h < n"
    and r1: "r1 = memswap (unat sz) (start + of_nat h * sz) start r"
    and part: "partition_loop compar start sz (n - 1) 1 1 r1 = (i, r2)"
    and r3: "r3 = memswap (unat sz) start (start + (i - 1) * sz) r2"
  shows "\<exists>m. i = of_nat (Suc m) \<and> split_at cmp sz r3 start n m \<and>
    mset (elems r3 start sz n) = mset (elems r start sz n) \<and>
    (\<forall>a. \<not> in_array start sz n a \<longrightarrow> r3 a = r a)"
proof -
  have "parted cmp 1 1 (elems r1 start sz n)"
    by (simp add: parted_def)
  then obtain l where l: "i = of_nat l" "1 \<le> l" "l \<le> n" "parted cmp l n (elems r2 start sz n)"
    "mset (elems r2 start sz n) = mset (elems r1 start sz n)"
    "\<forall>a. \<not> in_array start sz n a \<longrightarrow> r2 a = r1 a"
    using partition_loop_elems [OF assms(1,2), of 1 1 "n - 1" r1 start i r2] assms(3) part by auto
  then obtain m where m: "l = Suc m"
    by (cases l) auto
  let ?ys = "elems r2 start sz n"
  have n: "0 < n" "m < n"
    using assms(3) l(3) m by simp_all
  have zs: "elems r3 start sz n = ?ys[m := ?ys ! 0, 0 := ?ys ! m]"
    using elems_memswap [OF assms(2) n, where start = start and r = r2] l(1) m by (simp add: r3)
  have "split_at cmp sz r3 start n m"
    using l(4) n by (intro split_atI) (auto simp: zs m parted_def nth_list_update)
  moreover have "mset (elems r3 start sz n) = mset ?ys"
    unfolding zs using n mset_swap [of 0 ?ys m] by simp
  moreover have "mset (elems r1 start sz n) = mset (elems r start sz n)"
    using elems_memswap [OF assms(2,4) n(1), where start = start and r = r] assms(4) n by (simp add: r1 mset_swap)
  moreover have "r3 a = r2 a" "r1 a = r a" if "\<not> in_array start sz n a" for a
    using memswap_outside [OF assms(2) n that, of r2]
      memswap_outside [OF assms(2,4) n(1) that] l(1) m
    by (simp_all add: r1 r3)
  ultimately show ?thesis
    using l m by (intro exI [of _ m]) simp
qed

lemma sorts_short: "n \<le> 1 \<Longrightarrow> sorts cmp sz r r start n"
  by (cases n) (simp_all add: sorts_def elems_def)

lemma sorts_trans:
  "sorts cmp sz r1 r2 start n \<Longrightarrow> mset (elems r1 start sz n) = mset (elems r start sz n) \<Longrightarrow>
   \<forall>a. \<not> in_array start sz n a \<longrightarrow> r1 a = r a \<Longrightarrow> sorts cmp sz r r2 start n"
  by (simp add: sorts_def)

lemma mult_le_bound: "m \<le> n \<Longrightarrow> n * s \<le> (b :: nat) \<Longrightarrow> m * s \<le> b"
  by (rule le_trans [OF mult_le_mono1])

lemma qsort_sorts_elems:
  assumes "compares compar sz cmp" "ordering cmp" "unat nmemb * unat sz \<le> 2 ^ 32"
  shows "sorts cmp sz r (qsort compar start nmemb sz r) start (unat nmemb)"
  using assms(3)
proof (induction "unat nmemb" arbitrary: start nmemb r rule: less_induct)
  case less
  let ?n = "unat nmemb"
  show ?case
  proof (cases "nmemb > 1")
    case False
    then show ?thesis
      by (simp add: qsort.simps [of compar start nmemb] sorts_short word_less_nat_alt)
  next
    case True
    define h where "h = nmemb div 2"
    have n: "1 < ?n" "unat h < ?n" "h \<noteq> 0"
      using True by (simp_all add: h_def word_less_nat_alt unat_div flip: unat_eq_0)
    define r1 where "r1 = memswap (unat sz) (start + of_nat (unat h) * sz) start r"
    obtain i r2 where part: "partition_loop compar start sz (?n - 1) 1 1 r1 = (i, r2)"
      by fastforce
    define r3 where "r3 = memswap (unat sz) start (start + (i - 1) * sz) r2"
    obtain m where m: "i = of_nat (Suc m)" "split_at cmp sz r3 start ?n m"
      "mset (elems r3 start sz ?n) = mset (elems r start sz ?n)"
      "\<forall>a. \<not> in_array start sz ?n a \<longrightarrow> r3 a = r a"
      using qsort_round [OF assms(1) less.prems n(1,2) r1_def part r3_def] by blast
    have mn: "m < ?n"
      using m(2) by (simp add: split_at_def)
    then have um: "unat i = Suc m"
      using m(1) unat_u32_less [of nmemb] by (simp add: unat_of_nat_u32 del: of_nat_Suc)
    have low: "unat (i - 1) = m" and high: "unat (nmemb - i) = ?n - Suc m"
      using partition_index(3,4) [OF True part] um by simp_all
    have lo: "sorts cmp sz r' (qsort compar start (i - 1) sz r') start m" for r'
      using less.hyps [of "i - 1" r' start] low mn mult_le_bound [OF _ less.prems] by simp
    have hi: "sorts cmp sz r' (qsort compar (start + i * sz) (nmemb - i) sz r')
        (start + of_nat (Suc m) * sz) (?n - Suc m)" for r'
      using less.hyps [of "nmemb - i" r' "start + i * sz"] high n(1) m(1)
        mult_le_bound [OF _ less.prems, of "?n - Suc m"] by simp
    have "qsort compar start nmemb sz r =
      (if i > h then qsort compar start (i - 1) sz (qsort compar (start + i * sz) (nmemb - i) sz r3)
       else qsort compar (start + i * sz) (nmemb - i) sz (qsort compar start (i - 1) sz r3))"
      using True n(3) part by (subst qsort.simps) (simp add: Let_def h_def r1_def r3_def)
    then have "sorts cmp sz r3 (qsort compar start nmemb sz r) start ?n"
      using sorts_both [OF assms(2) less.prems m(2) disjI1 [OF conjI [OF lo hi]]]
        sorts_both [OF assms(2) less.prems m(2) disjI2 [OF conjI [OF hi lo]]] by simp
    then show ?thesis
      using m(3,4) by (rule sorts_trans)
  qed
qed

text \<open>
  C28. \<^verbatim>\<open>qsort\<close> always returns, and with a comparison function that orders the elements it leaves them in
  ascending order: the array is a permutation of what it was, no element comes after one that is
  greater, and no byte outside the array changes. This covers the choice of the middle element as the
  pivot, the loop in place of the second recursive call, and arrays up to the whole address space.
\<close>

theorem qsort_correct:
  assumes "compares compar sz cmp" "ordering cmp" "unat nmemb * unat sz \<le> 2 ^ 32"
  shows "mset (elems (qsort compar start nmemb sz r) start sz (unat nmemb)) =
      mset (elems r start sz (unat nmemb)) \<and>
    sorted_wrt (\<lambda>x y. \<not> cmp y x < 0) (elems (qsort compar start nmemb sz r) start sz (unat nmemb)) \<and>
    (\<forall>a. \<not> in_array start sz (unat nmemb) a \<longrightarrow> qsort compar start nmemb sz r a = r a)"
  using qsort_sorts_elems [OF assms] by (simp add: sorts_def)

text \<open>Three elements of two bytes, ordered by their first byte.\<close>

definition example_array :: ram where
  "example_array = write_bytes 0x1000 [5, 0, 2, 1, 4, 2] (\<lambda>_. 9)"

definition by_first :: compar where
  "by_first p q r = uint (r p) - uint (r q)"

theorem qsort_correct_witness:
  "mset (elems (qsort by_first 0x1000 3 2 example_array) 0x1000 2 3) =
     {#[5, 0], [2, 1], [4, 2]#} \<and>
   sorted_wrt (\<lambda>x y. \<not> uint (hd y) - uint (hd x) < 0)
     (elems (qsort by_first 0x1000 3 2 example_array) 0x1000 2 3) \<and>
   qsort by_first 0x1000 3 2 example_array 0x1006 = 9"
proof -
  let ?cmp = "\<lambda>x y :: u8 list. uint (hd x) - uint (hd y)"
  have 1: "compares by_first 2 ?cmp"
    by (simp add: compares_def by_first_def elem_def block_map upt_conv_Cons)
  have 2: "ordering ?cmp"
    by (auto simp: ordering_def)
  have 3: "unat (3 :: u32) * unat (2 :: u32) \<le> 2 ^ 32"
    by simp
  have "elems example_array 0x1000 2 3 = [[5, 0], [2, 1], [4, 2]]"
    by code_simp
  moreover have "\<not> in_array 0x1000 2 (unat (3 :: u32)) 0x1006"
    by (simp add: in_array_def)
  moreover have "example_array 0x1006 = 9"
    by (simp add: example_array_def)
  ultimately show ?thesis
    using qsort_correct [OF 1 2 3, of "0x1000" example_array] by (simp add: add_mset_commute)
qed
end
