(* ===== verification/Stdio.thy ===== *)
theory Stdio
  imports Stdlib
begin

text \<open>
  \<^verbatim>\<open>common/stdio.c\<close>: the formatted output that the kernel and the user programs share. The buffer, the
  format and the strings of \<^verbatim>\<open>%s\<close> are in the memory of theory \<open>Cstring\<close>, so a write to the buffer may change
  what is read later. The arguments are the list of the 32-bit values that \<^verbatim>\<open>va_arg\<close> takes one by one;
  taking one too many has no defined result and gives \<open>None\<close>.

  The second half gives the meaning of a format as a list of directives and shows that \<^verbatim>\<open>vsnprintf\<close> writes
  that text, cut to the size of the buffer.
\<close>

section \<open>Numbers\<close>

text \<open>
  The digits go to the array \<^verbatim>\<open>num_buf\<close> from the index \<open>c\<close> on, least significant first, and are reversed
  in place afterwards. A store outside of the array gives \<open>None\<close>.
\<close>

definition digit_char :: "u32 \<Rightarrow> u8" where
  "digit_char d = (if d < 10 then ucast (d + 48) else ucast (d - 10 + 97))"

partial_function (option) utoa_digits ::
  "u32 \<Rightarrow> u32 \<Rightarrow> nat \<Rightarrow> u8 list \<Rightarrow> (nat \<times> u8 list) option" where
  "utoa_digits value radix c buf =
     (if radix = 0 then None
      else do {
        buf \<leftarrow> arr_set buf c (digit_char (value mod radix));
        if value div radix \<noteq> 0 then utoa_digits (value div radix) radix (c + 1) buf
        else Some (c + 1, buf)
      })"

function reverse_between :: "nat \<Rightarrow> nat \<Rightarrow> u8 list \<Rightarrow> u8 list option" where
  "reverse_between p1 p2 buf =
     (if p1 < p2 then do {
        tmp \<leftarrow> arr_get buf p1;
        x \<leftarrow> arr_get buf p2;
        buf \<leftarrow> arr_set buf p1 x;
        buf \<leftarrow> arr_set buf p2 tmp;
        reverse_between (p1 + 1) (p2 - 1) buf
      }
      else Some buf)"
  by pat_completeness auto
termination
  by (relation "measure (\<lambda>(p1, p2, buf). p2 - p1)") auto

declare reverse_between.simps [simp del]

definition utoa :: "u32 \<Rightarrow> nat \<Rightarrow> u32 \<Rightarrow> u8 list \<Rightarrow> (nat \<times> u8 list) option" where
  "utoa value str radix buf =
     do {
       (c, buf) \<leftarrow> utoa_digits value radix str buf;
       buf \<leftarrow> reverse_between str (c - 1) buf;
       Some (c - str, buf)
     }"

section \<open>Output\<close>

text \<open>
  The macro \<^verbatim>\<open>PUT\<close> either goes on with the next index or jumps to the label \<^verbatim>\<open>too_long\<close>.
\<close>

datatype 'a flow = Next 'a | Too_long u32 ram

type_synonym out = "u32 \<times> ram"

definition put :: "u32 \<Rightarrow> u32 \<Rightarrow> u8 \<Rightarrow> out \<Rightarrow> out flow" where
  "put buffer sz c = (\<lambda>(idx, r).
     let r = r(buffer + idx := c); idx = idx + 1
     in if idx \<ge> sz then Too_long idx r else Next (idx, r))"

primrec put_all :: "u32 \<Rightarrow> u32 \<Rightarrow> u8 list \<Rightarrow> out \<Rightarrow> out flow" where
  "put_all buffer sz [] st = Next st"
| "put_all buffer sz (c # cs) st =
     (case put buffer sz c st of Too_long i r \<Rightarrow> Too_long i r | Next st \<Rightarrow> put_all buffer sz cs st)"

primrec put_times :: "u32 \<Rightarrow> u32 \<Rightarrow> nat \<Rightarrow> u8 \<Rightarrow> out \<Rightarrow> out flow" where
  "put_times buffer sz 0 c st = Next st"
| "put_times buffer sz (Suc n) c st =
     (case put buffer sz c st of Too_long i r \<Rightarrow> Too_long i r | Next st \<Rightarrow> put_times buffer sz n c st)"

partial_function (option) put_str :: "u32 \<Rightarrow> u32 \<Rightarrow> u32 \<Rightarrow> out \<Rightarrow> out flow option" where
  "put_str buffer sz str st =
     (if snd st str = 0 then Some (Next st)
      else (case put buffer sz (snd st str) st of
              Too_long i r \<Rightarrow> Some (Too_long i r)
            | Next st \<Rightarrow> put_str buffer sz (str + 1) st))"

text \<open>The macro \<^verbatim>\<open>PUT_NUM_PREFIX\<close>: the state is \<^verbatim>\<open>num_buf\<close>, \<^verbatim>\<open>num_len\<close>, \<^verbatim>\<open>pad_len\<close> and the output.\<close>

type_synonym num = "u8 list \<times> nat \<times> u32 \<times> out"

definition put_num_prefix :: "u32 \<Rightarrow> u32 \<Rightarrow> bool \<Rightarrow> u8 \<Rightarrow> num \<Rightarrow> num flow option" where
  "put_num_prefix buffer sz pad0 c = (\<lambda>(num_buf, num_len, pad_len, st).
     if pad0 then
       (case put buffer sz c st of
          Too_long i r \<Rightarrow> Some (Too_long i r)
        | Next st \<Rightarrow> Some (Next (num_buf, num_len, pad_len - 1, st)))
     else do { num_buf \<leftarrow> arr_set num_buf num_len c; Some (Next (num_buf, num_len + 1, pad_len, st)) })"

section \<open>Conversions\<close>

text \<open>The flags: each is accepted once, in any order.\<close>

function parse_flags ::
  "ram \<Rightarrow> bool \<Rightarrow> bool \<Rightarrow> bool \<Rightarrow> u8 \<Rightarrow> u32 \<Rightarrow> bool \<times> bool \<times> bool \<times> u8 \<times> u32" where
  "parse_flags r alternative_form left_justify pad0 ch format =
     (if \<not> alternative_form \<and> ch = 35 then parse_flags r True left_justify pad0 (r format) (format + 1)
      else if \<not> left_justify \<and> ch = 45 then parse_flags r alternative_form True pad0 (r format) (format + 1)
      else if \<not> pad0 \<and> ch = 48 then parse_flags r alternative_form left_justify True (r format) (format + 1)
      else (alternative_form, left_justify, pad0, ch, format))"
  by pat_completeness auto
termination
  by (relation "measure (\<lambda>(r, a, l, z, ch, f). of_bool (\<not> a) + of_bool (\<not> l) + of_bool (\<not> z))") auto

declare parse_flags.simps [simp del]

partial_function (option) parse_width :: "ram \<Rightarrow> u32 \<Rightarrow> u8 \<Rightarrow> u32 \<Rightarrow> (u32 \<times> u8 \<times> u32) option" where
  "parse_width r pad_len ch format =
     (if 48 \<le> sint ch \<and> sint ch \<le> 57
      then parse_width r (pad_len * 10 + char_int ch - 48) (r format) (format + 1)
      else Some (pad_len, ch, format))"

text \<open>
  The common end of the number cases: the sign, the digits, and the padding on the one or the other
  side.
\<close>

definition put_digits :: "u32 \<Rightarrow> u32 \<Rightarrow> bool \<Rightarrow> bool \<Rightarrow> u32 \<Rightarrow> u32 \<Rightarrow> num \<Rightarrow> out flow option" where
  "put_digits buffer sz left_justify pad0 radix uvalue = (\<lambda>(num_buf, num_len, pad_len, st).
     do {
       (k, num_buf) \<leftarrow> utoa uvalue num_len radix num_buf;
       let num_len = num_len + k;
       case (if \<not> left_justify \<and> unat pad_len > num_len
             then put_times buffer sz (unat pad_len - num_len) (if pad0 then 48 else 32) st
             else Next st) of
         Too_long i r \<Rightarrow> Some (Too_long i r)
       | Next st \<Rightarrow>
           (case put_all buffer sz (take num_len num_buf) st of
              Too_long i r \<Rightarrow> Some (Too_long i r)
            | Next st \<Rightarrow>
                Some (if left_justify \<and> unat pad_len > num_len
                      then put_times buffer sz (unat pad_len - num_len) 32 st
                      else Next st))
     })"

definition put_number :: "u32 \<Rightarrow> u32 \<Rightarrow> bool \<Rightarrow> bool \<Rightarrow> u8 \<Rightarrow> u32 \<Rightarrow> num \<Rightarrow> out flow option" where
  "put_number buffer sz left_justify pad0 ch value n =
     (let radix = (if ch = 120 \<or> ch = 112 then 16 else 10) in
      if (ch = 100 \<or> ch = 105) \<and> sint value < 0 then do {
        p \<leftarrow> put_num_prefix buffer sz pad0 45 n;
        case p of
          Too_long i r \<Rightarrow> Some (Too_long i r)
        | Next n \<Rightarrow> put_digits buffer sz left_justify pad0 radix (- value) n
      }
      else put_digits buffer sz left_justify pad0 radix value n)"

text \<open>The arguments that are left, and the next one.\<close>

fun va_arg :: "u32 list \<Rightarrow> (u32 \<times> u32 list) option" where
  "va_arg [] = None"
| "va_arg (v # args) = Some (v, args)"

text \<open>
  The \<^verbatim>\<open>switch\<close>. The array \<^verbatim>\<open>num_buf\<close> has 20 elements; only elements that were stored before are read.
\<close>

definition convert ::
  "u32 \<Rightarrow> u32 \<Rightarrow> bool \<Rightarrow> bool \<Rightarrow> bool \<Rightarrow> u32 \<Rightarrow> u8 \<Rightarrow> u32 list \<Rightarrow> out \<Rightarrow> (u32 list \<times> out) flow option" where
  "convert buffer sz alternative_form left_justify pad0 pad_len ch args st =
     (let done = (\<lambda>args p. case p of Too_long i r \<Rightarrow> Too_long i r | Next st \<Rightarrow> Next (args, st)) in
      if ch = 99 then do {
        (v, args) \<leftarrow> va_arg args;
        Some (done args (put buffer sz (ucast v) st))
      }
      else if ch \<in> {112, 120, 100, 105, 117} then do {
        let n = (replicate 20 0, 0, pad_len, st);
        p \<leftarrow> (if (ch = 120 \<and> alternative_form) \<or> ch = 112 then do {
                q \<leftarrow> put_num_prefix buffer sz pad0 48 n;
                case q of
                  Too_long i r \<Rightarrow> Some (Too_long i r)
                | Next n \<Rightarrow> put_num_prefix buffer sz pad0 120 n
              }
              else Some (Next n));
        case p of
          Too_long i r \<Rightarrow> Some (Too_long i r)
        | Next n \<Rightarrow> do {
            (v, args) \<leftarrow> va_arg args;
            p \<leftarrow> put_number buffer sz left_justify pad0 ch v n;
            Some (done args p)
          }
      }
      else if ch = 115 then do {
        (str, args) \<leftarrow> va_arg args;
        p \<leftarrow> (if str = 0 then Some (put_all buffer sz [40, 110, 117, 108, 108, 41] st)
              else put_str buffer sz str st);
        Some (done args p)
      }
      else Some (done args (put buffer sz 63 st)))"

text \<open>One turn of the main loop, with \<open>ch\<close> the character just read and \<open>format\<close> behind it.\<close>

definition format_step ::
  "u32 \<Rightarrow> u32 \<Rightarrow> u8 \<Rightarrow> u32 \<Rightarrow> u32 list \<Rightarrow> out \<Rightarrow> (u32 \<times> u32 list \<times> out) flow option" where
  "format_step buffer sz ch format args st =
     (let r = snd st in
      if ch \<noteq> 37 then
        Some (case put buffer sz ch st of
                Too_long i r \<Rightarrow> Too_long i r | Next st \<Rightarrow> Next (format, args, st))
      else
        let ch = r format; format = format + 1 in
        if ch = 37 then
          Some (case put buffer sz 37 st of
                  Too_long i r \<Rightarrow> Too_long i r | Next st \<Rightarrow> Next (format, args, st))
        else do {
          let (alternative_form, left_justify, pad0, ch, format) = parse_flags r False False False ch format;
          (pad_len, ch, format) \<leftarrow> parse_width r 0 ch format;
          p \<leftarrow> convert buffer sz alternative_form left_justify pad0 pad_len ch args st;
          Some (case p of
                  Too_long i r \<Rightarrow> Too_long i r | Next (args, st) \<Rightarrow> Next (format, args, st))
        })"

partial_function (option) format_loop ::
  "u32 \<Rightarrow> u32 \<Rightarrow> u32 \<Rightarrow> u32 list \<Rightarrow> out \<Rightarrow> out option" where
  "format_loop buffer sz format args st =
     (if snd st format = 0 then Some st
      else do {
        p \<leftarrow> format_step buffer sz (snd st format) (format + 1) args st;
        case p of
          Too_long i r \<Rightarrow> Some (i, r)
        | Next (format, args, st) \<Rightarrow> format_loop buffer sz format args st
      })"

definition vsnprintf :: "u32 \<Rightarrow> u32 \<Rightarrow> u32 \<Rightarrow> u32 list \<Rightarrow> ram \<Rightarrow> (u32 \<times> ram) option" where
  "vsnprintf buffer sz format args r =
     (if sz = 0 then Some (0, r)
      else do {
        (idx, r) \<leftarrow> format_loop buffer sz format args (0, r);
        Some (idx, r(buffer + (if idx < sz then idx else sz - 1) := 0))
      })"

definition snprintf :: "u32 \<Rightarrow> u32 \<Rightarrow> u32 \<Rightarrow> u32 list \<Rightarrow> ram \<Rightarrow> (u32 \<times> ram) option" where
  "snprintf buffer bufsz format args r = vsnprintf buffer bufsz format args r"

definition vsprintf :: "u32 \<Rightarrow> u32 \<Rightarrow> u32 list \<Rightarrow> ram \<Rightarrow> (u32 \<times> ram) option" where
  "vsprintf buffer format args r = vsnprintf buffer (- 1) format args r"

definition sprintf :: "u32 \<Rightarrow> u32 \<Rightarrow> u32 list \<Rightarrow> ram \<Rightarrow> (u32 \<times> ram) option" where
  "sprintf buffer format args r = vsnprintf buffer (- 1) format args r"

section \<open>The digits of a number\<close>

fun digits :: "nat \<Rightarrow> nat \<Rightarrow> u8 list" where
  "digits b v = (if b < 2 \<or> v < b then [digit_char (of_nat v)]
                 else digits b (v div b) @ [digit_char (of_nat (v mod b))])"

declare digits.simps [simp del]

lemma digits_small: "v < b \<Longrightarrow> digits b v = [digit_char (of_nat v)]"
  by (simp add: digits.simps)

lemma digits_step: "2 \<le> b \<Longrightarrow> b \<le> v \<Longrightarrow> digits b v = digits b (v div b) @ [digit_char (of_nat (v mod b))]"
  by (simp add: digits.simps)

lemma length_digits: "2 \<le> b \<Longrightarrow> v < b ^ n \<Longrightarrow> 0 < n \<Longrightarrow> length (digits b v) \<le> n"
proof (induction n arbitrary: v)
  case (Suc n)
  show ?case
  proof (cases "v < b")
    case False
    then have "0 < n"
      using Suc.prems by (cases n) auto
    moreover have "v div b < b ^ n"
      using Suc.prems by (intro less_mult_imp_div_less) (simp add: mult.commute)
    ultimately show ?thesis
      using Suc False by (simp add: digits_step)
  qed (simp add: digits_small)
qed simp

lemma digits_nonempty: "digits b v \<noteq> []"
  by (subst digits.simps) simp

lemma digits_u32:
  fixes v :: u32
  shows "length (digits 10 (unat v)) \<le> 10" "length (digits 16 (unat v)) \<le> 8"
  using unat_u32_less [of v] by (auto intro!: length_digits)

text \<open>A run of values in an array.\<close>

lemma arr_set_middle:
  "arr_set (xs @ y # zs) (length xs) x = Some (xs @ x # zs)"
  by (simp add: arr_set_eq_Some)

lemma utoa_digits_run:
  assumes "2 \<le> radix" "length old = length (digits (unat radix) (unat v))"
  shows "utoa_digits v radix (length xs) (xs @ old @ zs) =
    Some (length xs + length old, xs @ rev (digits (unat radix) (unat v)) @ zs)"
  using assms(2)
proof (induction "unat v" arbitrary: v xs old rule: less_induct)
  case less
  have b: "2 \<le> unat radix" "radix \<noteq> 0"
    using assms(1) by (auto simp: word_le_nat_alt)
  have dm: "unat (v div radix) = unat v div unat radix" "of_nat (unat v mod unat radix) = v mod radix"
    by (simp_all add: unat_div flip: unat_mod)
  show ?case
  proof (cases "unat v < unat radix")
    case True
    then have "v div radix = 0" "v mod radix = v"
      by (simp_all add: word_less_nat_alt div_word_less mod_word_less)
    moreover obtain o1 where "old = [o1]"
      using less.prems True by (auto simp: digits_small length_Suc_conv)
    ultimately show ?thesis
      using b(2) True arr_set_middle [of xs o1 zs "digit_char v"]
      by (subst utoa_digits.simps) (simp add: digits_small)
  next
    case False
    let ?q = "v div radix"
    have ds: "digits (unat radix) (unat v) = digits (unat radix) (unat ?q) @ [digit_char (v mod radix)]"
      using b(1) False by (simp add: digits_step dm)
    then obtain o1 os where old: "old = o1 # os" "length os = length (digits (unat radix) (unat ?q))"
      using less.prems by (cases old) auto
    have "unat ?q < unat v"
      using b(1) False by (simp add: dm(1))
    then have "utoa_digits ?q radix (length (xs @ [digit_char (v mod radix)]))
        ((xs @ [digit_char (v mod radix)]) @ os @ zs) =
      Some (length (xs @ [digit_char (v mod radix)]) + length os,
        (xs @ [digit_char (v mod radix)]) @ rev (digits (unat radix) (unat ?q)) @ zs)"
      using old(2) by (rule less.hyps)
    moreover have "?q \<noteq> 0"
      using b(1) False by (simp add: dm(1) div_greater_zero_iff flip: unat_eq_0)
    ultimately show ?thesis
      using b(2) arr_set_middle [of xs o1 "os @ zs" "digit_char (v mod radix)"]
      by (subst utoa_digits.simps) (simp add: old ds)
  qed
qed

lemma arr_get_middle: "arr_get (xs @ y # zs) (length xs) = Some y"
  by (simp add: arr_get_eq_Some)

lemma reverse_between_run:
  "reverse_between (length xs) (length xs + length ys - 1) (xs @ ys @ zs) = Some (xs @ rev ys @ zs)"
proof (induction "length ys" arbitrary: xs ys zs rule: less_induct)
  case less
  show ?case
  proof (cases "length ys < 2")
    case True
    then show ?thesis
      by (subst reverse_between.simps) (cases ys, auto)
  next
    case False
    then obtain a ys' where "ys = a # ys'" "ys' \<noteq> []"
      by (cases ys) auto
    then obtain m b where ys: "ys = a # m @ [b]"
      by (metis rev_exhaust)
    have "arr_set (xs @ b # m @ b # zs) (length xs + Suc (length m)) a = Some (xs @ b # m @ a # zs)"
      using arr_set_middle [of "xs @ b # m" b zs a] by simp
    moreover have "arr_get (xs @ a # m @ b # zs) (length xs + Suc (length m)) = Some b"
      using arr_get_middle [of "xs @ a # m" b zs] by simp
    moreover have "reverse_between (length (xs @ [b])) (length (xs @ [b]) + length m - 1)
        ((xs @ [b]) @ m @ a # zs) = Some ((xs @ [b]) @ rev m @ a # zs)"
      by (rule less.hyps) (simp add: ys)
    ultimately show ?thesis
      using arr_get_middle [of xs a "m @ b # zs"] arr_set_middle [of xs a "m @ b # zs" b]
      by (subst reverse_between.simps) (simp add: ys)
  qed
qed

lemma utoa_run:
  assumes "2 \<le> radix" "length old = length (digits (unat radix) (unat v))"
  shows "utoa v (length xs) radix (xs @ old @ zs) =
    Some (length old, xs @ digits (unat radix) (unat v) @ zs)"
  using utoa_digits_run [OF assms, of xs zs]
    reverse_between_run [of xs "rev (digits (unat radix) (unat v))" zs] assms(2)
  by (simp add: utoa_def)

text \<open>Reading digits back.\<close>

definition digit_val :: "u8 \<Rightarrow> u32" where
  "digit_val c = char_int c - 48"

definition is_digit :: "u8 \<Rightarrow> bool" where
  "is_digit c \<longleftrightarrow> 48 \<le> sint c \<and> sint c \<le> 57"

lemma digit_cases: "d < 10 \<Longrightarrow> d \<in> {0, 1, 2, 3, 4, 5, 6, 7, 8, 9 :: nat}"
  by auto

lemma digit_char_decimal:
  assumes "d < 10"
  shows "digit_val (digit_char (of_nat d)) = of_nat d" "is_digit (digit_char (of_nat d))"
    "digit_char (of_nat d) \<noteq> 0" "digit_char (of_nat d) = 48 \<longleftrightarrow> d = 0" "digit_char (of_nat d) \<noteq> 45"
    "digit_char (of_nat d) \<noteq> 35" "digit_char (of_nat d) \<noteq> 37"
    "\<not> isspace (char_int (digit_char (of_nat d)))"
  using digit_cases [OF assms]
  by (auto simp: digit_val_def digit_char_def is_digit_def char_int_def isspace_def)

lemma digits_decimal: "c \<in> set (digits 10 v) \<Longrightarrow> \<exists>d<10. c = digit_char (of_nat d)"
proof (induction v rule: less_induct)
  case (less v)
  show ?case
  proof (cases "v < 10")
    case True
    then show ?thesis
      using less.prems by (auto simp: digits_small)
  next
    case False
    then have "c \<in> set (digits 10 (v div 10)) \<or> c = digit_char (of_nat (v mod 10))"
      using less.prems by (auto simp: digits_step)
    then show ?thesis
    proof
      assume "c = digit_char (of_nat (v mod 10))"
      then show ?thesis
        by (intro exI [of _ "v mod 10"]) simp
    qed (use less.IH [of "v div 10"] False in simp)
  qed
qed

lemma digits_value: "foldl (\<lambda>a c. a * 10 + digit_val c) 0 (digits 10 v) = of_nat v"
proof (induction v rule: less_induct)
  case (less v)
  show ?case
  proof (cases "v < 10")
    case True
    then show ?thesis
      by (simp add: digits_small digit_char_decimal(1))
  next
    case False
    have "of_nat (v div 10) * 10 + of_nat (v mod 10) = (of_nat (v div 10 * 10 + v mod 10) :: u32)"
      by (simp only: of_nat_add of_nat_mult of_nat_numeral)
    also have "\<dots> = of_nat v"
      by (simp only: div_mult_mod_eq)
    finally show ?thesis
      using less.IH [of "v div 10"] False by (simp add: digits_step digit_char_decimal(1))
  qed
qed

lemma digits_first: "0 < v \<Longrightarrow> \<exists>d ds. digits 10 v = digit_char (of_nat d) # ds \<and> 0 < d \<and> d < 10"
proof (induction v rule: less_induct)
  case (less v)
  show ?case
  proof (cases "v < 10")
    case True
    then show ?thesis
      using less.prems by (auto simp: digits_small)
  next
    case False
    then show ?thesis
      using less.IH [of "v div 10"] by (auto simp: digits_step div_greater_zero_iff)
  qed
qed

text \<open>The bytes at an address, with no claim about what follows.\<close>

primrec reads :: "ram \<Rightarrow> u32 \<Rightarrow> u8 list \<Rightarrow> bool" where
  "reads r p [] \<longleftrightarrow> True"
| "reads r p (x # xs) \<longleftrightarrow> r p = x \<and> reads r (p + 1) xs"

lemma reads_append: "reads r p (xs @ ys) \<longleftrightarrow> reads r p xs \<and> reads r (p + of_nat (length xs)) ys"
  by (induction xs arbitrary: p) (simp_all add: add.assoc)

lemma cstr_reads: "cstr r p (xs @ ys) \<Longrightarrow> reads r p xs \<and> cstr r (p + of_nat (length xs)) ys"
proof (induction xs arbitrary: p)
  case (Cons x xs)
  then show ?case
    using Cons.IH [of "p + 1"] by (simp add: add.assoc)
qed simp

lemma parse_width_run:
  assumes "reads r p (ds @ [c])" "\<forall>d \<in> set ds. is_digit d" "\<not> is_digit c"
  shows "parse_width r acc (r p) (p + 1) =
    Some (foldl (\<lambda>a c. a * 10 + digit_val c) acc ds, c, p + of_nat (length ds) + 1)"
  using assms(1,2)
proof (induction ds arbitrary: p acc)
  case Nil
  then show ?case
    using assms(3) by (subst parse_width.simps) (auto simp: is_digit_def)
next
  case (Cons d ds)
  have "parse_width r (acc * 10 + digit_val d) (r (p + 1)) (p + 1 + 1) =
    Some (foldl (\<lambda>a c. a * 10 + digit_val c) (acc * 10 + digit_val d) ds, c, p + 1 + of_nat (length ds) + 1)"
    by (rule Cons.IH) (use Cons.prems in simp_all)
  then show ?case
    using Cons.prems by (subst parse_width.simps) (simp add: is_digit_def digit_val_def add.assoc add_diff_eq)
qed

lemma read_digits_run:
  assumes "reads r p (ds @ [c])" "\<forall>d \<in> set ds. is_digit d" "\<not> is_digit c"
  shows "read_digits acc p r = Some (foldl (\<lambda>a c. a * 10 + digit_val c) acc ds)"
  using assms(1,2)
proof (induction ds arbitrary: p acc)
  case Nil
  then show ?case
    using assms(3) by (subst read_digits.simps) (auto simp: is_digit_def)
next
  case (Cons d ds)
  then show ?case
    by (subst read_digits.simps) (simp add: is_digit_def digit_val_def)
qed

section \<open>What the output steps write\<close>

definition emit :: "u32 \<Rightarrow> u32 \<Rightarrow> u8 list \<Rightarrow> (out \<Rightarrow> 'a) \<Rightarrow> out \<Rightarrow> 'a flow" where
  "emit buffer sz xs f st =
     (case put_all buffer sz xs st of Too_long i r \<Rightarrow> Too_long i r | Next st \<Rightarrow> Next (f st))"

lemma put_all_append:
  "put_all buffer sz (xs @ ys) st =
     (case put_all buffer sz xs st of Too_long i r \<Rightarrow> Too_long i r | Next st \<Rightarrow> put_all buffer sz ys st)"
  by (induction xs arbitrary: st) (simp_all split: flow.splits)

lemma put_put_all: "put buffer sz c st = put_all buffer sz [c] st"
  by (simp split: flow.splits)

lemma put_times_put_all: "put_times buffer sz n c st = put_all buffer sz (replicate n c) st"
  by (induction n arbitrary: st) (simp_all split: flow.splits)

text \<open>
  The output goes to the block of \<open>sz\<close> bytes at the buffer; outside of it the memory is the memory \<open>r0\<close>
  before the call. The index is below \<open>sz\<close> as long as the loop runs.
\<close>

definition frame :: "u32 \<Rightarrow> u32 \<Rightarrow> ram \<Rightarrow> out \<Rightarrow> bool" where
  "frame buffer sz r0 st \<longleftrightarrow>
     fst st < sz \<and> (\<forall>a. a \<notin> set (block buffer (unat sz)) \<longrightarrow> snd st a = r0 a)"

lemma in_block: "i < sz \<Longrightarrow> buffer + i \<in> set (block buffer (unat sz))"
  by (auto simp: set_block word_less_nat_alt intro!: image_eqI [of _ _ "unat i"])

lemma put_frame:
  "frame buffer sz r0 st \<Longrightarrow> put buffer sz c st = Next st' \<Longrightarrow> frame buffer sz r0 st'"
  using in_block [of "fst st" sz buffer]
  by (auto simp: frame_def put_def Let_def not_le split: prod.splits if_splits)

lemma put_all_frame:
  "frame buffer sz r0 st \<Longrightarrow> put_all buffer sz xs st = Next st' \<Longrightarrow> frame buffer sz r0 st'"
  by (induction xs arbitrary: st) (auto split: flow.splits intro: put_frame)

lemma frame_cstr:
  assumes "frame buffer sz r0 st" "cstr r0 p s"
    "set (block buffer (unat sz)) \<inter> set (block p (Suc (length s))) = {}"
  shows "cstr (snd st) p s"
proof -
  have "cstr (snd st) p s \<longleftrightarrow> cstr r0 p s"
    by (rule cstr_cong) (use assms(1,3) in \<open>auto simp: frame_def disjoint_iff simp del: block.simps\<close>)
  with assms(2) show ?thesis
    by simp
qed

lemma put_str_put_all:
  assumes "frame buffer sz r0 st" "cstr r0 p s"
    "set (block buffer (unat sz)) \<inter> set (block p (Suc (length s))) = {}"
  shows "put_str buffer sz p st = Some (put_all buffer sz s st)"
  using assms
proof (induction s arbitrary: p st)
  case Nil
  then have "snd st p = 0"
    by (auto simp: frame_def)
  then show ?case
    by (subst put_str.simps) simp
next
  case (Cons x s)
  have x: "snd st p = x" "x \<noteq> 0"
    using frame_cstr [OF Cons.prems] by simp_all
  show ?case
  proof (cases "put buffer sz x st")
    case (Next st')
    have "put_str buffer sz (p + 1) st' = Some (put_all buffer sz s st')"
      by (rule Cons.IH) (use Cons.prems put_frame [OF Cons.prems(1) Next] in auto)
    then show ?thesis
      using x Next by (subst put_str.simps) simp
  qed (use x in \<open>subst put_str.simps, simp\<close>)
qed

text \<open>The whole text: it fits, or the buffer is filled to its end.\<close>

lemma put_all_result:
  assumes "k + length xs < 2 ^ 32" "k < unat sz"
  shows "put_all buffer sz xs (of_nat k, r) =
    (if k + length xs < unat sz then Next (of_nat (k + length xs), write_bytes (buffer + of_nat k) xs r)
     else Too_long sz (write_bytes (buffer + of_nat k) (take (unat sz - k) xs) r))"
  using assms
proof (induction xs arbitrary: k r)
  case (Cons x xs)
  have one: "of_nat k + 1 = (of_nat (Suc k) :: u32)"
    by simp
  have u: "unat (of_nat (Suc k) :: u32) = Suc k"
    using Cons.prems(1) by (intro unat_of_nat_u32) simp
  show ?case
  proof (cases "Suc k < unat sz")
    case True
    define r1 where "r1 = r(buffer + of_nat k := x)"
    have "put buffer sz x (of_nat k, r) = Next (of_nat (Suc k), r1)"
      using u True by (simp add: put_def Let_def word_le_nat_alt one r1_def del: of_nat_Suc)
    moreover have "buffer + of_nat (Suc k) = buffer + of_nat k + 1"
      by (simp add: ac_simps)
    moreover have "unat sz - k = Suc (unat sz - Suc k)"
      using True by simp
    ultimately show ?thesis
      using Cons.IH [of "Suc k" r1] Cons.prems(1) True
      by (simp add: r1_def add.assoc del: of_nat_Suc of_nat_add fun_upd_apply)
  next
    case False
    then have sz: "unat sz = Suc k"
      using Cons.prems(2) by simp
    then have "of_nat (Suc k) = (of_nat (unat sz) :: u32)"
      by (simp only:)
    then have "of_nat (Suc k) = sz"
      by (simp del: of_nat_Suc)
    then have "put buffer sz x (of_nat k, r) = Too_long sz (r(buffer + of_nat k := x))"
      by (simp add: put_def Let_def one del: of_nat_Suc)
    then show ?thesis
      using sz by simp
  qed
qed simp

section \<open>The meaning of a format\<close>

text \<open>
  A format as a list of directives. A number has its flags (alternative form, left-justified, padded
  with zeros), its field width and its value; a string has its address and its text.
\<close>

datatype conv = D | I | U | X | P

datatype directive =
    Plain u8
  | Percent
  | Character u32
  | Number conv bool bool bool nat u32
  | String_at u32 "u8 list"

primrec conv_char :: "conv \<Rightarrow> u8" where
  "conv_char D = 100"
| "conv_char I = 105"
| "conv_char U = 117"
| "conv_char X = 120"
| "conv_char P = 112"

definition flag_text :: "bool \<Rightarrow> bool \<Rightarrow> bool \<Rightarrow> u8 list" where
  "flag_text alt left zero = (if alt then [35] else []) @ (if left then [45] else []) @ (if zero then [48] else [])"

definition width_text :: "nat \<Rightarrow> u8 list" where
  "width_text w = (if w = 0 then [] else digits 10 w)"

primrec directive_text :: "directive \<Rightarrow> u8 list" where
  "directive_text (Plain c) = [c]"
| "directive_text Percent = [37, 37]"
| "directive_text (Character v) = [37, 99]"
| "directive_text (Number cv alt left zero w v) = 37 # flag_text alt left zero @ width_text w @ [conv_char cv]"
| "directive_text (String_at p s) = [37, 115]"

primrec directive_args :: "directive \<Rightarrow> u32 list" where
  "directive_args (Plain c) = []"
| "directive_args Percent = []"
| "directive_args (Character v) = [v]"
| "directive_args (Number cv alt left zero w v) = [v]"
| "directive_args (String_at p s) = [p]"

definition negative :: "conv \<Rightarrow> u32 \<Rightarrow> bool" where
  "negative cv v \<longleftrightarrow> (cv = D \<or> cv = I) \<and> sint v < 0"

definition sign_text :: "conv \<Rightarrow> bool \<Rightarrow> u32 \<Rightarrow> u8 list" where
  "sign_text cv alt v =
     (if negative cv v then [45] else if cv = P \<or> cv = X \<and> alt then [48, 120] else [])"

definition magnitude_text :: "conv \<Rightarrow> u32 \<Rightarrow> u8 list" where
  "magnitude_text cv v =
     digits (if cv = X \<or> cv = P then 16 else 10) (unat (if negative cv v then - v else v))"

definition field :: "bool \<Rightarrow> bool \<Rightarrow> nat \<Rightarrow> u8 list \<Rightarrow> u8 list \<Rightarrow> u8 list" where
  "field left zero w sign ds =
     (let pad = w - (length sign + length ds) in
      if left then sign @ ds @ replicate pad 32
      else if zero then sign @ replicate pad 48 @ ds
      else replicate pad 32 @ sign @ ds)"

primrec render :: "directive \<Rightarrow> u8 list" where
  "render (Plain c) = [c]"
| "render Percent = [37]"
| "render (Character v) = [ucast v]"
| "render (Number cv alt left zero w v) = field left zero w (sign_text cv alt v) (magnitude_text cv v)"
| "render (String_at p s) = (if p = 0 then [40, 110, 117, 108, 108, 41] else s)"

text \<open>
  The directives the function handles: plain text has neither percent signs nor terminators, a width
  fits its variable and with the flag for zeros it is not less than the length of the sign, and a
  string is where its argument says, not in the buffer.
\<close>

primrec directive_ok :: "ram \<Rightarrow> u32 \<Rightarrow> u32 \<Rightarrow> directive \<Rightarrow> bool" where
  "directive_ok r buffer sz (Plain c) \<longleftrightarrow> c \<noteq> 37 \<and> c \<noteq> 0"
| "directive_ok r buffer sz Percent \<longleftrightarrow> True"
| "directive_ok r buffer sz (Character v) \<longleftrightarrow> True"
| "directive_ok r buffer sz (Number cv alt left zero w v) \<longleftrightarrow>
     w < 2 ^ 32 \<and> (zero \<longrightarrow> length (sign_text cv alt v) \<le> w)"
| "directive_ok r buffer sz (String_at p s) \<longleftrightarrow>
     (p \<noteq> 0 \<longrightarrow> cstr r p s \<and> set (block buffer (unat sz)) \<inter> set (block p (Suc (length s))) = {})"

section \<open>One conversion\<close>

lemma put_digits_run:
  assumes "2 \<le> radix" "length pre + length (digits (unat radix) (unat v)) \<le> length (pre @ old)"
  shows "put_digits buffer sz left pad0 radix v (pre @ old, length pre, pad, st) =
    Some (put_all buffer sz
      (let k = unat pad - (length pre + length (digits (unat radix) (unat v))) in
       (if left then [] else replicate k (if pad0 then 48 else 32)) @
       pre @ digits (unat radix) (unat v) @ (if left then replicate k 32 else [])) st)"
proof -
  define n where "n = length (digits (unat radix) (unat v))"
  obtain o1 o2 where old: "old = o1 @ o2" "length o1 = n"
    using assms(2) by (intro that [of "take n old" "drop n old"]) (simp_all add: n_def)
  have "utoa v (length pre) radix (pre @ old) = Some (n, pre @ digits (unat radix) (unat v) @ o2)"
    using utoa_run [OF assms(1), of o1 v pre o2] old by (simp add: n_def)
  then show ?thesis
    by (auto simp: put_digits_def n_def [symmetric] put_times_put_all put_all_append Let_def split: flow.splits)
qed

lemma prefix_padded:
  "put_num_prefix buffer sz True c (nb, nl, pad, st) =
     Some (emit buffer sz [c] (\<lambda>st. (nb, nl, pad - 1, st)) st)"
  by (simp add: put_num_prefix_def emit_def split: flow.splits)

lemma prefix_buffered:
  "put_num_prefix buffer sz False c (pre @ replicate (Suc k) 0, length pre, pad, st) =
     Some (Next ((pre @ [c]) @ replicate k 0, length (pre @ [c]), pad, st))"
  using arr_set_middle [of pre 0 "replicate k 0" c] by (simp add: put_num_prefix_def)

lemma emit_emit:
  "(case emit buffer sz xs f st of Too_long i r \<Rightarrow> Some (Too_long i r) | Next x \<Rightarrow> g x) =
   (case put_all buffer sz xs st of Too_long i r \<Rightarrow> Some (Too_long i r) | Next st \<Rightarrow> g (f st))"
  by (simp add: emit_def split: flow.splits)

lemma magnitude_text_length: "length (magnitude_text cv v) \<le> 10"
  using digits_u32 [of "if negative cv v then - v else v"] by (auto simp: magnitude_text_def)

definition conv_radix :: "conv \<Rightarrow> u32" where
  "conv_radix cv = (if cv = X \<or> cv = P then 16 else 10)"

lemma magnitude_digits:
  "magnitude_text cv v = digits (unat (conv_radix cv)) (unat (if negative cv v then - v else v))"
  "2 \<le> conv_radix cv"
  by (simp_all add: magnitude_text_def conv_radix_def)

lemma digits_phase:
  assumes "length pre + 10 \<le> 20"
  shows "put_digits buffer sz left zero (conv_radix cv) (if negative cv v then - v else v)
      (pre @ replicate (20 - length pre) 0, length pre, pad, st) =
    Some (put_all buffer sz
      (let k = unat pad - (length pre + length (magnitude_text cv v)) in
       (if left then [] else replicate k (if zero then 48 else 32)) @
       pre @ magnitude_text cv v @ (if left then replicate k 32 else [])) st)"
  using put_digits_run [OF magnitude_digits(2), of pre cv "if negative cv v then - v else v"
      "replicate (20 - length pre) 0"] magnitude_text_length [of cv v] assms
  by (simp add: magnitude_digits(1))

text \<open>The case of a number without the flag for zeros, and the case with it.\<close>

lemma put_number_negative:
  "put_number buffer sz left zero (conv_char cv) v n =
    (if negative cv v then do {
        p \<leftarrow> put_num_prefix buffer sz zero 45 n;
        case p of
          Too_long i r \<Rightarrow> Some (Too_long i r)
        | Next n \<Rightarrow> put_digits buffer sz left zero (conv_radix cv) (if negative cv v then - v else v) n
      }
      else put_digits buffer sz left zero (conv_radix cv) (if negative cv v then - v else v) n)"
  by (cases cv) (simp_all add: put_number_def negative_def conv_radix_def)

lemma sign_cases:
  obtains "negative cv v" "sign_text cv alt v = [45]" "\<not> (conv_char cv = 120 \<and> alt \<or> conv_char cv = 112)"
  | "\<not> negative cv v" "sign_text cv alt v = [48, 120]" "conv_char cv = 120 \<and> alt \<or> conv_char cv = 112"
  | "\<not> negative cv v" "sign_text cv alt v = []" "\<not> (conv_char cv = 120 \<and> alt \<or> conv_char cv = 112)"
  by (cases cv; cases "negative cv v"; cases alt) (auto simp: sign_text_def negative_def)

lemma convert_number_def:
  "convert buffer sz alt left zero pad (conv_char cv) (v # args) st =
    do {
      p \<leftarrow> (if (conv_char cv = 120 \<and> alt) \<or> conv_char cv = 112 then do {
              q \<leftarrow> put_num_prefix buffer sz zero 48 (replicate 20 0, 0, pad, st);
              case q of
                Too_long i r \<Rightarrow> Some (Too_long i r)
              | Next n \<Rightarrow> put_num_prefix buffer sz zero 120 n
            }
            else Some (Next (replicate 20 0, 0, pad, st)));
      case p of
        Too_long i r \<Rightarrow> Some (Too_long i r)
      | Next n \<Rightarrow> do {
          p \<leftarrow> put_number buffer sz left zero (conv_char cv) v n;
          Some (case p of Too_long i r \<Rightarrow> Too_long i r | Next st \<Rightarrow> Next (args, st))
        }
    }"
proof -
  have "conv_char cv \<noteq> 99" "conv_char cv \<in> {112, 120, 100, 105, 117}"
    by (cases cv; simp)+
  then show ?thesis
    by (simp only: convert_def Let_def if_True if_False va_arg.simps bind.bind_lunit prod.case)
qed

lemma convert_plain_number:
  "convert buffer sz alt left False pad (conv_char cv) (v # args) st =
     Some (emit buffer sz (field left False (unat pad) (sign_text cv alt v) (magnitude_text cv v))
       (\<lambda>st. (args, st)) st)"
  using sign_cases [of cv v alt]
proof cases
  case 1
  then have c: "(conv_char cv = 120 \<and> alt \<or> conv_char cv = 112) = False"
    by simp
  show ?thesis
    unfolding convert_number_def put_number_negative c if_False
    using 1(1,2) prefix_buffered [of buffer sz 45 "[]" 19 pad st]
      digits_phase [of "[45]" buffer sz left False cv v pad st]
    by (simp add: field_def emit_def Let_def)
next
  case 2
  then have c: "(conv_char cv = 120 \<and> alt \<or> conv_char cv = 112) = True"
    by simp
  show ?thesis
    unfolding convert_number_def put_number_negative c if_True
    using 2(1,2) prefix_buffered [of buffer sz 48 "[]" 19 pad st]
      prefix_buffered [of buffer sz 120 "[48]" 18 pad st]
      digits_phase [of "[48, 120]" buffer sz left False cv v pad st]
    by (simp add: field_def emit_def Let_def)
next
  case 3
  then have c: "(conv_char cv = 120 \<and> alt \<or> conv_char cv = 112) = False"
    by simp
  show ?thesis
    unfolding convert_number_def put_number_negative c if_False
    using 3(1,2) digits_phase [of "[]" buffer sz left False cv v pad st]
    by (simp add: field_def emit_def Let_def)
qed

lemma digits_phase_zeros:
  "negative cv v \<Longrightarrow>
     put_digits buffer sz left True (conv_radix cv) (- v) (replicate 20 0, 0, pad, st) =
     Some (put_all buffer sz (field left True (unat pad) [] (magnitude_text cv v)) st)"
  "\<not> negative cv v \<Longrightarrow>
     put_digits buffer sz left True (conv_radix cv) v (replicate 20 0, 0, pad, st) =
     Some (put_all buffer sz (field left True (unat pad) [] (magnitude_text cv v)) st)"
  using digits_phase [of "[]" buffer sz left True cv v pad st]
  by (simp_all add: field_def Let_def)

lemma convert_zeros:
  "convert buffer sz alt left True pad (conv_char cv) (v # args) st =
     Some (emit buffer sz (sign_text cv alt v @
         field left True (unat (pad - of_nat (length (sign_text cv alt v)))) [] (magnitude_text cv v))
       (\<lambda>st. (args, st)) st)"
  using sign_cases [of cv v alt]
proof cases
  case 1
  then have c: "(conv_char cv = 120 \<and> alt \<or> conv_char cv = 112) = False"
    by simp
  show ?thesis
    unfolding convert_number_def put_number_negative c if_False
    using 1(1,2) by (simp add: emit_def prefix_padded digits_phase_zeros split: flow.splits)
next
  case 2
  then have c: "(conv_char cv = 120 \<and> alt \<or> conv_char cv = 112) = True"
    by simp
  show ?thesis
    unfolding convert_number_def put_number_negative c if_True
    using 2(1,2) by (simp add: emit_def prefix_padded digits_phase_zeros split: flow.splits)
next
  case 3
  then have c: "(conv_char cv = 120 \<and> alt \<or> conv_char cv = 112) = False"
    by simp
  show ?thesis
    unfolding convert_number_def put_number_negative c if_False
    using 3(1,2) by (simp add: emit_def digits_phase_zeros)
qed

lemma convert_padded_number:
  assumes "length (sign_text cv alt v) \<le> unat pad"
  shows "convert buffer sz alt left True pad (conv_char cv) (v # args) st =
     Some (emit buffer sz (field left True (unat pad) (sign_text cv alt v) (magnitude_text cv v))
       (\<lambda>st. (args, st)) st)"
proof -
  have "unat (of_nat (length (sign_text cv alt v)) :: u32) = length (sign_text cv alt v)"
    by (simp add: sign_text_def)
  then have "unat (pad - of_nat (length (sign_text cv alt v))) = unat pad - length (sign_text cv alt v)"
    using assms by (simp add: unat_sub word_le_nat_alt)
  then show ?thesis
    by (simp add: convert_zeros field_def Let_def)
qed

lemma parse_flags_run:
  assumes "reads r p (flag_text alt left zero @ [c])" "c \<notin> {35, 45, 48}"
  shows "parse_flags r False False False (r p) (p + 1) =
    (alt, left, zero, c, p + of_nat (length (flag_text alt left zero)) + 1)"
  using assms
  by (cases alt; cases left; cases zero) (auto simp: flag_text_def parse_flags.simps)

lemma width_then_conv:
  "\<exists>c cs. width_text w @ [conv_char cv] = c # cs \<and> c \<notin> {35, 37, 45, 48}"
proof (cases "w = 0")
  case True
  then show ?thesis
    by (cases cv) (simp_all add: width_text_def)
next
  case False
  then obtain d ds where "digits 10 w = digit_char (of_nat d) # ds" "0 < d" "d < 10"
    using digits_first by blast
  then show ?thesis
    using False digit_char_decimal [of d] by (simp add: width_text_def)
qed

lemma parse_width_text:
  assumes "reads r p (width_text w @ [conv_char cv])"
  shows "parse_width r 0 (r p) (p + 1) = Some (of_nat w, conv_char cv, p + of_nat (length (width_text w)) + 1)"
proof -
  have "\<forall>d \<in> set (width_text w). is_digit d"
    using digits_decimal [of _ w] digit_char_decimal(2) by (auto simp: width_text_def)
  moreover have "\<not> is_digit (conv_char cv)"
    by (cases cv) (simp_all add: is_digit_def)
  moreover have "foldl (\<lambda>a c. a * 10 + digit_val c) 0 (width_text w) = of_nat w"
    by (simp add: width_text_def digits_value)
  ultimately show ?thesis
    using parse_width_run [OF assms, of 0] by simp
qed

lemma parse_number:
  assumes "reads r p (flag_text alt left zero @ width_text w @ [conv_char cv])"
  shows "\<exists>c g. parse_flags r False False False (r p) (p + 1) = (alt, left, zero, c, g) \<and>
    parse_width r 0 c g =
      Some (of_nat w, conv_char cv, p + of_nat (length (flag_text alt left zero) + length (width_text w)) + 1)"
proof -
  let ?q = "p + of_nat (length (flag_text alt left zero))"
  obtain c cs where c: "width_text w @ [conv_char cv] = c # cs" "c \<notin> {35, 37, 45, 48}"
    using width_then_conv by blast
  have "reads r p (flag_text alt left zero)" "reads r ?q (width_text w @ [conv_char cv])"
    using assms by (simp_all only: reads_append [of r p])
  moreover from this(2) have "r ?q = c"
    unfolding c(1) by simp
  ultimately have "parse_flags r False False False (r p) (p + 1) = (alt, left, zero, c, ?q + 1)"
    "parse_width r 0 c (?q + 1) = Some (of_nat w, conv_char cv, ?q + of_nat (length (width_text w)) + 1)"
    using c(2) parse_flags_run [of r p alt left zero c] parse_width_text [of r ?q w cv]
    by (simp_all add: reads_append)
  then show ?thesis
    by (simp add: add.assoc)
qed

lemma put_emit: "(case put buffer sz c st of Too_long i r \<Rightarrow> Too_long i r | Next st \<Rightarrow> Next (f st)) =
    emit buffer sz [c] f st"
  by (simp add: emit_def split: flow.splits)

lemma format_step_number:
  assumes "directive_ok r0 buffer sz (Number cv alt left zero w v)" "reads (snd st) f (directive_text (Number cv alt left zero w v))"
  shows "format_step buffer sz (snd st f) (f + 1) (v # args) st =
    Some (emit buffer sz (render (Number cv alt left zero w v))
      (\<lambda>st. (f + of_nat (length (directive_text (Number cv alt left zero w v))), args, st)) st)"
proof -
  let ?r = "snd st"
  have f: "?r f = 37" "reads ?r (f + 1) (flag_text alt left zero @ width_text w @ [conv_char cv])"
    using assms(2) by simp_all
  obtain c cs where "width_text w @ [conv_char cv] = c # cs" "c \<noteq> 37"
    using width_then_conv [of w cv] by blast
  then have "?r (f + 1) \<noteq> 37"
    using f(2) by (auto simp: flag_text_def split: if_splits)
  moreover obtain c g where "parse_flags ?r False False False (?r (f + 1)) (f + 1 + 1) = (alt, left, zero, c, g)"
    "parse_width ?r 0 c g = Some (of_nat w, conv_char cv,
       f + 1 + of_nat (length (flag_text alt left zero) + length (width_text w)) + 1)"
    using parse_number [OF f(2)] by blast
  moreover have "unat (of_nat w :: u32) = w"
    using assms(1) by (simp add: unat_of_nat_u32)
  then have "convert buffer sz alt left zero (of_nat w) (conv_char cv) (v # args) st =
      Some (emit buffer sz (render (Number cv alt left zero w v)) (\<lambda>st. (args, st)) st)"
    using assms(1) convert_plain_number [of buffer sz alt left "of_nat w" cv v args st]
      convert_padded_number [of cv alt v "of_nat w" buffer sz left args st]
    by (cases zero) simp_all
  ultimately show ?thesis
    using f(1) by (simp add: format_step_def Let_def emit_def ac_simps split: flow.splits)
qed

lemma format_step_directive:
  assumes "frame buffer sz r0 st" "directive_ok r0 buffer sz d" "reads (snd st) f (directive_text d)"
  shows "format_step buffer sz (snd st f) (f + 1) (directive_args d @ args) st =
    Some (emit buffer sz (render d) (\<lambda>st. (f + of_nat (length (directive_text d)), args, st)) st)"
proof (cases d)
  case (Number cv alt left zero w v)
  then show ?thesis
    using format_step_number [of r0 buffer sz cv alt left zero w v st f args] assms(2,3) by simp
next
  case (String_at p s)
  have "p \<noteq> 0 \<Longrightarrow> put_str buffer sz p st = Some (put_all buffer sz s st)"
    using put_str_put_all [OF assms(1)] assms(2) String_at by simp
  then show ?thesis
    using assms(3) String_at
    by (auto simp: format_step_def parse_flags.simps parse_width.simps convert_def Let_def emit_def
        add.assoc split: flow.splits)
qed (use assms(2,3) in \<open>auto simp: format_step_def parse_flags.simps parse_width.simps convert_def Let_def
        put_emit emit_def add.assoc split: flow.splits\<close>)

section \<open>The whole format\<close>

lemma directive_text_nonempty: "directive_text d \<noteq> []"
  by (cases d) simp_all

lemma cstr_first: "cstr r p s \<Longrightarrow> s \<noteq> [] \<Longrightarrow> r p \<noteq> 0"
  by (cases s) auto

lemma block_suffix_disjoint:
  assumes "A \<inter> set (block p (Suc (m + n))) = {}"
  shows "A \<inter> set (block (p + of_nat m) (Suc n)) = {}"
proof -
  have "set (block (p + of_nat m) (Suc n)) \<subseteq> set (block p (m + Suc n))"
    by (simp only: block_append set_append) blast
  then show ?thesis
    using assms by auto
qed

lemma format_loop_run:
  assumes "frame buffer sz r0 st" "\<forall>d \<in> set ds. directive_ok r0 buffer sz d"
    and "cstr r0 f (concat (map directive_text ds))"
    and "set (block buffer (unat sz)) \<inter> set (block f (Suc (length (concat (map directive_text ds))))) = {}"
  shows "format_loop buffer sz f (concat (map directive_args ds) @ args) st =
    Some (case put_all buffer sz (concat (map render ds)) st of Too_long i r \<Rightarrow> (i, r) | Next st \<Rightarrow> st)"
  using assms
proof (induction ds arbitrary: f st)
  case Nil
  then have "snd st f = 0"
    using frame_cstr [of buffer sz r0 st f "[]"] by simp
  then show ?case
    by (subst format_loop.simps) simp
next
  case (Cons d ds)
  let ?t = "directive_text d" and ?ts = "concat (map directive_text ds)"
  let ?f = "f + of_nat (length ?t)"
  have here: "cstr (snd st) f (?t @ ?ts)"
    using frame_cstr [OF Cons.prems(1), of f "?t @ ?ts"] Cons.prems(3,4) by simp
  then have "snd st f \<noteq> 0"
    by (rule cstr_first) (simp add: directive_text_nonempty)
  moreover have step: "format_step buffer sz (snd st f) (f + 1)
      (directive_args d @ concat (map directive_args ds) @ args) st =
    Some (emit buffer sz (render d) (\<lambda>st. (?f, concat (map directive_args ds) @ args, st)) st)"
    using Cons.prems(2) cstr_reads [OF here] by (intro format_step_directive [OF Cons.prems(1)]) simp_all
  moreover have "format_loop buffer sz ?f (concat (map directive_args ds) @ args) st' =
      Some (case put_all buffer sz (concat (map render ds)) st' of Too_long i r \<Rightarrow> (i, r) | Next st \<Rightarrow> st)"
    if "put_all buffer sz (render d) st = Next st'" for st'
  proof (rule Cons.IH)
    show "frame buffer sz r0 st'"
      using Cons.prems(1) that by (rule put_all_frame)
    show "cstr r0 ?f ?ts"
      using Cons.prems(3) cstr_reads [of r0 f ?t ?ts] by simp
    show "set (block buffer (unat sz)) \<inter> set (block ?f (Suc (length ?ts))) = {}"
      using Cons.prems(4) by (intro block_suffix_disjoint) simp
  qed (use Cons.prems(2) in simp)
  ultimately show ?case
    by (subst format_loop.simps) (simp add: emit_def put_all_append split: flow.splits)
qed

lemma write_bytes_terminate:
  assumes "0 < n" "n \<le> length xs"
  shows "(write_bytes p (take n xs) r)(p + of_nat (n - 1) := 0) = write_bytes p (take (n - 1) xs @ [0]) r"
proof -
  have "take n xs = take (n - 1) xs @ [xs ! (n - 1)]"
    using assms take_Suc_conv_app_nth [of "n - 1" xs] by simp
  then show ?thesis
    using assms by (simp add: write_bytes_append min_absorb2)
qed

lemma vsnprintf_run:
  assumes "sz \<noteq> 0" "cstr r format (concat (map directive_text ds))"
    and "\<forall>d \<in> set ds. directive_ok r buffer sz d"
    and "set (block buffer (unat sz)) \<inter> set (block format (Suc (length (concat (map directive_text ds))))) = {}"
    and "length (concat (map render ds)) < 2 ^ 32"
  shows "vsnprintf buffer sz format (concat (map directive_args ds)) r =
    Some (of_nat (min (length (concat (map render ds))) (unat sz)),
      write_bytes buffer (take (unat sz - 1) (concat (map render ds)) @ [0]) r)"
proof -
  let ?out = "concat (map render ds)"
  have pos: "0 < unat sz"
    using assms(1) by (simp add: unat_gt_0)
  have "frame buffer sz r (0, r)"
    using assms(1) by (simp add: frame_def word_neq_0_conv)
  then have loop: "format_loop buffer sz format (concat (map directive_args ds)) (0, r) =
      Some (case put_all buffer sz ?out (0, r) of Too_long i r \<Rightarrow> (i, r) | Next st \<Rightarrow> st)"
    using format_loop_run [of buffer sz r "(0, r)" ds format "[]"] assms(2-4) by simp
  have put: "put_all buffer sz ?out (0, r) =
      (if length ?out < unat sz then Next (of_nat (length ?out), write_bytes buffer ?out r)
       else Too_long sz (write_bytes buffer (take (unat sz) ?out) r))"
    using put_all_result [of 0 ?out sz buffer r] assms(5) pos by simp
  show ?thesis
  proof (cases "length ?out < unat sz")
    case True
    then have "of_nat (length ?out) < sz"
      using assms(5) by (simp add: word_less_nat_alt unat_of_nat_u32)
    then show ?thesis
      using True assms(1) loop put by (simp add: vsnprintf_def write_bytes_append)
  next
    case False
    have "(write_bytes buffer (take (unat sz) ?out) r)(buffer + (sz - 1) := 0) =
        write_bytes buffer (take (unat sz - 1) ?out @ [0]) r"
      using write_bytes_terminate [OF pos, of ?out buffer r] False pos by (simp add: of_nat_diff)
    then show ?thesis
      using False assms(1) loop put by (simp add: vsnprintf_def)
  qed
qed

text \<open>
  C29. \<^verbatim>\<open>vsnprintf\<close> writes the text that the directives of the format stand for: plain text, \<^verbatim>\<open>%%\<close>, \<^verbatim>\<open>%c\<close> and \<^verbatim>\<open>%s\<close> without flags, and
  \<^verbatim>\<open>%d\<close>, \<^verbatim>\<open>%i\<close>, \<^verbatim>\<open>%u\<close>, \<^verbatim>\<open>%x\<close> and \<^verbatim>\<open>%p\<close> with the flags for the prefix, the left side and zeros and a field width, with signs and
  prefixes before padding zeros. As much of the text as fits in front of the terminator is written. It returns the length of
  the text, or the size of the buffer if the text does not fit; with size 0 it writes nothing and returns 0. The memory
  outside the buffer stays as it was. The theorem leaves out a flag for zeros with a width less than the length of the sign or
  prefix, where the code wraps (\<open>zero_flag_width_wraps\<close>), texts of 4 GiB and more, and formats or strings inside the buffer.
\<close>

theorem vsnprintf_correct:
  assumes "cstr r format (concat (map directive_text ds))"
    and "\<forall>d \<in> set ds. directive_ok r buffer sz d"
    and "set (block buffer (unat sz)) \<inter> set (block format (Suc (length (concat (map directive_text ds))))) = {}"
    and "length (concat (map render ds)) < 2 ^ 32"
  shows "vsnprintf buffer sz format (concat (map directive_args ds)) r =
    Some (of_nat (min (length (concat (map render ds))) (unat sz)),
      if sz = 0 then r else write_bytes buffer (take (unat sz - 1) (concat (map render ds)) @ [0]) r)"
  using vsnprintf_run [OF _ assms] by (cases "sz = 0") (simp_all add: vsnprintf_def)

definition example_directives :: "directive list" where
  "example_directives = [Number D False False True 4 (- 5), Plain 124, Number X True False False 0 255]"

definition example_format :: ram where
  "example_format = write_bytes 0x2000 [37, 48, 52, 100, 124, 37, 35, 120, 0] (\<lambda>_. 7)"

theorem vsnprintf_correct_witness:
  "vsnprintf 0x3000 8 0x2000 [- 5, 255] example_format =
     Some (8, write_bytes 0x3000 [45, 48, 48, 53, 124, 48, 120, 0] example_format)"
proof -
  have fmt: "concat (map directive_text example_directives) = [37, 48, 52, 100, 124, 37, 35, 120]"
    by (simp add: example_directives_def flag_text_def width_text_def digits_small digit_char_def)
  have zeros: "replicate 2 (48 :: u8) = [48, 48]"
    by (simp add: numeral_2_eq_2)
  have out: "concat (map render example_directives) = [45, 48, 48, 53, 124, 48, 120, 102, 102]"
    by (simp add: example_directives_def sign_text_def magnitude_text_def negative_def field_def
        digits_small digits_step digit_char_def zeros)
  have "cstr example_format 0x2000 (concat (map directive_text example_directives))"
    unfolding fmt by (simp add: example_format_def)
  moreover have "\<forall>d \<in> set example_directives. directive_ok example_format 0x3000 8 d"
    by (simp add: example_directives_def sign_text_def negative_def)
  moreover have "set (block 0x3000 (unat (8 :: u32))) \<inter>
      set (block 0x2000 (Suc (length (concat (map directive_text example_directives))))) = {}"
    unfolding fmt by code_simp
  moreover have "length (concat (map render example_directives)) < 2 ^ 32"
    unfolding out by simp
  ultimately have "vsnprintf 0x3000 8 0x2000 (concat (map directive_args example_directives)) example_format =
    Some (of_nat (min (length (concat (map render example_directives))) (unat (8 :: u32))),
      if (8 :: u32) = 0 then example_format
      else write_bytes 0x3000 (take (unat (8 :: u32) - 1) (concat (map render example_directives)) @ [0]) example_format)"
    by (rule vsnprintf_correct)
  then show ?thesis
    unfolding out by (simp add: example_directives_def)
qed

section \<open>Printing and reading\<close>

lemma atoi_digits:
  assumes "cstr r p (digits 10 n)"
  shows "atoi p r = Some (of_nat n)"
proof -
  obtain d ds where dd: "digits 10 n = d # ds"
    using digits_nonempty by (cases "digits 10 n") auto
  have dig: "\<forall>c \<in> set (digits 10 n). is_digit c"
    using digits_decimal [of _ n] digit_char_decimal(2) by auto
  obtain e where "e < 10" "d = digit_char (of_nat e)"
    using digits_decimal [of d n] dd by auto
  then have d: "d \<noteq> 0" "d \<noteq> 45" "\<not> isspace (char_int d)"
    by (simp_all add: digit_char_decimal)
  have p: "r p = d"
    using assms dd by simp
  have "reads r p (digits 10 n @ [0])"
    using cstr_reads [of r p "digits 10 n" "[]"] assms by (simp add: reads_append)
  then have "read_digits 0 p r = Some (of_nat n)"
    using read_digits_run [OF _ dig, of r p 0 0] by (simp add: digits_value is_digit_def)
  moreover have "skip_spaces p r = Some p"
    using p d by (subst skip_spaces.simps) simp
  ultimately show ?thesis
    using p d by (subst atoi.simps) simp
qed

lemma atoi_negative:
  assumes "cstr r p (45 # digits 10 n)"
  shows "atoi p r = Some (- of_nat n)"
proof -
  have "r p = 45" "cstr r (p + 1) (digits 10 n)"
    using assms by simp_all
  moreover from this(1) have "skip_spaces p r = Some p"
    by (subst skip_spaces.simps) (simp add: isspace_def char_int_def)
  ultimately show ?thesis
    using atoi_digits [of r "p + 1" n] by (subst atoi.simps) simp
qed

text \<open>
  C30. Printing an integer with \<^verbatim>\<open>%d\<close> and reading it back with \<^verbatim>\<open>atoi\<close> gives the same integer, for all
  32-bit values (the smallest included, whose negation wraps), if the buffer has the 12 bytes that the
  longest text needs.
\<close>

theorem printf_atoi_roundtrip:
  assumes "12 \<le> sz" "cstr r format [37, 100]"
    and "set (block buffer (unat sz)) \<inter> set (block format 3) = {}"
  shows "\<exists>len r'. snprintf buffer sz format [v] r = Some (len, r') \<and> atoi buffer r' = Some v"
proof -
  let ?ds = "[Number D False False False 0 v]"
  let ?out = "sign_text D False v @ magnitude_text D v"
  have sz: "12 \<le> unat sz" "sz \<noteq> 0"
    using assms(1) by (auto simp: word_le_nat_alt)
  have out: "concat (map render ?ds) = ?out"
    by (simp add: field_def)
  have len: "length ?out \<le> 11"
    using magnitude_text_length [of D v] by (simp add: sign_text_def)
  have fmt: "concat (map directive_text ?ds) = [37, 100]"
    by (simp add: flag_text_def width_text_def)
  have "vsnprintf buffer sz format (concat (map directive_args ?ds)) r =
    Some (of_nat (min (length ?out) (unat sz)), write_bytes buffer (take (unat sz - 1) ?out @ [0]) r)"
    using vsnprintf_run [OF sz(2), of r format ?ds buffer] assms(2,3) len
    unfolding out fmt by (simp add: numeral_3_eq_3)
  moreover have "take (unat sz - 1) ?out = ?out"
    using sz(1) len by simp
  ultimately have snp: "snprintf buffer sz format [v] r =
      Some (of_nat (min (length ?out) (unat sz)), write_bytes buffer (?out @ [0]) r)"
    by (simp add: snprintf_def del: take_append append_assoc)
  have "0 \<notin> set (digits 10 n)" for n
    using digits_decimal [of 0 n] digit_char_decimal(3) by auto
  then have "cstr (write_bytes buffer (?out @ [0]) r) buffer ?out"
    using len by (intro cstr_write_bytes) (auto simp: sign_text_def magnitude_text_def)
  then have "atoi buffer (write_bytes buffer (?out @ [0]) r) = Some v"
    using atoi_digits [of _ buffer "unat v"] atoi_negative [of _ buffer "unat (- v)"]
    by (cases "negative D v") (simp_all add: sign_text_def magnitude_text_def)
  with snp show ?thesis
    by blast
qed

theorem printf_atoi_roundtrip_witness:
  "\<exists>len r'. snprintf 0x3000 16 0x2000 [0x80000000] (write_bytes 0x2000 [37, 100, 0] (\<lambda>_. 7)) = Some (len, r') \<and>
     atoi 0x3000 r' = Some 0x80000000"
proof (rule printf_atoi_roundtrip)
  show "set (block 0x3000 (unat (16 :: u32))) \<inter> set (block 0x2000 3) = {}"
    by code_simp
qed simp_all

section \<open>A field that is too narrow for its sign\<close>

lemma put_all_too_long:
  assumes "1 < unat sz" "unat sz \<le> length xs" "length xs < 2 ^ 32"
  shows "put_all buffer sz (xs @ ys) (0, r) = Too_long sz (write_bytes buffer (take (unat sz) xs) r)"
  using put_all_result [of 0 xs sz buffer r] assms by (simp add: put_all_append)

text \<open>
  With the flag for zeros the sign is taken from the field width without a check. A width less
  than the length of the sign wraps: \<^verbatim>\<open>%0d\<close> of a negative number fills the whole buffer with zeros
  whatever its size, and the digits never come.
\<close>

theorem zero_flag_width_wraps:
  assumes "sint v < 0" "1 < sz" "sz \<le> 0xfffffff0" "cstr r format [37, 48, 100]"
  shows "vsnprintf buffer sz format [v] r =
    Some (sz, write_bytes buffer (45 # replicate (unat sz - 2) 48 @ [0]) r)"
proof -
  have neg: "negative D v"
    using assms(1) by (simp add: negative_def)
  have sz: "1 < unat sz" "unat sz \<le> 0xfffffff0" "sz \<noteq> 0"
    using assms(2,3) by (auto simp: word_less_nat_alt word_le_nat_alt)
  define m where "m = magnitude_text D v"
  define k where "k = 2 ^ 32 - 1 - length m - (unat sz - 1)"
  have "2 ^ 32 - 1 - length m = (unat sz - 1) + k"
    using sz(2) magnitude_text_length [of D v] by (simp add: k_def m_def)
  moreover have "field False True (unat (0 - of_nat (length [45 :: u8]) :: u32)) [] m =
      replicate (2 ^ 32 - 1 - length m) 48 @ m"
    by (simp add: field_def unsigned_minus_1_eq_mask mask_eq_exp_minus_1)
  ultimately have field: "sign_text D False v @ field False True (unat (0 - of_nat (length (sign_text D False v)) :: u32)) [] m =
      (45 # replicate (unat sz - 1) 48) @ (replicate k 48 @ m)"
    using neg by (simp add: sign_text_def replicate_add)
  have "parse_flags r False False False (r (format + 1)) (format + 2) = (False, False, True, 100, format + 3)"
    using assms(4) by (simp add: parse_flags.simps add.assoc)
  moreover have "parse_width r 0 100 (format + 3) = Some (0, 100, format + 3)"
    by (subst parse_width.simps) simp
  moreover have "put_all buffer sz ((45 # replicate (unat sz - 1) 48) @ (replicate k 48 @ m)) (0, r) =
      Too_long sz (write_bytes buffer (take (unat sz) (45 # replicate (unat sz - 1) 48)) r)"
    using sz by (intro put_all_too_long) auto
  ultimately have "format_step buffer sz (r format) (format + 1) [v] (0, r) =
      Some (Too_long sz (write_bytes buffer (take (unat sz) (45 # replicate (unat sz - 1) 48)) r))"
    using assms(4) convert_zeros [of buffer sz False False 0 D v "[]" "(0, r)"] field
    by (simp add: format_step_def Let_def m_def emit_def add.assoc)
  then have "format_loop buffer sz format [v] (0, r) =
      Some (sz, write_bytes buffer (take (unat sz) (45 # replicate (unat sz - 1) 48)) r)"
    using assms(4) by (subst format_loop.simps) simp
  moreover have "take (unat sz - 1) (45 # replicate (unat sz - 1) 48) = 45 # replicate (unat sz - 2) (48 :: u8)"
    using sz(1) by (simp add: take_Cons' min_absorb1)
  ultimately show ?thesis
    using sz write_bytes_terminate [of "unat sz" "45 # replicate (unat sz - 1) 48" buffer r]
    by (simp add: vsnprintf_def)
qed

theorem zero_flag_width_wraps_witness:
  "vsnprintf 0x3000 6 0x2000 [- 1] (write_bytes 0x2000 [37, 48, 100, 0] (\<lambda>_. 7)) =
     Some (6, write_bytes 0x3000 [45, 48, 48, 48, 48, 0] (write_bytes 0x2000 [37, 48, 100, 0] (\<lambda>_. 7)))"
proof -
  have "replicate (unat (6 :: u32) - 2) (48 :: u8) = [48, 48, 48, 48]"
    by code_simp
  then show ?thesis
    using zero_flag_width_wraps [of "- 1" 6 "write_bytes 0x2000 [37, 48, 100, 0] (\<lambda>_. 7)" "0x2000" "0x3000"]
    by simp
qed
end
