(* ===== verification/Lock.thy ===== *)
theory Lock
  imports Prelude
begin

text \<open>
  The locks of \<^verbatim>\<open>kernel/lock.c\<close>. The steps of several tasks or processors interleave in every way. Each
  atomic instruction on the word of a lock is a step of its own, and so is each group of accesses to the
  other fields in between. They take effect in program order: the atomic instructions have acquire and
  release order, and the other fields are only accessed between two of them.

  A mutex is a holder and a nesting level under a flag that a task spins on. The theorem on it is that
  the sections between the return of \<^verbatim>\<open>mutex_lock\<close> and the call of \<^verbatim>\<open>mutex_unlock\<close> of two tasks never
  overlap, and that no assertion fails; this is what makes the operations of the other theories, which
  hold a lock from their beginning to their end, single steps.
\<close>

section \<open>Mutexes\<close>

record mutex =
  holder :: "nat option"
  level :: u32
  lock_flag :: bool

text \<open>
  Where a task is: outside, or in \<^verbatim>\<open>mutex_lock\<close> (before the exchange, after it, having taken the lock,
  having counted, having found another holder), or in \<^verbatim>\<open>mutex_unlock\<close> (before the exchange, after it, and
  before the flag is cleared).
\<close>

datatype place =
    Outside
  | Lock_try | Lock_check | Lock_count | Lock_leave | Lock_back
  | Unlock_try | Unlock_check | Unlock_leave

text \<open>
  The system of all tasks on one mutex. The number of returns from \<^verbatim>\<open>mutex_lock\<close> less the number of
  returns from \<^verbatim>\<open>mutex_unlock\<close> is kept for each task; the code does not have this count.
\<close>

record mutex_system =
  the_mutex :: mutex
  at :: "nat \<Rightarrow> place"
  depth :: "nat \<Rightarrow> nat"

datatype mutex_call = Call_lock | Call_unlock

definition goto :: "nat \<Rightarrow> place \<Rightarrow> mutex_system \<Rightarrow> mutex_system" where
  "goto t p s = s\<lparr>at := (at s)(t := p)\<rparr>"

definition set_mutex :: "mutex \<Rightarrow> mutex_system \<Rightarrow> mutex_system" where
  "set_mutex m s = s\<lparr>the_mutex := m\<rparr>"

text \<open>
  One step of the task \<open>t\<close>; \<open>c\<close> says which function it calls if it is outside, and \<open>interrupts\<close> whether
  interrupts are enabled then. A failed exchange yields
  the processor and tries again.
\<close>

definition mutex_lock_step :: "nat \<Rightarrow> place \<Rightarrow> mutex_system \<Rightarrow> mutex_system" where
  "mutex_lock_step t p s =
     (let m = the_mutex s in
      case p of
        Lock_try \<Rightarrow>
          if \<not> lock_flag m then goto t Lock_check (set_mutex (m\<lparr>lock_flag := True\<rparr>) s) else s
      | Lock_check \<Rightarrow>
          if holder m = None \<or> holder m = Some t
          then goto t Lock_count (set_mutex (m\<lparr>holder := Some t\<rparr>) s)
          else goto t Lock_back s
      | Lock_count \<Rightarrow> goto t Lock_leave (set_mutex (m\<lparr>level := level m + 1\<rparr>) s)
      | Lock_leave \<Rightarrow>
          goto t Outside (set_mutex (m\<lparr>lock_flag := False\<rparr>) (s\<lparr>depth := (depth s)(t := depth s t + 1)\<rparr>))
      | Lock_back \<Rightarrow> goto t Lock_try (set_mutex (m\<lparr>lock_flag := False\<rparr>) s)
      | _ \<Rightarrow> s)"

definition mutex_unlock_step :: "nat \<Rightarrow> place \<Rightarrow> mutex_system \<Rightarrow> mutex_system option" where
  "mutex_unlock_step t p s =
     (let m = the_mutex s in
      case p of
        Unlock_try \<Rightarrow>
          Some (if \<not> lock_flag m then goto t Unlock_check (set_mutex (m\<lparr>lock_flag := True\<rparr>) s) else s)
      | Unlock_check \<Rightarrow> do {
          c_assert (holder m = Some t);
          c_assert (level m > 0);
          let l = level m - 1;
          Some (goto t Unlock_leave
            (set_mutex (m\<lparr>level := l, holder := (if l = 0 then None else holder m)\<rparr>) s))
        }
      | Unlock_leave \<Rightarrow>
          Some (goto t Outside
            (set_mutex (m\<lparr>lock_flag := False\<rparr>) (s\<lparr>depth := (depth s)(t := depth s t - 1)\<rparr>)))
      | _ \<Rightarrow> Some s)"

definition mutex_step :: "nat \<Rightarrow> bool \<Rightarrow> mutex_call \<Rightarrow> mutex_system \<Rightarrow> mutex_system option" where
  "mutex_step t interrupts c s =
     (case at s t of
        Outside \<Rightarrow> do {
          c_assert interrupts;
          Some (goto t (case c of Call_lock \<Rightarrow> Lock_try | Call_unlock \<Rightarrow> Unlock_try) s)
        }
      | p \<Rightarrow>
          if p \<in> {Lock_try, Lock_check, Lock_count, Lock_leave, Lock_back}
          then Some (mutex_lock_step t p s) else mutex_unlock_step t p s)"

section \<open>Spinlocks\<close>

record spinlock =
  spin_level :: u32
  spin_word :: u32

abbreviation (input) SPINLOCK_LOCKED :: u32 where "SPINLOCK_LOCKED \<equiv> 1"
abbreviation (input) SPINLOCK_PUSHED_INTERRUPT :: u32 where "SPINLOCK_PUSHED_INTERRUPT \<equiv> 2"
abbreviation (input) SPINLOCK_CPU_ID_SHIFT :: nat where "SPINLOCK_CPU_ID_SHIFT \<equiv> 2"

text \<open>
  The value that \<^verbatim>\<open>spinlock_lock\<close> stores, one try of its loop (the result is \<open>None\<close> within \<open>Some\<close> while the
  lock is held elsewhere), and \<^verbatim>\<open>spinlock_unlock\<close>. The interrupt flag of the processor is an argument and
  a result; it is off while a lock is held.
\<close>

definition spin_desired :: "u8 \<Rightarrow> bool \<Rightarrow> u32" where
  "spin_desired cpu_id interrupts =
     SPINLOCK_LOCKED OR (if interrupts then SPINLOCK_PUSHED_INTERRUPT else 0)
       OR push_bit SPINLOCK_CPU_ID_SHIFT (ucast cpu_id)"

definition spinlock_try :: "u8 \<Rightarrow> bool \<Rightarrow> spinlock \<Rightarrow> spinlock option option" where
  "spinlock_try cpu_id interrupts s =
     (let expected = spin_word s in
      if expected = 0 then do {
        c_assert (spin_level s = 0);
        Some (Some (s\<lparr>spin_word := spin_desired cpu_id interrupts, spin_level := spin_level s + 1\<rparr>))
      }
      else if drop_bit SPINLOCK_CPU_ID_SHIFT expected = ucast cpu_id then do {
        c_assert (expected AND SPINLOCK_LOCKED \<noteq> 0);
        Some (Some (s\<lparr>spin_level := spin_level s + 1\<rparr>))
      }
      else Some None)"

definition spinlock_unlock :: "u8 \<Rightarrow> bool \<Rightarrow> spinlock \<Rightarrow> (bool \<times> spinlock) option" where
  "spinlock_unlock cpu_id interrupts s =
     do {
       c_assert (\<not> interrupts);
       let v = spin_word s;
       c_assert (v AND SPINLOCK_LOCKED \<noteq> 0);
       c_assert (drop_bit SPINLOCK_CPU_ID_SHIFT v = ucast cpu_id);
       c_assert (spin_level s > 0);
       let l = spin_level s - 1;
       Some (if l = 0
             then (v AND SPINLOCK_PUSHED_INTERRUPT \<noteq> 0 \<or> interrupts, s\<lparr>spin_level := l, spin_word := 0\<rparr>)
             else (interrupts, s\<lparr>spin_level := l\<rparr>))
     }"

section \<open>Mutual exclusion\<close>

definition mutex_init :: mutex_system where
  "mutex_init = \<lparr>the_mutex = \<lparr>holder = None, level = 0, lock_flag = False\<rparr>,
     at = (\<lambda>_. Outside), depth = (\<lambda>_. 0)\<rparr>"

text \<open>
  What the callers owe: a task unlocks only what it has locked, and does not nest deeper than the
  counter goes.
\<close>

definition caller_ok :: "nat \<Rightarrow> mutex_call \<Rightarrow> mutex_system \<Rightarrow> bool" where
  "caller_ok t c s \<longleftrightarrow>
     (at s t = Outside \<longrightarrow>
        (case c of Call_unlock \<Rightarrow> 0 < depth s t | Call_lock \<Rightarrow> depth s t < 2 ^ 32 - 1))"

inductive mutex_reach :: "mutex_system \<Rightarrow> bool" where
  mutex_start: "mutex_reach mutex_init"
| mutex_go: "mutex_reach s \<Longrightarrow> caller_ok t c s \<Longrightarrow> mutex_step t True c s = Some s' \<Longrightarrow> mutex_reach s'"

text \<open>The task that has set the flag, and the nesting that the fields of the mutex say a task has.\<close>

definition in_flag :: "place \<Rightarrow> bool" where
  "in_flag p \<longleftrightarrow> p \<in> {Lock_check, Lock_count, Lock_leave, Lock_back, Unlock_check, Unlock_leave}"

definition owned_at :: "place \<Rightarrow> nat \<Rightarrow> nat" where
  "owned_at p d = (case p of Lock_leave \<Rightarrow> d + 1 | Unlock_leave \<Rightarrow> d - 1 | _ \<Rightarrow> d)"

definition owned :: "mutex_system \<Rightarrow> nat \<Rightarrow> nat" where
  "owned s t = owned_at (at s t) (depth s t)"

definition flag_inv :: "mutex_system \<Rightarrow> bool" where
  "flag_inv s \<longleftrightarrow>
     (lock_flag (the_mutex s) \<longleftrightarrow> (\<exists>t. in_flag (at s t))) \<and>
     (\<forall>t u. in_flag (at s t) \<longrightarrow> in_flag (at s u) \<longrightarrow> t = u)"

definition place_ok :: "place \<Rightarrow> nat \<Rightarrow> nat option \<Rightarrow> nat \<Rightarrow> bool" where
  "place_ok p d h t \<longleftrightarrow>
     (case p of
        Outside \<Rightarrow> True
      | Unlock_try \<Rightarrow> 0 < d
      | Unlock_check \<Rightarrow> 0 < d
      | Unlock_leave \<Rightarrow> 0 < d \<and> h \<in> {None, Some t}
      | Lock_count \<Rightarrow> d < 2 ^ 32 - 1 \<and> h = Some t
      | _ \<Rightarrow> d < 2 ^ 32 - 1)"

definition place_inv :: "mutex_system \<Rightarrow> nat \<Rightarrow> bool" where
  "place_inv s t \<longleftrightarrow> place_ok (at s t) (depth s t) (holder (the_mutex s)) t"

definition owner_inv :: "mutex_system \<Rightarrow> bool" where
  "owner_inv s \<longleftrightarrow>
     (\<forall>t. 0 < owned s t \<longrightarrow> holder (the_mutex s) = Some t) \<and>
     (case holder (the_mutex s) of
        None \<Rightarrow> level (the_mutex s) = 0
      | Some h \<Rightarrow> unat (level (the_mutex s)) = owned s h \<and> (0 < owned s h \<or> at s h = Lock_count))"

definition mutex_inv :: "mutex_system \<Rightarrow> bool" where
  "mutex_inv s \<longleftrightarrow> flag_inv s \<and> (\<forall>t. place_inv s t) \<and> owner_inv s"

text \<open>The step at each place.\<close>

lemma mutex_step_simps:
  "at s t = Outside \<Longrightarrow> mutex_step t i c s =
     (if i then Some (goto t (case c of Call_lock \<Rightarrow> Lock_try | Call_unlock \<Rightarrow> Unlock_try) s) else None)"
  "at s t = Lock_try \<Longrightarrow> mutex_step t i c s =
     Some (if lock_flag (the_mutex s) then s
           else goto t Lock_check (set_mutex ((the_mutex s)\<lparr>lock_flag := True\<rparr>) s))"
  "at s t = Lock_check \<Longrightarrow> mutex_step t i c s =
     Some (if holder (the_mutex s) \<in> {None, Some t}
           then goto t Lock_count (set_mutex ((the_mutex s)\<lparr>holder := Some t\<rparr>) s) else goto t Lock_back s)"
  "at s t = Lock_count \<Longrightarrow> mutex_step t i c s =
     Some (goto t Lock_leave (set_mutex ((the_mutex s)\<lparr>level := level (the_mutex s) + 1\<rparr>) s))"
  "at s t = Lock_leave \<Longrightarrow> mutex_step t i c s =
     Some (goto t Outside (set_mutex ((the_mutex s)\<lparr>lock_flag := False\<rparr>)
       (s\<lparr>depth := (depth s)(t := depth s t + 1)\<rparr>)))"
  "at s t = Lock_back \<Longrightarrow> mutex_step t i c s =
     Some (goto t Lock_try (set_mutex ((the_mutex s)\<lparr>lock_flag := False\<rparr>) s))"
  "at s t = Unlock_try \<Longrightarrow> mutex_step t i c s =
     Some (if lock_flag (the_mutex s) then s
           else goto t Unlock_check (set_mutex ((the_mutex s)\<lparr>lock_flag := True\<rparr>) s))"
  "at s t = Unlock_check \<Longrightarrow> mutex_step t i c s =
     (if holder (the_mutex s) = Some t \<and> level (the_mutex s) > 0
      then Some (goto t Unlock_leave (set_mutex ((the_mutex s)\<lparr>level := level (the_mutex s) - 1,
        holder := (if level (the_mutex s) - 1 = 0 then None else Some t)\<rparr>) s))
      else None)"
  "at s t = Unlock_leave \<Longrightarrow> mutex_step t i c s =
     Some (goto t Outside (set_mutex ((the_mutex s)\<lparr>lock_flag := False\<rparr>)
       (s\<lparr>depth := (depth s)(t := depth s t - 1)\<rparr>)))"
  by (simp_all add: mutex_step_def mutex_lock_step_def mutex_unlock_step_def Let_def)

lemma goto_simps [simp]:
  "at (goto t p s) = (at s)(t := p)" "the_mutex (goto t p s) = the_mutex s" "depth (goto t p s) = depth s"
  "at (set_mutex m s) = at s" "the_mutex (set_mutex m s) = m" "depth (set_mutex m s) = depth s"
  by (simp_all add: goto_def set_mutex_def)

lemma place_cases:
  obtains "at s t = Outside" | "at s t = Lock_try" | "at s t = Lock_check" | "at s t = Lock_count"
  | "at s t = Lock_leave" | "at s t = Lock_back" | "at s t = Unlock_try" | "at s t = Unlock_check"
  | "at s t = Unlock_leave"
  by (cases "at s t") auto

lemma flag_inv_change:
  assumes "flag_inv s" "at s' = (at s)(t := p)"
    and "in_flag p = in_flag (at s t) \<and> lock_flag (the_mutex s') = lock_flag (the_mutex s) \<or>
      in_flag p \<and> \<not> lock_flag (the_mutex s) \<and> lock_flag (the_mutex s') \<or>
      \<not> in_flag p \<and> in_flag (at s t) \<and> \<not> lock_flag (the_mutex s')"
  shows "flag_inv s'"
proof -
  have flag: "lock_flag (the_mutex s) \<longleftrightarrow> (\<exists>u. in_flag (at s u))"
    and one: "in_flag (at s u) \<Longrightarrow> in_flag (at s v) \<Longrightarrow> u = v" for u v
    using assms(1) by (auto simp: flag_inv_def)
  have at: "in_flag (at s' u) \<longleftrightarrow> (if u = t then in_flag p else in_flag (at s u))" for u
    by (simp add: assms(2))
  from assms(3) consider
    (same) "in_flag p = in_flag (at s t)" "lock_flag (the_mutex s') = lock_flag (the_mutex s)" |
    (enter) "in_flag p" "\<not> lock_flag (the_mutex s)" "lock_flag (the_mutex s')" |
    (leave) "\<not> in_flag p" "in_flag (at s t)" "\<not> lock_flag (the_mutex s')"
    by blast
  then show ?thesis
  proof cases
    case same
    then have "in_flag (at s' u) = in_flag (at s u)" for u
      by (simp add: at)
    then show ?thesis
      using same flag one by (simp add: flag_inv_def)
  next
    case enter
    then have "in_flag (at s' u) \<longleftrightarrow> u = t" for u
      using flag by (auto simp: at)
    then show ?thesis
      using enter by (simp add: flag_inv_def)
  next
    case leave
    then have "\<not> in_flag (at s' u)" for u
      using one by (auto simp: at)
    then show ?thesis
      using leave by (simp add: flag_inv_def)
  qed
qed

lemma flag_inv_goto:
  assumes "flag_inv s" "at s1 = at s"
    and "in_flag p = in_flag (at s t) \<and> lock_flag (the_mutex s1) = lock_flag (the_mutex s) \<or>
      in_flag p \<and> \<not> lock_flag (the_mutex s) \<and> lock_flag (the_mutex s1) \<or>
      \<not> in_flag p \<and> in_flag (at s t) \<and> \<not> lock_flag (the_mutex s1)"
  shows "flag_inv (goto t p s1)"
  using assms(2,3) by (intro flag_inv_change [OF assms(1), of _ t p]) simp_all

lemma flag_inv_step:
  assumes "flag_inv s" "mutex_step t i c s = Some s'"
  shows "flag_inv s'"
proof (cases s t rule: place_cases)
  case 1
  with assms(2) show ?thesis
    by (auto simp: mutex_step_simps in_flag_def split: if_splits mutex_call.splits
        intro!: flag_inv_goto [OF assms(1)])
qed (use assms in \<open>auto simp: mutex_step_simps in_flag_def split: if_splits
        intro!: flag_inv_goto [OF assms(1)]\<close>)

lemma owned_goto: "owned (goto t p s) u = (if u = t then owned_at p (depth s t) else owned s u)"
  by (simp add: owned_def)

lemma owned_set_mutex [simp]: "owned (set_mutex m s) u = owned s u"
  by (simp add: owned_def)

lemma owner_inv_same:
  assumes "owner_inv s" "\<And>u. owned s' u = owned s u" "holder (the_mutex s') = holder (the_mutex s)"
    "level (the_mutex s') = level (the_mutex s)" "\<And>u. at s u = Lock_count \<Longrightarrow> at s' u = Lock_count"
  shows "owner_inv s'"
  using assms by (auto simp: owner_inv_def split: option.splits)

lemma mutex_inv_others:
  assumes "mutex_inv s" "in_flag (at s t)" "u \<noteq> t"
  shows "at s u \<in> {Outside, Lock_try, Unlock_try}"
proof -
  have "\<not> in_flag (at s u)"
    using assms by (auto simp: mutex_inv_def flag_inv_def)
  then show ?thesis
    by (cases "at s u") (auto simp: in_flag_def)
qed

lemma mutex_inv_goto:
  assumes "mutex_inv s" "flag_inv (goto t p s1)" "at s1 = at s" "\<And>u. u \<noteq> t \<Longrightarrow> depth s1 u = depth s u"
    and "holder (the_mutex s1) = holder (the_mutex s) \<or> in_flag (at s t)"
    and "place_inv (goto t p s1) t" "owner_inv (goto t p s1)"
  shows "mutex_inv (goto t p s1)"
proof -
  have "place_inv (goto t p s1) u" if u: "u \<noteq> t" for u
  proof -
    have "place_inv s u"
      using assms(1) by (simp add: mutex_inv_def)
    moreover have "holder (the_mutex s1) = holder (the_mutex s) \<or> at s u \<in> {Outside, Lock_try, Unlock_try}"
      using assms(5) mutex_inv_others [OF assms(1) _ u] by blast
    ultimately show ?thesis
    proof (elim disjE)
      assume "place_inv s u" "at s u \<in> {Outside, Lock_try, Unlock_try}"
      then show ?thesis
        using u by (auto simp: place_inv_def assms(3,4) place_ok_def)
    qed (use u in \<open>simp add: place_inv_def assms(3,4)\<close>)
  qed
  then have "place_inv (goto t p s1) u" for u
    using assms(6) by (cases "u = t") auto
  then show ?thesis
    using assms(2,7) by (simp add: mutex_inv_def)
qed

text \<open>The three steps that change the holder or the level.\<close>

lemma owner_inv_take:
  assumes "owner_inv s" "at s t = Lock_check" "holder (the_mutex s) \<in> {None, Some t}"
  shows "owner_inv (goto t Lock_count (set_mutex ((the_mutex s)\<lparr>holder := Some t\<rparr>) s))"
proof -
  have "owned (goto t Lock_count (set_mutex ((the_mutex s)\<lparr>holder := Some t\<rparr>) s)) u = owned s u" for u
    using assms(2) by (simp add: owned_goto owned_def owned_at_def)
  then show ?thesis
    using assms by (auto simp: owner_inv_def split: option.splits)
qed

lemma owner_inv_count:
  assumes "owner_inv s" "at s t = Lock_count" "place_inv s t"
  shows "owner_inv (goto t Lock_leave (set_mutex ((the_mutex s)\<lparr>level := level (the_mutex s) + 1\<rparr>) s))"
    (is "owner_inv ?s'")
proof -
  have h: "holder (the_mutex s) = Some t" and d: "depth s t < 2 ^ 32 - 1"
    using assms(2,3) by (simp_all add: place_inv_def place_ok_def)
  then have l: "unat (level (the_mutex s)) = depth s t"
    using assms(1,2) by (simp add: owner_inv_def owned_def owned_at_def)
  then have "unat (level (the_mutex s) + 1) = depth s t + 1"
    using d by (simp add: unat_word_ariths(1))
  moreover have "owned ?s' u = (if u = t then depth s t + 1 else owned s u)" for u
    by (simp add: owned_goto owned_at_def)
  ultimately show ?thesis
    using assms(1) h by (auto simp: owner_inv_def)
qed

lemma unlock_check_holds:
  assumes "owner_inv s" "at s t = Unlock_check" "place_inv s t"
  shows "holder (the_mutex s) = Some t" "unat (level (the_mutex s)) = depth s t" "0 < depth s t"
proof -
  show d: "0 < depth s t"
    using assms(2,3) by (simp add: place_inv_def place_ok_def)
  then show h: "holder (the_mutex s) = Some t"
    using assms(1,2) by (simp add: owner_inv_def owned_def owned_at_def)
  show "unat (level (the_mutex s)) = depth s t"
    using assms(1,2) h by (simp add: owner_inv_def owned_def owned_at_def)
qed

lemma owner_inv_drop:
  assumes "owner_inv s" "at s t = Unlock_check" "place_inv s t"
  shows "owner_inv (goto t Unlock_leave (set_mutex ((the_mutex s)\<lparr>level := level (the_mutex s) - 1,
        holder := (if level (the_mutex s) - 1 = 0 then None else Some t)\<rparr>) s))"
    (is "owner_inv ?s'")
proof -
  note h = unlock_check_holds [OF assms]
  then have "level (the_mutex s) \<noteq> 0"
    by auto
  then have l: "unat (level (the_mutex s) - 1) = depth s t - 1"
    using h(2) by (simp add: unat_minus_one)
  moreover have "owned ?s' u = (if u = t then depth s t - 1 else owned s u)" for u
    by (simp add: owned_goto owned_at_def)
  moreover have "level (the_mutex s) - 1 = 0 \<longleftrightarrow> depth s t - 1 = 0"
    unfolding l [symmetric] by (rule unat_eq_0 [symmetric])
  moreover have "owned s u = 0" if "u \<noteq> t" for u
    using assms(1) h(1) that by (auto simp: owner_inv_def)
  ultimately show ?thesis
    by (auto simp: owner_inv_def simp del: diff_is_0_eq diff_is_0_eq')
qed

lemma mutex_inv_init: "mutex_inv mutex_init"
  by (simp add: mutex_inv_def mutex_init_def flag_inv_def in_flag_def place_inv_def place_ok_def
      owner_inv_def owned_def owned_at_def)

lemma mutex_inv_move:
  assumes "mutex_inv s" "mutex_step t i c s = Some (goto t p s1)" "at s1 = at s"
    "\<And>u. u \<noteq> t \<Longrightarrow> depth s1 u = depth s u"
    "holder (the_mutex s1) = holder (the_mutex s) \<or> in_flag (at s t)"
    "place_ok p (depth s1 t) (holder (the_mutex s1)) t" "owner_inv (goto t p s1)"
  shows "\<exists>s'. mutex_step t i c s = Some s' \<and> mutex_inv s'"
proof -
  have "flag_inv (goto t p s1)"
    using assms(1,2) flag_inv_step unfolding mutex_inv_def by blast
  then have "mutex_inv (goto t p s1)"
    using assms by (intro mutex_inv_goto [OF assms(1)]) (auto simp: place_inv_def)
  with assms(2) show ?thesis
    by blast
qed

text \<open>A step that changes neither the holder nor the level, nor the nesting they stand for.\<close>

lemma mutex_inv_keep:
  assumes "mutex_inv s" "mutex_step t i c s = Some (goto t p s1)" "at s1 = at s"
    "\<And>u. u \<noteq> t \<Longrightarrow> depth s1 u = depth s u" "owned_at p (depth s1 t) = owned s t" "at s t \<noteq> Lock_count"
    "holder (the_mutex s1) = holder (the_mutex s)" "level (the_mutex s1) = level (the_mutex s)"
    "place_ok p (depth s1 t) (holder (the_mutex s)) t"
  shows "\<exists>s'. mutex_step t i c s = Some s' \<and> mutex_inv s'"
proof -
  have "owner_inv s"
    using assms(1) by (simp add: mutex_inv_def)
  then have "owner_inv (goto t p s1)"
    by (rule owner_inv_same) (use assms(3-8) in \<open>auto simp: owned_goto owned_def\<close>)
  then show ?thesis
    using assms by (intro mutex_inv_move [OF assms(1,2)]) simp_all
qed

lemmas place_simps = mutex_step_simps place_inv_def place_ok_def owned_def owned_at_def in_flag_def

lemma mutex_inv_step:
  assumes "mutex_inv s" "caller_ok t c s"
  shows "\<exists>s'. mutex_step t True c s = Some s' \<and> mutex_inv s'"
proof -
  have pl: "place_inv s t" and ow: "owner_inv s"
    using assms(1) by (simp_all add: mutex_inv_def)
  note keep = mutex_inv_keep [OF assms(1)] and move = mutex_inv_move [OF assms(1)]
  show ?thesis
  proof (cases s t rule: place_cases)
    case 1
    show ?thesis
      by (rule keep [where p = "case c of Call_lock \<Rightarrow> Lock_try | Call_unlock \<Rightarrow> Unlock_try" and ?s1.0 = s])
        (use 1 assms(2) in \<open>auto simp: place_simps caller_ok_def split: mutex_call.splits\<close>)
  next
    case 2
    show ?thesis
    proof (cases "lock_flag (the_mutex s)")
      case False
      with 2 pl show ?thesis
        by (intro keep) (simp add: mutex_step_simps, auto simp: place_simps)
    qed (use 2 assms(1) in \<open>simp add: mutex_step_simps\<close>)
  next
    case 3
    show ?thesis
    proof (cases "holder (the_mutex s) \<in> {None, Some t}")
      case True
      then show ?thesis
        using owner_inv_take [OF ow 3 True] 3 pl by (intro move) (simp add: mutex_step_simps, auto simp: place_simps)
    next
      case False
      then show ?thesis
        using 3 pl by (intro keep) (simp add: mutex_step_simps, auto simp: place_simps)
    qed
  next
    case 4
    then show ?thesis
      using owner_inv_count [OF ow 4 pl] pl by (intro move) (simp add: mutex_step_simps, auto simp: place_simps)
  next
    case 7
    show ?thesis
    proof (cases "lock_flag (the_mutex s)")
      case False
      with 7 pl show ?thesis
        by (intro keep) (simp add: mutex_step_simps, auto simp: place_simps)
    qed (use 7 assms(1) in \<open>simp add: mutex_step_simps\<close>)
  next
    case 8
    then have "holder (the_mutex s) = Some t" "0 < level (the_mutex s)" "0 < depth s t"
      using unlock_check_holds [OF ow 8 pl] by (simp_all add: word_less_nat_alt)
    then show ?thesis
      using owner_inv_drop [OF ow 8 pl] 8 by (intro move) (simp add: mutex_step_simps, auto simp: place_simps)
  next
    case 5
    then show ?thesis
      using pl by (intro keep) (simp add: mutex_step_simps, auto simp: place_simps)
  next
    case 6
    then show ?thesis
      using pl by (intro keep) (simp add: mutex_step_simps, auto simp: place_simps)
  next
    case 9
    then show ?thesis
      using pl by (intro keep) (simp add: mutex_step_simps, auto simp: place_simps)
  qed
qed

text \<open>
  C31. Mutual exclusion: under every interleaving of the steps of any number of tasks, at most one task
  is between its return from \<^verbatim>\<open>mutex_lock\<close> and its return from \<^verbatim>\<open>mutex_unlock\<close>, nested calls included. As long
  as tasks only unlock what they have locked, no assertion of the two functions fails.
\<close>

theorem mutex_exclusion:
  assumes "mutex_reach s"
  shows "(0 < depth s t \<and> 0 < depth s u \<longrightarrow> t = u) \<and> (caller_ok t c s \<longrightarrow> mutex_step t True c s \<noteq> None)"
proof -
  have inv: "mutex_inv s"
    using assms
  proof induction
    case (mutex_go s t c s')
    then show ?case
      using mutex_inv_step by fastforce
  qed (rule mutex_inv_init)
  have owns: "holder (the_mutex s) = Some v \<or> at s v = Unlock_leave" if "0 < depth s v" for v
  proof (cases "0 < owned s v")
    case True
    then show ?thesis
      using inv by (simp add: mutex_inv_def owner_inv_def)
  next
    case False
    then show ?thesis
      using that by (cases "at s v") (simp_all add: owned_def owned_at_def)
  qed
  have leave: "holder (the_mutex s) \<in> {None, Some v}" if "at s v = Unlock_leave" for v
    using inv that by (auto simp: mutex_inv_def place_inv_def place_ok_def dest!: spec [of _ v])
  have "t = u" if "0 < depth s t" "0 < depth s u"
  proof (cases "at s t = Unlock_leave \<and> at s u = Unlock_leave")
    case True
    then show ?thesis
      using mutex_inv_others [OF inv, of t u] by (auto simp: in_flag_def)
  next
    case False
    then show ?thesis
      using owns [OF that(1)] owns [OF that(2)] leave by auto
  qed
  then show ?thesis
    using mutex_inv_step [OF inv, of t c] by auto
qed

text \<open>Task 1 locks, and task 2 then tries until it finds the lock held.\<close>

definition run_tasks :: "(nat \<times> mutex_call) list \<Rightarrow> mutex_system \<Rightarrow> mutex_system option" where
  "run_tasks ts s =
     fold (\<lambda>(t, c) so. do { s \<leftarrow> so; if caller_ok t c s then mutex_step t True c s else None }) ts (Some s)"

lemma run_tasks_reach: "mutex_reach s \<Longrightarrow> run_tasks ts s = Some s' \<Longrightarrow> mutex_reach s'"
proof (induction ts arbitrary: s)
  case (Cons a ts)
  have none: "fold (\<lambda>(t, c) so. do { s \<leftarrow> so; if caller_ok t c s then mutex_step t True c s else None }) xs None = None"
    for xs :: "(nat \<times> mutex_call) list"
    by (induction xs) auto
  obtain t c where a: "a = (t, c)"
    by fastforce
  with Cons.prems(2) obtain s1 where "caller_ok t c s" "mutex_step t True c s = Some s1" "run_tasks ts s1 = Some s'"
    by (cases "caller_ok t c s"; cases "mutex_step t True c s") (auto simp: run_tasks_def none)
  then show ?case
    using Cons.IH [of s1] Cons.prems(1) mutex_go by blast
qed (simp add: run_tasks_def)

definition example_schedule :: "(nat \<times> mutex_call) list" where
  "example_schedule =
     [(1, Call_lock), (1, Call_lock), (1, Call_lock), (1, Call_lock), (1, Call_lock),
       (2, Call_lock), (2, Call_lock), (2, Call_lock), (2, Call_lock)]"

theorem mutex_exclusion_witness:
  "\<exists>s. run_tasks example_schedule mutex_init = Some s \<and>
     depth s 1 = 1 \<and> depth s 2 = 0 \<and> mutex_step 1 True Call_unlock s \<noteq> None"
proof -
  have "map_option (\<lambda>s. (depth s 1, depth s 2, caller_ok 1 Call_unlock s))
      (run_tasks example_schedule mutex_init) = Some (1, 0, True)"
    by (simp add: example_schedule_def run_tasks_def mutex_step_simps caller_ok_def mutex_init_def
        goto_def set_mutex_def)
  then obtain s where s: "run_tasks example_schedule mutex_init = Some s"
    "depth s 1 = 1" "depth s 2 = 0" "caller_ok 1 Call_unlock s"
    by auto
  then have "mutex_reach s"
    using run_tasks_reach mutex_start by blast
  then show ?thesis
    using s mutex_exclusion [of s 1 2 Call_unlock] by blast
qed

section \<open>Pairs of spinlock calls\<close>

lemma spin_desired_bits:
  "drop_bit 2 (spin_desired c i) = ucast c" "spin_desired c i AND 1 \<noteq> 0" "spin_desired c i \<noteq> 0"
  "spin_desired c i AND 2 \<noteq> 0 \<longleftrightarrow> i"
proof -
  show "drop_bit 2 (spin_desired c i) = ucast c"
    by (rule bit_word_eqI) (auto simp: spin_desired_def bit_simps bit_1_iff dest: bit_imp_le_length)
  have b: "bit (spin_desired c i) 0" "bit (spin_desired c i) 1 = i"
    by (auto simp: spin_desired_def bit_simps)
  then have "bit (spin_desired c i AND 1) 0"
    by (simp add: bit_simps)
  then show "spin_desired c i AND 1 \<noteq> 0" "spin_desired c i \<noteq> 0"
    by auto
  have "spin_desired c i AND 2 = (if i then 2 else 0)"
    by (rule bit_word_eqI) (use b(2) in \<open>auto simp: bit_simps bit_2_iff\<close>)
  then show "spin_desired c i AND 2 \<noteq> 0 \<longleftrightarrow> i"
    by simp
qed

lemma ucast_u8_inj: "(ucast a :: u32) = ucast b \<longleftrightarrow> a = b" for a b :: u8
proof
  assume eq: "(ucast a :: u32) = ucast b"
  have "bit a n = bit b n" if "n < 8" for n
    using arg_cong [OF eq, of "\<lambda>w. bit w n"] that by (simp add: bit_simps)
  then show "a = b"
    by (intro bit_word_eqI) simp
qed simp

text \<open>
  A processor that takes a free spinlock and gives it back gets its interrupt flag back; in between no
  other processor gets the lock, and the same processor may take it again.
\<close>

lemma spinlock_pair:
  assumes "spin_word s = 0" "spin_level s = 0"
  shows "\<exists>s1. spinlock_try c i s = Some (Some s1) \<and> spinlock_unlock c False s1 = Some (i, s) \<and>
    (\<forall>c' i'. c' \<noteq> c \<longrightarrow> spinlock_try c' i' s1 = Some None)"
  using assms spin_desired_bits [of c i]
  by (auto simp: spinlock_try_def spinlock_unlock_def Let_def ucast_u8_inj)

lemma spinlock_nested:
  assumes "spin_word s = spin_desired c i" "0 < spin_level s" "spin_level s \<noteq> - 1"
  shows "\<exists>s1. spinlock_try c False s = Some (Some s1) \<and> spinlock_unlock c False s1 = Some (False, s)"
proof -
  have "0 < spin_level s + 1" "spin_level s + 1 - 1 \<noteq> 0"
    using assms(2,3) by (auto simp: word_neq_0_conv eq_neg_iff_add_eq_0)
  then show ?thesis
    using assms(1) spin_desired_bits [of c i] by (auto simp: spinlock_try_def spinlock_unlock_def Let_def)
qed
end
