(* ===== verification/Unix_Socket.thy ===== *)
theory Unix_Socket
  imports Ring_Buf Blocking Signal
begin

text \<open>
  Stream sockets of the Unix domain: \<^verbatim>\<open>kernel/unix_socket.c\<close> and \<^verbatim>\<open>kernel/socket.h\<close>. Sockets are heap objects
  with addresses; the inode of a socket is inside it, so a file of a socket leads to the socket. Both
  ends of a connection share one socket: the connecting file is remembered in \<^verbatim>\<open>connector_file\<close>, and every
  other file on it is the accepting end. The sockets waiting for a listener are linked through \<^verbatim>\<open>next\<close>.

  As in the theory \<open>Fifo\<close>, an operation that may sleep gets the list of the states that it sees, one for
  each look; what it does under a lock is one step on the state found there.
\<close>

section \<open>State\<close>

datatype socket_state =
    SOCKET_STATE_OPENED | SOCKET_STATE_LISTENING | SOCKET_STATE_PENDING | SOCKET_STATE_CONNECTED

record unix_socket =
  ref_count :: u32
  is_bound :: bool
  sock_state :: socket_state
  backlog :: int
  num_pending :: u32
  next_pending :: "nat option"
  is_connected :: bool
  connector_file :: "nat option"
  to_connector_buf :: ring_buf
  to_acceptor_buf :: ring_buf
  is_open_for_writing_to_connector :: bool
  is_open_for_writing_to_acceptor :: bool

text \<open>A file: its flags, whether its inode is a socket, and then which one.\<close>

record sock_file =
  file_flags :: u32
  on_socket :: bool
  file_socket :: nat

text \<open>All sockets, all files, and the socket bound to the inode of a path.\<close>

record net =
  socks :: "nat \<rightharpoonup> unix_socket"
  sock_files :: "nat \<rightharpoonup> sock_file"
  bound_socket :: "nat \<rightharpoonup> nat"

definition unix_socket_from_file :: "net \<Rightarrow> nat \<Rightarrow> unix_socket option" where
  "unix_socket_from_file n f = do { fl \<leftarrow> sock_files n f; socks n (file_socket fl) }"

definition put_socket :: "net \<Rightarrow> nat \<Rightarrow> unix_socket \<Rightarrow> net" where
  "put_socket n a s = n\<lparr>socks := (socks n)(a \<mapsto> s)\<rparr>"

section \<open>Data\<close>

definition unix_socket_close :: "net \<Rightarrow> nat \<Rightarrow> net option" where
  "unix_socket_close n f =
     do {
       fl \<leftarrow> sock_files n f;
       s \<leftarrow> socks n (file_socket fl);
       Some (put_socket n (file_socket fl)
         (s\<lparr>is_open_for_writing_to_connector := False, is_open_for_writing_to_acceptor := False\<rparr>))
     }"

definition is_connector :: "nat \<Rightarrow> unix_socket \<Rightarrow> bool" where
  "is_connector f s \<longleftrightarrow> connector_file s = Some f"

definition is_open_for_reading :: "nat \<Rightarrow> unix_socket \<Rightarrow> bool" where
  "is_open_for_reading f s =
     (if is_connector f s then is_open_for_writing_to_connector s else is_open_for_writing_to_acceptor s)"

definition buf_to_read :: "nat \<Rightarrow> unix_socket \<Rightarrow> ring_buf" where
  "buf_to_read f s = (if is_connector f s then to_connector_buf s else to_acceptor_buf s)"

definition buf_to_write :: "nat \<Rightarrow> unix_socket \<Rightarrow> ring_buf" where
  "buf_to_write f s = (if is_connector f s then to_acceptor_buf s else to_connector_buf s)"

definition set_buf_to_read :: "nat \<Rightarrow> ring_buf \<Rightarrow> unix_socket \<Rightarrow> unix_socket" where
  "set_buf_to_read f b s = (if is_connector f s then s\<lparr>to_connector_buf := b\<rparr> else s\<lparr>to_acceptor_buf := b\<rparr>)"

definition set_buf_to_write :: "nat \<Rightarrow> ring_buf \<Rightarrow> unix_socket \<Rightarrow> unix_socket" where
  "set_buf_to_write f b s = (if is_connector f s then s\<lparr>to_acceptor_buf := b\<rparr> else s\<lparr>to_connector_buf := b\<rparr>)"

definition is_readable :: "nat \<Rightarrow> unix_socket \<Rightarrow> bool" where
  "is_readable f s = (if \<not> is_open_for_reading f s then True else \<not> ring_buf_is_empty (buf_to_read f s))"

definition is_writable :: "nat \<Rightarrow> unix_socket \<Rightarrow> bool" where
  "is_writable f s =
     (if is_connector f s \<and> \<not> is_open_for_writing_to_acceptor s then False
      else if \<not> is_connector f s \<and> \<not> is_open_for_writing_to_connector s then True
      else \<not> ring_buf_is_full (buf_to_write f s))"

text \<open>
  Reading and writing look at one socket only; the states are those of that socket. The result has the
  states before and after the transfer. A reader that finds the buffer empty under the lock looks once more, after
  it has left the lock, whether its end is still open: that is the next state of the list.
\<close>

function read_loop ::
    "u32 \<Rightarrow> nat \<Rightarrow> unix_socket obs list \<Rightarrow> nat
      \<Rightarrow> (u8 list result \<times> (unix_socket \<times> unix_socket) option) wait option" where
  "read_loop flags f os count =
     (case file_block flags (\<lambda>s. Some (is_readable f s)) os of
        None \<Rightarrow> None
      | Some Asleep \<Rightarrow> Some Asleep
      | Some (Woke (Inl e, _)) \<Rightarrow> Some (Woke (Inl e, None))
      | Some (Woke (Inr _, [])) \<Rightarrow> Some Asleep
      | Some (Woke (Inr _, ob # os')) \<Rightarrow>
          let s = obs_world ob
          in if \<not> ring_buf_is_empty (buf_to_read f s) then
               do {
                 (bytes, b) \<leftarrow> ring_buf_read (buf_to_read f s) count;
                 Some (Woke (Inr bytes, Some (s, set_buf_to_read f b s)))
               }
             else (case os' of
                 [] \<Rightarrow> Some Asleep
               | ob2 # os2 \<Rightarrow>
                   if \<not> is_open_for_reading f (obs_world ob2) then Some (Woke (Inr [], Some (obs_world ob2, obs_world ob2)))
                   else read_loop flags f os2 count))"
  by pat_completeness auto
termination
  by (relation "measure (\<lambda>(flags, f, os, count). length os)") (auto dest!: file_block_shorter)

definition unix_socket_pread ::
    "u32 \<Rightarrow> nat \<Rightarrow> unix_socket obs list \<Rightarrow> nat
      \<Rightarrow> (u8 list result \<times> (unix_socket \<times> unix_socket) option) wait option" where
  "unix_socket_pread flags f os count =
     (case os of
        [] \<Rightarrow> Some Asleep
      | ob # os' \<Rightarrow>
          if \<not> is_connected (obs_world ob) then Some (Woke (Inl EINVAL, None))
          else read_loop flags f os' count)"

function write_loop ::
    "u32 \<Rightarrow> nat \<Rightarrow> kernel \<Rightarrow> unix_socket obs list \<Rightarrow> u8 list
      \<Rightarrow> ((nat result \<times> (unix_socket \<times> unix_socket) option) wait \<times> kernel) option" where
  "write_loop flags f k os src =
     (case file_block flags (\<lambda>s. Some (is_writable f s)) os of
        None \<Rightarrow> None
      | Some Asleep \<Rightarrow> Some (Asleep, k)
      | Some (Woke (Inl e, _)) \<Rightarrow> Some (Woke (Inl e, None), k)
      | Some (Woke (Inr _, [])) \<Rightarrow> Some (Asleep, k)
      | Some (Woke (Inr _, ob # os')) \<Rightarrow>
          let s = obs_world ob
          in if \<not> is_connector f s \<and> \<not> is_open_for_writing_to_connector s then
               do {
                 cur \<leftarrow> tasks k (current k);
                 (rc, k') \<leftarrow> task_send_signal k (tid cur) (int SIGPIPE) 0;
                 Some (Woke (case rc of Inl e \<Rightarrow> Inl e | Inr _ \<Rightarrow> Inl EPIPE, None), k')
               }
             else if \<not> ring_buf_is_full (buf_to_write f s) then
               do {
                 (nwritten, b) \<leftarrow> ring_buf_write (buf_to_write f s) src;
                 Some (Woke (Inr nwritten, Some (s, set_buf_to_write f b s)), k)
               }
             else write_loop flags f k os' src)"
  by pat_completeness auto
termination
  by (relation "measure (\<lambda>(flags, f, k, os, src). length os)") (auto dest!: file_block_shorter)

declare read_loop.simps [simp del] write_loop.simps [simp del]

definition unix_socket_pwrite ::
    "u32 \<Rightarrow> nat \<Rightarrow> kernel \<Rightarrow> unix_socket obs list \<Rightarrow> u8 list
      \<Rightarrow> ((nat result \<times> (unix_socket \<times> unix_socket) option) wait \<times> kernel) option" where
  "unix_socket_pwrite flags f k os src =
     (case os of
        [] \<Rightarrow> Some (Asleep, k)
      | ob # os' \<Rightarrow>
          if \<not> is_connected (obs_world ob) then Some (Woke (Inl ENOTCONN, None), k)
          else write_loop flags f k os' src)"

definition unix_socket_poll :: "nat \<Rightarrow> unix_socket \<Rightarrow> u16 \<Rightarrow> u16" where
  "unix_socket_poll f s events =
     (let r0 = (if events AND POLLIN \<noteq> 0 \<and> (if is_connected s then is_readable f s else num_pending s > 0)
                then POLLIN else 0);
          r1 = (if events AND POLLOUT \<noteq> 0 \<and> is_connected s \<and> is_writable f s then POLLOUT else 0);
          r2 = (if events AND POLLHUP \<noteq> 0 \<and> \<not> is_open_for_writing_to_connector s
                  \<and> \<not> is_open_for_writing_to_acceptor s then POLLHUP else 0)
      in r0 OR r1 OR r2)"

section \<open>Connections\<close>

text \<open>
  \<^verbatim>\<open>unix_socket_create\<close>: the arguments are whether the block of the socket was allocated and what the two
  allocations of the rings gave.
\<close>

definition unix_socket_create :: "bool \<Rightarrow> u8 list option \<Rightarrow> u8 list option \<Rightarrow> unix_socket result" where
  "unix_socket_create sock_mem acceptor_mem connector_mem =
     (if \<not> sock_mem then Inl ENOMEM
      else case ring_buf_init 4096 acceptor_mem of
             Inl e \<Rightarrow> Inl e
           | Inr ab \<Rightarrow>
               (case ring_buf_init 4096 connector_mem of
                  Inl e \<Rightarrow> Inl e
                | Inr cb \<Rightarrow>
                    Inr \<lparr>ref_count = 1, is_bound = False, sock_state = SOCKET_STATE_OPENED, backlog = 0,
                         num_pending = 0, next_pending = None, is_connected = False, connector_file = None,
                         to_connector_buf = cb, to_acceptor_buf = ab,
                         is_open_for_writing_to_connector = True, is_open_for_writing_to_acceptor = True\<rparr>))"

definition unix_socket_bind :: "net \<Rightarrow> nat \<Rightarrow> nat \<Rightarrow> (unit result \<times> net) option" where
  "unix_socket_bind n a addr_inode =
     do {
       s \<leftarrow> socks n a;
       Some (if is_bound s then (Inl EINVAL, n)
             else (Inr (), (put_socket n a (s\<lparr>is_bound := True\<rparr>))
                     \<lparr>bound_socket := (bound_socket n)(addr_inode \<mapsto> a)\<rparr>))
     }"

definition unix_socket_listen :: "net \<Rightarrow> nat \<Rightarrow> int \<Rightarrow> (unit result \<times> net) option" where
  "unix_socket_listen n a bl =
     do {
       s \<leftarrow> socks n a;
       Some (if sock_state s \<noteq> SOCKET_STATE_OPENED \<and> sock_state s \<noteq> SOCKET_STATE_LISTENING then (Inl EINVAL, n)
             else if \<not> is_bound s then (Inl EINVAL, n)
             else (Inr (), put_socket n a (s\<lparr>backlog := bl, sock_state := SOCKET_STATE_LISTENING\<rparr>)))
     }"

text \<open>
  The two critical sections of \<^verbatim>\<open>unix_socket_accept\<close> after it woke: under the lock of the listener the first socket leaves the
  queue (\<open>None\<close> inside if it is empty), and under the lock of that socket it becomes connected. In \<open>accept_pending\<close> the second
  follows the first at once; in \<open>accept_loop\<close> below other tasks may run between them.
\<close>

definition accept_dequeue :: "net \<Rightarrow> nat \<Rightarrow> (nat option \<times> net) option" where
  "accept_dequeue n l =
     do {
       listener \<leftarrow> socks n l;
       case next_pending listener of
         None \<Rightarrow> Some (None, n)
       | Some c \<Rightarrow> do {
           connector \<leftarrow> socks n c;
           Some (Some c, put_socket n l (listener\<lparr>next_pending := next_pending connector,
                                                  num_pending := num_pending listener - 1\<rparr>))
         }
     }"

definition accept_connect :: "net \<Rightarrow> nat \<Rightarrow> net option" where
  "accept_connect n c =
     do {
       connector \<leftarrow> socks n c;
       c_assert (sock_state connector = SOCKET_STATE_PENDING);
       Some (put_socket n c (connector\<lparr>sock_state := SOCKET_STATE_CONNECTED, is_connected := True\<rparr>))
     }"

definition accept_pending :: "net \<Rightarrow> nat \<Rightarrow> (nat option \<times> net) option" where
  "accept_pending n l =
     do {
       (connector, n) \<leftarrow> accept_dequeue n l;
       case connector of
         None \<Rightarrow> Some (None, n)
       | Some c \<Rightarrow> do { n \<leftarrow> accept_connect n c; Some (Some c, n) }
     }"

definition is_acceptable :: "nat \<Rightarrow> net \<Rightarrow> bool option" where
  "is_acceptable f n = do { s \<leftarrow> unix_socket_from_file n f; Some (num_pending s > 0) }"

text \<open>The result has the states before and after each of the two sections.\<close>

function accept_loop :: "u32 \<Rightarrow> nat \<Rightarrow> nat \<Rightarrow> net obs list \<Rightarrow> (nat result \<times> (net \<times> net) list) wait option" where
  "accept_loop flags f l os =
     (case file_block flags (is_acceptable f) os of
        None \<Rightarrow> None
      | Some Asleep \<Rightarrow> Some Asleep
      | Some (Woke (Inl e, _)) \<Rightarrow> Some (Woke (Inl e, []))
      | Some (Woke (Inr _, [])) \<Rightarrow> Some Asleep
      | Some (Woke (Inr _, ob # os')) \<Rightarrow>
          (case accept_dequeue (obs_world ob) l of
             None \<Rightarrow> None
           | Some (None, _) \<Rightarrow> accept_loop flags f l os'
           | Some (Some c, n1) \<Rightarrow>
               (case os' of
                  [] \<Rightarrow> Some Asleep
                | ob2 # _ \<Rightarrow> do {
                    n2 \<leftarrow> accept_connect (obs_world ob2) c;
                    Some (Woke (Inr c, [(obs_world ob, n1), (obs_world ob2, n2)]))
                  })))"
  by pat_completeness auto
termination
  by (relation "measure (\<lambda>(flags, f, l, os). length os)") (auto dest!: file_block_shorter)

declare accept_loop.simps [simp del]

definition unix_socket_accept :: "nat \<Rightarrow> net obs list \<Rightarrow> (nat result \<times> (net \<times> net) list) wait option" where
  "unix_socket_accept f os =
     (case os of
        [] \<Rightarrow> Some Asleep
      | ob # os' \<Rightarrow> do {
          let n = obs_world ob;
          fl \<leftarrow> sock_files n f;
          if \<not> on_socket fl then Some (Woke (Inl ENOTSOCK, []))
          else do {
            listener \<leftarrow> socks n (file_socket fl);
            if sock_state listener \<noteq> SOCKET_STATE_LISTENING then Some (Woke (Inl EINVAL, []))
            else accept_loop (file_flags fl) f (file_socket fl) os'
          }
        })"

partial_function (option) last_pending :: "net \<Rightarrow> nat \<Rightarrow> nat option" where
  "last_pending n it =
     do {
       s \<leftarrow> socks n it;
       case next_pending s of None \<Rightarrow> Some it | Some x \<Rightarrow> last_pending n x
     }"

text \<open>What \<^verbatim>\<open>unix_socket_connect\<close> does under its locks, before it waits; \<^verbatim>\<open>inode_ref\<close> counts the reference of the queue.\<close>

definition connect_enqueue :: "net \<Rightarrow> nat \<Rightarrow> nat \<Rightarrow> (unit result \<times> net) option" where
  "connect_enqueue n f addr_inode =
     do {
       fl \<leftarrow> sock_files n f;
       if \<not> on_socket fl then Some (Inl ENOTSOCK, n)
       else case bound_socket n addr_inode of
         None \<Rightarrow> Some (Inl ECONNREFUSED, n)
       | Some l \<Rightarrow> do {
           let c = file_socket fl;
           connector \<leftarrow> socks n c;
           if sock_state connector = SOCKET_STATE_LISTENING then Some (Inl EINVAL, n)
           else if sock_state connector \<in> {SOCKET_STATE_PENDING, SOCKET_STATE_CONNECTED} then Some (Inl EISCONN, n)
           else do {
             listener \<leftarrow> socks n l;
             if sock_state listener \<noteq> SOCKET_STATE_LISTENING
                \<or> num_pending listener \<ge> word_of_int (backlog listener) then Some (Inl ECONNREFUSED, n)
             else do {
               let n1 = put_socket n l (listener\<lparr>num_pending := num_pending listener + 1\<rparr>);
               let n2 = put_socket n1 c (connector\<lparr>connector_file := Some f,
                          sock_state := SOCKET_STATE_PENDING, next_pending := None,
                          ref_count := ref_count connector + 1\<rparr>);
               listener \<leftarrow> socks n2 l;
               case next_pending listener of
                 None \<Rightarrow> Some (Inr (), put_socket n2 l (listener\<lparr>next_pending := Some c\<rparr>))
               | Some x \<Rightarrow> do {
                   it \<leftarrow> last_pending n2 x;
                   s \<leftarrow> socks n2 it;
                   Some (Inr (), put_socket n2 it (s\<lparr>next_pending := Some c\<rparr>))
                 }
             }
           }
         }
     }"

definition is_connectable :: "nat \<Rightarrow> net \<Rightarrow> bool option" where
  "is_connectable f n = do { s \<leftarrow> unix_socket_from_file n f; Some (is_connected s) }"

text \<open>The first look is the one at which the socket is queued; the others are those of the wait.\<close>

definition unix_socket_connect ::
    "nat \<Rightarrow> nat \<Rightarrow> net obs list \<Rightarrow> (unit result \<times> (net \<times> net) option) wait option" where
  "unix_socket_connect f addr_inode os =
     (case os of
        [] \<Rightarrow> Some Asleep
      | ob # os' \<Rightarrow> do {
          (rc, n') \<leftarrow> connect_enqueue (obs_world ob) f addr_inode;
          case rc of
            Inl e \<Rightarrow> Some (Woke (Inl e, None))
          | Inr _ \<Rightarrow> do {
              fl \<leftarrow> sock_files n' f;
              w \<leftarrow> file_block (file_flags fl) (is_connectable f) os';
              Some (case w of
                      Asleep \<Rightarrow> Asleep
                    | Woke (rc, _) \<Rightarrow> Woke (rc, Some (obs_world ob, n')))
            }
        })"

abbreviation (input) SHUT_RD :: int where "SHUT_RD \<equiv> 0"
abbreviation (input) SHUT_WR :: int where "SHUT_WR \<equiv> 1"
abbreviation (input) SHUT_RDWR :: int where "SHUT_RDWR \<equiv> 2"

definition unix_socket_shutdown :: "net \<Rightarrow> nat \<Rightarrow> int \<Rightarrow> (unit result \<times> net) option" where
  "unix_socket_shutdown n f how =
     do {
       fl \<leftarrow> sock_files n f;
       if \<not> on_socket fl then Some (Inl ENOTSOCK, n)
       else if how \<notin> {SHUT_RD, SHUT_WR, SHUT_RDWR} then Some (Inl EINVAL, n)
       else do {
         s \<leftarrow> socks n (file_socket fl);
         let shut_read = (how = SHUT_RD \<or> how = SHUT_RDWR);
         let shut_write = (how = SHUT_WR \<or> how = SHUT_RDWR);
         let conn = is_connector f s;
         let s = (if conn \<and> shut_read \<or> \<not> conn \<and> shut_write
                  then s\<lparr>is_open_for_writing_to_connector := False\<rparr> else s);
         let s = (if conn \<and> shut_write \<or> \<not> conn \<and> shut_read
                  then s\<lparr>is_open_for_writing_to_acceptor := False\<rparr> else s);
         Some (Inr (), put_socket n (file_socket fl) s)
       }
     }"

section \<open>The queue of a listener\<close>

text \<open>
  The addresses on the list that starts at a pointer, and the invariant of all sockets: \<open>Q l\<close> is the queue
  of the listener \<open>l\<close>. A queued socket is pending and in one queue only, the counter of a listener is the
  length of its queue, and a socket that does not listen yet has no queue.
\<close>

primrec chain :: "(nat \<rightharpoonup> unix_socket) \<Rightarrow> nat option \<Rightarrow> nat list \<Rightarrow> bool" where
  "chain h p [] \<longleftrightarrow> p = None"
| "chain h p (x # xs) \<longleftrightarrow> p = Some x \<and> (\<exists>s. h x = Some s \<and> chain h (next_pending s) xs)"

definition listens :: "net \<Rightarrow> nat \<Rightarrow> bool" where
  "listens n l \<longleftrightarrow> (\<exists>s. socks n l = Some s \<and> sock_state s = SOCKET_STATE_LISTENING)"

definition pending :: "net \<Rightarrow> nat \<Rightarrow> bool" where
  "pending n c \<longleftrightarrow> (\<exists>s. socks n c = Some s \<and> sock_state s = SOCKET_STATE_PENDING)"

definition queues_inv :: "net \<Rightarrow> (nat \<Rightarrow> nat list) \<Rightarrow> bool" where
  "queues_inv n Q \<longleftrightarrow>
     (\<forall>l s. socks n l = Some s \<longrightarrow> sock_state s = SOCKET_STATE_LISTENING \<longrightarrow>
        chain (socks n) (next_pending s) (Q l) \<and> unat (num_pending s) = length (Q l)) \<and>
     (\<forall>l s. socks n l = Some s \<longrightarrow> sock_state s = SOCKET_STATE_OPENED \<longrightarrow>
        next_pending s = None \<and> num_pending s = 0) \<and>
     (\<forall>l. \<not> listens n l \<longrightarrow> Q l = []) \<and>
     (\<forall>l. distinct (Q l) \<and> (\<forall>x \<in> set (Q l). pending n x)) \<and>
     (\<forall>l m. l \<noteq> m \<longrightarrow> set (Q l) \<inter> set (Q m) = {})"

lemma chain_cong:
  "(\<And>x. x \<in> set xs \<Longrightarrow> map_option next_pending (h' x) = map_option next_pending (h x)) \<Longrightarrow>
   chain h' p xs \<longleftrightarrow> chain h p xs"
proof (induction xs arbitrary: p)
  case (Cons x xs)
  have "map_option next_pending (h' x) = map_option next_pending (h x)"
    by (rule Cons.prems) simp
  moreover have "chain h' q xs \<longleftrightarrow> chain h q xs" for q
    by (rule Cons.IH) (simp add: Cons.prems)
  ultimately show ?case
    by (auto simp: map_option_case split: option.splits)
qed simp

lemma chain_last: "chain (socks n) (Some x) (x # xs) \<Longrightarrow> last_pending n x = Some (last (x # xs))"
proof (induction xs arbitrary: x)
  case Nil
  then show ?case
    by (subst last_pending.simps) auto
next
  case (Cons y ys)
  then obtain s where "socks n x = Some s" "next_pending s = Some y" "chain (socks n) (Some y) (y # ys)"
    by auto
  then show ?case
    using Cons.IH [of y] by (subst last_pending.simps) simp
qed

lemma chain_append:
  assumes "chain h p xs" "xs \<noteq> []" "distinct xs" "c \<notin> set xs" "h (last xs) = Some s"
    "h c = Some t" "next_pending t = None"
  shows "chain (h(last xs \<mapsto> s\<lparr>next_pending := Some c\<rparr>)) p (xs @ [c])"
  using assms
proof (induction xs arbitrary: p)
  case (Cons x xs)
  show ?case
  proof (cases xs)
    case Nil
    then show ?thesis
      using Cons.prems by auto
  next
    case (Cons y ys)
    then have "last (x # xs) = last xs" "x \<noteq> last xs"
      using Cons.prems(3) by auto
    moreover obtain sx where "h x = Some sx" "chain h (next_pending sx) xs"
      using Cons.prems(1) by auto
    moreover from this(2) have "chain (h(last xs \<mapsto> s\<lparr>next_pending := Some c\<rparr>)) (next_pending sx) (xs @ [c])"
      by (rule Cons.IH) (use Cons Cons.prems in auto)
    moreover have "(h(last xs \<mapsto> s\<lparr>next_pending := Some c\<rparr>)) x = Some sx"
      using \<open>x \<noteq> last xs\<close> \<open>h x = Some sx\<close> by simp
    ultimately show ?thesis
      using Cons.prems(1) by (simp del: fun_upd_apply)
  qed
qed simp

lemma chain_sockets: "chain h p xs \<Longrightarrow> x \<in> set xs \<Longrightarrow> \<exists>s. h x = Some s"
  by (induction xs arbitrary: p) auto

lemma pending_not_listens: "pending n x \<Longrightarrow> \<not> listens n x"
  by (auto simp: pending_def listens_def)

lemma queues_inv_unfold:
  assumes "queues_inv n Q"
  shows "\<And>l s. socks n l = Some s \<Longrightarrow> sock_state s = SOCKET_STATE_LISTENING \<Longrightarrow>
      chain (socks n) (next_pending s) (Q l) \<and> unat (num_pending s) = length (Q l)"
    "\<And>l s. socks n l = Some s \<Longrightarrow> sock_state s = SOCKET_STATE_OPENED \<Longrightarrow>
      next_pending s = None \<and> num_pending s = 0"
    "\<And>l. \<not> listens n l \<Longrightarrow> Q l = []" "\<And>l. distinct (Q l)" "\<And>l x. x \<in> set (Q l) \<Longrightarrow> pending n x"
    "\<And>l m x. x \<in> set (Q l) \<Longrightarrow> x \<in> set (Q m) \<Longrightarrow> l = m"
  using assms unfolding queues_inv_def disjoint_iff by blast+

text \<open>
  A step that changes the socket \<open>c\<close> and the queue of the listener \<open>l\<close> and keeps the other sockets: what
  has to be shown for it.
\<close>

lemma queues_inv_change:
  assumes inv: "queues_inv n Q" and l: "listens n l" "listens n' l"
    and others: "\<And>x. x \<noteq> l \<Longrightarrow> x \<noteq> c \<Longrightarrow> x \<notin> set (Q l) \<Longrightarrow> socks n' x = socks n x"
    and queued: "\<And>x. x \<in> set (Q l) \<Longrightarrow> x \<noteq> c \<Longrightarrow> pending n' x"
    and c: "\<not> listens n c" "\<And>s. socks n' c = Some s \<Longrightarrow>
      sock_state s = SOCKET_STATE_PENDING \<or> sock_state s = SOCKET_STATE_CONNECTED"
    and away: "\<And>m. m \<noteq> l \<Longrightarrow> c \<notin> set (Q m)"
    and new: "set q \<subseteq> insert c (set (Q l))" "distinct q" "c \<in> set q \<Longrightarrow> pending n' c"
      "\<And>s. socks n' l = Some s \<Longrightarrow> chain (socks n') (next_pending s) q \<and> unat (num_pending s) = length q"
  shows "queues_inv n' (Q(l := q))"
proof -
  note old = queues_inv_unfold [OF inv]
  have ql: "l \<notin> set (Q m)" for m
    using old(5) pending_not_listens l(1) by blast
  have same: "socks n' x = socks n x" if "x \<in> set (Q m)" "m \<noteq> l" for x m
    using others [of x] that old(6) [of x m l] ql away by blast
  have lis: "socks n' m = socks n m" if "listens n m \<or> listens n' m" "m \<noteq> l" for m
  proof -
    have "m \<noteq> c"
      using that(1) c by (auto simp: listens_def)
    moreover from this have "m \<notin> set (Q l)"
      using that(1) old(5) [of m l] queued [of m] pending_not_listens by blast
    ultimately show ?thesis
      using others that(2) by blast
  qed
  have pend: "pending n' x" if "x \<in> set (Q m)" "m \<noteq> l" for x m
    using old(5) [OF that(1)] same [OF that] by (simp add: pending_def)
  show ?thesis
    unfolding queues_inv_def
  proof (intro conjI allI impI)
    fix m s
    assume s: "socks n' m = Some s" "sock_state s = SOCKET_STATE_LISTENING"
    have "chain (socks n') (next_pending s) (Q m) \<and> unat (num_pending s) = length (Q m)" if "m \<noteq> l"
    proof -
      have "socks n m = Some s"
        using lis [of m] s that by (auto simp: listens_def)
      moreover have "chain (socks n') (next_pending s) (Q m) \<longleftrightarrow> chain (socks n) (next_pending s) (Q m)"
        using same that by (intro chain_cong) simp
      ultimately show ?thesis
        using old(1) s(2) by simp
    qed
    then show "chain (socks n') (next_pending s) ((Q(l := q)) m)"
      "unat (num_pending s) = length ((Q(l := q)) m)"
      using new(4) s by auto
  next
    fix m s
    assume s: "socks n' m = Some s" "sock_state s = SOCKET_STATE_OPENED"
    have "m \<noteq> l" "m \<noteq> c"
      using s l(2) c(2) by (auto simp: listens_def)
    moreover from this(2) have "m \<notin> set (Q l)"
      using queued [of m] s by (auto simp: pending_def)
    ultimately have "socks n m = Some s"
      using others s(1) by simp
    then show "next_pending s = None" "num_pending s = 0"
      using old(2) s(2) by auto
  next
    fix m
    assume m: "\<not> listens n' m"
    then have "m \<noteq> l"
      using l(2) by blast
    moreover have "\<not> listens n m"
    proof
      assume "listens n m"
      then show False
        using m lis [of m] \<open>m \<noteq> l\<close> by (simp add: listens_def)
    qed
    ultimately show "(Q(l := q)) m = []"
      using old(3) by simp
  next
    fix m
    show "distinct ((Q(l := q)) m)"
      using new(2) old(4) by simp
    show "\<forall>x \<in> set ((Q(l := q)) m). pending n' x"
    proof
      fix x
      assume x: "x \<in> set ((Q(l := q)) m)"
      show "pending n' x"
      proof (cases "m = l")
        case True
        then have "x = c \<or> x \<in> set (Q l)" "x = c \<longrightarrow> c \<in> set q"
          using x new(1) by auto
        then show ?thesis
          using queued new(3) by blast
      next
        case False
        then show ?thesis
          using x pend by simp
      qed
    qed
  next
    fix m k :: nat
    assume "m \<noteq> k"
    then have "x \<notin> set ((Q(l := q)) k)" if x: "x \<in> set ((Q(l := q)) m)" for x
      using x old(6) [of x m k] old(6) [of x l k] old(6) [of x m l] away [of k] away [of m] new(1)
      by (cases "m = l"; cases "k = l") auto
    then show "set ((Q(l := q)) m) \<inter> set ((Q(l := q)) k) = {}"
      by blast
  qed
qed

section \<open>Accepting and connecting\<close>

lemma socks_put_socket [simp]: "socks (put_socket n a s) = (socks n)(a \<mapsto> s)"
  by (simp add: put_socket_def)

lemma put_socket_others [simp]:
  "sock_files (put_socket n a s) = sock_files n" "bound_socket (put_socket n a s) = bound_socket n"
  by (simp_all add: put_socket_def)

lemma accept_pending_empty:
  assumes "queues_inv n Q" "listens n l" "Q l = []"
  shows "accept_pending n l = Some (None, n)"
proof -
  obtain s where s: "socks n l = Some s" "sock_state s = SOCKET_STATE_LISTENING"
    using assms(2) by (auto simp: listens_def)
  then have "next_pending s = None"
    using queues_inv_unfold(1) [OF assms(1) s] assms(3) by simp
  with s(1) show ?thesis
    by (simp add: accept_pending_def accept_dequeue_def)
qed

lemma accept_pending_first:
  assumes inv: "queues_inv n Q" and l: "listens n l" and q: "Q l = c # cs"
  shows "\<exists>n' s. accept_pending n l = Some (Some c, n') \<and> queues_inv n' (Q(l := cs)) \<and>
    socks n' c = Some s \<and> sock_state s = SOCKET_STATE_CONNECTED \<and> is_connected s"
proof -
  note old = queues_inv_unfold [OF inv]
  obtain sl where sl: "socks n l = Some sl" "sock_state sl = SOCKET_STATE_LISTENING"
    using l by (auto simp: listens_def)
  then have ch: "chain (socks n) (next_pending sl) (c # cs)" "unat (num_pending sl) = Suc (length cs)"
    using old(1) [OF sl] q by simp_all
  then obtain sc where sc: "socks n c = Some sc" "next_pending sl = Some c" "chain (socks n) (next_pending sc) cs"
    by auto
  have pc: "sock_state sc = SOCKET_STATE_PENDING"
    using old(5) [of c l] q sc(1) by (auto simp: pending_def)
  have cl: "c \<noteq> l"
    using sl sc(1) pc by auto
  have dist: "c \<notin> set cs" "distinct cs"
    using old(4) [of l] q by simp_all
  have lcs: "l \<notin> set cs"
    using old(5) [of l l] q l pending_not_listens by auto
  define n' where "n' = put_socket (put_socket n l (sl\<lparr>next_pending := next_pending sc, num_pending := num_pending sl - 1\<rparr>)) c
      (sc\<lparr>sock_state := SOCKET_STATE_CONNECTED, is_connected := True\<rparr>)"
  have "accept_pending n l = Some (Some c, n')"
    using sl(1) sc cl pc by (simp add: accept_pending_def accept_dequeue_def accept_connect_def n'_def)
  moreover have "queues_inv n' (Q(l := cs))"
  proof (rule queues_inv_change [OF inv l, where c = c])
    show "listens n' l"
      using sl cl by (simp add: listens_def n'_def)
    show "socks n' x = socks n x" if "x \<noteq> l" "x \<noteq> c" "x \<notin> set (Q l)" for x
      using that by (simp add: n'_def)
    show "pending n' x" if "x \<in> set (Q l)" "x \<noteq> c" for x
    proof -
      have "x \<noteq> l"
        using that(1,2) q lcs by auto
      then show ?thesis
        using old(5) [OF that(1)] that(2) by (simp add: pending_def n'_def)
    qed
    show "\<not> listens n c"
      using sc(1) pc by (simp add: listens_def)
    show "c \<notin> set (Q m)" if "m \<noteq> l" for m
      using old(6) [of c l m] q that by auto
    show "set cs \<subseteq> insert c (set (Q l))" "distinct cs"
      using q dist by auto
    show "chain (socks n') (next_pending s) cs \<and> unat (num_pending s) = length cs" if "socks n' l = Some s" for s
    proof -
      have s: "s = sl\<lparr>next_pending := next_pending sc, num_pending := num_pending sl - 1\<rparr>"
        using that cl by (simp add: n'_def)
      have "chain (socks n') (next_pending sc) cs \<longleftrightarrow> chain (socks n) (next_pending sc) cs"
        by (rule chain_cong) (use dist lcs in \<open>auto simp: n'_def\<close>)
      moreover have "unat (num_pending sl - 1) = length cs"
      proof -
        have "num_pending sl \<noteq> 0"
          using ch(2) by auto
        then show ?thesis
          using ch(2) by (simp add: unat_minus_one)
      qed
      ultimately show ?thesis
        using sc(3) by (simp add: s)
    qed
  qed (use dist in \<open>auto simp: n'_def\<close>)
  ultimately show ?thesis
    by (intro exI [of _ n']) (simp add: n'_def)
qed

text \<open>The socket as \<^verbatim>\<open>connect\<close> queues it, and the heap before it is linked to the end of the queue.\<close>

definition queued_socket :: "nat \<Rightarrow> unix_socket \<Rightarrow> unix_socket" where
  "queued_socket f s = s\<lparr>connector_file := Some f, sock_state := SOCKET_STATE_PENDING,
     next_pending := None, ref_count := ref_count s + 1\<rparr>"

definition counted_net :: "net \<Rightarrow> nat \<Rightarrow> nat \<Rightarrow> unix_socket \<Rightarrow> nat \<Rightarrow> unix_socket \<Rightarrow> net" where
  "counted_net n f l sl c sc =
     put_socket (put_socket n l (sl\<lparr>num_pending := num_pending sl + 1\<rparr>)) c (queued_socket f sc)"

lemma connect_enqueue_eq:
  assumes "sock_files n f = Some fl" "on_socket fl" "file_socket fl = c" "bound_socket n a = Some l"
    "socks n c = Some sc" "sock_state sc = SOCKET_STATE_OPENED" "socks n l = Some sl"
    "sock_state sl = SOCKET_STATE_LISTENING" "num_pending sl < word_of_int (backlog sl)"
  shows "connect_enqueue n f a =
    (case next_pending sl of
       None \<Rightarrow> Some (Inr (), put_socket (counted_net n f l sl c sc) l
                 (sl\<lparr>num_pending := num_pending sl + 1, next_pending := Some c\<rparr>))
     | Some x \<Rightarrow> do {
         it \<leftarrow> last_pending (counted_net n f l sl c sc) x;
         s \<leftarrow> socks (counted_net n f l sl c sc) it;
         Some (Inr (), put_socket (counted_net n f l sl c sc) it (s\<lparr>next_pending := Some c\<rparr>))
       })"
proof -
  have "l \<noteq> c"
    using assms(5-8) by auto
  then show ?thesis
    using assms by (simp add: connect_enqueue_def queued_socket_def counted_net_def Let_def
        linorder_not_le [symmetric] split: option.split)
qed

lemma connect_enqueue_last:
  assumes inv: "queues_inv n Q"
    and f: "sock_files n f = Some fl" "on_socket fl" "file_socket fl = c" "bound_socket n a = Some l"
    and c: "socks n c = Some sc" "sock_state sc = SOCKET_STATE_OPENED"
    and l: "socks n l = Some sl" "sock_state sl = SOCKET_STATE_LISTENING"
      "num_pending sl < word_of_int (backlog sl)"
  shows "\<exists>n'. connect_enqueue n f a = Some (Inr (), n') \<and> socks n' c = Some (queued_socket f sc) \<and>
    (\<forall>x. x \<noteq> c \<longrightarrow> x \<noteq> l \<longrightarrow> x \<notin> set (Q l) \<longrightarrow> socks n' x = socks n x) \<and>
    (\<forall>x \<in> set (Q l). pending n' x) \<and>
    (\<exists>s. socks n' l = Some s \<and> sock_state s = SOCKET_STATE_LISTENING \<and>
       num_pending s = num_pending sl + 1 \<and> chain (socks n') (next_pending s) (Q l @ [c]))"
proof -
  note old = queues_inv_unfold [OF inv] and eq = connect_enqueue_eq [OF f c l]
  let ?n = "counted_net n f l sl c sc"
  have ch: "chain (socks n) (next_pending sl) (Q l)"
    using old(1) [OF l(1,2)] by simp
  have ne: "c \<noteq> l"
    using c l by auto
  have out: "l \<notin> set (Q l)" "c \<notin> set (Q l)"
    using old(5) [of l l] old(5) [of c l] c l by (auto simp: pending_def)
  have keep: "socks ?n x = socks n x" if "x \<in> set (Q l)" for x
    using that out by (auto simp: counted_net_def)
  show ?thesis
  proof (cases "Q l")
    case Nil
    then have "next_pending sl = None"
      using ch by simp
    then show ?thesis
      using Nil eq ne l by (simp add: counted_net_def queued_socket_def)
  next
    case (Cons x xs)
    have "chain (socks ?n) (next_pending sl) (Q l) \<longleftrightarrow> chain (socks n) (next_pending sl) (Q l)"
      by (rule chain_cong) (simp add: keep)
    with ch have ch': "chain (socks ?n) (next_pending sl) (Q l)"
      by simp
    then have x: "next_pending sl = Some x" "last_pending ?n x = Some (last (Q l))"
      using Cons chain_last [of ?n x xs] by auto
    have mem: "last (Q l) \<in> set (Q l)"
      using Cons by simp
    then obtain s where s: "socks ?n (last (Q l)) = Some s" "sock_state s = SOCKET_STATE_PENDING"
      using old(5) [OF mem] keep [OF mem] by (auto simp: pending_def)
    define n' where "n' = put_socket ?n (last (Q l)) (s\<lparr>next_pending := Some c\<rparr>)"
    have "connect_enqueue n f a = Some (Inr (), n')"
      using eq x s(1) by (simp add: n'_def)
    moreover have "chain (socks n') (next_pending sl) (Q l @ [c])"
      unfolding n'_def socks_put_socket
      by (rule chain_append [OF ch', where t = "queued_socket f sc"])
        (use Cons old(4) [of l] out(2) s(1) in \<open>simp_all add: counted_net_def queued_socket_def\<close>)
    moreover have "pending n' y" if "y \<in> set (Q l)" for y
      using that old(5) [OF that] keep [OF that] s(2) by (auto simp: pending_def n'_def)
    moreover have "socks n' y = socks ?n y" if "y \<notin> set (Q l)" for y
      using that mem by (auto simp: n'_def)
    ultimately show ?thesis
      using ne out l(2) by (intro exI [of _ n']) (simp add: counted_net_def)
  qed
qed

lemma connect_enqueue_inv:
  assumes inv: "queues_inv n Q"
    and f: "sock_files n f = Some fl" "on_socket fl" "file_socket fl = c" "bound_socket n a = Some l"
    and c: "socks n c = Some sc" "sock_state sc = SOCKET_STATE_OPENED"
    and l: "socks n l = Some sl" "sock_state sl = SOCKET_STATE_LISTENING"
      "num_pending sl < word_of_int (backlog sl)"
  shows "\<exists>n'. connect_enqueue n f a = Some (Inr (), n') \<and> queues_inv n' (Q(l := Q l @ [c]))"
proof -
  note old = queues_inv_unfold [OF inv]
  from connect_enqueue_last [OF assms] obtain n' s where n':
    "connect_enqueue n f a = Some (Inr (), n')" "socks n' c = Some (queued_socket f sc)"
    "\<And>x. x \<noteq> c \<Longrightarrow> x \<noteq> l \<Longrightarrow> x \<notin> set (Q l) \<Longrightarrow> socks n' x = socks n x"
    "\<And>x. x \<in> set (Q l) \<Longrightarrow> pending n' x"
    "socks n' l = Some s" "sock_state s = SOCKET_STATE_LISTENING"
    "num_pending s = num_pending sl + 1" "chain (socks n') (next_pending s) (Q l @ [c])"
    by blast
  have fresh: "c \<notin> set (Q m)" for m
    using old(5) [of c m] c by (auto simp: pending_def)
  have "unat (num_pending sl + 1) = Suc (length (Q l))"
  proof -
    have "Suc (unat (num_pending sl)) < 2 ^ 32"
      using l(3) unat_u32_less [of "word_of_int (backlog sl)"] by (simp add: word_less_nat_alt)
    then show ?thesis
      using old(1) [OF l(1,2)] by (simp add: unat_word_ariths(1))
  qed
  moreover have "listens n l" "listens n' l"
    using l n'(5,6) by (auto simp: listens_def)
  ultimately have "queues_inv n' (Q(l := Q l @ [c]))"
    using n' c fresh old(4)
    by (intro queues_inv_change [OF inv, where c = c]) (auto simp: listens_def pending_def queued_socket_def)
  with n'(1) show ?thesis
    by blast
qed

text \<open>
  C32. The queue of a listener is first in, first out: with every queue well-formed, \<^verbatim>\<open>connect\<close> to a listener
  with room in its backlog adds the socket at the end of that queue, and \<^verbatim>\<open>accept\<close> takes the first socket out
  and connects it, without a failing assertion; the queues stay well-formed, with no socket lost or in
  two of them and every counter equal to the length of its queue. An empty queue changes nothing.
\<close>

theorem listen_queue_fifo:
  assumes "queues_inv n Q" "socks n l = Some sl" "sock_state sl = SOCKET_STATE_LISTENING"
  shows "(sock_files n f = Some fl \<and> on_socket fl \<and> bound_socket n a = Some l \<and>
      socks n (file_socket fl) = Some sc \<and> sock_state sc = SOCKET_STATE_OPENED \<and>
      num_pending sl < word_of_int (backlog sl) \<longrightarrow>
        (\<exists>n'. connect_enqueue n f a = Some (Inr (), n') \<and> queues_inv n' (Q(l := Q l @ [file_socket fl])))) \<and>
    (case Q l of
       [] \<Rightarrow> accept_pending n l = Some (None, n)
     | c # cs \<Rightarrow> \<exists>n' s. accept_pending n l = Some (Some c, n') \<and> queues_inv n' (Q(l := cs)) \<and>
         socks n' c = Some s \<and> sock_state s = SOCKET_STATE_CONNECTED \<and> is_connected s)"
proof -
  have l: "listens n l"
    using assms(2,3) by (auto simp: listens_def)
  have "case Q l of [] \<Rightarrow> accept_pending n l = Some (None, n)
     | c # cs \<Rightarrow> \<exists>n' s. accept_pending n l = Some (Some c, n') \<and> queues_inv n' (Q(l := cs)) \<and>
         socks n' c = Some s \<and> sock_state s = SOCKET_STATE_CONNECTED \<and> is_connected s"
    using accept_pending_empty [OF assms(1) l] accept_pending_first [OF assms(1) l] by (auto split: list.split)
  moreover have "\<exists>n'. connect_enqueue n f a = Some (Inr (), n') \<and> queues_inv n' (Q(l := Q l @ [file_socket fl]))"
    if "sock_files n f = Some fl" "on_socket fl" "bound_socket n a = Some l"
      "socks n (file_socket fl) = Some sc" "sock_state sc = SOCKET_STATE_OPENED"
      "num_pending sl < word_of_int (backlog sl)"
    by (rule connect_enqueue_inv [OF assms(1) that(1,2) refl that(3-5) assms(2,3) that(6)])
  ultimately show ?thesis
    by blast
qed

definition fresh_socket :: unix_socket where
  "fresh_socket = \<lparr>ref_count = 1, is_bound = False, sock_state = SOCKET_STATE_OPENED, backlog = 0,
     num_pending = 0, next_pending = None, is_connected = False, connector_file = None,
     to_connector_buf = \<lparr>capacity = 4096, write_index = 0, read_index = 0, ring = replicate 4096 0\<rparr>,
     to_acceptor_buf = \<lparr>capacity = 4096, write_index = 0, read_index = 0, ring = replicate 4096 0\<rparr>,
     is_open_for_writing_to_connector = True, is_open_for_writing_to_acceptor = True\<rparr>"

text \<open>A listener at 10 with the socket 20 in its queue, and a socket 30 that connects next through the file 1.\<close>

definition example_net :: net where
  "example_net =
     \<lparr>socks = [10 \<mapsto> fresh_socket\<lparr>is_bound := True, sock_state := SOCKET_STATE_LISTENING, backlog := 2,
                        num_pending := 1, next_pending := Some 20\<rparr>,
              20 \<mapsto> fresh_socket\<lparr>sock_state := SOCKET_STATE_PENDING\<rparr>,
              30 \<mapsto> fresh_socket],
      sock_files = [1 \<mapsto> \<lparr>file_flags = 2, on_socket = True, file_socket = 30\<rparr>],
      bound_socket = [5 \<mapsto> 10]\<rparr>"

lemma example_net_queues: "queues_inv example_net ((\<lambda>_. [])(10 := [20]))"
  by (auto simp: queues_inv_def example_net_def fresh_socket_def listens_def pending_def split: if_splits)

theorem listen_queue_fifo_witness:
  "(\<exists>n'. connect_enqueue example_net 1 5 = Some (Inr (), n') \<and> queues_inv n' ((\<lambda>_. [])(10 := [20, 30]))) \<and>
   (\<exists>n'. accept_pending example_net 10 = Some (Some 20, n'))"
proof -
  have "socks example_net 10 = Some (fresh_socket\<lparr>is_bound := True, sock_state := SOCKET_STATE_LISTENING,
      backlog := 2, num_pending := 1, next_pending := Some 20\<rparr>)"
    by (simp add: example_net_def)
  from listen_queue_fifo [OF example_net_queues this, of 1 "\<lparr>file_flags = 2, on_socket = True, file_socket = 30\<rparr>" 5
      fresh_socket] show ?thesis
    by (simp add: example_net_def fresh_socket_def) blast
qed

section \<open>Writing after the other end is gone\<close>

lemma wait_unblock_asleep:
  "\<forall>ob \<in> set os. \<not> obs_signal ob \<and> cond (obs_world ob) = Some False \<Longrightarrow> wait_unblock cond os = Some Asleep"
  by (induction os) auto

lemma file_block_asleep:
  assumes "flags AND O_NONBLOCK = 0" "\<forall>ob \<in> set os. \<not> obs_signal ob \<and> cond (obs_world ob) = Some False"
  shows "file_block flags cond os = Some Asleep"
  using assms wait_unblock_asleep [of "tl os" cond] by (cases os) (auto simp: file_block.simps)

text \<open>
  The test for writability sleeps where it should wake: once the acceptor has shut down reading or
  closed its end, a writer on the connecting end is neither woken nor told that the connection is gone.
  It sleeps until a signal comes, in every state with that end closed, instead of returning \<^verbatim>\<open>EPIPE\<close> as the
  accepting end does.
\<close>

theorem connector_write_sleeps:
  assumes "flags AND O_NONBLOCK = 0"
    and "\<forall>ob \<in> set os. \<not> obs_signal ob \<and> is_connected (obs_world ob) \<and>
      connector_file (obs_world ob) = Some f \<and> \<not> is_open_for_writing_to_acceptor (obs_world ob)"
  shows "unix_socket_pwrite flags f k os src = Some (Asleep, k)"
proof (cases os)
  case (Cons ob os')
  have "\<forall>ob \<in> set os'. \<not> obs_signal ob \<and> Some (is_writable f (obs_world ob)) = Some False"
    using assms(2) Cons by (auto simp: is_writable_def is_connector_def)
  then have "file_block flags (\<lambda>s. Some (is_writable f s)) os' = Some Asleep"
    by (intro file_block_asleep [OF assms(1)]) simp
  then show ?thesis
    using assms(2) Cons by (simp add: unix_socket_pwrite_def write_loop.simps)
qed (simp add: unix_socket_pwrite_def)

theorem connector_write_sleeps_witness:
  "\<forall>k. unix_socket_pwrite 2 1 k
     (replicate 3 \<lparr>obs_world = fresh_socket\<lparr>is_connected := True, connector_file := Some 1,
        is_open_for_writing_to_acceptor := False\<rparr>, obs_signal = False\<rparr>) [104] = Some (Asleep, k)"
  by (intro allI connector_write_sleeps) simp_all

text \<open>The accepting end gets the signal and the error.\<close>

lemma acceptor_write_epipe:
  assumes "flags AND O_NONBLOCK = 0" "\<not> is_open_for_writing_to_connector s" "is_connected s"
    "connector_file s \<noteq> Some f" "tasks k (current k) = Some cur"
    "task_send_signal k (tid cur) (int SIGPIPE) 0 = Some (Inr u, k')"
  shows "unix_socket_pwrite flags f k (replicate 3 \<lparr>obs_world = s, obs_signal = False\<rparr>) src =
    Some (Woke (Inl EPIPE, None), k')"
  using assms
  by (simp add: unix_socket_pwrite_def numeral_3_eq_3 write_loop.simps file_block.simps
      is_writable_def is_connector_def)
end
