(* ===== verification/Tty.thy ===== *)
theory Tty
  imports Ring_Buf Blocking Signal Cstring
begin

text \<open>
  The terminal line discipline of \<^verbatim>\<open>kernel/console/tty.c\<close>. Characters typed at a device come in through
  \<^verbatim>\<open>tty_emit\<close>. In line mode they are edited in \<^verbatim>\<open>line_buf\<close> until the end of the line; the finished line goes, as
  pairs of a character and an end-of-line mark, into the byte ring \<^verbatim>\<open>input_buf\<close>, from which \<^verbatim>\<open>tty_pread\<close> takes it.
  Each operation runs under the lock of the terminal and is one step.

  The echo callback belongs to the device. The model keeps the bytes handed to it, oldest first.
\<close>

section \<open>Terminal attributes\<close>

abbreviation (input) NCCS :: nat where "NCCS \<equiv> 32"

text \<open>\<^verbatim>\<open>struct termios\<close>. The compiler puts three bytes of padding behind \<^verbatim>\<open>c_cc\<close>; they are copied with the rest.\<close>

record termios =
  c_iflag :: u32
  c_oflag :: u32
  c_cflag :: u32
  c_lflag :: u32
  c_line :: u8
  c_cc :: "u8 list"
  c_pad :: "u8 list"
  c_ispeed :: u32
  c_ospeed :: u32

abbreviation (input) ISTRIP :: u32 where "ISTRIP \<equiv> 0x20"
abbreviation (input) INLCR :: u32 where "INLCR \<equiv> 0x40"
abbreviation (input) ICRNL :: u32 where "ICRNL \<equiv> 0x100"
abbreviation (input) OPOST :: u32 where "OPOST \<equiv> 1"
abbreviation (input) ONLCR :: u32 where "ONLCR \<equiv> 4"
abbreviation (input) CS8 :: u32 where "CS8 \<equiv> 0x30"
abbreviation (input) B9600 :: u32 where "B9600 \<equiv> 0xd"
abbreviation (input) ISIG :: u32 where "ISIG \<equiv> 1"
abbreviation (input) ICANON :: u32 where "ICANON \<equiv> 2"
abbreviation (input) ECHO :: u32 where "ECHO \<equiv> 8"
abbreviation (input) ECHOE :: u32 where "ECHOE \<equiv> 0x10"
abbreviation (input) ECHOK :: u32 where "ECHOK \<equiv> 0x20"
abbreviation (input) ECHONL :: u32 where "ECHONL \<equiv> 0x40"

abbreviation (input) VINTR :: nat where "VINTR \<equiv> 0"
abbreviation (input) VQUIT :: nat where "VQUIT \<equiv> 1"
abbreviation (input) VERASE :: nat where "VERASE \<equiv> 2"
abbreviation (input) VKILL :: nat where "VKILL \<equiv> 3"
abbreviation (input) VEOF :: nat where "VEOF \<equiv> 4"
abbreviation (input) VSUSP :: nat where "VSUSP \<equiv> 10"
abbreviation (input) VEOL :: nat where "VEOL \<equiv> 11"

definition ttydefchars :: "u8 list" where
  "ttydefchars =
     [3, 28, 127, 21, 4, 0, 1, 0, 17, 19, 26, 0, 18, 15, 23, 22, 0] @ replicate (NCCS - 17) 0"

text \<open>The padding of the static constant is zero.\<close>

definition default_termios :: termios where
  "default_termios =
     \<lparr>c_iflag = ICRNL, c_oflag = OPOST OR ONLCR, c_cflag = CS8,
      c_lflag = ECHO OR ICANON OR ISIG OR ECHOE OR ECHOK OR ECHONL,
      c_line = 0, c_cc = replicate NCCS 0, c_pad = [0, 0, 0], c_ispeed = B9600, c_ospeed = B9600\<rparr>"

section \<open>The terminal\<close>

record attr_char =
  ch :: u8
  eol :: bool

text \<open>
  \<^verbatim>\<open>echo\<close> says whether a callback is set and \<open>echoed\<close> holds what it was called with. The inode is
  kept with the fields \<^verbatim>\<open>tty_init\<close> sets.
\<close>

record tty =
  inode_mode :: u32
  inode_rdev :: u32
  inode_ref_count :: nat
  termios :: termios
  input_buf :: ring_buf
  line_buf :: "attr_char list"
  line_len :: nat
  echo_set :: bool
  echoed :: "u8 list"
  tty_pgid :: u32
  num_columns :: u32
  num_rows :: u32

definition attr_char_bytes :: "attr_char \<Rightarrow> u8 list" where
  "attr_char_bytes ac = [ch ac, of_bool (eol ac)]"

abbreviation (input) LINE_BUF_LEN :: nat where "LINE_BUF_LEN \<equiv> 1024"

text \<open>\<^verbatim>\<open>sizeof(tty->line_buf)\<close>, in bytes.\<close>

abbreviation (input) LINE_BUF_SIZE :: nat where "LINE_BUF_SIZE \<equiv> 2048"

abbreviation (input) S_IFCHR :: u32 where "S_IFCHR \<equiv> 0x2000"

definition makedev :: "u32 \<Rightarrow> u32 \<Rightarrow> u32" where
  "makedev major minor = (minor AND 0xff) OR push_bit 8 major OR push_bit 12 (minor AND NOT 0xff)"

text \<open>\<^verbatim>\<open>tty_init\<close>: \<open>mem\<close> is what the allocation of the ring returns.\<close>

definition tty_init :: "u8 \<Rightarrow> u8 list option \<Rightarrow> tty result" where
  "tty_init minor mem =
     (case ring_buf_init 4096 mem of
        Inl e \<Rightarrow> Inl e
      | Inr b \<Rightarrow>
          Inr \<lparr>inode_mode = S_IFCHR, inode_rdev = makedev 4 (ucast minor), inode_ref_count = 1,
               termios = default_termios\<lparr>c_cc := ttydefchars\<rparr>, input_buf = b,
               line_buf = replicate LINE_BUF_LEN \<lparr>ch = 0, eol = False\<rparr>, line_len = 0,
               echo_set = False, echoed = [], tty_pgid = 0, num_columns = 80, num_rows = 25\<rparr>)"

definition tty_set_echo :: "tty \<Rightarrow> bool \<Rightarrow> tty" where
  "tty_set_echo t e = t\<lparr>echo_set := e\<rparr>"

definition tty_set_size :: "tty \<Rightarrow> u32 \<Rightarrow> u32 \<Rightarrow> tty" where
  "tty_set_size t columns rows = t\<lparr>num_columns := columns, num_rows := rows\<rparr>"

section \<open>Output\<close>

definition echo :: "tty \<Rightarrow> u8 list \<Rightarrow> tty" where
  "echo t buf = (if echo_set t then t\<lparr>echoed := echoed t @ buf\<rparr> else t)"

fun echo_processed_chars :: "tty \<Rightarrow> u8 list \<Rightarrow> tty" where
  "echo_processed_chars t [] = t"
| "echo_processed_chars t (c # buf) =
     (let t = (if c = 10 \<and> c_oflag (termios t) AND ONLCR \<noteq> 0 then echo t [13] else t)
      in echo_processed_chars (echo t [c]) buf)"

definition processed_echo :: "tty \<Rightarrow> u8 list \<Rightarrow> tty" where
  "processed_echo t buf =
     (if c_oflag (termios t) AND OPOST = 0 then echo t buf else echo_processed_chars t buf)"

definition tty_pwrite :: "tty \<Rightarrow> u8 list \<Rightarrow> nat result \<times> tty" where
  "tty_pwrite t buf = (Inr (length buf), processed_echo t buf)"

section \<open>Input\<close>

definition do_backspace :: "tty \<Rightarrow> bool \<times> tty" where
  "do_backspace t =
     (if line_len t \<noteq> 0 then (True, echo (t\<lparr>line_len := line_len t - 1\<rparr>) [8, 32, 8]) else (False, t))"

lemma line_len_echo [simp]: "line_len (echo t buf) = line_len t"
  by (simp add: echo_def)

function kill_line :: "tty \<Rightarrow> tty" where
  "kill_line t = (let (b, t) = do_backspace t in if b then kill_line t else t)"
  by pat_completeness auto
termination
  by (relation "measure line_len") (auto simp: do_backspace_def split: if_splits)

declare kill_line.simps [simp del]

text \<open>\<^verbatim>\<open>append_char\<close> compares the number of characters with the size of the buffer in bytes.\<close>

definition append_char :: "tty \<Rightarrow> u8 \<Rightarrow> bool \<Rightarrow> tty option" where
  "append_char t c e =
     (if line_len t \<ge> LINE_BUF_SIZE then Some t
      else do {
        l \<leftarrow> arr_set (line_buf t) (line_len t) \<lparr>ch = c, eol = e\<rparr>;
        Some (t\<lparr>line_buf := l, line_len := line_len t + 1\<rparr>)
      })"

definition commit_line :: "tty \<Rightarrow> tty option" where
  "commit_line t =
     (if line_len t = 0 then Some t
      else do {
        (_, b) \<leftarrow> ring_buf_write_evicting_oldest (input_buf t)
                  (concat (map attr_char_bytes (take (line_len t) (line_buf t))));
        Some (t\<lparr>input_buf := b, line_len := 0\<rparr>)
      })"

text \<open>The characters that send a signal to the foreground process group.\<close>

definition signal_char :: "termios \<Rightarrow> u8 \<Rightarrow> nat option" where
  "signal_char tm c =
     (if c_lflag tm AND ISIG = 0 then None
      else if c = c_cc tm ! VINTR then Some SIGINT
      else if c = c_cc tm ! VQUIT then Some SIGQUIT
      else if c = c_cc tm ! VSUSP then Some SIGTSTP
      else None)"

definition map_newline :: "termios \<Rightarrow> u8 \<Rightarrow> u8" where
  "map_newline tm c =
     (if c = 13 \<and> c_iflag tm AND ICRNL \<noteq> 0 then 10
      else if c = 10 \<and> c_iflag tm AND INLCR \<noteq> 0 then 13
      else c)"

definition raw_char :: "tty \<Rightarrow> u8 \<Rightarrow> tty option" where
  "raw_char t c =
     do {
       (_, b) \<leftarrow> ring_buf_write_evicting_oldest (input_buf t) (attr_char_bytes \<lparr>ch = c, eol = False\<rparr>);
       let t = t\<lparr>input_buf := b\<rparr>;
       Some (if c_lflag (termios t) AND ECHO \<noteq> 0 then processed_echo t [c] else t)
     }"

definition canonical_char :: "tty \<Rightarrow> u8 \<Rightarrow> tty option" where
  "canonical_char t c =
     (let tm = termios t in
      if c = c_cc tm ! VKILL \<and> c_lflag tm AND ECHOK \<noteq> 0 then Some (kill_line t)
      else if c = c_cc tm ! VERASE \<and> c_lflag tm AND ECHOE \<noteq> 0 then Some (snd (do_backspace t))
      else if c = c_cc tm ! VEOL then commit_line t
      else if c = c_cc tm ! VEOF then do { t \<leftarrow> append_char t 0 True; commit_line t }
      else if c = 10 then do {
        let t = (if c_lflag tm AND (ECHO OR ECHONL) \<noteq> 0 then processed_echo t [10] else t);
        t \<leftarrow> append_char t 10 True;
        commit_line t
      }
      else do {
        let echoing = (c_lflag tm AND ECHO \<noteq> 0);
        (t, c) \<leftarrow> (if \<not> isprint (scast c) then do {
                     let t = (if echoing then processed_echo t [94] else t);
                     t \<leftarrow> append_char t 94 False;
                     Some (t, c OR 0x40)
                   }
                   else Some (t, c));
        let t = (if echoing then processed_echo t [c] else t);
        append_char t c False
      })"

definition on_char :: "kernel \<Rightarrow> tty \<Rightarrow> u8 \<Rightarrow> (unit result \<times> tty \<times> kernel) option" where
  "on_char k t c =
     (let tm = termios t;
          c = (if c_lflag tm AND ISTRIP \<noteq> 0 then c AND 0x7f else c)
      in case signal_char tm c of
           Some signum \<Rightarrow> do {
             (rc, k) \<leftarrow> task_send_signal k (sint (tty_pgid t)) (int signum) SIGNAL_DEST_PROCESS_GROUP;
             Some (rc, t, k)
           }
         | None \<Rightarrow> do {
             let c = map_newline tm c;
             t \<leftarrow> (if c_lflag tm AND ICANON = 0 then raw_char t c else canonical_char t c);
             Some (Inr (), t, k)
           })"

fun emit_loop :: "kernel \<Rightarrow> tty \<Rightarrow> u8 list \<Rightarrow> (unit result \<times> tty \<times> kernel) option" where
  "emit_loop k t [] = Some (Inr (), t, k)"
| "emit_loop k t (c # buf) =
     do {
       (ret, t, k) \<leftarrow> on_char k t c;
       case ret of
         Inl e \<Rightarrow> Some (Inl e, t, k)
       | Inr _ \<Rightarrow> emit_loop k t buf
     }"

definition tty_emit :: "kernel \<Rightarrow> tty \<Rightarrow> u8 list \<Rightarrow> (nat result \<times> tty \<times> kernel) option" where
  "tty_emit k t buf =
     do {
       (ret, t, k) \<leftarrow> emit_loop k t buf;
       Some (case ret of Inl e \<Rightarrow> Inl e | Inr _ \<Rightarrow> Inr (length buf), t, k)
     }"

section \<open>Reading\<close>

definition can_read :: "tty \<Rightarrow> bool" where
  "can_read t \<longleftrightarrow> \<not> ring_buf_is_empty (input_buf t)"

text \<open>
  The loop of \<^verbatim>\<open>tty_pread\<close>. It ends on the count, on an end-of-line mark or on a read of no bytes; a pair that is all
  zero is passed over, so the loop need not end. When the ring hands out a single byte the mark of \<^verbatim>\<open>ac\<close>
  keeps what the stack held, \<open>junk\<close>, the same byte in each round. A mark that is not zero counts as set. The stores go to a
  buffer that can be written; a page fault on a user buffer is not modelled.
\<close>

partial_function (option) read_chars :: "u8 \<Rightarrow> ring_buf \<Rightarrow> nat \<Rightarrow> (u8 list \<times> ring_buf) option" where
  "read_chars junk b count =
     (if count = 0 then Some ([], b)
      else do {
        (xs, b) \<leftarrow> ring_buf_read b 2;
        if xs = [] then Some ([], b)
        else let c = xs ! 0; e = (if length xs = 2 then xs ! 1 else junk)
        in if c \<noteq> 0 then
             if e \<noteq> 0 then Some ([c], b)
             else do { (ys, b) \<leftarrow> read_chars junk b (count - 1); Some (c # ys, b) }
           else if e \<noteq> 0 then Some ([], b) else read_chars junk b count
      })"

definition unblock_tty :: "tty \<Rightarrow> bool option" where
  "unblock_tty t = Some (can_read t)"

function tty_pread ::
    "u32 \<Rightarrow> u8 \<Rightarrow> tty obs list \<Rightarrow> nat \<Rightarrow> (u8 list result \<times> (tty \<times> tty) option) wait option" where
  "tty_pread flags junk os count =
     (case file_block flags unblock_tty os of
        None \<Rightarrow> None
      | Some Asleep \<Rightarrow> Some Asleep
      | Some (Woke (Inl e, _)) \<Rightarrow> Some (Woke (Inl e, None))
      | Some (Woke (Inr _, [])) \<Rightarrow> Some Asleep
      | Some (Woke (Inr _, ob # os')) \<Rightarrow>
          let t = obs_world ob
          in if can_read t then
               do {
                 (bytes, b) \<leftarrow> read_chars junk (input_buf t) count;
                 Some (Woke (Inr bytes, Some (t, t\<lparr>input_buf := b\<rparr>)))
               }
             else tty_pread flags junk os' count)"
  by pat_completeness auto
termination
  by (relation "measure (\<lambda>(flags, junk, os, count). length os)") (auto dest!: file_block_shorter)

declare tty_pread.simps [simp del]

definition tty_poll :: "tty \<Rightarrow> u16 \<Rightarrow> u16" where
  "tty_poll t events =
     (if events AND POLLIN \<noteq> 0 \<and> can_read t then POLLIN else 0)
     OR (if events AND POLLOUT \<noteq> 0 then POLLOUT else 0)"

section \<open>Control\<close>

text \<open>
  \<^verbatim>\<open>copy_from_user\<close> into an object of the kernel with the bytes \<open>old\<close>: a fault ends the copy and leaves the
  bytes copied before it.
\<close>

fun load_prefix :: "mem \<Rightarrow> u32 \<Rightarrow> nat \<Rightarrow> u8 list" where
  "load_prefix m a 0 = []"
| "load_prefix m a (Suc n) = (case m a of None \<Rightarrow> [] | Some (x, _) \<Rightarrow> x # load_prefix m (a + 1) n)"

definition get_into :: "mem \<Rightarrow> u32 \<Rightarrow> u8 list \<Rightarrow> unit result \<times> u8 list" where
  "get_into m from old =
     (if is_user_range from (of_nat (length old))
      then let got = load_prefix m from (length old)
           in (if length got = length old then Inr () else Inl EFAULT, got @ drop (length got) old)
      else (Inl EFAULT, old))"

definition termios_bytes :: "termios \<Rightarrow> u8 list" where
  "termios_bytes tm =
     words_bytes [c_iflag tm, c_oflag tm, c_cflag tm, c_lflag tm] @ c_line tm # c_cc tm @ c_pad tm
     @ words_bytes [c_ispeed tm, c_ospeed tm]"

definition termios_of :: "u8 list \<Rightarrow> termios" where
  "termios_of bs =
     \<lparr>c_iflag = word_at bs 0, c_oflag = word_at bs 4, c_cflag = word_at bs 8, c_lflag = word_at bs 12,
      c_line = bs ! 16, c_cc = take NCCS (drop 17 bs), c_pad = take 3 (drop 49 bs),
      c_ispeed = word_at bs 52, c_ospeed = word_at bs 56\<rparr>"

definition half_bytes :: "u32 \<Rightarrow> u8 list" where
  "half_bytes w = [ucast w, ucast (drop_bit 8 w)]"

definition half_word :: "u8 \<Rightarrow> u8 \<Rightarrow> u32" where
  "half_word lo hi = ucast lo OR push_bit 8 (ucast hi)"

abbreviation (input) TCGETS :: u32 where "TCGETS \<equiv> 0x5401"
abbreviation (input) TCSETS :: u32 where "TCSETS \<equiv> 0x5402"
abbreviation (input) TCSETSW :: u32 where "TCSETSW \<equiv> 0x5403"
abbreviation (input) TCSETSF :: u32 where "TCSETSF \<equiv> 0x5404"
abbreviation (input) TIOCGPGRP :: u32 where "TIOCGPGRP \<equiv> 0x540f"
abbreviation (input) TIOCSPGRP :: u32 where "TIOCSPGRP \<equiv> 0x5410"
abbreviation (input) TIOCGWINSZ :: u32 where "TIOCGWINSZ \<equiv> 0x5413"
abbreviation (input) TIOCSWINSZ :: u32 where "TIOCSWINSZ \<equiv> 0x5414"

text \<open>\<^verbatim>\<open>struct winsize\<close> is rows, columns and two sizes in pixels, of 16 bits each.\<close>

definition tty_ioctl :: "mem \<Rightarrow> tty \<Rightarrow> u32 \<Rightarrow> u32 \<Rightarrow> unit result \<times> tty \<times> mem" where
  "tty_ioctl m t request user_argp =
     (if request = TIOCGPGRP then
        (let (r, m) = put_user m user_argp (word_bytes (tty_pgid t)) in (r, t, m))
      else if request = TIOCSPGRP then
        (let (r, bs) = get_into m user_argp (word_bytes (tty_pgid t)) in (r, t\<lparr>tty_pgid := word_at bs 0\<rparr>, m))
      else if request = TCGETS then
        (let (r, m) = put_user m user_argp (termios_bytes (termios t)) in (r, t, m))
      else if request \<in> {TCSETS, TCSETSW, TCSETSF} then
        (let (r, bs) = get_into m user_argp (termios_bytes (termios t));
             t = t\<lparr>termios := termios_of bs\<rparr>
         in (r, case r of
                  Inl _ \<Rightarrow> t
                | Inr _ \<Rightarrow> if request = TCSETSF
                           then t\<lparr>line_len := 0, input_buf := ring_buf_clear (input_buf t)\<rparr> else t, m))
      else if request = TIOCGWINSZ then
        (let (r, m) = put_user m user_argp (half_bytes (num_rows t) @ half_bytes (num_columns t) @ [0, 0, 0, 0])
         in (r, t, m))
      else if request = TIOCSWINSZ then
        (case get_user m user_argp 8 of
           Inl e \<Rightarrow> (Inl EFAULT, t, m)
         | Inr bs \<Rightarrow>
             (Inr (), t\<lparr>num_columns := half_word (bs ! 2) (bs ! 3), num_rows := half_word (bs ! 0) (bs ! 1)\<rparr>, m))
      else (Inl EINVAL, t, m))"

section \<open>Well-formed terminals\<close>

text \<open>The type invariant: buffers and tables have their declared sizes and the line lies inside its buffer.\<close>

definition tty_wf :: "tty \<Rightarrow> bool" where
  "tty_wf t \<longleftrightarrow> rb_inv (input_buf t) \<and> capacity (input_buf t) = 4096
     \<and> length (line_buf t) = LINE_BUF_LEN \<and> line_len t \<le> LINE_BUF_LEN
     \<and> length (c_cc (termios t)) = NCCS \<and> length (c_pad (termios t)) = 3"

lemma default_lengths [simp]: "length ttydefchars = NCCS" "length (c_pad default_termios) = 3"
  by (simp_all add: ttydefchars_def default_termios_def)

lemma tty_init_wf: "length bytes = 4096 \<Longrightarrow> tty_init minor (Some bytes) = Inr t \<Longrightarrow> tty_wf t"
  by (auto simp: tty_init_def ring_buf_init_def tty_wf_def rb_inv_def default_termios_def ttydefchars_def)

lemma echo_select [simp]:
  "termios (echo t buf) = termios t" "input_buf (echo t buf) = input_buf t"
  "line_buf (echo t buf) = line_buf t" "echo_set (echo t buf) = echo_set t"
  "tty_pgid (echo t buf) = tty_pgid t"
  "echoed (echo t buf) = echoed t @ (if echo_set t then buf else [])"
  by (simp_all add: echo_def)

lemma echo_processed_select [simp]:
  "termios (echo_processed_chars t buf) = termios t" "input_buf (echo_processed_chars t buf) = input_buf t"
  "line_buf (echo_processed_chars t buf) = line_buf t" "line_len (echo_processed_chars t buf) = line_len t"
  "echo_set (echo_processed_chars t buf) = echo_set t"
  by (induction t buf rule: echo_processed_chars.induct) (simp_all add: Let_def)

lemma processed_echo_select [simp]:
  "termios (processed_echo t buf) = termios t" "input_buf (processed_echo t buf) = input_buf t"
  "line_buf (processed_echo t buf) = line_buf t" "line_len (processed_echo t buf) = line_len t"
  "echo_set (processed_echo t buf) = echo_set t"
  by (simp_all add: processed_echo_def)

lemma processed_echo_wf [simp]: "tty_wf (processed_echo t buf) \<longleftrightarrow> tty_wf t"
  by (simp add: tty_wf_def)

lemma kill_line_eq:
  "kill_line t = t\<lparr>line_len := 0, echoed := echoed t @ (if echo_set t then concat (replicate (line_len t) [8, 32, 8]) else [])\<rparr>"
proof (induction t rule: kill_line.induct)
  case (1 t)
  show ?case
  proof (cases "line_len t")
    case 0
    then show ?thesis by (subst kill_line.simps) (simp add: do_backspace_def)
  next
    case (Suc n)
    then have "do_backspace t = (True, echo (t\<lparr>line_len := n\<rparr>) [8, 32, 8])" by (simp add: do_backspace_def)
    with 1 [OF _ refl, of True "echo (t\<lparr>line_len := n\<rparr>) [8, 32, 8]"] Suc show ?thesis
      by (subst kill_line.simps) (simp add: echo_def)
  qed
qed

lemma kill_line_wf: "tty_wf t \<Longrightarrow> tty_wf (kill_line t)"
  by (simp add: kill_line_eq tty_wf_def)

lemma append_char_in:
  "line_len t < length (line_buf t) \<Longrightarrow> length (line_buf t) = LINE_BUF_LEN \<Longrightarrow>
   append_char t c e = Some (t\<lparr>line_buf := (line_buf t)[line_len t := \<lparr>ch = c, eol = e\<rparr>], line_len := line_len t + 1\<rparr>)"
  by (simp add: append_char_def)

lemma append_char_wf:
  "tty_wf t \<Longrightarrow> line_len t < LINE_BUF_LEN \<Longrightarrow>
   \<exists>t'. append_char t c e = Some t' \<and> tty_wf t' \<and> line_len t' = line_len t + 1"
  by (auto simp: append_char_in tty_wf_def)

lemma commit_line_wf: "tty_wf t \<Longrightarrow> \<exists>t'. commit_line t = Some t' \<and> tty_wf t' \<and> line_len t' = 0"
  using ring_buf_write_evicting_oldest_correct [of "input_buf t" "concat (map attr_char_bytes (take (line_len t) (line_buf t)))"]
  by (auto simp: commit_line_def tty_wf_def)

lemma raw_char_wf: "tty_wf t \<Longrightarrow> \<exists>t'. raw_char t c = Some t' \<and> tty_wf t' \<and> line_len t' = line_len t"
  using ring_buf_write_evicting_oldest_correct [of "input_buf t" "attr_char_bytes \<lparr>ch = c, eol = False\<rparr>"]
  by (auto simp: raw_char_def tty_wf_def Let_def)

text \<open>A character in line mode takes at most two places of the line, a circumflex and a letter.\<close>

lemma plain_char_wf:
  assumes wf: "tty_wf t" and room: "line_len t + 2 \<le> LINE_BUF_LEN"
  shows "\<exists>t'. do {
        (t, c) \<leftarrow> (if \<not> isprint (scast c) then do {
                     let t = (if echoing then processed_echo t [94] else t);
                     t \<leftarrow> append_char t 94 False;
                     Some (t, c OR 0x40)
                   }
                   else Some (t, c));
        let t = (if echoing then processed_echo t [c] else t);
        append_char t c False
      } = Some t' \<and> tty_wf t' \<and> line_len t' \<le> line_len t + 2"
proof -
  have one: "\<exists>t'. append_char (if echoing then processed_echo t buf else t) c e = Some t'
      \<and> tty_wf t' \<and> line_len t' = line_len t + 1" if "tty_wf t" "line_len t < LINE_BUF_LEN" for t :: tty and buf c e
    using append_char_wf [of "processed_echo t buf" c e] append_char_wf [of t c e] that by (cases echoing) simp_all
  show ?thesis
  proof (cases "isprint (scast c)")
    case True
    with one [OF wf, of "[c]" c False] room show ?thesis by (auto simp: Let_def)
  next
    case False
    obtain t1 where t1: "append_char (if echoing then processed_echo t [94] else t) 94 False = Some t1"
        "tty_wf t1" "line_len t1 = line_len t + 1"
      using one [OF wf, of "[94]" 94 False] room by auto
    with False one [OF t1(2), of "[c OR 0x40]" "c OR 0x40" False] room show ?thesis
      by (auto simp: Let_def)
  qed
qed

lemma canonical_char_wf:
  assumes wf: "tty_wf t" and room: "line_len t + 2 \<le> LINE_BUF_LEN"
  shows "\<exists>t'. canonical_char t c = Some t' \<and> tty_wf t' \<and> line_len t' \<le> line_len t + 2"
proof -
  have bk: "tty_wf (kill_line t)" "line_len (kill_line t) = 0" "tty_wf (snd (do_backspace t))"
      "line_len (snd (do_backspace t)) \<le> line_len t + 2"
    using wf by (auto simp: kill_line_eq do_backspace_def tty_wf_def)
  have fin: "\<exists>t'. do { t \<leftarrow> append_char s x True; commit_line t } = Some t' \<and> tty_wf t' \<and> line_len t' = 0"
    if "tty_wf s" "line_len s = line_len t" for s x
    using append_char_wf [of s x True] that room commit_line_wf by (fastforce simp: option_bind_Some_iff)
  show ?thesis
    unfolding canonical_char_def Let_def [of "termios t"]
    using bk commit_line_wf [OF wf] fin [of t 0] wf plain_char_wf [OF wf room, of c "c_lflag (termios t) AND ECHO \<noteq> 0"]
      fin [of "if c_lflag (termios t) AND (ECHO OR ECHONL) \<noteq> 0 then processed_echo t [10] else t" 10]
    by (auto simp: Let_def simp del: bind_eq_Some_conv)
qed

lemma send_to_group_total:
  assumes "kernel_wf k" "0 \<le> pid" "0 < signum" "signum < NSIG"
  shows "\<exists>rc k'. task_send_signal k pid (int signum) SIGNAL_DEST_PROCESS_GROUP = Some (rc, k')"
proof -
  have wf: "distinct (all_tasks k)" "\<forall>a\<in>set (all_tasks k). \<exists>t. tasks k a = Some t \<and> sighand_ok k t"
    using assms(1) by (auto simp: kernel_wf_def elim: kernel_wf_task [OF assms(1)])
  obtain b k' where "send_loop k (all_tasks k) pid signum SIGNAL_DEST_PROCESS_GROUP False = Some (b, k')"
    using send_loop_delivers [OF wf assms(3,4), of pid SIGNAL_DEST_PROCESS_GROUP False] by blast
  with assms show ?thesis by (simp add: task_send_signal_def)
qed

lemma signal_char_range: "signal_char tm c = Some s \<Longrightarrow> 0 < s \<and> s < NSIG"
  by (auto simp: signal_char_def split: if_splits)

lemma on_char_wf:
  assumes "tty_wf t" "line_len t + 2 \<le> LINE_BUF_LEN" "kernel_wf k" "0 \<le> sint (tty_pgid t)"
  shows "\<exists>r t' k'. on_char k t c = Some (r, t', k') \<and> tty_wf t' \<and> line_len t' \<le> line_len t + 2"
proof -
  define c1 where "c1 = (if c_lflag (termios t) AND ISTRIP \<noteq> 0 then c AND 0x7f else c)"
  show ?thesis
  proof (cases "signal_char (termios t) c1")
    case (Some signum)
    with send_to_group_total [OF assms(3,4), of signum] signal_char_range [OF Some] assms(1)
    show ?thesis by (auto simp: on_char_def Let_def c1_def [symmetric])
  next
    case None
    define t' where "t' = (if c_lflag (termios t) AND ICANON = 0 then raw_char t (map_newline (termios t) c1)
                           else canonical_char t (map_newline (termios t) c1))"
    have "\<exists>s. t' = Some s \<and> tty_wf s \<and> line_len s \<le> line_len t + 2"
      using raw_char_wf [OF assms(1), of "map_newline (termios t) c1"]
        canonical_char_wf [OF assms(1,2), of "map_newline (termios t) c1"]
      by (cases "c_lflag (termios t) AND ICANON = 0") (auto simp: t'_def)
    then obtain s where "t' = Some s" "tty_wf s" "line_len s \<le> line_len t + 2" by auto
    with None show ?thesis by (simp add: on_char_def Let_def c1_def [symmetric] t'_def)
  qed
qed

lemma ring_buf_read_keeps:
  "ring_buf_read b n = Some (xs, b') \<Longrightarrow> rb_inv b \<Longrightarrow> rb_inv b' \<and> capacity b' = capacity b"
proof (induction n arbitrary: b xs)
  case (Suc n)
  have inv: "rb_inv (rb_pop b)" "capacity (rb_pop b) = capacity b" using Suc.prems(2) by simp_all
  show ?case
  proof (cases "read_index (rb_pop b) = write_index (rb_pop b)")
    case True
    with Suc.prems(1) have "b' = rb_pop b"
      by (cases "arr_get (ring b) (read_index b)") (simp_all add: rb_pop_def)
    with inv show ?thesis by simp
  next
    case False
    then obtain ys where "ring_buf_read (rb_pop b) n = Some (ys, b')"
      using Suc.prems(1)
      by (cases "arr_get (ring b) (read_index b)"; cases "ring_buf_read (rb_pop b) n") (auto simp: rb_pop_def)
    from Suc.IH [OF this inv(1)] inv(2) show ?thesis by simp
  qed
qed simp

lemma read_chars_keeps:
  assumes "read_chars junk b count = Some r"
  shows "rb_inv b \<longrightarrow> rb_inv (snd r) \<and> capacity (snd r) = capacity b \<and> length (fst r) \<le> count"
proof (rule read_chars.raw_induct [where P = "\<lambda>junk b count r. rb_inv b \<longrightarrow>
    rb_inv (snd r) \<and> capacity (snd r) = capacity b \<and> length (fst r) \<le> count", OF _ assms], goal_cases)
  case (1 f junk b count r)
  show ?case
  proof (cases "count = 0")
    case True
    with 1(2) show ?thesis by auto
  next
    case False
    with 1(2) obtain xs b1 where rd: "ring_buf_read b 2 = Some (xs, b1)"
      by (auto simp: option_bind_Some_iff)
    have keep: "rb_inv b \<Longrightarrow> rb_inv b1 \<and> capacity b1 = capacity b" using ring_buf_read_keeps [OF rd] by simp
    define c where "c = xs ! 0"
    define e where "e = (if length xs = 2 then xs ! 1 else junk)"
    have body: "(if xs = [] then Some ([], b1)
        else if c \<noteq> 0 then
               if e \<noteq> 0 then Some ([c], b1)
               else do { (ys, b) \<leftarrow> f junk b1 (count - 1); Some (c # ys, b) }
             else if e \<noteq> 0 then Some ([], b1) else f junk b1 count) = Some r"
      using 1(2) False rd by (simp add: Let_def c_def e_def cong: if_cong)
    consider "xs = [] \<or> e \<noteq> 0" | "xs \<noteq> []" "e = 0" "c \<noteq> 0" | "xs \<noteq> []" "e = 0" "c = 0" by blast
    then show ?thesis
    proof cases
      case 1
      with body have "r = ([], b1) \<or> r = ([c], b1)" by (auto split: if_splits)
      with keep False show ?thesis by auto
    next
      case 2
      with body obtain ys b2 where ys: "f junk b1 (count - 1) = Some (ys, b2)" "r = (c # ys, b2)"
        by (cases "f junk b1 (count - 1)") auto
      with 1(1) [OF ys(1)] keep False show ?thesis by auto
    next
      case 3
      with body have "f junk b1 count = Some r" by simp
      with 1(1) [OF this] keep show ?thesis by auto
    qed
  qed
qed

lemma length_load_prefix: "length (load_prefix m a n) \<le> n"
  by (induction m a n rule: load_prefix.induct) (auto split: option.splits)

lemma length_get_into: "length (snd (get_into m a old)) = length old"
  using length_load_prefix [of m a "length old"] by (simp add: get_into_def Let_def)

lemma length_termios_bytes:
  "length (c_cc tm) = NCCS \<Longrightarrow> length (c_pad tm) = 3 \<Longrightarrow> length (termios_bytes tm) = 60"
  by (simp add: termios_bytes_def length_words_bytes length_word_bytes)

lemma set_termios_wf:
  assumes "tty_wf t" "length bs = 60"
  shows "tty_wf (t\<lparr>termios := termios_of bs\<rparr>)"
    and "tty_wf (t\<lparr>termios := termios_of bs, line_len := 0, input_buf := ring_buf_clear (input_buf t)\<rparr>)"
  using assms ring_buf_clear_inv [of "input_buf t"]
  by (simp_all add: tty_wf_def termios_of_def ring_buf_clear_def)

lemma tty_ioctl_wf:
  assumes wf: "tty_wf t"
  shows "tty_wf (fst (snd (tty_ioctl m t request a))) \<and> line_len (fst (snd (tty_ioctl m t request a))) \<le> line_len t"
proof -
  obtain r bs where bs: "get_into m a (termios_bytes (termios t)) = (r, bs)" by fastforce
  have len: "length bs = 60"
    using length_get_into [of m a "termios_bytes (termios t)"] wf bs by (simp add: length_termios_bytes tty_wf_def)
  have other: "tty_wf (t\<lparr>tty_pgid := x\<rparr>)" "tty_wf (t\<lparr>num_columns := y, num_rows := z\<rparr>)" for x y z
    using wf by (simp_all add: tty_wf_def)
  note parts = wf other set_termios_wf [OF wf len]
  consider "request \<in> {TCSETS, TCSETSW, TCSETSF}" | "request = TIOCSPGRP" | "request = TIOCSWINSZ"
    | "request \<notin> {TCSETS, TCSETSW, TCSETSF, TIOCSPGRP, TIOCSWINSZ}" by blast
  then show ?thesis
  proof cases
    case 1
    with parts bs show ?thesis by (cases r) (auto simp: tty_ioctl_def)
  next
    case 2
    with parts show ?thesis by (simp add: tty_ioctl_def split_def Let_def)
  next
    case 3
    with parts show ?thesis by (simp add: tty_ioctl_def split: sum.split)
  next
    case 4
    with parts show ?thesis by (simp add: tty_ioctl_def split_def Let_def)
  qed
qed

text \<open>
  C33.
  The operations of a terminal keep it well formed: the line stays inside its buffer, the ring keeps its size and
  the tables of the attributes keep theirs. A typed character is handled without a wild access when two places of
  the line are free, the foreground process group is not negative and the task table is well formed. Output, every
  control request, also one with a bad pointer, and reading need no such condition, and a read returns no more bytes
  than it was asked for.
\<close>

theorem tty_keeps_well_formed:
  assumes "tty_wf t"
  shows "(kernel_wf k \<longrightarrow> 0 \<le> sint (tty_pgid t) \<longrightarrow> line_len t + 2 \<le> LINE_BUF_LEN
           \<longrightarrow> (\<exists>r t' k'. on_char k t c = Some (r, t', k') \<and> tty_wf t' \<and> line_len t' \<le> line_len t + 2))
     \<and> tty_wf (snd (tty_pwrite t buf))
     \<and> (case tty_ioctl m t request a of (_, t', _) \<Rightarrow> tty_wf t' \<and> line_len t' \<le> line_len t)
     \<and> (\<forall>bytes b. read_chars junk (input_buf t) count = Some (bytes, b)
           \<longrightarrow> tty_wf (t\<lparr>input_buf := b\<rparr>) \<and> length bytes \<le> count)"
proof (intro conjI impI allI)
  assume "kernel_wf k" "0 \<le> sint (tty_pgid t)" "line_len t + 2 \<le> LINE_BUF_LEN"
  then show "\<exists>r t' k'. on_char k t c = Some (r, t', k') \<and> tty_wf t' \<and> line_len t' \<le> line_len t + 2"
    by (intro on_char_wf assms)
next
  show "tty_wf (snd (tty_pwrite t buf))" using assms by (simp add: tty_pwrite_def)
next
  show "case tty_ioctl m t request a of (_, t', _) \<Rightarrow> tty_wf t' \<and> line_len t' \<le> line_len t"
    using tty_ioctl_wf [OF assms, of m request a] by (simp add: split_def)
next
  fix bytes b assume "read_chars junk (input_buf t) count = Some (bytes, b)"
  from read_chars_keeps [OF this] assms
  show "tty_wf (t\<lparr>input_buf := b\<rparr>)" "length bytes \<le> count" by (auto simp: tty_wf_def)
qed

definition example_tty :: tty where
  "example_tty = (case tty_init 0 (Some (replicate 4096 0)) of Inr t \<Rightarrow> t)"

lemma example_tty_wf: "tty_wf example_tty" "line_len example_tty = 0" "tty_pgid example_tty = 0"
  using tty_init_wf [of "replicate 4096 0" 0 example_tty]
  by (simp_all add: example_tty_def tty_init_def ring_buf_init_def)

theorem tty_keeps_well_formed_witness:
  "tty_wf example_tty
     \<and> (\<exists>r t' k'. on_char example_kernel example_tty 65 = Some (r, t', k') \<and> tty_wf t' \<and> line_len t' \<le> line_len example_tty + 2)"
proof -
  have "kernel_wf example_kernel"
    by (simp add: kernel_wf_def example_kernel_def example_task_def sighand_ok_def)
  from tty_keeps_well_formed [OF example_tty_wf(1), THEN conjunct1, rule_format, OF this, of 65] example_tty_wf
  show ?thesis by simp
qed

section \<open>Line editing\<close>

text \<open>
  What the line should be after the characters \<open>cs\<close> have been typed at the line \<open>l\<close>, with the default
  control characters: 21 kills the line, 127 erases its last character, any other character is appended.
  \<open>edit_echo\<close> is what the screen gets meanwhile.
\<close>

fun edit :: "u8 list \<Rightarrow> u8 list \<Rightarrow> u8 list" where
  "edit l [] = l"
| "edit l (c # cs) = edit (if c = 21 then [] else if c = 127 then butlast l else l @ [c]) cs"

fun edit_echo :: "u8 list \<Rightarrow> u8 list \<Rightarrow> u8 list" where
  "edit_echo l [] = []"
| "edit_echo l (c # cs) =
     (if c = 21 then concat (replicate (length l) [8, 32, 8]) @ edit_echo [] cs
      else if c = 127 then (if l = [] then [] else [8, 32, 8]) @ edit_echo (butlast l) cs
      else c # edit_echo (l @ [c]) cs)"

definition printable :: "u8 \<Rightarrow> bool" where
  "printable c \<longleftrightarrow> 32 \<le> c \<and> c \<le> 126"

definition plain_line :: "u8 list \<Rightarrow> attr_char list" where
  "plain_line l = map (\<lambda>c. \<lparr>ch = c, eol = False\<rparr>) l"

definition cooked :: "tty \<Rightarrow> bool" where
  "cooked t \<longleftrightarrow> tty_wf t \<and> termios t = default_termios\<lparr>c_cc := ttydefchars\<rparr>"

definition line_is :: "tty \<Rightarrow> u8 list \<Rightarrow> bool" where
  "line_is t l \<longleftrightarrow> line_len t = length l \<and> take (length l) (line_buf t) = plain_line l"

lemma isprint_printable: "isprint (scast c) \<longleftrightarrow> printable c"
proof -
  have "sint (scast c :: u32) = sint c" by (rule sint_up_scast) (simp add: is_up)
  moreover have "sint c = (if uint c < 128 then uint c else uint c - 256)"
  proof (cases "uint c < 128")
    case False
    then have "uint c div 128 = 1" using uint_lt2p [of c, simplified] by presburger
    with False show ?thesis
      using uint_lt2p [of c] by (simp add: sint_uint signed_take_bit_eq_take_bit_minus bit_iff_odd take_bit_eq_mod)
  qed (simp add: sint_uint signed_take_bit_eq_take_bit_minus bit_iff_odd take_bit_eq_mod zdiv_eq_0_iff)
  ultimately show ?thesis
    using uint_lt2p [of c] by (auto simp: isprint_def printable_def word_le_def)
qed

lemma default_flags:
  "c_lflag (default_termios\<lparr>c_cc := ttydefchars\<rparr>) = 0x7b"
  "c_oflag (default_termios\<lparr>c_cc := ttydefchars\<rparr>) = 5"
  "c_iflag (default_termios\<lparr>c_cc := ttydefchars\<rparr>) = 0x100"
  "c_cc (default_termios\<lparr>c_cc := ttydefchars\<rparr>) = ttydefchars"
  by (simp_all add: default_termios_def)

lemma default_chars:
  "ttydefchars ! VINTR = 3" "ttydefchars ! Suc 0 = 28" "ttydefchars ! VERASE = 127" "ttydefchars ! VKILL = 21"
  "ttydefchars ! VEOF = 4" "ttydefchars ! VSUSP = 26" "ttydefchars ! VEOL = 0"
  by code_simp+

lemmas default_controls = default_flags default_chars

lemma printable_facts:
  assumes "printable c"
  shows "c AND 0x7f = c" "c \<notin> {0, 3, 4, 10, 13, 21, 26, 28, 127}"
proof -
  have "uint c < 128" using assms by (simp add: printable_def word_le_def)
  then have "take_bit 7 (uint c) = uint c" by (simp add: take_bit_int_eq_self)
  then have "take_bit 7 c = c" by (metis unsigned_take_bit_eq word_uint_eq_iff)
  then show "c AND 0x7f = c" by (simp add: take_bit_eq_mask mask_eq_exp_minus_1)
  show "c \<notin> {0, 3, 4, 10, 13, 21, 26, 28, 127}" using assms by (auto simp: printable_def)
qed

lemma on_char_cooked:
  assumes "cooked t" "c AND 0x7f = c" "c \<notin> {3, 26, 28}"
  shows "on_char k t c = do { t \<leftarrow> canonical_char t (if c = 13 then 10 else c); Some (Inr (), t, k) }"
  using assms by (simp add: on_char_def cooked_def signal_char_def map_newline_def default_controls Let_def)

lemma take_snoc_update:
  "n < length xs \<Longrightarrow> take (Suc n) (xs[n := x]) = take n xs @ [x]"
  by (simp add: take_Suc_conv_app_nth)

lemma on_char_printable:
  assumes t: "cooked t" "line_is t l" "length l < LINE_BUF_LEN" "printable c"
  shows "\<exists>t'. on_char k t c = Some (Inr (), t', k) \<and> cooked t' \<and> line_is t' (l @ [c]) \<and> input_buf t' = input_buf t
     \<and> echo_set t' = echo_set t \<and> echoed t' = echoed t @ (if echo_set t then [c] else [])"
proof -
  let ?t = "echo t [c]"
  let ?t' = "?t\<lparr>line_buf := (line_buf t)[line_len t := \<lparr>ch = c, eol = False\<rparr>], line_len := line_len t + 1\<rparr>"
  note c = printable_facts [OF t(4)]
  have e: "processed_echo t [c] = ?t"
    using t(1) c by (simp add: processed_echo_def cooked_def default_controls)
  have "append_char ?t c False = Some ?t'"
    using t by (simp add: append_char_in cooked_def tty_wf_def line_is_def)
  then have "canonical_char t c = Some ?t'"
    using t c e by (simp add: canonical_char_def cooked_def default_controls isprint_printable)
  with c have "on_char k t c = Some (Inr (), ?t', k)" by (simp add: on_char_cooked [OF t(1)])
  moreover have "cooked ?t'" "line_is ?t' (l @ [c])"
    using t by (auto simp: cooked_def tty_wf_def line_is_def take_snoc_update plain_line_def)
  ultimately show ?thesis by auto
qed

lemma on_char_erase:
  assumes t: "cooked t" "line_is t l"
  shows "\<exists>t'. on_char k t 127 = Some (Inr (), t', k) \<and> cooked t' \<and> line_is t' (butlast l) \<and> input_buf t' = input_buf t
     \<and> echo_set t' = echo_set t \<and> echoed t' = echoed t @ (if echo_set t \<and> l \<noteq> [] then [8, 32, 8] else [])"
proof -
  let ?t' = "snd (do_backspace t)"
  have "canonical_char t 127 = Some ?t'"
    using t by (simp add: canonical_char_def cooked_def default_controls)
  then have "on_char k t 127 = Some (Inr (), ?t', k)" by (simp add: on_char_cooked [OF t(1)])
  moreover have "cooked ?t'" using t(1) by (auto simp: do_backspace_def cooked_def tty_wf_def)
  moreover have "line_is ?t' (butlast l)"
    using t(2) take_take [of "length l - 1" "length l" "line_buf t"]
    by (auto simp: do_backspace_def line_is_def plain_line_def butlast_conv_take take_map)
  moreover have "input_buf ?t' = input_buf t" "echo_set ?t' = echo_set t"
    "echoed ?t' = echoed t @ (if echo_set t \<and> l \<noteq> [] then [8, 32, 8] else [])"
    using t(2) by (auto simp: do_backspace_def line_is_def)
  ultimately show ?thesis by blast
qed

lemma on_char_kill:
  assumes t: "cooked t" "line_is t l"
  shows "\<exists>t'. on_char k t 21 = Some (Inr (), t', k) \<and> cooked t' \<and> line_is t' [] \<and> input_buf t' = input_buf t
     \<and> echo_set t' = echo_set t \<and> echoed t' = echoed t @ (if echo_set t then concat (replicate (length l) [8, 32, 8]) else [])"
proof -
  have "canonical_char t 21 = Some (kill_line t)"
    using t by (simp add: canonical_char_def cooked_def default_controls)
  then have "on_char k t 21 = Some (Inr (), kill_line t, k)" by (simp add: on_char_cooked [OF t(1)])
  moreover have "cooked (kill_line t)"
    using t(1) kill_line_wf [of t] by (simp add: cooked_def) (simp add: kill_line_eq)
  moreover have "line_is (kill_line t) []" by (simp add: kill_line_eq line_is_def plain_line_def)
  moreover have "input_buf (kill_line t) = input_buf t" "echo_set (kill_line t) = echo_set t"
    "echoed (kill_line t) = echoed t @ (if echo_set t then concat (replicate (length l) [8, 32, 8]) else [])"
    using t by (simp_all add: kill_line_eq line_is_def)
  ultimately show ?thesis by (intro exI [of _ "kill_line t"]) simp
qed

definition editing :: "u8 \<Rightarrow> bool" where
  "editing c \<longleftrightarrow> printable c \<or> c = 127 \<or> c = 21"

lemma on_char_edit:
  assumes t: "cooked t" "line_is t l" "length l < LINE_BUF_LEN" "editing c"
  shows "\<exists>t'. on_char k t c = Some (Inr (), t', k) \<and> cooked t' \<and> line_is t' (edit l [c]) \<and> input_buf t' = input_buf t
     \<and> echo_set t' = echo_set t \<and> echoed t' = echoed t @ (if echo_set t then edit_echo l [c] else [])"
proof -
  consider "c = 21" | "c = 127" | "printable c" "c \<noteq> 21" "c \<noteq> 127" using t(4) by (auto simp: editing_def)
  then show ?thesis
  proof cases
    case 1
    with on_char_kill [OF t(1,2), of k] show ?thesis by (cases "echo_set t") simp_all
  next
    case 2
    with on_char_erase [OF t(1,2), of k] show ?thesis by (cases "l = []"; cases "echo_set t") simp_all
  next
    case 3
    with on_char_printable [OF t(1,2,3), of c k] show ?thesis by (cases "echo_set t") simp_all
  qed
qed

lemma edit_Cons: "edit l (c # cs) = edit (edit l [c]) cs"
  by simp

lemma edit_echo_Cons: "edit_echo l (c # cs) = edit_echo l [c] @ edit_echo (edit l [c]) cs"
  by simp

lemma length_edit: "length (edit l cs) \<le> length l + length cs"
proof (induction l cs rule: edit.induct)
  case (2 l c cs)
  then show ?case by (auto split: if_splits)
qed simp

lemma set_edit: "set (edit l cs) \<subseteq> set l \<union> {c \<in> set cs. c \<noteq> 21 \<and> c \<noteq> 127}"
proof (induction l cs rule: edit.induct)
  case (2 l c cs)
  then show ?case by (auto dest: in_set_butlastD split: if_splits)
qed simp

lemma emit_edit:
  assumes "cooked t" "line_is t l" "length l + length s \<le> LINE_BUF_LEN" "\<forall>c\<in>set s. editing c"
  shows "\<exists>t'. emit_loop k t (s @ rest) = emit_loop k t' rest \<and> cooked t' \<and> line_is t' (edit l s)
     \<and> input_buf t' = input_buf t \<and> echo_set t' = echo_set t
     \<and> echoed t' = echoed t @ (if echo_set t then edit_echo l s else [])"
  using assms
proof (induction s arbitrary: t l)
  case Nil
  then show ?case by auto
next
  case (Cons c s)
  obtain t1 where t1: "on_char k t c = Some (Inr (), t1, k)" "cooked t1" "line_is t1 (edit l [c])"
      "input_buf t1 = input_buf t" "echo_set t1 = echo_set t"
      "echoed t1 = echoed t @ (if echo_set t then edit_echo l [c] else [])"
    using on_char_edit [OF Cons.prems(1,2), of c k] Cons.prems(3,4) by auto
  have "length (edit l [c]) + length s \<le> LINE_BUF_LEN"
    using length_edit [of l "[c]"] Cons.prems(3) by (simp del: edit.simps)
  from Cons.IH [OF t1(2,3) this] Cons.prems(4)
  obtain t' where t': "emit_loop k t1 (s @ rest) = emit_loop k t' rest" "cooked t'" "line_is t' (edit (edit l [c]) s)"
      "input_buf t' = input_buf t1" "echo_set t' = echo_set t1"
      "echoed t' = echoed t1 @ (if echo_set t1 then edit_echo (edit l [c]) s else [])" by auto
  show ?case
  proof (intro exI [of _ t'] conjI)
    show "emit_loop k t ((c # s) @ rest) = emit_loop k t' rest" using t1(1) t'(1) by simp
    show "echoed t' = echoed t @ (if echo_set t then edit_echo l (c # s) else [])"
      unfolding edit_echo_Cons [of l c s] t'(6) t1(5,6) by simp
    show "line_is t' (edit l (c # s))" unfolding edit_Cons [of l c s] by (rule t'(3))
  qed (use t1 t' in simp_all)
qed

definition line_bytes :: "u8 list \<Rightarrow> u8 list" where
  "line_bytes l = concat (map (\<lambda>c. [c, 0]) l) @ [10, 1]"

lemma length_line_bytes: "length (line_bytes l) = 2 * length l + 2"
  by (induction l) (simp_all add: line_bytes_def)

lemma plain_line_bytes:
  "concat (map attr_char_bytes (plain_line l @ [\<lparr>ch = 10, eol = True\<rparr>])) = line_bytes l"
  by (simp add: line_bytes_def plain_line_def attr_char_bytes_def comp_def)

lemma on_char_newline:
  assumes t: "cooked t" "line_is t l" "length l < LINE_BUF_LEN" "nl \<in> {10, 13}"
    and room: "rb_len (input_buf t) + length (line_bytes l) \<le> 4095"
  shows "\<exists>t'. on_char k t nl = Some (Inr (), t', k) \<and> cooked t' \<and> line_is t' []
     \<and> rb_contents (input_buf t') = rb_contents (input_buf t) @ line_bytes l
     \<and> echoed t' = echoed t @ (if echo_set t then [13, 10] else [])"
proof -
  let ?e = "echo (echo t [13]) [10]"
  let ?buf = "(line_buf t)[line_len t := \<lparr>ch = 10, eol = True\<rparr>]"
  let ?a = "?e\<lparr>line_buf := ?buf, line_len := line_len t + 1\<rparr>"
  have e: "processed_echo t [10] = ?e"
    using t(1) by (simp add: processed_echo_def cooked_def default_controls)
  have a: "append_char ?e 10 True = Some ?a"
    using t by (simp add: append_char_in cooked_def tty_wf_def line_is_def)
  have line: "concat (map attr_char_bytes (take (line_len t + 1) ?buf)) = line_bytes l"
    using t by (simp add: plain_line_bytes [symmetric] take_snoc_update line_is_def cooked_def tty_wf_def)
  obtain b where b: "ring_buf_write_evicting_oldest (input_buf t) (line_bytes l) = Some (length (line_bytes l), b)"
      "rb_inv b" "capacity b = 4096" "rb_contents b = rb_contents (input_buf t) @ line_bytes l"
    using ring_buf_write_evicting_oldest_correct [of "input_buf t" "line_bytes l"] t(1) room
    by (auto simp: cooked_def tty_wf_def)
  let ?t' = "?a\<lparr>input_buf := b, line_len := 0\<rparr>"
  have c: "commit_line ?a = Some ?t'"
    using line b(1) by (simp add: commit_line_def)
  have "canonical_char t 10 = Some ?t'"
    using t(1) by (simp add: canonical_char_def cooked_def default_controls e a c [simplified])
  then have "on_char k t nl = Some (Inr (), ?t', k)" using t(4) by (auto simp: on_char_cooked [OF t(1)])
  moreover have "tty_wf t" using t(1) by (simp add: cooked_def)
  then have "tty_wf ?t'" using b(2,3) by (simp add: tty_wf_def)
  then have "cooked ?t'" using t(1) by (simp add: cooked_def)
  moreover have "line_is ?t' []" by (simp add: line_is_def plain_line_def)
  moreover have "echoed ?t' = echoed t @ (if echo_set t then [13, 10] else [])" by simp
  moreover have "rb_contents (input_buf ?t') = rb_contents (input_buf t) @ line_bytes l" using b(4) by simp
  ultimately show ?thesis by blast
qed

lemma read_chars_pair:
  assumes b: "rb_inv b" "rb_contents b = c # e # rest" and count: "0 < count"
  shows "\<exists>b1. rb_inv b1 \<and> rb_contents b1 = rest \<and> capacity b1 = capacity b
     \<and> read_chars junk b count =
         (if c \<noteq> 0 then
            if e \<noteq> 0 then Some ([c], b1)
            else do { (ys, b) \<leftarrow> read_chars junk b1 (count - 1); Some (c # ys, b) }
          else if e \<noteq> 0 then Some ([], b1) else read_chars junk b1 count)"
proof -
  from ring_buf_read_correct [OF b(1), of 2] b(2)
  obtain b1 where b1: "ring_buf_read b 2 = Some ([c, e], b1)" "rb_inv b1" "rb_contents b1 = rest"
      "capacity b1 = capacity b"
    by (auto simp: numeral_2_eq_2)
  with count show ?thesis
    by (intro exI [of _ b1]) (subst read_chars.simps, simp)
qed

lemma read_line:
  assumes "rb_inv b" "rb_contents b = line_bytes l @ rest" "\<forall>c\<in>set l. c \<noteq> 0" "length l < count"
  shows "\<exists>b'. read_chars junk b count = Some (l @ [10], b') \<and> rb_inv b' \<and> rb_contents b' = rest \<and> capacity b' = capacity b"
  using assms
proof (induction l arbitrary: b count)
  case Nil
  with read_chars_pair [of b 10 1 rest count junk] show ?case by (auto simp: line_bytes_def)
next
  case (Cons c l)
  have con: "rb_contents b = c # 0 # line_bytes l @ rest" using Cons.prems(2) by (simp add: line_bytes_def)
  have "0 < count" using Cons.prems(4) by simp
  from read_chars_pair [OF Cons.prems(1) con this, of junk] Cons.prems(3)
  obtain b1 where b1: "rb_inv b1" "rb_contents b1 = line_bytes l @ rest" "capacity b1 = capacity b"
      "read_chars junk b count = do { (ys, b) \<leftarrow> read_chars junk b1 (count - 1); Some (c # ys, b) }"
    by auto
  have "\<forall>c\<in>set l. c \<noteq> 0" "length l < count - 1" using Cons.prems(3,4) by auto
  from Cons.IH [OF b1(1,2) this] obtain b' where "read_chars junk b1 (count - 1) = Some (l @ [10], b')" "rb_inv b'" "rb_contents b' = rest"
      "capacity b' = capacity b1" by auto
  with b1 show ?case by simp
qed

lemma tty_init_cooked:
  assumes "length bytes = 4096" "tty_init minor (Some bytes) = Inr t"
  shows "cooked t" "line_is t []" "rb_contents (input_buf t) = []" "echoed t = []"
proof -
  show "cooked t" using tty_init_wf [OF assms] assms(2) by (auto simp: cooked_def tty_init_def ring_buf_init_def)
  show "line_is t []" "rb_contents (input_buf t) = []" "echoed t = []"
    using assms(2) by (auto simp: tty_init_def ring_buf_init_def line_is_def plain_line_def rb_contents_def rb_len_def)
qed

text \<open>
  C34.
  Line editing on a new terminal. Typing printable characters, erase and kill characters and then newline or carriage
  return, 1024 characters at most, gives the reader exactly the edited line with a newline at its end, in one read;
  the task table is not touched and the terminal is left with an empty line and an empty buffer. The screen shows the
  characters as they are typed, a backspace, blank and backspace for every erased one, and carriage return and
  line feed at the end.
\<close>

theorem typed_line_is_read:
  assumes new: "length bytes = 4096" "tty_init minor (Some bytes) = Inr t"
    and typed: "\<forall>c\<in>set s. editing c" "length s < LINE_BUF_LEN" "nl \<in> {10, 13}"
    and count: "length s < count"
  shows "\<exists>t1 t2. tty_emit k (tty_set_echo t True) (s @ [nl]) = Some (Inr (length s + 1), t1, k)
     \<and> echoed t1 = edit_echo [] s @ [13, 10]
     \<and> tty_pread flags junk (replicate 3 \<lparr>obs_world = t1, obs_signal = g\<rparr>) count
         = Some (Woke (Inr (edit [] s @ [10]), Some (t1, t2)))
     \<and> line_len t2 = 0 \<and> rb_contents (input_buf t2) = [] \<and> tty_wf t2"
proof -
  let ?t = "tty_set_echo t True" and ?l = "edit [] s"
  note init = tty_init_cooked [OF new]
  have t: "cooked ?t" "line_is ?t []" "rb_contents (input_buf ?t) = []" "echoed ?t = []" "echo_set ?t"
    using init by (simp_all add: tty_set_echo_def cooked_def tty_wf_def line_is_def)
  have len: "length ?l < LINE_BUF_LEN" "length ?l < count" "length ?l \<le> length s"
    using length_edit [of "[]" s] typed(2) count by simp_all
  have nz: "\<forall>c\<in>set ?l. c \<noteq> 0"
    using set_edit [of "[]" s] typed(1) by (auto simp: editing_def dest: printable_facts(2))
  obtain s1 where s1: "emit_loop k ?t (s @ [nl]) = emit_loop k s1 [nl]" "cooked s1" "line_is s1 ?l"
      "input_buf s1 = input_buf ?t" "echo_set s1" "echoed s1 = edit_echo [] s"
    using emit_edit [OF t(1,2) _ typed(1), of k "[nl]"] typed(2) t(4,5) by auto
  have "rb_len (input_buf s1) + length (line_bytes ?l) \<le> 4095"
    using len(1) t(3) s1(4) length_rb_contents [of "input_buf s1"] by (simp add: length_line_bytes)
  from on_char_newline [OF s1(2,3) len(1) typed(3) this, of k] s1 t(3)
  obtain t1 where t1: "on_char k s1 nl = Some (Inr (), t1, k)" "cooked t1" "line_is t1 []"
      "rb_contents (input_buf t1) = line_bytes ?l" "echoed t1 = edit_echo [] s @ [13, 10]" by auto
  have emit: "tty_emit k ?t (s @ [nl]) = Some (Inr (length s + 1), t1, k)"
    using s1(1) t1(1) by (simp add: tty_emit_def)
  have inv: "rb_inv (input_buf t1)" "capacity (input_buf t1) = 4096" using t1(2) by (simp_all add: cooked_def tty_wf_def)
  from read_line [OF inv(1), of ?l "[]" count junk] t1(4) nz len(2)
  obtain b where b: "read_chars junk (input_buf t1) count = Some (?l @ [10], b)" "rb_inv b" "rb_contents b = []"
      "capacity b = 4096" using inv(2) by auto
  have rd: "can_read t1" using rb_empty_iff [OF inv(1)] t1(4) by (simp add: can_read_def line_bytes_def)
  let ?ob = "\<lparr>obs_world = t1, obs_signal = g\<rparr>"
  have "tty_pread flags junk (replicate 3 ?ob) count = Some (Woke (Inr (?l @ [10]), Some (t1, t1\<lparr>input_buf := b\<rparr>)))"
    using rd b(1) by (simp add: tty_pread.simps file_block_ready unblock_tty_def numeral_3_eq_3)
  moreover have "tty_wf t1" "line_len t1 = 0" using t1(2,3) by (simp_all add: cooked_def line_is_def)
  then have "tty_wf (t1\<lparr>input_buf := b\<rparr>)" using b by (simp add: tty_wf_def)
  ultimately show ?thesis using emit t1(5) b(3) \<open>line_len t1 = 0\<close> by (intro exI [of _ t1] exI [of _ "t1\<lparr>input_buf := b\<rparr>"]) simp
qed

theorem typed_line_is_read_witness:
  "\<exists>t1 t2. tty_emit example_kernel (tty_set_echo example_tty True) [104, 127, 105, 13] = Some (Inr (length [104, 127, 105 :: u8] + 1), t1, example_kernel)
     \<and> echoed t1 = [104, 8, 32, 8, 105, 13, 10]
     \<and> tty_pread 0 0 (replicate 3 \<lparr>obs_world = t1, obs_signal = False\<rparr>) 100
         = Some (Woke (Inr [105, 10], Some (t1, t2)))
     \<and> line_len t2 = 0 \<and> rb_contents (input_buf t2) = [] \<and> tty_wf t2"
proof -
  have "tty_init 0 (Some (replicate 4096 0)) = Inr example_tty"
    by (simp add: example_tty_def tty_init_def ring_buf_init_def)
  from typed_line_is_read [OF _ this, of "[104, 127, 105]" 13 100 example_kernel 0 0 False]
  show ?thesis by (simp add: editing_def printable_def)
qed

section \<open>Where the discipline fails\<close>

text \<open>
  The test of \<^verbatim>\<open>append_char\<close> lets 2048 characters into a buffer of 1024: character 1025 of a line is written behind
  the buffer, over the length of the line.
\<close>

lemma edit_printable: "\<forall>c\<in>set cs. printable c \<Longrightarrow> edit l cs = l @ cs"
  by (induction l cs rule: edit.induct) (auto dest: printable_facts(2))

theorem long_line_overflows:
  assumes "length bytes = 4096" "tty_init minor (Some bytes) = Inr t"
    and "\<forall>c\<in>set (s @ [c]). printable c" "length s = LINE_BUF_LEN"
  shows "tty_emit k t (s @ [c]) = None"
proof -
  note init = tty_init_cooked [OF assms(1,2)]
  obtain t1 where t1: "emit_loop k t (s @ [c]) = emit_loop k t1 [c]" "cooked t1" "line_is t1 s"
    using emit_edit [OF init(1,2), of s k "[c]"] assms(3,4) edit_printable [of s "[]"] by (auto simp: editing_def)
  have c: "printable c" using assms(3) by simp
  note cf = printable_facts [OF c]
  have "processed_echo t1 [c] = echo t1 [c]"
    using t1(2) cf by (simp add: processed_echo_def cooked_def default_controls)
  moreover have "append_char (echo t1 [c]) c False = None"
    using t1(2,3) assms(4) by (simp add: append_char_def arr_set_out cooked_def tty_wf_def line_is_def)
  ultimately have "canonical_char t1 c = None"
    using t1(2) c cf by (simp add: canonical_char_def cooked_def default_controls isprint_printable)
  then have "on_char k t1 c = None" using cf by (simp add: on_char_cooked [OF t1(2)])
  with t1(1) show ?thesis by (simp add: tty_emit_def)
qed

text \<open>
  In raw mode a read does not stop at the end of the input: the loop calls \<^verbatim>\<open>ring_buf_read\<close> on the empty ring, which
  hands out what its memory held before.
\<close>

definition raw_mode :: "tty \<Rightarrow> tty" where
  "raw_mode t = t\<lparr>termios := (termios t)\<lparr>c_lflag := 0, c_iflag := 0\<rparr>\<rparr>"

theorem raw_read_hands_out_old_memory:
  assumes "length bytes = 4096" "tty_init minor (Some bytes) = Inr t" "c \<noteq> 0" "bytes ! 2 \<noteq> 0"
  shows "\<exists>t1 b. on_char k (raw_mode t) c = Some (Inr (), t1, k)
     \<and> read_chars junk (input_buf t1) 2 = Some ([c, bytes ! 2], b)"
proof -
  define rb where "rb = (\<lambda>i. \<lparr>capacity = 4096, write_index = 2, read_index = i, ring = bytes[0 := c, Suc 0 := 0]\<rparr>)"
  have b0: "input_buf t = \<lparr>capacity = 4096, write_index = 0, read_index = 0, ring = bytes\<rparr>"
    using assms(2) by (auto simp: tty_init_def ring_buf_init_def)
  have "on_char k (raw_mode t) c = Some (Inr (), (raw_mode t)\<lparr>input_buf := rb 0\<rparr>, k)"
    using assms(1) b0
    by (simp add: on_char_def raw_mode_def signal_char_def map_newline_def raw_char_def attr_char_bytes_def rb_def)
  moreover have "read_chars junk (rb 0) 2 = Some ([c, bytes ! 2], rb 4)"
  proof -
    have two: "ring_buf_read b 2 =
       do { x \<leftarrow> arr_get (ring b) (read_index b);
            let b1 = b\<lparr>read_index := (read_index b + 1) mod capacity b\<rparr>;
            if read_index b1 = write_index b1 then Some ([x], b1)
            else do { y \<leftarrow> arr_get (ring b) (read_index b1);
                      Some ([x, y], b1\<lparr>read_index := (read_index b1 + 1) mod capacity b\<rparr>) } }" for b
      by (cases "arr_get (ring b) (read_index b)"; cases "arr_get (ring b) ((read_index b + 1) mod capacity b)";
          cases "(read_index b + 1) mod capacity b = write_index b") (simp_all add: numeral_2_eq_2 Let_def)
    have r1: "ring_buf_read (rb 0) 2 = Some ([c, 0], rb 2)"
      using assms(1) by (simp add: two rb_def)
    have r2: "ring_buf_read (rb 2) 2 = Some ([bytes ! 2, bytes ! 3], rb 4)"
      using assms(1) by (simp add: two rb_def)
    have z: "read_chars junk (rb 4) 0 = Some ([], rb 4)"
      by (subst read_chars.simps) simp
    have "read_chars junk (rb 2) 1 = Some ([bytes ! 2], rb 4)"
      using assms(4) z by (subst read_chars.simps) (simp add: r2 Let_def)
    with assms(3) show ?thesis by (subst read_chars.simps) (simp add: r1 Let_def)
  qed
  ultimately show ?thesis by auto
qed

text \<open>
  The ring drops single bytes and holds an odd number of them when it is full, so after an overflow it starts in the
  middle of a pair. Marks and characters change places: in raw mode the next read finds a mark where it expects a
  character and takes the character behind it for an end of line. It returns no bytes, which means end of file.
\<close>

definition pairs :: "u8 list \<Rightarrow> u8 list" where
  "pairs cs = concat (map (\<lambda>c. [c, 0]) cs)"

lemma length_pairs: "length (pairs cs) = 2 * length cs"
  by (induction cs) (simp_all add: pairs_def)

lemma drop_pairs: "i < length cs \<Longrightarrow> drop (2 * i + 1) (pairs cs) = 0 # pairs (drop (i + 1) cs)"
proof (induction cs arbitrary: i)
  case (Cons c cs)
  then show ?case by (cases i) (simp_all add: pairs_def)
qed simp

definition last_bytes :: "nat \<Rightarrow> u8 list \<Rightarrow> u8 list" where
  "last_bytes n xs = drop (length xs - n) xs"

lemma last_bytes_append: "last_bytes n (last_bytes n xs @ ys) = last_bytes n (xs @ ys)"
  by (cases "length xs \<le> n") (simp_all add: last_bytes_def add.commute)

lemma emit_raw:
  assumes "tty_wf t" "c_lflag (termios t) = 0" "c_iflag (termios t) = 0"
  shows "\<exists>t'. emit_loop k t cs = Some (Inr (), t', k) \<and> tty_wf t'
     \<and> last_bytes 4095 (rb_contents (input_buf t')) = last_bytes 4095 (rb_contents (input_buf t) @ pairs cs)"
  using assms
proof (induction cs arbitrary: t)
  case Nil
  then show ?case by (simp add: pairs_def)
next
  case (Cons c cs)
  obtain b where b: "ring_buf_write_evicting_oldest (input_buf t) [c, 0] = Some (2, b)" "rb_inv b" "capacity b = 4096"
      "rb_contents b = last_bytes 4095 (rb_contents (input_buf t) @ [c, 0])"
    using ring_buf_write_evicting_oldest_correct [of "input_buf t" "[c, 0]"] Cons.prems(1)
    by (auto simp: tty_wf_def last_bytes_def numeral_2_eq_2)
  let ?t = "t\<lparr>input_buf := b\<rparr>"
  have "on_char k t c = Some (Inr (), ?t, k)"
    using b(1) Cons.prems
    by (simp add: on_char_def signal_char_def map_newline_def raw_char_def attr_char_bytes_def
             del: ring_buf_write_evicting_oldest.simps)
  moreover have "tty_wf ?t" using Cons.prems(1) b by (simp add: tty_wf_def)
  moreover have "last_bytes 4095 (rb_contents b @ pairs cs) = last_bytes 4095 (rb_contents (input_buf t) @ pairs (c # cs))"
    by (simp add: b(4) last_bytes_append pairs_def)
  ultimately show ?case using Cons.IH [of ?t] Cons.prems by simp
qed

theorem raw_overflow_reads_end_of_file:
  assumes "length bytes = 4096" "tty_init minor (Some bytes) = Inr t"
    and "\<forall>c\<in>set cs. c \<noteq> 0" "2048 \<le> length cs" "0 < count"
  shows "\<exists>t1 b. tty_emit k (raw_mode t) cs = Some (Inr (length cs), t1, k)
     \<and> read_chars junk (input_buf t1) count = Some ([], b) \<and> rb_contents b \<noteq> []"
proof -
  note init = tty_init_cooked [OF assms(1,2)]
  have "tty_wf (raw_mode t)" "c_lflag (termios (raw_mode t)) = 0" "c_iflag (termios (raw_mode t)) = 0"
    "rb_contents (input_buf (raw_mode t)) = []"
    using init by (simp_all add: raw_mode_def cooked_def tty_wf_def)
  from emit_raw [OF this(1-3), of k cs] this(4)
  obtain t1 where t1: "emit_loop k (raw_mode t) cs = Some (Inr (), t1, k)" "tty_wf t1"
      "last_bytes 4095 (rb_contents (input_buf t1)) = last_bytes 4095 (pairs cs)" by auto
  have inv: "rb_inv (input_buf t1)" "capacity (input_buf t1) = 4096" using t1(2) by (simp_all add: tty_wf_def)
  define i where "i = length cs - 2048"
  have i: "i + 1 < length cs" "2 * length cs - 4095 = 2 * i + 1" using assms(4) by (simp_all add: i_def)
  have "rb_contents (input_buf t1) = drop (2 * i + 1) (pairs cs)"
    using t1(3) rb_len_less [OF inv(1)] inv(2) i(2) by (simp add: last_bytes_def length_pairs)
  also have "\<dots> = 0 # pairs (drop (i + 1) cs)" using i(1) by (intro drop_pairs) simp
  also have "\<dots> = 0 # cs ! (i + 1) # 0 # pairs (drop (i + 2) cs)"
    using i(1) by (simp add: Cons_nth_drop_Suc [symmetric] pairs_def)
  finally have con: "rb_contents (input_buf t1) = 0 # cs ! (i + 1) # 0 # pairs (drop (i + 2) cs)" .
  have "cs ! (i + 1) \<noteq> 0" using assms(3) i(1) by simp
  with read_chars_pair [OF inv(1) con assms(5), of junk]
  obtain b where "read_chars junk (input_buf t1) count = Some ([], b)" "rb_contents b \<noteq> []" by auto
  with t1(1) show ?thesis by (simp add: tty_emit_def)
qed

end
