(* ===== verification/Clock.thy ===== *)
theory Clock
  imports Blocking Signal
begin

text \<open>
  Time: the calendar of \<^verbatim>\<open>common/calendar.h\<close>, the real-time clock of \<^verbatim>\<open>kernel/drivers/rtc.c\<close>, the clocks of \<^verbatim>\<open>kernel/time.c\<close>
  with their system calls in \<^verbatim>\<open>kernel/syscall/time.c\<close>, and \<^verbatim>\<open>gmtime_r\<close> of \<^verbatim>\<open>userland/lib/time.c\<close>.

  Integers are kept as \<open>int\<close>; \<open>wrap32\<close> and \<open>s64\<close> write out the wrap-around of unsigned and of 64-bit signed
  arithmetic. Division of signed numbers truncates.
\<close>

section \<open>Integer arithmetic\<close>

definition wrap32 :: "int \<Rightarrow> int" where
  "wrap32 x = x mod 2 ^ 32"

definition s32 :: "int \<Rightarrow> int" where
  "s32 x = sint (word_of_int x :: u32)"

definition s64 :: "int \<Rightarrow> int" where
  "s64 x = sint (word_of_int x :: u64)"

definition c_div :: "int \<Rightarrow> int \<Rightarrow> int" where
  "c_div a b = sgn a * sgn b * (\<bar>a\<bar> div \<bar>b\<bar>)"

definition c_rem :: "int \<Rightarrow> int \<Rightarrow> int" where
  "c_rem a b = a - b * c_div a b"

text \<open>\<^verbatim>\<open>idivl\<close> raises an exception when the quotient does not fit.\<close>

definition divmodi64 :: "int \<Rightarrow> int \<Rightarrow> (int \<times> int) option" where
  "divmodi64 a b =
     do {
       c_assert (b \<noteq> 0 \<and> - (2 ^ 31) \<le> c_div a b \<and> c_div a b < 2 ^ 31);
       Some (c_div a b, c_rem a b)
     }"

section \<open>The calendar\<close>

definition is_leap_year :: "int \<Rightarrow> bool" where
  "is_leap_year year \<longleftrightarrow> year mod 4 = 0 \<and> (year mod 100 \<noteq> 0 \<or> year mod 400 = 0)"

definition days_in_year :: "int \<Rightarrow> int" where
  "days_in_year year = (if is_leap_year year then 366 else 365)"

definition days_in_month :: "int \<Rightarrow> int \<Rightarrow> int option" where
  "days_in_month year month =
     (if month = 2 \<and> is_leap_year year then Some 29
      else arr_get [31, 28, 31, 30, 31, 30, 31, 31, 30, 31, 30, 31] (nat (wrap32 (month - 1))))"

text \<open>The loop of \<^verbatim>\<open>day_of_year\<close>, with \<open>n\<close> months left to add.\<close>

fun add_months :: "int \<Rightarrow> nat \<Rightarrow> int \<Rightarrow> int \<Rightarrow> int option" where
  "add_months year 0 m r = Some r"
| "add_months year (Suc n) m r = do { d \<leftarrow> days_in_month year m; add_months year n (m + 1) (wrap32 (r + d)) }"

definition day_of_year :: "int \<Rightarrow> int \<Rightarrow> int \<Rightarrow> int option" where
  "day_of_year year month day = add_months year (nat (month - 1)) 1 (wrap32 (day - 1))"

definition day_of_week :: "int \<Rightarrow> int \<Rightarrow> int \<Rightarrow> int" where
  "day_of_week year month day =
     (let (year, month) = (if month \<le> 2 then (wrap32 (year - 1), month + 12) else (year, month))
      in wrap32 (day + wrap32 (13 * month + 8) div 5 + year + year div 4 - year div 100 + year div 400) mod 7)"

section \<open>The real-time clock\<close>

definition bcd_to_bin :: "int \<Rightarrow> int" where
  "bcd_to_bin bcd = (bcd mod 16 + (bcd div 16) * 10) mod 256"

text \<open>The loop of \<^verbatim>\<open>days_since_epoch\<close>, with \<open>n\<close> years left to add.\<close>

fun add_years :: "nat \<Rightarrow> int \<Rightarrow> int \<Rightarrow> int" where
  "add_years 0 y days = days"
| "add_years (Suc n) y days = add_years n (y + 1) (wrap32 (days + days_in_year y))"

definition days_since_epoch :: "int \<Rightarrow> int \<Rightarrow> int \<Rightarrow> int option" where
  "days_since_epoch year month day =
     do {
       c_assert (year \<ge> 1970);
       days \<leftarrow> day_of_year year month day;
       Some (add_years (nat (year - 1970)) 1970 days)
     }"

text \<open>The fields of the clock chip: \<open>cmos i\<close> is what reading register \<open>i\<close> returns.\<close>

record rtc_fields =
  f_year :: int
  f_month :: int
  f_day :: int
  f_hour :: int
  f_minute :: int
  f_second :: int

definition rtc_read :: "(nat \<Rightarrow> u8) \<Rightarrow> rtc_fields" where
  "rtc_read cmos =
     (let status = cmos 0xb;
          f = \<lparr>f_year = uint (cmos 9), f_month = uint (cmos 8), f_day = uint (cmos 7), f_hour = uint (cmos 4),
               f_minute = uint (cmos 2), f_second = uint (cmos 0)\<rparr>;
          f = (if status AND 4 = 0 then
                 \<lparr>f_year = bcd_to_bin (f_year f), f_month = bcd_to_bin (f_month f), f_day = bcd_to_bin (f_day f),
                  f_hour = bcd_to_bin (f_hour f AND 0x7f), f_minute = bcd_to_bin (f_minute f),
                  f_second = bcd_to_bin (f_second f)\<rparr>
               else f);
          f = (if status AND 2 = 0 then
                 let hour = f_hour f mod 12 in f\<lparr>f_hour := if hour AND 0x80 \<noteq> 0 then hour + 12 else hour\<rparr>
               else f)
      in f\<lparr>f_year := f_year f + 2000\<rparr>)"

definition rtc_epoch :: rtc_fields where
  "rtc_epoch = \<lparr>f_year = 1970, f_month = 1, f_day = 1, f_hour = 0, f_minute = 0, f_second = 0\<rparr>"

text \<open>
  \<^verbatim>\<open>rtc_now\<close>: \<open>polls i\<close> is the value of the status register at try \<open>i\<close>, of which there are 100 at most. When the chip
  stays busy the clock starts at the epoch.
\<close>

definition rtc_now :: "(nat \<Rightarrow> u8) \<Rightarrow> (nat \<Rightarrow> u8) \<Rightarrow> int option" where
  "rtc_now polls cmos =
     do {
       let update_finished = list_ex (\<lambda>i. polls i AND 0x80 = 0) [0..<100];
       let f = (if update_finished then rtc_read cmos else rtc_epoch);
       days \<leftarrow> days_since_epoch (f_year f) (f_month f) (f_day f);
       let hours = s64 (days * 24 + f_hour f);
       let minutes = s64 (hours * 60 + f_minute f);
       Some (s64 (minutes * 60 + f_second f))
     }"

section \<open>Broken-down time\<close>

record tm =
  tm_sec :: int
  tm_min :: int
  tm_hour :: int
  tm_mday :: int
  tm_mon :: int
  tm_year :: int
  tm_wday :: int
  tm_yday :: int

function year_loop :: "int \<Rightarrow> int \<Rightarrow> int \<times> int" where
  "year_loop time year =
     (let seconds_in_this_year = days_in_year year * (60 * 60 * 24)
      in if time < seconds_in_this_year then (time, year) else year_loop (time - seconds_in_this_year) (wrap32 (year + 1)))"
  by pat_completeness auto
termination
  by (relation "measure (\<lambda>(time, year). nat time)") (auto simp: days_in_year_def split: if_splits)

declare year_loop.simps [simp del]

text \<open>The loop over the months, with \<open>n\<close> iterations left before December.\<close>

fun month_loop :: "int \<Rightarrow> nat \<Rightarrow> int \<Rightarrow> int \<Rightarrow> (int \<times> int) option" where
  "month_loop year 0 month days = Some (month, days)"
| "month_loop year (Suc n) month days =
     do {
       d \<leftarrow> days_in_month year month;
       if days < d then Some (month, days) else month_loop year n (month + 1) (days - d)
     }"

definition gmtime_r :: "int \<Rightarrow> tm option" where
  "gmtime_r t =
     do {
       let (time, year) = year_loop t 1970;
       (yday, seconds) \<leftarrow> divmodi64 time (60 * 60 * 24);
       let minutes = c_div seconds 60;
       (month, days) \<leftarrow> month_loop year 11 1 yday;
       let mday = days + 1;
       Some \<lparr>tm_sec = c_rem seconds 60, tm_min = c_rem minutes 60, tm_hour = c_div minutes 60, tm_mday = mday,
             tm_mon = month - 1, tm_year = s32 (year - 1900), tm_wday = day_of_week year month (wrap32 mday),
             tm_yday = yday\<rparr>
     }"

section \<open>The clocks of the kernel\<close>

abbreviation (input) NANOS :: int where "NANOS \<equiv> 1000000000"
abbreviation (input) CLK_TCK :: int where "CLK_TCK \<equiv> 250"

record timespec =
  tv_sec :: int
  tv_nsec :: int

definition timespec_add :: "timespec \<Rightarrow> timespec \<Rightarrow> timespec" where
  "timespec_add this other =
     (let sec = s64 (tv_sec this + tv_sec other); nsec = s64 (tv_nsec this + tv_nsec other)
      in if nsec \<ge> NANOS then \<lparr>tv_sec = s64 (sec + 1), tv_nsec = nsec - NANOS\<rparr> else \<lparr>tv_sec = sec, tv_nsec = nsec\<rparr>)"

definition timespec_saturating_sub :: "timespec \<Rightarrow> timespec \<Rightarrow> timespec" where
  "timespec_saturating_sub this other =
     (let sec = s64 (tv_sec this - tv_sec other); nsec = s64 (tv_nsec this - tv_nsec other);
          (sec, nsec) = (if nsec < 0 then (s64 (sec - 1), nsec + NANOS) else (sec, nsec))
      in if sec < 0 then \<lparr>tv_sec = 0, tv_nsec = 0\<rparr> else \<lparr>tv_sec = sec, tv_nsec = nsec\<rparr>)"

definition timespec_compare :: "timespec \<Rightarrow> timespec \<Rightarrow> int" where
  "timespec_compare a b =
     (if tv_sec a > tv_sec b then 1
      else if tv_sec a < tv_sec b then - 1
      else if tv_nsec a > tv_nsec b then 1
      else if tv_nsec a < tv_nsec b then - 1
      else 0)"

record clocks =
  uptime :: u32
  now :: timespec

definition time_init :: "clocks \<Rightarrow> int \<Rightarrow> clocks" where
  "time_init c rtc = c\<lparr>now := (now c)\<lparr>tv_sec := rtc\<rparr>\<rparr>"

definition time_tick :: "clocks \<Rightarrow> clocks" where
  "time_tick c =
     (let c = c\<lparr>uptime := uptime c + 1\<rparr>;
          nsec = s64 (tv_nsec (now c) + NANOS div CLK_TCK)
      in if nsec \<ge> NANOS then c\<lparr>now := \<lparr>tv_sec = s64 (tv_sec (now c) + 1), tv_nsec = nsec - NANOS\<rparr>\<rparr>
         else c\<lparr>now := (now c)\<lparr>tv_nsec := nsec\<rparr>\<rparr>)"

datatype clockid = CLOCK_REALTIME | CLOCK_MONOTONIC | Other_Clock

text \<open>\<^verbatim>\<open>clockid_t\<close> is an \<^verbatim>\<open>int\<close>; values other than 0 and 1 name no clock.\<close>

definition clockid_of :: "int \<Rightarrow> clockid" where
  "clockid_of i = (if i = 0 then CLOCK_REALTIME else if i = 1 then CLOCK_MONOTONIC else Other_Clock)"

definition time_now :: "clocks \<Rightarrow> clockid \<Rightarrow> timespec result option" where
  "time_now c clock_id =
     (case clock_id of
        CLOCK_REALTIME \<Rightarrow> Some (Inr (now c))
      | CLOCK_MONOTONIC \<Rightarrow>
          do {
            let t = uint (uptime c);
            let sec = t div CLK_TCK;
            (nsec, _) \<leftarrow> divmodi64 (s64 ((t - sec * CLK_TCK) * NANOS)) CLK_TCK;
            Some (Inr \<lparr>tv_sec = sec, tv_nsec = nsec\<rparr>)
          }
      | Other_Clock \<Rightarrow> Some (Inl EINVAL))"

definition time_set :: "clocks \<Rightarrow> clockid \<Rightarrow> timespec \<Rightarrow> unit result \<times> clocks" where
  "time_set c clock_id tp =
     (if tv_sec tp < 0 \<or> tv_nsec tp < 0 \<or> tv_nsec tp \<ge> NANOS then (Inl EINVAL, c)
      else case clock_id of
             CLOCK_REALTIME \<Rightarrow> (Inr (), c\<lparr>now := tp\<rparr>)
           | _ \<Rightarrow> (Inl EINVAL, c))"

definition time_get_resolution :: "clockid \<Rightarrow> timespec result" where
  "time_get_resolution clock_id =
     (case clock_id of
        Other_Clock \<Rightarrow> Inl EINVAL
      | _ \<Rightarrow> Inr \<lparr>tv_sec = 0, tv_nsec = NANOS div CLK_TCK\<rparr>)"

section \<open>The system calls\<close>

text \<open>Layout of the structures: 64-bit fields in \<^verbatim>\<open>timespec\<close>, 32-bit fields in \<^verbatim>\<open>timespec32\<close> and \<^verbatim>\<open>linux_timeval\<close>.\<close>

definition i64_bytes :: "int \<Rightarrow> u8 list" where
  "i64_bytes x = word_bytes (word_of_int x) @ word_bytes (word_of_int (x div 2 ^ 32))"

definition i64_at :: "u8 list \<Rightarrow> nat \<Rightarrow> int" where
  "i64_at bs i = sint (word_at bs (i + 4)) * 2 ^ 32 + uint (word_at bs i)"

definition i32_bytes :: "int \<Rightarrow> u8 list" where
  "i32_bytes x = word_bytes (word_of_int x)"

definition i32_at :: "u8 list \<Rightarrow> nat \<Rightarrow> int" where
  "i32_at bs i = sint (word_at bs i)"

definition timespec_bytes :: "timespec \<Rightarrow> u8 list" where
  "timespec_bytes tp = i64_bytes (tv_sec tp) @ i64_bytes (tv_nsec tp)"

definition timespec_of :: "u8 list \<Rightarrow> timespec" where
  "timespec_of bs = \<lparr>tv_sec = i64_at bs 0, tv_nsec = i64_at bs 8\<rparr>"

definition timespec32_bytes :: "timespec \<Rightarrow> u8 list" where
  "timespec32_bytes tp = i32_bytes (tv_sec tp) @ i32_bytes (tv_nsec tp)"

definition timespec32_of :: "u8 list \<Rightarrow> timespec" where
  "timespec32_of bs = \<lparr>tv_sec = i32_at bs 0, tv_nsec = i32_at bs 4\<rparr>"

text \<open>Storing a result object, with the error number the call returns for a bad pointer.\<close>

definition store_result :: "mem \<Rightarrow> u32 \<Rightarrow> u8 list \<Rightarrow> errno \<Rightarrow> 'a \<Rightarrow> 'a result \<times> mem" where
  "store_result m a bytes err v = (let (r, m) = put_user m a bytes in (case r of Inl _ \<Rightarrow> Inl err | Inr _ \<Rightarrow> Inr v, m))"

definition sys_time32 :: "clocks \<Rightarrow> mem \<Rightarrow> u32 \<Rightarrow> (int result \<times> mem) option" where
  "sys_time32 c m user_tloc =
     do {
       r \<leftarrow> time_now c CLOCK_REALTIME;
       Some (case r of
               Inl e \<Rightarrow> (Inl e, m)
             | Inr tp \<Rightarrow>
                 let sec = s32 (tv_sec tp)
                 in if user_tloc \<noteq> 0 then store_result m user_tloc (i32_bytes sec) EFAULT sec else (Inr sec, m))
     }"

definition sys_stime32 :: "clocks \<Rightarrow> mem \<Rightarrow> u32 \<Rightarrow> unit result \<times> clocks" where
  "sys_stime32 c m user_t =
     (case get_user m user_t 4 of
        Inl _ \<Rightarrow> (Inl EFAULT, c)
      | Inr bs \<Rightarrow> time_set c CLOCK_REALTIME \<lparr>tv_sec = i32_at bs 0, tv_nsec = 0\<rparr>)"

definition sys_gettimeofday :: "clocks \<Rightarrow> mem \<Rightarrow> u32 \<Rightarrow> (unit result \<times> mem) option" where
  "sys_gettimeofday c m user_tv =
     do {
       r \<leftarrow> time_now c CLOCK_REALTIME;
       case r of
         Inl e \<Rightarrow> Some (Inl e, m)
       | Inr tp \<Rightarrow>
           do {
             (usec, _) \<leftarrow> divmodi64 (tv_nsec tp) 1000;
             Some (store_result m user_tv (i32_bytes (tv_sec tp) @ i32_bytes usec) EFAULT ())
           }
     }"

definition sys_settimeofday :: "clocks \<Rightarrow> mem \<Rightarrow> u32 \<Rightarrow> unit result \<times> clocks" where
  "sys_settimeofday c m user_tv =
     (case get_user m user_tv 8 of
        Inl _ \<Rightarrow> (Inl EFAULT, c)
      | Inr bs \<Rightarrow> time_set c CLOCK_REALTIME \<lparr>tv_sec = i32_at bs 0, tv_nsec = i32_at bs 4 * 1000\<rparr>)"

text \<open>The 64-bit and the 32-bit forms of the clock calls differ in the layout only.\<close>

definition clock_gettime :: "(timespec \<Rightarrow> u8 list) \<Rightarrow> clocks \<Rightarrow> mem \<Rightarrow> int \<Rightarrow> u32 \<Rightarrow> (unit result \<times> mem) option" where
  "clock_gettime layout c m clockid user_tp =
     do {
       r \<leftarrow> time_now c (clockid_of clockid);
       Some (case r of Inl e \<Rightarrow> (Inl e, m) | Inr tp \<Rightarrow> store_result m user_tp (layout tp) EINVAL ())
     }"

definition sys_clock_gettime :: "clocks \<Rightarrow> mem \<Rightarrow> int \<Rightarrow> u32 \<Rightarrow> (unit result \<times> mem) option" where
  "sys_clock_gettime = clock_gettime timespec_bytes"

definition sys_clock_gettime32 :: "clocks \<Rightarrow> mem \<Rightarrow> int \<Rightarrow> u32 \<Rightarrow> (unit result \<times> mem) option" where
  "sys_clock_gettime32 = clock_gettime timespec32_bytes"

definition sys_clock_settime :: "clocks \<Rightarrow> mem \<Rightarrow> int \<Rightarrow> u32 \<Rightarrow> unit result \<times> clocks" where
  "sys_clock_settime c m clockid user_tp =
     (case get_user m user_tp 16 of
        Inl _ \<Rightarrow> (Inl EFAULT, c)
      | Inr bs \<Rightarrow> time_set c (clockid_of clockid) (timespec_of bs))"

definition sys_clock_settime32 :: "clocks \<Rightarrow> mem \<Rightarrow> int \<Rightarrow> u32 \<Rightarrow> unit result \<times> clocks" where
  "sys_clock_settime32 c m clockid user_tp =
     (case get_user m user_tp 8 of
        Inl _ \<Rightarrow> (Inl EFAULT, c)
      | Inr bs \<Rightarrow> time_set c (clockid_of clockid) (timespec32_of bs))"

definition clock_getres :: "(timespec \<Rightarrow> u8 list) \<Rightarrow> mem \<Rightarrow> int \<Rightarrow> u32 \<Rightarrow> unit result \<times> mem" where
  "clock_getres layout m clockid user_res =
     (case time_get_resolution (clockid_of clockid) of
        Inl e \<Rightarrow> (Inl e, m)
      | Inr res \<Rightarrow> store_result m user_res (layout res) EINVAL ())"

definition sys_clock_getres :: "mem \<Rightarrow> int \<Rightarrow> u32 \<Rightarrow> unit result \<times> mem" where
  "sys_clock_getres = clock_getres timespec_bytes"

definition sys_clock_getres_time32 :: "mem \<Rightarrow> int \<Rightarrow> u32 \<Rightarrow> unit result \<times> mem" where
  "sys_clock_getres_time32 = clock_getres timespec32_bytes"

section \<open>Sleeping\<close>

abbreviation (input) TIMER_ABSTIME :: int where "TIMER_ABSTIME \<equiv> 1"

definition unblock_sleep :: "clockid \<Rightarrow> timespec \<Rightarrow> clocks \<Rightarrow> bool option" where
  "unblock_sleep clock_id deadline c =
     do {
       r \<leftarrow> time_now c clock_id;
       case r of
         Inl _ \<Rightarrow> None
       | Inr n \<Rightarrow> Some (timespec_compare n deadline \<ge> 0)
     }"

text \<open>
  The part of \<^verbatim>\<open>clock_nanosleep\<close> behind the choice of the deadline: \<open>os\<close> are the clocks at the looks of the scheduler
  and, when the task is awake again, at the reading for \<open>remain\<close>. The result is the remaining time; when the caller did
  not ask for it, it is the zero \<open>remain\<close> was initialised with.
\<close>

definition sleep_until ::
    "clocks obs list \<Rightarrow> clockid \<Rightarrow> timespec \<Rightarrow> bool \<Rightarrow> timespec result wait option" where
  "sleep_until os clock_id deadline store_remain =
     do {
       w \<leftarrow> sched_wait (unblock_sleep clock_id deadline) os;
       case w of
         Asleep \<Rightarrow> Some Asleep
       | Woke (Inl e, _) \<Rightarrow> Some (Woke (Inl e))
       | Woke (Inr _, os') \<Rightarrow>
           if store_remain then
             (case os' of
                [] \<Rightarrow> Some Asleep
              | ob # _ \<Rightarrow>
                  do {
                    r \<leftarrow> time_now (obs_world ob) clock_id;
                    Some (Woke (case r of Inl e \<Rightarrow> Inl e | Inr n \<Rightarrow> Inr (timespec_saturating_sub deadline n)))
                  })
           else Some (Woke (Inr \<lparr>tv_sec = 0, tv_nsec = 0\<rparr>))
     }"

text \<open>\<open>c\<close> are the clocks when the call starts.\<close>

definition clock_nanosleep ::
    "clocks \<Rightarrow> clocks obs list \<Rightarrow> int \<Rightarrow> int \<Rightarrow> timespec \<Rightarrow> bool \<Rightarrow> timespec result wait option" where
  "clock_nanosleep c os clockid flags request want_remain =
     do {
       r \<leftarrow> time_now c (clockid_of clockid);
       case r of
         Inl e \<Rightarrow> Some (Woke (Inl e))
       | Inr start \<Rightarrow>
           if flags = 0 then sleep_until os (clockid_of clockid) (timespec_add start request) want_remain
           else if flags = TIMER_ABSTIME then sleep_until os (clockid_of clockid) request False
           else Some (Woke (Inl EINVAL))
     }"

definition nanosleep_call ::
    "(u8 list \<Rightarrow> timespec) \<Rightarrow> nat \<Rightarrow> (timespec \<Rightarrow> u8 list) \<Rightarrow> clocks \<Rightarrow> clocks obs list \<Rightarrow> mem \<Rightarrow> int \<Rightarrow> int \<Rightarrow> u32 \<Rightarrow> u32
      \<Rightarrow> (unit result \<times> mem) wait option" where
  "nanosleep_call parse sz layout c os m clockid flags user_request user_remain =
     (case get_user m user_request sz of
        Inl _ \<Rightarrow> Some (Woke (Inl EFAULT, m))
      | Inr bs \<Rightarrow>
          do {
            w \<leftarrow> clock_nanosleep c os clockid flags (parse bs) (user_remain \<noteq> 0);
            Some (case w of
                    Asleep \<Rightarrow> Asleep
                  | Woke (Inl e) \<Rightarrow> Woke (Inl e, m)
                  | Woke (Inr remain) \<Rightarrow>
                      Woke (if user_remain \<noteq> 0 then store_result m user_remain (layout remain) EFAULT () else (Inr (), m)))
          })"

definition sys_clock_nanosleep ::
    "clocks \<Rightarrow> clocks obs list \<Rightarrow> mem \<Rightarrow> int \<Rightarrow> int \<Rightarrow> u32 \<Rightarrow> u32 \<Rightarrow> (unit result \<times> mem) wait option" where
  "sys_clock_nanosleep = nanosleep_call timespec_of 16 timespec_bytes"

definition sys_clock_nanosleep_time32 ::
    "clocks \<Rightarrow> clocks obs list \<Rightarrow> mem \<Rightarrow> int \<Rightarrow> int \<Rightarrow> u32 \<Rightarrow> u32 \<Rightarrow> (unit result \<times> mem) wait option" where
  "sys_clock_nanosleep_time32 = nanosleep_call timespec32_of 8 timespec32_bytes"

definition sys_nanosleep_time32 ::
    "clocks \<Rightarrow> clocks obs list \<Rightarrow> mem \<Rightarrow> u32 \<Rightarrow> u32 \<Rightarrow> (unit result \<times> mem) wait option" where
  "sys_nanosleep_time32 c os m user_duration user_rem = sys_clock_nanosleep_time32 c os m 1 0 user_duration user_rem"

section \<open>The calendar and the count of seconds\<close>

lemma wrap32_id [simp]: "0 \<le> x \<Longrightarrow> x < 2 ^ 32 \<Longrightarrow> wrap32 x = x"
  by (simp add: wrap32_def)

lemma s64_id: "- (2 ^ 63) \<le> x \<Longrightarrow> x < 2 ^ 63 \<Longrightarrow> s64 x = x"
  by (simp add: s64_def int_word_sint)

lemma s32_id: "- (2 ^ 31) \<le> x \<Longrightarrow> x < 2 ^ 31 \<Longrightarrow> s32 x = x"
  by (simp add: s32_def int_word_sint)

lemma c_div_nonneg: "0 \<le> a \<Longrightarrow> 0 < b \<Longrightarrow> c_div a b = a div b"
  by (cases "a = 0") (simp_all add: c_div_def sgn_if)

lemma c_rem_nonneg: "0 \<le> a \<Longrightarrow> 0 < b \<Longrightarrow> c_rem a b = a mod b"
  by (simp add: c_rem_def c_div_nonneg minus_mult_div_eq_mod)

lemma divmodi64_nonneg:
  "0 \<le> a \<Longrightarrow> 0 < b \<Longrightarrow> a div b < 2 ^ 31 \<Longrightarrow> divmodi64 a b = Some (a div b, a mod b)"
  using pos_imp_zdiv_nonneg_iff [of b a] by (simp add: divmodi64_def c_div_nonneg c_rem_nonneg)

text \<open>The days of the years from 1970 up to a year, counted and in closed form.\<close>

fun days_of_years :: "nat \<Rightarrow> int \<Rightarrow> int" where
  "days_of_years 0 y = 0"
| "days_of_years (Suc n) y = days_in_year y + days_of_years n (y + 1)"

lemma days_of_years_bounds: "365 * int n \<le> days_of_years n y \<and> days_of_years n y \<le> 366 * int n"
  by (induction n y rule: days_of_years.induct) (auto simp: days_in_year_def)

definition leap_days :: "int \<Rightarrow> int" where
  "leap_days y = y div 4 - y div 100 + y div 400"

lemma div_step: "y div k = (y - 1) div k + (if y mod k = 0 then 1 else 0)" if "0 < k" for y k :: int
proof (cases "y mod k = 0")
  case True
  then obtain q where "y = k * q" by auto
  then have "y - 1 = (q - 1) * k + (k - 1)" by (simp add: algebra_simps)
  then have "(y - 1) div k = q - 1" using that by (simp only: div_mult_self3) simp
  with \<open>y = k * q\<close> that show ?thesis by simp
next
  case False
  have r: "0 < y mod k" "y mod k < k" using that False pos_mod_bound [OF that, of y] pos_mod_sign [OF that, of y] by linarith+
  have "y - 1 = (y div k) * k + (y mod k - 1)" by (simp add: div_mult_mod_eq)
  then have "(y - 1) div k = y div k" using r by (simp only: div_mult_self3) simp
  with False show ?thesis by simp
qed

lemma leap_count:
  fixes a b c a' b' c' :: int
  assumes "a = a' + (if p4 then 1 else 0)" "b = b' + (if p100 then 1 else 0)" "c = c' + (if p400 then 1 else 0)"
    and "p100 \<Longrightarrow> p4" "p400 \<Longrightarrow> p100"
  shows "a - b + c = a' - b' + c' + (if p4 \<and> (\<not> p100 \<or> p400) then 1 else 0)"
  using assms by (cases p4; cases p100; cases p400) simp_all

lemma leap_days_step: "leap_days y = leap_days (y - 1) + (if is_leap_year y then 1 else 0)"
  unfolding leap_days_def is_leap_year_def
proof (rule leap_count; (rule div_step)?)
  show "y mod 4 = 0" if "y mod 100 = 0" using that mod_mod_cancel [of 4 100 y] by simp
  show "y mod 100 = 0" if "y mod 400 = 0" using that mod_mod_cancel [of 100 400 y] by simp
qed simp_all

lemma days_of_years_closed: "days_of_years n y = 365 * int n + leap_days (y + int n - 1) - leap_days (y - 1)"
proof (induction n y rule: days_of_years.induct)
  case (2 n y)
  then show ?case using leap_days_step [of y] by (cases "is_leap_year y") (simp_all add: days_in_year_def algebra_simps)
qed simp

lemma add_years_sum:
  "0 \<le> d \<Longrightarrow> d + days_of_years n y < 2 ^ 32 \<Longrightarrow> add_years n y d = d + days_of_years n y"
proof (induction n y d rule: add_years.induct)
  case (2 n y d)
  have "0 \<le> days_of_years n (y + 1)" using days_of_years_bounds [of n "y + 1"] by linarith
  moreover have "0 < days_in_year y" by (simp add: days_in_year_def)
  ultimately show ?case using 2 by (simp add: add.assoc)
qed simp

lemma year_loop_sum:
  assumes "0 \<le> y" "y + int n < 2 ^ 32" "0 \<le> r" "r < days_in_year (y + int n) * 86400"
  shows "year_loop (days_of_years n y * 86400 + r) y = (r, y + int n)"
  using assms
proof (induction n arbitrary: y)
  case 0
  then show ?case by (subst year_loop.simps) simp
next
  case (Suc n)
  have "0 \<le> days_of_years n (y + 1)" using days_of_years_bounds [of n "y + 1"] by linarith
  with Suc.prems(3)
  have "\<not> days_of_years (Suc n) y * 86400 + r < days_in_year y * (60 * 60 * 24)" by (simp add: algebra_simps)
  then have "year_loop (days_of_years (Suc n) y * 86400 + r) y
      = year_loop (days_of_years n (y + 1) * 86400 + r) (wrap32 (y + 1))"
    by (subst year_loop.simps) (simp add: Let_def algebra_simps)
  moreover have e: "y + 1 + int n = y + int (Suc n)" by linarith
  moreover have "year_loop (days_of_years n (y + 1) * 86400 + r) (y + 1) = (r, y + int (Suc n))"
    using Suc.IH [of "y + 1", unfolded e] Suc.prems by simp
  ultimately show ?case using Suc.prems(1,2) by simp
qed

text \<open>The days of the months before a month.\<close>

definition days_before :: "int \<Rightarrow> int \<Rightarrow> int" where
  "days_before y m =
     [0, 31, 59, 90, 120, 151, 181, 212, 243, 273, 304, 334] ! nat (m - 1) + (if 2 < m \<and> is_leap_year y then 1 else 0)"

definition month_length :: "int \<Rightarrow> int \<Rightarrow> int" where
  "month_length y m =
     (if m = 2 \<and> is_leap_year y then 29 else [31, 28, 31, 30, 31, 30, 31, 31, 30, 31, 30, 31] ! nat (m - 1))"

lemma month_cases:
  assumes "1 \<le> m" "m \<le> (12 :: int)"
  obtains "m = 1" | "m = 2" | "m = 3" | "m = 4" | "m = 5" | "m = 6" | "m = 7" | "m = 8" | "m = 9" | "m = 10" | "m = 11" | "m = 12"
proof -
  have "m \<in> {1..12}" using assms by simp
  also have "{1..12} = {1, 2, 3, 4, 5, 6, 7, 8, 9, 10, 11, 12 :: int}" by (simp add: atLeastAtMostPlus1_int_conv simp_from_to)
  finally show thesis using that by blast
qed

lemma days_in_month_length: "1 \<le> m \<Longrightarrow> m \<le> 12 \<Longrightarrow> days_in_month y m = Some (month_length y m)"
  by (auto simp: days_in_month_def month_length_def)

lemma days_before_next: "1 \<le> m \<Longrightarrow> m < 12 \<Longrightarrow> days_before y (m + 1) = days_before y m + month_length y m"
  by (erule month_cases, simp) (auto simp: days_before_def month_length_def)

lemma month_length_pos: "1 \<le> m \<Longrightarrow> m \<le> 12 \<Longrightarrow> 28 \<le> month_length y m \<and> month_length y m \<le> 31"
  by (erule (1) month_cases) (simp_all add: month_length_def)

lemma days_before_bounds: "1 \<le> m \<Longrightarrow> m \<le> 12 \<Longrightarrow> 0 \<le> days_before y m \<and> days_before y m + month_length y m \<le> days_in_year y"
  by (erule (1) month_cases) (auto simp: days_before_def month_length_def days_in_year_def)

lemma days_before_add: "1 \<le> m \<Longrightarrow> m + int n \<le> 12 \<Longrightarrow> days_before y m \<le> days_before y (m + int n)"
proof (induction n)
  case (Suc n)
  then have "days_before y m \<le> days_before y (m + int n)" "1 \<le> m + int n" "m + int n < 12" by simp_all
  moreover have "0 \<le> month_length y (m + int n)" using month_length_pos [of "m + int n" y] calculation by simp
  moreover have e: "m + int (Suc n) = (m + int n) + 1" by simp
  ultimately show ?case using days_before_next [of "m + int n" y] unfolding e by linarith
qed simp

lemma add_months_sum:
  assumes "1 \<le> m" "m + int n \<le> 12" "0 \<le> r" "r + 31 * int n \<le> 1000"
  shows "add_months y n m r = Some (r + (days_before y (m + int n) - days_before y m))"
  using assms
proof (induction n arbitrary: m r)
  case (Suc n)
  have len: "28 \<le> month_length y m" "month_length y m \<le> 31" using month_length_pos [of m y] Suc.prems by auto
  have d: "days_in_month y m = Some (month_length y m)" using Suc.prems by (simp add: days_in_month_length)
  have e: "m + 1 + int n = m + int (Suc n)" by simp
  have w: "wrap32 (r + month_length y m) = r + month_length y m" using len Suc.prems by simp
  have "add_months y n (m + 1) (r + month_length y m)
      = Some (r + month_length y m + (days_before y (m + int (Suc n)) - days_before y (m + 1)))"
    using Suc.IH [of "m + 1" "r + month_length y m", unfolded e] Suc.prems len by simp
  with d w days_before_next [of m y] Suc.prems show ?case by simp
qed simp

lemma month_loop_sum:
  assumes "1 \<le> m" "m + int k \<le> 12" "int n = 12 - m" "0 \<le> d" "d < month_length y (m + int k)"
  shows "month_loop y n m (days_before y (m + int k) - days_before y m + d) = Some (m + int k, d)"
  using assms
proof (induction k arbitrary: m n)
  case 0
  then show ?case by (cases n) (simp_all add: days_in_month_length)
next
  case (Suc k)
  then obtain n' where n': "n = Suc n'" "int n' = 12 - (m + 1)" by (cases n) simp_all
  have e: "m + 1 + int k = m + int (Suc k)" by simp
  have d: "days_in_month y m = Some (month_length y m)" "days_before y (m + 1) = days_before y m + month_length y m"
    using Suc.prems by (simp_all add: days_in_month_length days_before_next)
  let ?b = "days_before y (m + int (Suc k))"
  have "days_before y (m + 1) \<le> ?b" using days_before_add [of "m + 1" k y, unfolded e] Suc.prems by simp
  then have "\<not> ?b - days_before y m + d < month_length y m" using d(2) Suc.prems(4) by linarith
  then have "month_loop y n m (?b - days_before y m + d) = month_loop y n' (m + 1) (?b - days_before y m + d - month_length y m)"
    by (simp only: n'(1) month_loop.simps d(1) bind.bind_lunit if_False)
  also have "?b - days_before y m + d - month_length y m = ?b - days_before y (m + 1) + d" using d(2) by linarith
  also have "month_loop y n' (m + 1) (?b - days_before y (m + 1) + d) = Some (m + int (Suc k), d)"
    using Suc.IH [of "m + 1" n', unfolded e] Suc.prems n'(2) by simp
  finally show ?case .
qed

text \<open>Zeller's congruence counts the days from a Thursday, the first of January 1970.\<close>

lemma days_before_7:
  assumes "1 \<le> m" "m \<le> 12"
  shows "(13 * (if m \<le> 2 then m + 12 else m) + 8) div 5 mod 7
       = (days_before y m - (if 2 < m \<and> is_leap_year y then 1 else 0) + (if m \<le> 2 then 0 else 6)) mod 7"
  using assms by (rule month_cases) (simp_all add: days_before_def)

lemma leap_days_bounds:
  assumes "0 \<le> y"
  shows "0 \<le> leap_days y" "leap_days y \<le> y"
proof -
  have "y div 100 \<le> y div 4" using assms by (intro zdiv_mono2) simp_all
  moreover have "y div 400 \<le> y div 100" using assms by (intro zdiv_mono2) simp_all
  moreover have "y div 4 \<le> y" "0 \<le> y div 400"
    using assms zdiv_mono2 [of y 1 4] by (simp_all add: pos_imp_zdiv_nonneg_iff)
  ultimately show "0 \<le> leap_days y" "leap_days y \<le> y" unfolding leap_days_def by linarith+
qed

lemma mod_7_shift: "(a :: int) = b + 7 * k \<Longrightarrow> a mod 7 = b mod 7"
  by simp

definition day_number :: "int \<Rightarrow> int \<Rightarrow> int \<Rightarrow> int" where
  "day_number y m d = days_of_years (nat (y - 1970)) 1970 + days_before y m + d - 1"

lemma day_number_closed:
  assumes "1970 \<le> y"
  shows "day_number y m d = 365 * y - 719050 + leap_days (y - 1) - 477 + days_before y m + d - 1"
proof -
  have "leap_days 1969 = 477" by (simp add: leap_days_def)
  moreover have "1970 + int (nat (y - 1970)) - 1 = y - 1" using assms by simp
  ultimately show ?thesis
    using days_of_years_closed [of "nat (y - 1970)" 1970] assms by (simp add: day_number_def)
qed

lemma day_of_week_count:
  assumes y: "1970 \<le> y" "y < 10000000" and m: "1 \<le> m" "m \<le> 12" and d: "1 \<le> d" "d \<le> 31"
  shows "day_of_week y m d = (4 + day_number y m d) mod 7"
proof -
  define y' where "y' = (if m \<le> 2 then y - 1 else y)"
  define q where "q = (13 * (if m \<le> 2 then m + 12 else m) + 8) div 5"
  define lp where "lp = (if 2 < m \<and> is_leap_year y then 1 else (0 :: int))"
  define c where "c = (if m \<le> 2 then 0 else (6 :: int))"
  have q: "0 \<le> q" "q \<le> 100" using m by (auto simp: q_def)
  have L: "0 \<le> leap_days y'" "leap_days y' \<le> y'" using leap_days_bounds [of y'] y by (simp_all add: y'_def)
  have "day_of_week y m d = wrap32 (d + q + y' + leap_days y') mod 7"
    using y m by (simp add: day_of_week_def y'_def q_def leap_days_def algebra_simps)
  also have "wrap32 (d + q + y' + leap_days y') = d + q + y' + leap_days y'"
    using q L d y by (simp add: y'_def split: if_splits)
  also have "(d + q + y' + leap_days y') mod 7 = (4 + day_number y m d) mod 7"
  proof -
    have "q mod 7 = (days_before y m - lp + c) mod 7"
      using days_before_7 [OF m, of y] by (simp add: q_def lp_def c_def)
    then obtain k where k: "q = days_before y m - lp + c + 7 * k"
      by (metis add.commute diff_add_cancel dvdE mod_eq_dvd_iff)
    have "y' + leap_days y' = y - 1 + leap_days (y - 1) + lp + (if m \<le> 2 then 0 else 1)"
      using leap_days_step [of y] by (simp add: y'_def lp_def)
    then have "d + q + y' + leap_days y' = (4 + day_number y m d) + 7 * (k - 52 * y + (if m \<le> 2 then 102789 else 102790))"
      unfolding day_number_closed [OF y(1)] k by (simp add: c_def)
    then show ?thesis by (rule mod_7_shift)
  qed
  finally show ?thesis .
qed

lemma day_of_year_count:
  assumes "1 \<le> m" "m \<le> 12" "1 \<le> d" "d \<le> 31"
  shows "day_of_year y m d = Some (days_before y m + d - 1)"
proof -
  have "1 + int (nat (m - 1)) = m" "days_before y 1 = 0" using assms by (simp_all add: days_before_def)
  then show ?thesis
    using add_months_sum [of 1 "nat (m - 1)" "d - 1" y] assms by (simp add: day_of_year_def)
qed

lemma days_since_epoch_count:
  assumes y: "1970 \<le> y" "y < 10000000" and m: "1 \<le> m" "m \<le> 12" and d: "1 \<le> d" "d \<le> month_length y m"
  shows "days_since_epoch y m d = Some (day_number y m d)" "0 \<le> day_number y m d" "day_number y m d < 2 ^ 32"
proof -
  note b = days_before_bounds [OF m, of y] month_length_pos [OF m, of y] days_of_years_bounds [of "nat (y - 1970)" 1970]
  have "days_in_year y \<le> 366" by (simp add: days_in_year_def)
  with b d y have n: "0 \<le> day_number y m d" "day_number y m d < 2 ^ 32" by (simp_all add: day_number_def)
  then show "0 \<le> day_number y m d" "day_number y m d < 2 ^ 32" .
  have "add_years (nat (y - 1970)) 1970 (days_before y m + d - 1) = day_number y m d"
    using add_years_sum [of "days_before y m + d - 1" "nat (y - 1970)" 1970] b d n by (simp add: day_number_def)
  with day_of_year_count [OF m, of d y] b d y show "days_since_epoch y m d = Some (day_number y m d)"
    by (simp add: days_since_epoch_def)
qed

definition valid_fields :: "rtc_fields \<Rightarrow> bool" where
  "valid_fields f \<longleftrightarrow> 1970 \<le> f_year f \<and> f_year f < 10000000 \<and> 1 \<le> f_month f \<and> f_month f \<le> 12
     \<and> 1 \<le> f_day f \<and> f_day f \<le> month_length (f_year f) (f_month f)
     \<and> 0 \<le> f_hour f \<and> f_hour f < 24 \<and> 0 \<le> f_minute f \<and> f_minute f < 60 \<and> 0 \<le> f_second f \<and> f_second f < 60"

text \<open>The count of seconds of a date, and the fields of \<^verbatim>\<open>struct tm\<close> it should have.\<close>

definition seconds_of_day :: "rtc_fields \<Rightarrow> int" where
  "seconds_of_day f = (f_hour f * 60 + f_minute f) * 60 + f_second f"

definition seconds_of :: "rtc_fields \<Rightarrow> int" where
  "seconds_of f = day_number (f_year f) (f_month f) (f_day f) * 86400 + seconds_of_day f"

definition tm_of :: "rtc_fields \<Rightarrow> tm" where
  "tm_of f =
     \<lparr>tm_sec = f_second f, tm_min = f_minute f, tm_hour = f_hour f, tm_mday = f_day f, tm_mon = f_month f - 1,
      tm_year = f_year f - 1900, tm_wday = (4 + day_number (f_year f) (f_month f) (f_day f)) mod 7,
      tm_yday = days_before (f_year f) (f_month f) + f_day f - 1\<rparr>"

lemma c_split_60:
  assumes "0 \<le> a" "0 \<le> b" "b < 60"
  shows "c_rem (a * 60 + b) 60 = b" "c_div (a * 60 + b) 60 = a"
proof -
  have "(a * 60 + b) div 60 = a" "(a * 60 + b) mod 60 = b" using assms by simp_all
  with assms show "c_rem (a * 60 + b) 60 = b" "c_div (a * 60 + b) 60 = a"
    by (simp_all only: c_rem_nonneg c_div_nonneg add_nonneg_nonneg mult_nonneg_nonneg zero_le_numeral zero_less_numeral)
qed

lemma seconds_of_day_parts:
  assumes "valid_fields f"
  shows "0 \<le> seconds_of_day f" "seconds_of_day f < 86400"
    and "c_rem (seconds_of_day f) 60 = f_second f" "c_div (seconds_of_day f) 60 = f_hour f * 60 + f_minute f"
    and "c_rem (f_hour f * 60 + f_minute f) 60 = f_minute f" "c_div (f_hour f * 60 + f_minute f) 60 = f_hour f"
proof -
  have f: "0 \<le> f_hour f" "f_hour f < 24" "0 \<le> f_minute f" "f_minute f < 60" "0 \<le> f_second f" "f_second f < 60"
    using assms by (simp_all add: valid_fields_def)
  then show "0 \<le> seconds_of_day f" "seconds_of_day f < 86400" by (simp_all add: seconds_of_day_def)
  show "c_rem (seconds_of_day f) 60 = f_second f" "c_div (seconds_of_day f) 60 = f_hour f * 60 + f_minute f"
    "c_rem (f_hour f * 60 + f_minute f) 60 = f_minute f" "c_div (f_hour f * 60 + f_minute f) 60 = f_hour f"
    using f c_split_60 [of "f_hour f * 60 + f_minute f" "f_second f"] c_split_60 [of "f_hour f" "f_minute f"]
    unfolding seconds_of_day_def by simp_all
qed

lemma gmtime_r_seconds:
  assumes v: "valid_fields f"
  shows "gmtime_r (seconds_of f) = Some (tm_of f)"
proof -
  let ?y = "f_year f" and ?m = "f_month f" and ?d = "f_day f"
  define yday where "yday = days_before ?y ?m + ?d - 1"
  have f: "1970 \<le> ?y" "?y < 10000000" "1 \<le> ?m" "?m \<le> 12" "1 \<le> ?d" "?d \<le> month_length ?y ?m"
    using v by (simp_all add: valid_fields_def)
  note b = days_before_bounds [OF f(3,4), of ?y] month_length_pos [OF f(3,4), of ?y] and s = seconds_of_day_parts [OF v]
  have yd: "0 \<le> yday" "yday < days_in_year ?y" "yday < 366" using b f by (auto simp: yday_def days_in_year_def split: if_splits)
  have n: "1970 + int (nat (?y - 1970)) = ?y" using f by simp
  have "seconds_of f = days_of_years (nat (?y - 1970)) 1970 * 86400 + (yday * 86400 + seconds_of_day f)"
    by (simp add: seconds_of_def day_number_def yday_def algebra_simps)
  then have yl: "year_loop (seconds_of f) 1970 = (yday * 86400 + seconds_of_day f, ?y)"
    using year_loop_sum [of 1970 "nat (?y - 1970)" "yday * 86400 + seconds_of_day f", unfolded n] f yd s(1,2) by simp
  have dm: "divmodi64 (yday * 86400 + seconds_of_day f) 86400 = Some (yday, seconds_of_day f)"
    using divmodi64_nonneg [of "yday * 86400 + seconds_of_day f" 86400] yd s(1,2) by simp
  have m1: "1 + int (nat (?m - 1)) = ?m" "days_before ?y 1 = 0" using f by (simp_all add: days_before_def)
  have ml: "month_loop ?y 11 1 yday = Some (?m, ?d - 1)"
    using month_loop_sum [of 1 "nat (?m - 1)" 11 "?d - 1" ?y, unfolded m1] f by (simp add: yday_def add_diff_eq)
  have wd: "day_of_week ?y ?m ?d = (4 + day_number ?y ?m ?d) mod 7" using day_of_week_count [of ?y ?m ?d] f b by simp
  have "s32 (?y - 1900) = ?y - 1900" "wrap32 ?d = ?d" using f b by (simp_all add: s32_id)
  with yl dm ml wd s show ?thesis by (simp add: gmtime_r_def tm_of_def yday_def Let_def)
qed

lemma rtc_now_decodes:
  assumes "i < 100" "polls i AND 0x80 = 0" "valid_fields (rtc_read cmos)"
  shows "rtc_now polls cmos = Some (seconds_of (rtc_read cmos))"
proof -
  let ?f = "rtc_read cmos"
  have f: "1970 \<le> f_year ?f" "f_year ?f < 10000000" "1 \<le> f_month ?f" "f_month ?f \<le> 12"
      "1 \<le> f_day ?f" "f_day ?f \<le> month_length (f_year ?f) (f_month ?f)"
    using assms(3) by (simp_all add: valid_fields_def)
  note days = days_since_epoch_count [OF f] and s = seconds_of_day_parts(1,2) [OF assms(3)]
  let ?n = "day_number (f_year ?f) (f_month ?f) (f_day ?f)"
  have h: "0 \<le> f_hour ?f" "f_hour ?f < 24" "0 \<le> f_minute ?f" "f_minute ?f < 60" "0 \<le> f_second ?f" "f_second ?f < 60"
    using assms(3) by (simp_all add: valid_fields_def)
  have ready: "list_ex (\<lambda>i. polls i AND 0x80 = 0) [0..<100]" using assms(1,2) by (auto simp: list_ex_iff)
  have "s64 (s64 (s64 (?n * 24 + f_hour ?f) * 60 + f_minute ?f) * 60 + f_second ?f) = seconds_of ?f"
    using days(2,3) h by (simp add: s64_id seconds_of_def seconds_of_day_def)
  then show ?thesis using ready days(1) by (simp add: rtc_now_def)
qed

text \<open>
  What the registers of the chip mean by its data sheet, as an encoding and independent of the decoding in \<^verbatim>\<open>rtc_now\<close>:
  seconds, minutes, hours, day of the month, month and year of the century in the registers 0, 2, 4, 7, 8 and 9, in binary
  when bit 2 of register B is set and else with one decimal digit in each half of the byte. In 24-hour mode, when bit 1 of
  register B is set, the hours run from 0 to 23; else from 1 to 12, with bit 7 set in the afternoon.
\<close>

definition to_bcd :: "int \<Rightarrow> u8" where
  "to_bcd n = word_of_int (16 * (n div 10) + n mod 10)"

definition hour_register :: "(int \<Rightarrow> u8) \<Rightarrow> bool \<Rightarrow> int \<Rightarrow> u8" where
  "hour_register enc h24 h =
     (if h24 then enc h
      else enc (if h mod 12 = 0 then 12 else h mod 12) OR (if h < 12 then 0 else 0x80))"

definition chip_holds :: "(nat \<Rightarrow> u8) \<Rightarrow> rtc_fields \<Rightarrow> bool" where
  "chip_holds cmos d \<longleftrightarrow>
     (let enc = (if bit (cmos 0xb) 2 then word_of_int else to_bcd)
      in cmos 0 = enc (f_second d) \<and> cmos 2 = enc (f_minute d) \<and> cmos 4 = hour_register enc (bit (cmos 0xb) 1) (f_hour d)
         \<and> cmos 7 = enc (f_day d) \<and> cmos 8 = enc (f_month d) \<and> cmos 9 = enc (f_year d - 2000))"

lemma uint_small: "0 \<le> n \<Longrightarrow> n < 256 \<Longrightarrow> uint (word_of_int n :: u8) = n"
  by (simp add: uint_word_of_int)

lemma bcd_to_bin_to_bcd:
  assumes "0 \<le> n" "n < 100"
  shows "bcd_to_bin (uint (to_bcd n)) = n"
proof -
  have "n \<in> set [0..99]" using assms by simp
  moreover have "\<forall>n\<in>set [0..99]. bcd_to_bin (uint (to_bcd n)) = n"
    by code_simp
  ultimately show ?thesis by blast
qed

lemma hour_below_flag: "((x :: int) mod 12) AND 0x80 = 0"
proof -
  have "take_bit 4 (x mod 12) = x mod 12" by (simp add: take_bit_int_eq_self)
  then have "(x mod 12) AND 0x80 = (x mod 12) AND take_bit 4 0x80" by (metis take_bit_and and.assoc and.commute take_bit_eq_mask)
  then show ?thesis by simp
qed

text \<open>The bits of the mode register, as \<^verbatim>\<open>rtc_now\<close> tests them.\<close>

lemma mode_bits: "(x :: u8) AND 4 = 0 \<longleftrightarrow> \<not> bit x 2" "(x :: u8) AND 2 = 0 \<longleftrightarrow> \<not> bit x 1"
  using and_exp_eq_0_iff_not_bit [of x 2] and_exp_eq_0_iff_not_bit [of x 1] by simp_all

lemma bcd_hour:
  assumes "0 \<le> n" "n < 24"
  shows "bcd_to_bin (uint (to_bcd n) AND 0x7f) = n"
proof -
  have "n \<in> set [0..23]" using assms by simp
  moreover have "\<forall>n\<in>set [0..23]. bcd_to_bin (uint (to_bcd n) AND 0x7f) = n" by code_simp
  ultimately show ?thesis by blast
qed

lemma rtc_read_chip:
  assumes "chip_holds cmos d" "valid_fields d" "2000 \<le> f_year d" "f_year d < 2100" "bit (cmos 0xb) 1 \<or> f_hour d < 12"
  shows "rtc_read cmos = d"
proof -
  have d: "0 \<le> f_second d" "f_second d < 60" "0 \<le> f_minute d" "f_minute d < 60" "0 \<le> f_hour d" "f_hour d < 24"
    "1 \<le> f_month d" "f_month d \<le> 12" "1 \<le> f_day d" "f_day d \<le> month_length (f_year d) (f_month d)"
    using assms(2) by (simp_all add: valid_fields_def)
  have "f_day d \<le> 31" using d(10) month_length_pos [OF d(7,8), of "f_year d"] by simp
  note d = d(1-9) this
  let ?enc = "if bit (cmos 0xb) 2 then word_of_int else to_bcd"
  let ?h = "if bit (cmos 0xb) 1 then f_hour d else if f_hour d = 0 then 12 else f_hour d"
  have "hour_register ?enc (bit (cmos 0xb) 1) (f_hour d) = ?enc ?h"
    using d assms(5) by (auto simp: hour_register_def)
  then have regs: "cmos 0 = ?enc (f_second d)" "cmos 2 = ?enc (f_minute d)" "cmos 4 = ?enc ?h" "cmos 7 = ?enc (f_day d)"
    "cmos 8 = ?enc (f_month d)" "cmos 9 = ?enc (f_year d - 2000)"
    using assms(1) by (simp_all add: chip_holds_def Let_def)
  have h: "0 \<le> ?h" "?h < 24" "bit (cmos 0xb) 1 \<or> ?h mod 12 = f_hour d" using d assms(5) by auto
  have flag: "bit (cmos 0xb) 1 \<or> f_hour d AND 0x80 = 0" using h(3) hour_below_flag [of ?h] by auto
  define y where "y = f_year d - 2000"
  have y: "f_year d = 2000 + y" "0 \<le> y" "y < 100" using assms(3,4) by (simp_all add: y_def)
  have dec: "rtc_read cmos = \<lparr>f_year = f_year d, f_month = f_month d, f_day = f_day d,
      f_hour = (if bit (cmos 0xb) 1 then ?h else ?h mod 12), f_minute = f_minute d, f_second = f_second d\<rparr>"
  proof (cases "bit (cmos 0xb) 2")
    case True
    with regs d h(1,2) y flag show ?thesis
      by (simp add: rtc_read_def Let_def mode_bits uint_small hour_below_flag)
  next
    case False
    with regs d h(1,2) y flag show ?thesis
      by (simp add: rtc_read_def Let_def mode_bits bcd_to_bin_to_bcd bcd_hour hour_below_flag)
  qed
  with h(3) show ?thesis by (cases "bit (cmos 0xb) 1") simp_all
qed

text \<open>
  C35. Dates survive the way from the clock chip to a user program. Let the chip be ready at one of the hundred looks and its
  registers hold, by the data sheet, a date of the years 2000 to 2099, in binary or decimal digits, in 24-hour mode or before
  noon. Then the kernel starts with a count of seconds that \<^verbatim>\<open>gmtime_r\<close> takes apart into the same year, month, day, hour, minute
  and second, with the day of the year and with the day of the week counted from Thursday, the first of January 1970. The
  afternoon of 12-hour mode is left out: there the code gives an hour before noon (\<open>rtc_loses_afternoon\<close>).
\<close>

theorem rtc_gmtime_round_trip:
  assumes "i < 100" "polls i AND 0x80 = 0" "chip_holds cmos d" "valid_fields d" "2000 \<le> f_year d" "f_year d < 2100"
    and "bit (cmos 0xb) 1 \<or> f_hour d < 12"
  shows "\<exists>t. rtc_now polls cmos = Some t \<and> gmtime_r t = Some (tm_of d)"
  using rtc_now_decodes [of i polls cmos] gmtime_r_seconds [of d] rtc_read_chip [OF assms(3-7)] assms(1,2,4) by simp

definition example_cmos :: "nat \<Rightarrow> u8" where
  "example_cmos i = (if i = 0xb then 2 else if i = 9 then 0x24 else if i = 8 then 2 else if i = 7 then 0x29
     else if i = 4 then 0x23 else if i = 2 then 0x59 else if i = 0 then 0x58 else 0)"

text \<open>Two minutes before a leap day ends, in decimal digits and 24-hour mode.\<close>

definition example_date :: rtc_fields where
  "example_date = \<lparr>f_year = 2024, f_month = 2, f_day = 29, f_hour = 23, f_minute = 59, f_second = 58\<rparr>"

lemma example_chip_holds: "chip_holds example_cmos example_date"
  by (simp add: chip_holds_def example_cmos_def example_date_def to_bcd_def hour_register_def bit_simps)

theorem rtc_gmtime_round_trip_witness:
  "\<exists>t. rtc_now (\<lambda>_. 0) example_cmos = Some t
     \<and> gmtime_r t = Some \<lparr>tm_sec = 58, tm_min = 59, tm_hour = 23, tm_mday = 29, tm_mon = 1, tm_year = 124, tm_wday = 4, tm_yday = 59\<rparr>"
proof -
  have "tm_of example_date =
      \<lparr>tm_sec = 58, tm_min = 59, tm_hour = 23, tm_mday = 29, tm_mon = 1, tm_year = 124, tm_wday = 4, tm_yday = 59\<rparr>"
    by code_simp
  moreover have "valid_fields example_date" "2000 \<le> f_year example_date" "f_year example_date < 2100"
    by (simp_all add: example_date_def valid_fields_def month_length_def is_leap_year_def)
  moreover have "bit (example_cmos 0xb) 1" by (simp add: example_cmos_def bit_simps)
  ultimately show ?thesis
    using rtc_gmtime_round_trip [of 0 "\<lambda>_. 0" example_cmos example_date] example_chip_holds by simp
qed

section \<open>Clocks and sleeping\<close>

text \<open>A normal time has its nanoseconds below a second; \<open>nanos\<close> is its value.\<close>

definition nanos :: "timespec \<Rightarrow> int" where
  "nanos tp = tv_sec tp * NANOS + tv_nsec tp"

definition normal_time :: "timespec \<Rightarrow> bool" where
  "normal_time tp \<longleftrightarrow> 0 \<le> tv_sec tp \<and> tv_sec tp < 2 ^ 61 \<and> 0 \<le> tv_nsec tp \<and> tv_nsec tp < NANOS"

definition clocks_ok :: "clocks \<Rightarrow> bool" where
  "clocks_ok c \<longleftrightarrow> normal_time (now c)"

definition reading :: "clockid \<Rightarrow> clocks \<Rightarrow> int" where
  "reading clock_id c = (if clock_id = CLOCK_REALTIME then nanos (now c) else uint (uptime c) * (NANOS div CLK_TCK))"

lemma time_now_reading:
  assumes "clocks_ok c" "clock_id \<noteq> Other_Clock"
  shows "\<exists>tp. time_now c clock_id = Some (Inr tp) \<and> normal_time tp \<and> nanos tp = reading clock_id c"
proof (cases clock_id)
  case CLOCK_MONOTONIC
  define t where "t = uint (uptime c)"
  have t: "0 \<le> t" "t < 2 ^ 32" using uint_lt2p [of "uptime c"] by (simp_all add: t_def)
  define r where "r = t mod 250"
  have r: "0 \<le> r" "r < 250" "t = t div 250 * 250 + r" by (simp_all add: r_def)
  have s: "t - t div 250 * 250 = r" using r(3) by linarith
  have "divmodi64 (s64 (r * NANOS)) CLK_TCK = Some (r * 4000000, 0)"
    using r(1,2) divmodi64_nonneg [of "r * 1000000000" 250] by (simp add: s64_id)
  then have "time_now c clock_id = Some (Inr \<lparr>tv_sec = t div 250, tv_nsec = r * 4000000\<rparr>)"
    by (simp only: time_now_def CLOCK_MONOTONIC clockid.case Let_def t_def [symmetric] s bind.bind_lunit prod.case)
  moreover have "0 \<le> t div 250" "t div 250 < 2 ^ 61" using t by (simp_all add: pos_imp_zdiv_nonneg_iff)
  moreover have "t div 250 * 1000000000 + r * 4000000 = t * 4000000" using r(3) by linarith
  ultimately show ?thesis using r(1,2)
    by (simp add: normal_time_def nanos_def reading_def CLOCK_MONOTONIC t_def [symmetric])
qed (use assms in \<open>simp_all add: time_now_def clocks_ok_def reading_def\<close>)

text \<open>The timer interrupt moves both clocks by their resolution, until the tick counter wraps.\<close>

lemma time_tick_reading:
  assumes "clocks_ok c" "tv_sec (now c) + 1 < 2 ^ 61" "uint (uptime c) + 1 < 2 ^ 32" "clock_id \<noteq> Other_Clock"
  shows "clocks_ok (time_tick c) \<and> reading clock_id (time_tick c) = reading clock_id c + NANOS div CLK_TCK"
proof -
  have "uint (uptime c + 1) = uint (uptime c) + 1" using assms(3) by (simp add: uint_word_ariths)
  moreover have "s64 (tv_nsec (now c) + 4000000) = tv_nsec (now c) + 4000000" "s64 (tv_sec (now c) + 1) = tv_sec (now c) + 1"
    using assms(1,2) by (simp_all add: s64_id clocks_ok_def normal_time_def)
  ultimately show ?thesis
    using assms(1,2) by (auto simp: time_tick_def clocks_ok_def normal_time_def reading_def nanos_def Let_def)
qed

lemma timespec_add_nanos:
  assumes "normal_time a" "normal_time b"
  shows "nanos (timespec_add a b) = nanos a + nanos b" "0 \<le> tv_nsec (timespec_add a b)" "tv_nsec (timespec_add a b) < NANOS"
proof -
  have "s64 (tv_sec a + tv_sec b) = tv_sec a + tv_sec b" "s64 (tv_nsec a + tv_nsec b) = tv_nsec a + tv_nsec b"
    "s64 (tv_sec a + tv_sec b + 1) = tv_sec a + tv_sec b + 1"
    using assms by (simp_all add: s64_id normal_time_def)
  with assms show "nanos (timespec_add a b) = nanos a + nanos b" "0 \<le> tv_nsec (timespec_add a b)" "tv_nsec (timespec_add a b) < NANOS"
    by (simp_all add: timespec_add_def nanos_def normal_time_def Let_def)
qed

lemma timespec_compare_nanos:
  assumes "0 \<le> tv_nsec a" "tv_nsec a < NANOS" "0 \<le> tv_nsec b" "tv_nsec b < NANOS"
  shows "timespec_compare a b \<ge> 0 \<longleftrightarrow> nanos a \<ge> nanos b"
proof -
  consider "tv_sec a < tv_sec b" | "tv_sec a = tv_sec b" | "tv_sec a > tv_sec b" by linarith
  then show ?thesis
  proof cases
    case 1
    then have "nanos a < nanos b" using assms unfolding nanos_def by linarith
    with 1 show ?thesis by (simp add: timespec_compare_def)
  next
    case 3
    then have "nanos a > nanos b" using assms unfolding nanos_def by linarith
    with 3 show ?thesis by (simp add: timespec_compare_def)
  qed (simp add: timespec_compare_def nanos_def)
qed

lemma unblock_sleep_reading:
  assumes "clocks_ok c" "clock_id \<noteq> Other_Clock" "0 \<le> tv_nsec deadline" "tv_nsec deadline < NANOS"
  shows "unblock_sleep clock_id deadline c = Some (nanos deadline \<le> reading clock_id c)"
proof -
  obtain tp where "time_now c clock_id = Some (Inr tp)" "normal_time tp" "nanos tp = reading clock_id c"
    using time_now_reading [OF assms(1,2)] by auto
  with timespec_compare_nanos [of tp deadline] assms(3,4) show ?thesis
    by (simp add: unblock_sleep_def normal_time_def)
qed

text \<open>The end of a sleep in terms of the looks \<open>os\<close> at the clocks.\<close>

definition sleep_end :: "clockid \<Rightarrow> int \<Rightarrow> clocks obs list \<Rightarrow> timespec result wait \<Rightarrow> bool" where
  "sleep_end clock_id until os w \<longleftrightarrow>
     (case w of
        Asleep \<Rightarrow> \<forall>ob\<in>set (butlast os). reading clock_id (obs_world ob) < until
      | Woke (Inl e) \<Rightarrow> e = EINTR \<and> (\<exists>ob\<in>set os. obs_signal ob)
      | Woke (Inr _) \<Rightarrow> \<exists>ob\<in>set os. until \<le> reading clock_id (obs_world ob))"

lemma sleep_until_end:
  assumes os: "\<forall>ob\<in>set os. clocks_ok (obs_world ob)" and id: "clock_id \<noteq> Other_Clock"
    and dl: "0 \<le> tv_nsec deadline" "tv_nsec deadline < NANOS"
  shows "\<exists>w. sleep_until os clock_id deadline want = Some w \<and> sleep_end clock_id (nanos deadline) os w"
proof -
  let ?u = "unblock_sleep clock_id deadline" and ?p = "\<lambda>c. nanos deadline \<le> reading clock_id c"
  have u: "\<forall>ob\<in>set os. ?u (obs_world ob) = Some (?p (obs_world ob))"
    using os unblock_sleep_reading [OF _ id dl] by auto
  from sched_wait_cases [OF u] consider
      "sched_wait ?u os = Some Asleep" "\<forall>ob\<in>set os. \<not> ?p (obs_world ob)"
    | os' where "sched_wait ?u os = Some (Woke (Inl EINTR, os'))" "\<exists>ob\<in>set os. obs_signal ob"
    | pre ob os' where "sched_wait ?u os = Some (Woke (Inr (), os'))" "os = pre @ ob # os'" "?p (obs_world ob)"
        "\<forall>ob\<in>set pre. \<not> ?p (obs_world ob)"
    by blast
  then show ?thesis
  proof cases
    case 1
    then show ?thesis by (auto simp: sleep_until_def sleep_end_def not_le dest: in_set_butlastD)
  next
    case 2
    then show ?thesis by (simp add: sleep_until_def sleep_end_def)
  next
    case (3 pre ob os')
    show ?thesis
    proof (cases "want \<and> os' \<noteq> []")
      case True
      then obtain ob' rest where r: "os' = ob' # rest" by (cases os') auto
      with 3(2) os time_now_reading [OF _ id, of "obs_world ob'"] obtain tp
        where "time_now (obs_world ob') clock_id = Some (Inr tp)" by auto
      with 3 r True show ?thesis by (auto simp: sleep_until_def sleep_end_def)
    next
      case False
      with 3 show ?thesis by (cases want) (auto simp: sleep_until_def sleep_end_def butlast_append not_le)
    qed
  qed
qed

text \<open>
  C36.
  A sleep lasts at least as long as it was asked to and no longer than it must. On a clock that exists, with normal times,
  \<^verbatim>\<open>clock_nanosleep\<close> never panics. It returns success only when a look at the clock has shown the starting time plus
  the requested time, or the requested time itself with \<^verbatim>\<open>TIMER_ABSTIME\<close>; it returns EINTR only when there was a signal;
  and it is still asleep only when no look before the last one had shown that time.
\<close>

theorem sleep_lasts_as_requested:
  assumes "clocks_ok c" "\<forall>ob\<in>set os. clocks_ok (obs_world ob)" "clockid = 0 \<or> clockid = 1" "normal_time request"
    and "flags = 0 \<or> flags = TIMER_ABSTIME"
  shows "\<exists>w. clock_nanosleep c os clockid flags request want = Some w
     \<and> sleep_end (clockid_of clockid) ((if flags = 0 then reading (clockid_of clockid) c else 0) + nanos request) os w"
proof -
  have id: "clockid_of clockid \<noteq> Other_Clock" using assms(3) by (auto simp: clockid_of_def)
  obtain tp where tp: "time_now c (clockid_of clockid) = Some (Inr tp)" "normal_time tp"
      "nanos tp = reading (clockid_of clockid) c"
    using time_now_reading [OF assms(1) id] by auto
  note add = timespec_add_nanos [OF tp(2) assms(4)]
  from assms(5) show ?thesis
  proof
    assume "flags = 0"
    with sleep_until_end [OF assms(2) id add(2,3), of want] tp(1,3) add(1) show ?thesis by (simp add: clock_nanosleep_def)
  next
    assume "flags = TIMER_ABSTIME"
    with sleep_until_end [OF assms(2) id, of request False] assms(4) tp(1) show ?thesis
      by (simp add: clock_nanosleep_def normal_time_def)
  qed
qed

definition example_clocks :: "u32 \<Rightarrow> clocks" where
  "example_clocks ticks = \<lparr>uptime = ticks, now = \<lparr>tv_sec = 0, tv_nsec = 0\<rparr>\<rparr>"

theorem sleep_lasts_as_requested_witness:
  "\<exists>w. clock_nanosleep (example_clocks 100)
         [\<lparr>obs_world = example_clocks 101, obs_signal = False\<rparr>, \<lparr>obs_world = example_clocks 102, obs_signal = False\<rparr>]
         1 0 \<lparr>tv_sec = 0, tv_nsec = 8000000\<rparr> False = Some w
     \<and> sleep_end CLOCK_MONOTONIC 408000000
         [\<lparr>obs_world = example_clocks 101, obs_signal = False\<rparr>, \<lparr>obs_world = example_clocks 102, obs_signal = False\<rparr>] w"
  using sleep_lasts_as_requested [of "example_clocks 100"
      "[\<lparr>obs_world = example_clocks 101, obs_signal = False\<rparr>, \<lparr>obs_world = example_clocks 102, obs_signal = False\<rparr>]"
      1 "\<lparr>tv_sec = 0, tv_nsec = 8000000\<rparr>" 0 False]
  by (simp add: example_clocks_def clocks_ok_def normal_time_def clockid_of_def reading_def nanos_def)

section \<open>Where the clocks fail\<close>

text \<open>
  An interrupted sleep does not report the time that is left: the store of \<^verbatim>\<open>remain\<close> is behind the return of EINTR, so
  the user's buffer is not written.
\<close>

lemma interrupted_sleep_keeps_remain:
  assumes "nanosleep_call parse sz layout c os m clockid flags user_request user_remain = Some (Woke (Inl EINTR, m'))"
  shows "m' = m"
proof (cases "get_user m user_request sz")
  case (Inr bs)
  with assms obtain w where "clock_nanosleep c os clockid flags (parse bs) (user_remain \<noteq> 0) = Some w"
    by (auto simp: nanosleep_call_def option_bind_Some_iff)
  with assms Inr show ?thesis
    by (cases w rule: wait.exhaust; simp add: nanosleep_call_def)
       (auto simp: store_result_def split: sum.splits if_splits prod.splits)
qed (use assms in \<open>simp add: nanosleep_call_def\<close>)

text \<open>
  A clock chip in 12-hour mode loses the afternoon: the hour is reduced modulo 12 before the PM flag, bit 7 of the register,
  is tested.
\<close>

lemma rtc_loses_afternoon:
  assumes "cmos 0xb AND 2 = 0"
  shows "f_hour (rtc_read cmos) < 12"
  using assms by (simp add: rtc_read_def Let_def hour_below_flag)

end
