(* ===== verification/Task_Sys.thy ===== *)
theory Task_Sys
  imports Sched Signal Blocking
begin

text \<open>
  The task system calls of \<^verbatim>\<open>kernel/syscall/task.c\<close>: identities, process groups, thread-local segments, \<^verbatim>\<open>clone\<close> and
  \<^verbatim>\<open>wait4\<close>, with the macros of \<^verbatim>\<open>kernel/api/sys/wait.h\<close> that take an exit status apart.

  The state of the scheduler with its task table is that of the theory \<open>Sched\<close>. Besides it the calls here use the
  thread-local segments of each task and their copy in the descriptor table of each processor.
\<close>

section \<open>Thread-local segments\<close>

text \<open>Bit fields are words of their width.\<close>

record gdt_segment =
  limit_lo :: u16
  base_lo :: u16
  base_mid :: u8
  seg_type :: "4 word"
  seg_s :: "1 word"
  dpl :: "2 word"
  seg_p :: "1 word"
  limit_hi :: "4 word"
  avl :: "1 word"
  seg_l :: "1 word"
  db :: "1 word"
  seg_g :: "1 word"
  base_hi :: u8

record user_desc =
  entry_number :: u32
  base_addr :: u32
  limit :: u32
  seg_32bit :: "1 word"
  contents :: "2 word"
  read_exec_only :: "1 word"
  limit_in_pages :: "1 word"
  seg_not_present :: "1 word"
  useable :: "1 word"

record sys =
  sched_state :: sched
  tls :: "nat \<Rightarrow> gdt_segment list"
  gdt_tls :: "nat \<Rightarrow> gdt_segment list"

abbreviation sys_kern :: "sys \<Rightarrow> kernel" where
  "sys_kern s \<equiv> kern (sched_state s)"

definition set_kern :: "sys \<Rightarrow> kernel \<Rightarrow> sys" where
  "set_kern s k = s\<lparr>sched_state := (sched_state s)\<lparr>kern := k\<rparr>\<rparr>"

abbreviation (input) GDT_ENTRY_TLS_MIN :: int where "GDT_ENTRY_TLS_MIN \<equiv> 6"
abbreviation (input) NUM_GDT_TLS_ENTRIES :: int where "NUM_GDT_TLS_ENTRIES \<equiv> 3"

definition empty_segment :: gdt_segment where
  "empty_segment =
     \<lparr>limit_lo = 0, base_lo = 0, base_mid = 0, seg_type = 0, seg_s = 0, dpl = 0, seg_p = 0, limit_hi = 0, avl = 0,
      seg_l = 0, db = 0, seg_g = 0, base_hi = 0\<rparr>"

definition tls_index_ok :: "u32 \<Rightarrow> bool" where
  "tls_index_ok n \<longleftrightarrow> GDT_ENTRY_TLS_MIN \<le> sint n \<and> sint n < GDT_ENTRY_TLS_MIN + NUM_GDT_TLS_ENTRIES"

definition get_tls_entry :: "gdt_segment list \<Rightarrow> user_desc \<Rightarrow> user_desc result" where
  "get_tls_entry segs u =
     (if \<not> tls_index_ok (entry_number u) then Inl EINVAL
      else let s = segs ! nat (sint (entry_number u) - GDT_ENTRY_TLS_MIN)
      in Inr (u\<lparr>base_addr := ucast (base_lo s) OR push_bit 16 (ucast (base_mid s)) OR push_bit 24 (ucast (base_hi s)),
                limit := ucast (limit_lo s) OR push_bit 16 (ucast (limit_hi s)),
                seg_32bit := db s,
                contents := ucast (drop_bit 2 (seg_type s)),
                read_exec_only := of_bool (seg_type s AND 2 = 0),
                limit_in_pages := seg_g s,
                seg_not_present := of_bool (seg_p s = 0),
                useable := avl s\<rparr>))"

definition is_user_desc_empty :: "user_desc \<Rightarrow> bool" where
  "is_user_desc_empty u \<longleftrightarrow>
     (if base_addr u \<noteq> 0 \<or> limit u \<noteq> 0 \<or> seg_32bit u \<noteq> 0 \<or> contents u \<noteq> 0 \<or> limit_in_pages u \<noteq> 0 \<or> useable u \<noteq> 0
      then False
      else if read_exec_only u = 0 \<and> seg_not_present u = 0 then True
      else if read_exec_only u \<noteq> 0 \<and> seg_not_present u \<noteq> 0 then True
      else False)"

definition is_user_desc_valid :: "user_desc \<Rightarrow> bool" where
  "is_user_desc_valid u \<longleftrightarrow>
     (if is_user_desc_empty u then True
      else if seg_32bit u = 0 then False
      else if contents u > 1 then False
      else if seg_not_present u \<noteq> 0 then False
      else True)"

definition set_tls_entry :: "gdt_segment list \<Rightarrow> user_desc \<Rightarrow> gdt_segment list result" where
  "set_tls_entry segs u =
     (if \<not> tls_index_ok (entry_number u) then Inl EINVAL
      else let i = nat (sint (entry_number u) - GDT_ENTRY_TLS_MIN)
      in Inr (segs[i :=
           if is_user_desc_empty u then empty_segment
           else \<lparr>limit_lo = ucast (limit u AND 0xffff),
                 base_lo = ucast (base_addr u AND 0xffff),
                 base_mid = ucast (drop_bit 16 (base_addr u) AND 0xff),
                 seg_type = (if read_exec_only u = 0 then 2 else 0) OR push_bit 2 (ucast (contents u)) OR 1,
                 seg_s = 1, dpl = 3, seg_p = of_bool (seg_not_present u = 0),
                 limit_hi = ucast (drop_bit 16 (limit u) AND 0xf),
                 avl = useable u, seg_l = 0, db = seg_32bit u, seg_g = limit_in_pages u,
                 base_hi = ucast (drop_bit 24 (base_addr u) AND 0xff)\<rparr>]))"

text \<open>The free entry is one that is all zero.\<close>

fun find_free_tls :: "gdt_segment list \<Rightarrow> nat \<Rightarrow> u32 result" where
  "find_free_tls [] i = Inl ESRCH"
| "find_free_tls (s # segs) i =
     (if s \<noteq> empty_segment then find_free_tls segs (Suc i) else Inr (of_nat i + 6))"

definition find_free_tls_entry :: "gdt_segment list \<Rightarrow> u32 result" where
  "find_free_tls_entry segs = find_free_tls segs 0"

text \<open>Layout of \<^verbatim>\<open>struct user_desc\<close>: three words, then a word with the bit fields from the low end up.\<close>

definition user_desc_flags :: "user_desc \<Rightarrow> u32" where
  "user_desc_flags u =
     ucast (seg_32bit u) OR push_bit 1 (ucast (contents u)) OR push_bit 3 (ucast (read_exec_only u))
     OR push_bit 4 (ucast (limit_in_pages u)) OR push_bit 5 (ucast (seg_not_present u)) OR push_bit 6 (ucast (useable u))"

text \<open>The bits above the fields are padding, which a copy of the structure takes along; \<open>pad\<close> is the word they come from.\<close>

definition user_desc_bytes :: "u32 \<Rightarrow> user_desc \<Rightarrow> u8 list" where
  "user_desc_bytes pad u =
     words_bytes [entry_number u, base_addr u, limit u, user_desc_flags u OR (pad AND NOT 0x7f)]"

definition user_desc_of :: "u8 list \<Rightarrow> user_desc" where
  "user_desc_of bs =
     (let f = word_at bs 12
      in \<lparr>entry_number = word_at bs 0, base_addr = word_at bs 4, limit = word_at bs 8,
          seg_32bit = ucast f, contents = ucast (drop_bit 1 f), read_exec_only = ucast (drop_bit 3 f),
          limit_in_pages = ucast (drop_bit 4 f), seg_not_present = ucast (drop_bit 5 f), useable = ucast (drop_bit 6 f)\<rparr>)"

definition sys_get_thread_area :: "sys \<Rightarrow> mem \<Rightarrow> u32 \<Rightarrow> unit result \<times> mem" where
  "sys_get_thread_area s m user_u_info =
     (case get_user m user_u_info 16 of
        Inl _ \<Rightarrow> (Inl EFAULT, m)
      | Inr bs \<Rightarrow>
          (case get_tls_entry (tls s (current (sys_kern s))) (user_desc_of bs) of
             Inl e \<Rightarrow> (Inl e, m)
           | Inr u \<Rightarrow>
               let (r, m) = put_user m user_u_info (user_desc_bytes (word_at bs 12) u)
               in (case r of Inl _ \<Rightarrow> Inl EFAULT | Inr _ \<Rightarrow> Inr (), m)))"

text \<open>\<^verbatim>\<open>sys_set_thread_area\<close> on processor \<open>c\<close>, whose descriptor table gets a copy of the segments.\<close>

definition sys_set_thread_area :: "sys \<Rightarrow> nat \<Rightarrow> mem \<Rightarrow> u32 \<Rightarrow> unit result \<times> sys \<times> mem" where
  "sys_set_thread_area s c m user_u_info =
     (case get_user m user_u_info 16 of
        Inl _ \<Rightarrow> (Inl EFAULT, s, m)
      | Inr bs \<Rightarrow>
          let u = user_desc_of bs; cur = current (sys_kern s); segs = tls s cur
          in if \<not> is_user_desc_valid u then (Inl EINVAL, s, m)
             else let should_alloc = (entry_number u = - 1)
             in (case (if should_alloc then find_free_tls_entry segs else Inr (entry_number u)) of
                   Inl e \<Rightarrow> (Inl e, s, m)
                 | Inr index \<Rightarrow>
                     (case set_tls_entry segs (u\<lparr>entry_number := index\<rparr>) of
                        Inl e \<Rightarrow> (Inl e, s, m)
                      | Inr segs' \<Rightarrow>
                          let s = s\<lparr>tls := (tls s)(cur := segs'), gdt_tls := (gdt_tls s)(c := segs')\<rparr>
                          in if should_alloc then
                               let (r, m) = put_user m user_u_info (word_bytes index)
                               in (case r of Inl _ \<Rightarrow> Inl EFAULT | Inr _ \<Rightarrow> Inr (), s, m)
                             else (Inr (), s, m))))"

section \<open>Identities and process groups\<close>

definition sys_exit :: "kernel \<Rightarrow> int \<Rightarrow> (release list \<times> kernel) option" where
  "sys_exit k status = task_exit k status"

definition sys_exit_group :: "kernel \<Rightarrow> int \<Rightarrow> (release list \<times> kernel) option" where
  "sys_exit_group k status = task_exit_thread_group k status"

definition current_task_of :: "kernel \<Rightarrow> task option" where
  "current_task_of k = tasks k (current k)"

definition sys_gettid :: "kernel \<Rightarrow> int option" where
  "sys_gettid k = map_option tid (current_task_of k)"

definition sys_getpid :: "kernel \<Rightarrow> int option" where
  "sys_getpid k = map_option tgid (current_task_of k)"

definition sys_getppid :: "kernel \<Rightarrow> int option" where
  "sys_getppid k = map_option ppid (current_task_of k)"

definition sys_getpgrp :: "kernel \<Rightarrow> int option" where
  "sys_getpgrp k = map_option pgid (current_task_of k)"

definition sys_getpgid :: "kernel \<Rightarrow> int \<Rightarrow> (int result \<times> release list \<times> kernel) option" where
  "sys_getpgid k pid =
     do {
       cur \<leftarrow> current_task_of k;
       if pid = 0 then Some (Inr (pgid cur), [], k)
       else do {
         (r, k) \<leftarrow> task_find_by_tid k pid;
         case r of
           None \<Rightarrow> Some (Inl ESRCH, [], k)
         | Some a \<Rightarrow>
             do {
               t \<leftarrow> tasks k a;
               (rs, k) \<leftarrow> task_unref k (Some a);
               Some (Inr (pgid t), rs, k)
             }
       }
     }"

definition sys_setpgid :: "kernel \<Rightarrow> int \<Rightarrow> int \<Rightarrow> (unit result \<times> release list \<times> kernel) option" where
  "sys_setpgid k pid new_pgid =
     (if new_pgid < 0 then Some (Inl EINVAL, [], k)
      else do {
        cur \<leftarrow> current_task_of k;
        let target_tgid = (if pid \<noteq> 0 then pid else tgid cur);
        (r, k) \<leftarrow> task_find_by_tid k target_tgid;
        case r of
          None \<Rightarrow> Some (Inl ESRCH, [], k)
        | Some a \<Rightarrow>
            do {
              let k = update_task k a (\<lambda>t. t\<lparr>pgid := if new_pgid \<noteq> 0 then new_pgid else target_tgid\<rparr>);
              (rs, k) \<leftarrow> task_unref k (Some a);
              Some (Inr (), rs, k)
            }
      })"

text \<open>\<^verbatim>\<open>sys_times\<close>: \<open>ticks\<close> is the global \<^verbatim>\<open>uptime\<close>. The times of the children are always zero.\<close>

definition sys_times :: "kernel \<Rightarrow> u32 \<Rightarrow> mem \<Rightarrow> u32 \<Rightarrow> (u32 result \<times> mem) option" where
  "sys_times k ticks m user_buf =
     do {
       cur \<leftarrow> current_task_of k;
       Some (if user_buf \<noteq> 0 then
               let (r, m) = put_user m user_buf (words_bytes [user_ticks cur, kernel_ticks cur, 0, 0])
               in (case r of Inl _ \<Rightarrow> Inl EFAULT | Inr _ \<Rightarrow> Inr ticks, m)
             else (Inr ticks, m))
     }"

section \<open>Cloning\<close>

text \<open>
  What the memory allocator, \<^verbatim>\<open>vm_clone\<close> and \<^verbatim>\<open>path_dup\<close> return in one call of \<^verbatim>\<open>sys_clone\<close>: the addresses of the new
  objects, or \<open>None\<close> for the null pointer.
\<close>

record clone_env =
  new_task :: "nat option"
  new_stack :: "nat option"
  new_vm :: "nat result"
  new_fs :: "nat option"
  new_path :: "nat result"
  new_files :: "nat option"
  new_sighand :: "nat option"
  new_group :: "nat option"

text \<open>Calls that leave this component: references on address spaces and open files, and what the unref functions release.\<close>

datatype clone_call = VmRef "nat option" | VmUnref "nat option" | FileRef nat | Released release

text \<open>When \<^verbatim>\<open>path_dup\<close> fails, \<^verbatim>\<open>fs_clone\<close> reads the error out of the block it has just freed: a wild access.\<close>

definition fs_clone :: "kernel \<Rightarrow> clone_env \<Rightarrow> nat option \<Rightarrow> (nat result \<times> kernel) option" where
  "fs_clone k env r =
     (case new_fs env of
        None \<Rightarrow> Some (Inl ENOMEM, k)
      | Some a \<Rightarrow>
          do {
            old \<leftarrow> r;
            f \<leftarrow> fss k old;
            case new_path env of
              Inl _ \<Rightarrow> None
            | Inr path \<Rightarrow> Some (Inr a, k\<lparr>fss := (fss k)(a \<mapsto> \<lparr>cwd = path, fs_ref_count = 1\<rparr>)\<rparr>)
          })"

definition files_clone :: "kernel \<Rightarrow> clone_env \<Rightarrow> nat option \<Rightarrow> (nat result \<times> clone_call list \<times> kernel) option" where
  "files_clone k env r =
     (case new_files env of
        None \<Rightarrow> Some (Inl ENOMEM, [], k)
      | Some a \<Rightarrow>
          do {
            old \<leftarrow> r;
            f \<leftarrow> file_tables k old;
            Some (Inr a, map FileRef (List.map_filter id (entries f)),
                  k\<lparr>file_tables := (file_tables k)(a \<mapsto> \<lparr>entries = entries f, files_ref_count = 1\<rparr>)\<rparr>)
          })"

definition sighand_clone :: "kernel \<Rightarrow> clone_env \<Rightarrow> nat option \<Rightarrow> (nat result \<times> kernel) option" where
  "sighand_clone k env r =
     (case new_sighand env of
        None \<Rightarrow> Some (Inl ENOMEM, k)
      | Some a \<Rightarrow>
          do {
            old \<leftarrow> r;
            h \<leftarrow> sighands k old;
            Some (Inr a, k\<lparr>sighands := (sighands k)(a \<mapsto> \<lparr>actions = actions h, sighand_ref_count = 1\<rparr>)\<rparr>)
          })"

definition thread_group_create :: "kernel \<Rightarrow> clone_env \<Rightarrow> nat result \<times> kernel" where
  "thread_group_create k env =
     (case new_group env of
        None \<Rightarrow> (Inl ENOMEM, k)
      | Some a \<Rightarrow> (Inr a, k\<lparr>groups := (groups k)(a \<mapsto> \<lparr>num_running = 0, group_ref_count = 1\<rparr>)\<rparr>))"

definition task_generate_next_tid :: "kernel \<Rightarrow> int \<times> kernel" where
  "task_generate_next_tid k = (next_tid k, k\<lparr>next_tid := sint (word_of_int (next_tid k + 1) :: u32)\<rparr>)"

abbreviation (input) CLONE_VM :: u32 where "CLONE_VM \<equiv> 0x100"
abbreviation (input) CLONE_FS :: u32 where "CLONE_FS \<equiv> 0x200"
abbreviation (input) CLONE_FILES :: u32 where "CLONE_FILES \<equiv> 0x400"
abbreviation (input) CLONE_SIGHAND :: u32 where "CLONE_SIGHAND \<equiv> 0x800"
abbreviation (input) CLONE_THREAD :: u32 where "CLONE_THREAD \<equiv> 0x10000"
abbreviation (input) CLONE_SETTLS :: u32 where "CLONE_SETTLS \<equiv> 0x80000"
abbreviation (input) CLONE_PARENT_SETTID :: u32 where "CLONE_PARENT_SETTID \<equiv> 0x100000"

text \<open>The five resources that a flag of \<^verbatim>\<open>clone\<close> shares and that are copied or created without it.\<close>

definition clone_vm :: "clone_env \<Rightarrow> u32 \<Rightarrow> task \<Rightarrow> nat option result \<times> clone_call list" where
  "clone_vm env flags cur =
     (if flags AND CLONE_VM \<noteq> 0 then (Inr (task_vm cur), [VmRef (task_vm cur)])
      else (map_sum id Some (new_vm env), []))"

definition clone_fs :: "kernel \<Rightarrow> clone_env \<Rightarrow> u32 \<Rightarrow> task \<Rightarrow> (nat option result \<times> kernel) option" where
  "clone_fs k env flags cur =
     (if flags AND CLONE_FS \<noteq> 0 then do { k \<leftarrow> fs_ref k (task_fs cur); Some (Inr (task_fs cur), k) }
      else do { (r, k) \<leftarrow> fs_clone k env (task_fs cur); Some (map_sum id Some r, k) })"

definition clone_files :: "kernel \<Rightarrow> clone_env \<Rightarrow> u32 \<Rightarrow> task \<Rightarrow> (nat option result \<times> clone_call list \<times> kernel) option" where
  "clone_files k env flags cur =
     (if flags AND CLONE_FILES \<noteq> 0 then do { k \<leftarrow> files_ref k (task_files cur); Some (Inr (task_files cur), [], k) }
      else do { (r, cs, k) \<leftarrow> files_clone k env (task_files cur); Some (map_sum id Some r, cs, k) })"

definition clone_sighand :: "kernel \<Rightarrow> clone_env \<Rightarrow> u32 \<Rightarrow> task \<Rightarrow> (nat option result \<times> kernel) option" where
  "clone_sighand k env flags cur =
     (if flags AND CLONE_SIGHAND \<noteq> 0 then do { k \<leftarrow> sighand_ref k (task_sighand cur); Some (Inr (task_sighand cur), k) }
      else do { (r, k) \<leftarrow> sighand_clone k env (task_sighand cur); Some (map_sum id Some r, k) })"

definition clone_group :: "kernel \<Rightarrow> clone_env \<Rightarrow> u32 \<Rightarrow> task \<Rightarrow> (nat option result \<times> kernel) option" where
  "clone_group k env flags cur =
     (if flags AND CLONE_THREAD \<noteq> 0 then do { k \<leftarrow> thread_group_ref k (task_group cur); Some (Inr (task_group cur), k) }
      else let (r, k) = thread_group_create k env in Some (map_sum id Some r, k))"

text \<open>The label \<^verbatim>\<open>fail\<close>: what the half-built task \<open>t\<close> holds is given back.\<close>

definition clone_fail :: "kernel \<Rightarrow> task \<Rightarrow> (clone_call list \<times> kernel) option" where
  "clone_fail k t =
     do {
       k \<leftarrow> thread_group_unref k (task_group t);
       k \<leftarrow> sighand_unref k (task_sighand t);
       (rs, k) \<leftarrow> files_unref k (task_files t);
       (rs', k) \<leftarrow> fs_unref k (task_fs t);
       Some (map Released (rs @ rs') @ [VmUnref (task_vm t)], k)
     }"

text \<open>\<^verbatim>\<open>strlcpy\<close> into a field of 16 bytes from another one; a source without a terminator is read past its end.\<close>

definition copy_comm :: "u8 list \<Rightarrow> u8 list \<Rightarrow> u8 list option" where
  "copy_comm dst src =
     (if 0 \<notin> set src then None
      else let s = take 15 (takeWhile (\<lambda>x. x \<noteq> 0) src) in Some (s @ 0 # drop (length s + 1) dst))"

text \<open>The task as its first assignment leaves it, with its ids.\<close>

definition clone_task :: "task \<Rightarrow> u32 \<Rightarrow> int \<Rightarrow> task option" where
  "clone_task cur flags i =
     do {
       name \<leftarrow> copy_comm (replicate 16 0) (comm cur);
       let thread = (flags AND CLONE_THREAD \<noteq> 0);
       Some \<lparr>tid = i, tgid = (if thread then tgid cur else i), pgid = pgid cur, ppid = (if thread then ppid cur else tgid cur),
             state = TASK_RUNNING, exit_status = 0, comm = name, task_vm = None, task_fs = None, task_files = None,
             task_sighand = None, exit_signal = 0, pending_signals = 0, blocked_signals = blocked_signals cur,
             unblock = None, interrupted = False, task_group = None, user_ticks = user_ticks cur,
             kernel_ticks = kernel_ticks cur, task_ref_count = 1\<rparr>
     }"

text \<open>
  The steps between the allocation of the stack and the label \<^verbatim>\<open>fail\<close>, in order. The result is the error, if there is
  one, with the task as far as it is built, its segments, the calls and the new state of kernel and memory.
\<close>

definition clone_build ::
    "kernel \<Rightarrow> gdt_segment list \<Rightarrow> clone_env \<Rightarrow> mem \<Rightarrow> u32 \<Rightarrow> u32 \<Rightarrow> u32 \<Rightarrow> task \<Rightarrow> task
      \<Rightarrow> (errno option \<times> task \<times> gdt_segment list \<times> clone_call list \<times> kernel \<times> mem) option" where
  "clone_build k segs env m flags user_parent_tid user_tls cur t =
     (let fail = (\<lambda>e t cs k m. Some (Some e, t, segs, cs, k, m)) in
      case clone_vm env flags cur of
        (Inl e, cs) \<Rightarrow> fail e t cs k m
      | (Inr vm, cs) \<Rightarrow> do {
          let t = t\<lparr>task_vm := vm\<rparr>;
          (r, k) \<leftarrow> clone_fs k env flags cur;
          case r of Inl e \<Rightarrow> fail e t cs k m
          | Inr f \<Rightarrow> do {
              let t = t\<lparr>task_fs := f\<rparr>;
              (r, cs', k) \<leftarrow> clone_files k env flags cur;
              let cs = cs @ cs';
              case r of Inl e \<Rightarrow> fail e t cs k m
              | Inr f \<Rightarrow> do {
                  let t = t\<lparr>task_files := f\<rparr>;
                  (r, k) \<leftarrow> clone_sighand k env flags cur;
                  case r of Inl e \<Rightarrow> fail e t cs k m
                  | Inr h \<Rightarrow> do {
                      let t = t\<lparr>task_sighand := h\<rparr>;
                      (r, k) \<leftarrow> clone_group k env flags cur;
                      case r of Inl e \<Rightarrow> fail e t cs k m
                      | Inr g \<Rightarrow> do {
                          let t = (if flags AND CLONE_THREAD \<noteq> 0 then t\<lparr>task_group := g\<rparr>
                                   else t\<lparr>task_group := g, exit_signal := unat (flags AND 0xff)\<rparr>);
                          case (if flags AND CLONE_SETTLS = 0 then Inr segs
                                else case get_user m user_tls 16 of
                                       Inl _ \<Rightarrow> Inl EFAULT
                                     | Inr bs \<Rightarrow> if \<not> is_user_desc_valid (user_desc_of bs) then Inl EINVAL
                                                else set_tls_entry segs (user_desc_of bs)) of
                            Inl e \<Rightarrow> fail e t cs k m
                          | Inr segs' \<Rightarrow>
                              if flags AND CLONE_PARENT_SETTID = 0 then Some (None, t, segs', cs, k, m)
                              else let (r, m) = put_user m user_parent_tid (word_bytes (word_of_int (tid t)))
                              in (case r of
                                    Inl _ \<Rightarrow> fail EFAULT t cs k m
                                  | Inr _ \<Rightarrow> Some (None, t, segs', cs, k, m))
                        }
                    }
                }
            }
        })"

text \<open>The registers with which the child leaves the kernel.\<close>

definition child_regs :: "registers \<Rightarrow> u32 \<Rightarrow> registers" where
  "child_regs regs user_stack =
     (let r = regs\<lparr>r_eax := 0\<rparr> in if user_stack \<noteq> 0 then r\<lparr>r_esp := user_stack\<rparr> else r)"

definition sys_clone ::
    "sys \<Rightarrow> clone_env \<Rightarrow> mem \<Rightarrow> registers \<Rightarrow> u32 \<Rightarrow> u32 \<Rightarrow> u32 \<Rightarrow> u32
      \<Rightarrow> ((int \<times> registers) result \<times> clone_call list \<times> sys \<times> mem) option" where
  "sys_clone s env m regs flags user_stack user_parent_tid user_tls =
     (if flags AND CLONE_SIGHAND \<noteq> 0 \<and> flags AND CLONE_VM = 0 then Some (Inl EINVAL, [], s, m)
      else if flags AND CLONE_THREAD \<noteq> 0 \<and> flags AND CLONE_SIGHAND = 0 then Some (Inl EINVAL, [], s, m)
      else case new_task env of
        None \<Rightarrow> Some (Inl ENOMEM, [], s, m)
      | Some a \<Rightarrow> do {
          cur \<leftarrow> current_task_of (sys_kern s);
          let (i, k) = task_generate_next_tid (sys_kern s);
          t \<leftarrow> clone_task cur flags i;
          if new_stack env = None then do {
            (cs, k) \<leftarrow> clone_fail k t;
            Some (Inl ENOMEM, cs, set_kern s k, m)
          }
          else do {
            (e, t, segs, cs, k, m) \<leftarrow>
              clone_build k (tls s (current k)) env m flags user_parent_tid user_tls cur t;
            case e of
              Some e \<Rightarrow> do {
                (cs', k) \<leftarrow> clone_fail k t;
                Some (Inl e, cs @ cs', set_kern s k, m)
              }
            | None \<Rightarrow> do {
                ga \<leftarrow> task_group t;
                g \<leftarrow> groups k ga;
                let k = k\<lparr>groups := (groups k)(ga \<mapsto> g\<lparr>num_running := num_running g + 1\<rparr>),
                          tasks := (tasks k)(a \<mapsto> t)\<rparr>;
                sc \<leftarrow> sched_register ((sched_state s)\<lparr>kern := k\<rparr>) a;
                Some (Inr (i, child_regs regs user_stack), cs, s\<lparr>sched_state := sc, tls := (tls s)(a := segs)\<rparr>, m)
              }
          }
        })"

definition sys_fork ::
    "sys \<Rightarrow> clone_env \<Rightarrow> mem \<Rightarrow> registers \<Rightarrow> ((int \<times> registers) result \<times> clone_call list \<times> sys \<times> mem) option" where
  "sys_fork s env m regs = sys_clone s env m regs (of_nat SIGCHLD) 0 0 0"

section \<open>Names\<close>

text \<open>
  \<^verbatim>\<open>sys_prctl\<close>; \<open>buf\<close> is the address of its local array of 16 bytes on the kernel stack. A name of 16 bytes or more
  leaves the array without a terminator, and \<^verbatim>\<open>strlcpy\<close> reads past its end.
\<close>

abbreviation (input) PR_SET_NAME :: int where "PR_SET_NAME \<equiv> 15"
abbreviation (input) PR_GET_NAME :: int where "PR_GET_NAME \<equiv> 16"

definition sys_prctl :: "kernel \<Rightarrow> mem \<Rightarrow> u32 \<Rightarrow> int \<Rightarrow> u32 \<Rightarrow> (unit result \<times> kernel \<times> mem) option" where
  "sys_prctl k m buf op arg2 =
     do {
       cur \<leftarrow> current_task_of k;
       if op = PR_SET_NAME then do {
         (len, m) \<leftarrow> strncpy_from_user m buf arg2 16;
         case len of
           Inl e \<Rightarrow> Some (Inl e, k, m)
         | Inr _ \<Rightarrow> do {
             bs \<leftarrow> load_bytes m buf 16;
             name \<leftarrow> copy_comm (comm cur) bs;
             Some (Inr (), update_current k (\<lambda>t. t\<lparr>comm := name\<rparr>), m)
           }
       }
       else if op = PR_GET_NAME then
         let (r, m) = put_user m arg2 (comm cur) in Some (case r of Inl _ \<Rightarrow> Inl EFAULT | Inr _ \<Rightarrow> Inr (), k, m)
       else Some (Inl EINVAL, k, m)
     }"

section \<open>Waiting for a child\<close>

definition WEXITSTATUS :: "u32 \<Rightarrow> u32" where
  "WEXITSTATUS status = drop_bit 8 (status AND 0xff00)"

definition WTERMSIG :: "u32 \<Rightarrow> u32" where
  "WTERMSIG status = status AND 0x7f"

definition WIFEXITED :: "u32 \<Rightarrow> bool" where
  "WIFEXITED status \<longleftrightarrow> WTERMSIG status = 0"

definition WIFSIGNALED :: "u32 \<Rightarrow> bool" where
  "WIFSIGNALED status \<longleftrightarrow> 0 < WTERMSIG status \<and> WTERMSIG status < 0x7f"

abbreviation (input) WNOHANG :: u32 where "WNOHANG \<equiv> 1"

record waitpid_blocker =
  param_pid :: int
  current_tgid :: int
  current_pgid :: int
  waited_task :: "nat option"

definition is_wait_target :: "waitpid_blocker \<Rightarrow> task \<Rightarrow> bool" where
  "is_wait_target b t \<longleftrightarrow>
     (if param_pid b < -1 then pgid t = - param_pid b
      else if param_pid b = -1 then ppid t = current_tgid b
      else if param_pid b = 0 then pgid t = current_pgid b
      else tgid t = param_pid b)"

text \<open>The loop over \<^verbatim>\<open>all_tasks\<close>: whether a target exists, and the dead one at which the loop stopped.\<close>

fun waitpid_loop :: "kernel \<Rightarrow> waitpid_blocker \<Rightarrow> nat list \<Rightarrow> bool \<Rightarrow> (bool \<times> nat option) option" where
  "waitpid_loop k b [] any_target_exists = Some (any_target_exists, None)"
| "waitpid_loop k b (a # as) any_target_exists =
     do {
       t \<leftarrow> tasks k a;
       let is_target = is_wait_target b t;
       if is_target \<and> state t = TASK_DEAD then Some (True, Some a)
       else waitpid_loop k b as (any_target_exists \<or> is_target)
     }"

definition unblock_waitpid :: "kernel \<Rightarrow> waitpid_blocker \<Rightarrow> (bool \<times> waitpid_blocker \<times> kernel) option" where
  "unblock_waitpid k b =
     do {
       (any_target_exists, it) \<leftarrow> waitpid_loop k b (all_tasks k) False;
       Some (case it of
               None \<Rightarrow> if \<not> any_target_exists then (True, b\<lparr>waited_task := None\<rparr>, k) else (False, b, k)
             | Some a \<Rightarrow> (True, b\<lparr>waited_task := Some a\<rparr>, k\<lparr>all_tasks := remove1 a (all_tasks k)\<rparr>))
     }"

text \<open>The part of \<^verbatim>\<open>sys_wait4\<close> after the wait.\<close>

definition wait4_result ::
    "kernel \<Rightarrow> mem \<Rightarrow> u32 \<Rightarrow> waitpid_blocker \<Rightarrow> (int result \<times> release list \<times> kernel \<times> mem) option" where
  "wait4_result k m user_wstatus b =
     (case waited_task b of
        None \<Rightarrow> Some (Inl ECHILD, [], k, m)
      | Some a \<Rightarrow>
          do {
            t \<leftarrow> tasks k a;
            (rs, k) \<leftarrow> task_unref k (Some a);
            Some (if user_wstatus \<noteq> 0 then
                    let (r, m) = put_user m user_wstatus (word_bytes (word_of_int (exit_status t)))
                    in (case r of Inl _ \<Rightarrow> Inl EFAULT | Inr _ \<Rightarrow> Inr (tid t), rs, k, m)
                  else (Inr (tid t), rs, k, m))
          })"

text \<open>
  \<^verbatim>\<open>sys_wait4\<close> called in the state \<open>k\<close>. The list \<open>os\<close> has the states in which the condition of the wait is tried; the
  caller goes on from the last of them, in which the condition held and a dead task was taken off the list.
\<close>

definition last_look :: "'w obs list \<Rightarrow> 'w obs list \<Rightarrow> 'w" where
  "last_look os os' = obs_world (os ! (length os - Suc (length os')))"

definition sys_wait4 ::
    "kernel \<Rightarrow> kernel obs list \<Rightarrow> mem \<Rightarrow> int \<Rightarrow> u32 \<Rightarrow> u32 \<Rightarrow> u32
      \<Rightarrow> (int result \<times> release list \<times> kernel \<times> mem) wait option" where
  "sys_wait4 k os m pid user_wstatus options user_rusage =
     (if options AND NOT WNOHANG \<noteq> 0 \<or> user_rusage \<noteq> 0 then Some (Woke (Inl EOPNOTSUPP, [], k, m))
      else do {
        cur \<leftarrow> current_task_of k;
        let b = \<lparr>param_pid = pid, current_tgid = tgid cur, current_pgid = pgid cur, waited_task = None\<rparr>;
        if options AND WNOHANG \<noteq> 0 then do {
          (ok, b, k) \<leftarrow> unblock_waitpid k b;
          r \<leftarrow> (if \<not> ok then
                  if waited_task b \<noteq> None
                  then do { (rs, k) \<leftarrow> task_unref k (waited_task b); Some (Inr 0, rs, k, m) }
                  else Some (Inl ECHILD, [], k, m)
                else wait4_result k m user_wstatus b);
          Some (Woke r)
        }
        else do {
          w \<leftarrow> sched_wait (\<lambda>k. map_option fst (unblock_waitpid k b)) os;
          case w of
            Asleep \<Rightarrow> Some Asleep
          | Woke (rc, os') \<Rightarrow>
              let k' = (last_look os os')\<lparr>current := current k\<rparr>
              in (case rc of
                    Inl e \<Rightarrow> Some (Woke (Inl (if e = EINTR then ERESTARTSYS else e), [], k', m))
                  | Inr _ \<Rightarrow> do {
                      (_, b, k') \<leftarrow> unblock_waitpid k' b;
                      r \<leftarrow> wait4_result k' m user_wstatus b;
                      Some (Woke r)
                    })
        }
      })"

definition sys_waitpid ::
    "kernel \<Rightarrow> kernel obs list \<Rightarrow> mem \<Rightarrow> int \<Rightarrow> u32 \<Rightarrow> u32
      \<Rightarrow> (int result \<times> release list \<times> kernel \<times> mem) wait option" where
  "sys_waitpid k os m pid user_wstatus options = sys_wait4 k os m pid user_wstatus options 0"

section \<open>A task that ends\<close>

text \<open>Each table an exiting task refers to has the object, with a reference left; \<open>None\<close> is the null pointer.\<close>

definition counted :: "(nat \<rightharpoonup> 'a) \<Rightarrow> ('a \<Rightarrow> nat) \<Rightarrow> nat option \<Rightarrow> bool" where
  "counted table count r \<longleftrightarrow>
     (case r of None \<Rightarrow> True | Some a \<Rightarrow> (case table a of None \<Rightarrow> False | Some x \<Rightarrow> count x > 0))"

lemma thread_group_unref_counted:
  "counted (groups k) group_ref_count r \<Longrightarrow> \<exists>gs. thread_group_unref k r = Some (k\<lparr>groups := gs\<rparr>)"
  by (cases r) (auto simp: counted_def thread_group_unref_def c_assert_def Let_def split: option.splits intro: exI [of _ "groups k"])

lemma sighand_unref_counted:
  "counted (sighands k) sighand_ref_count r \<Longrightarrow> \<exists>hs. sighand_unref k r = Some (k\<lparr>sighands := hs\<rparr>)"
  by (cases r) (auto simp: counted_def sighand_unref_def c_assert_def Let_def split: option.splits intro: exI [of _ "sighands k"])

lemma files_unref_counted:
  "counted (file_tables k) files_ref_count r \<Longrightarrow> \<exists>rs fs. files_unref k r = Some (rs, k\<lparr>file_tables := fs\<rparr>)"
  by (cases r) (auto simp: counted_def files_unref_def c_assert_def Let_def split: option.splits intro: exI [of _ "file_tables k"])

lemma fs_unref_counted:
  "counted (fss k) fs_ref_count r \<Longrightarrow> \<exists>rs fs. fs_unref k r = Some (rs, k\<lparr>fss := fs\<rparr>)"
  by (cases r) (auto simp: counted_def fs_unref_def c_assert_def Let_def split: option.splits intro: exI [of _ "fss k"])

text \<open>A task that \<^verbatim>\<open>exit\<close> can end without a panic.\<close>

definition exit_ready :: "kernel \<Rightarrow> bool" where
  "exit_ready k \<longleftrightarrow> kernel_wf k \<and>
     (case tasks k (current k) of None \<Rightarrow> False
      | Some t \<Rightarrow> tid t \<noteq> 1 \<and> 0 \<le> ppid t
          \<and> counted (sighands k) sighand_ref_count (task_sighand t) \<and> counted (file_tables k) files_ref_count (task_files t)
          \<and> counted (fss k) fs_ref_count (task_fs t)
          \<and> (case task_group t of None \<Rightarrow> False
             | Some ga \<Rightarrow>
                 (case groups k ga of None \<Rightarrow> False
                  | Some g \<Rightarrow> num_running g > 0 \<and> group_ref_count g > 0
                      \<and> (num_running g = 1 \<and> ppid t \<noteq> 0 \<and> exit_signal t \<noteq> 0 \<longrightarrow>
                           exit_signal t < NSIG \<and> list_ex (dest_at k (ppid t) 0) (all_tasks k)))))"

text \<open>Two tables of tasks that differ in pending signals only.\<close>

definition pending_differ :: "(nat \<rightharpoonup> task) \<Rightarrow> (nat \<rightharpoonup> task) \<Rightarrow> bool" where
  "pending_differ ts ts' \<longleftrightarrow> (\<forall>a. \<exists>p. ts' a = map_option (\<lambda>t. t\<lparr>pending_signals := p\<rparr>) (ts a))"

lemma pending_differ_refl: "pending_differ ts ts"
  unfolding pending_differ_def
proof
  fix a
  show "\<exists>p. ts a = map_option (\<lambda>t. t\<lparr>pending_signals := p\<rparr>) (ts a)"
    by (intro exI [of _ "pending_signals (the (ts a))"]) (cases "ts a"; simp)
qed

lemma pending_differ_trans: "pending_differ ts ts' \<Longrightarrow> pending_differ ts' ts'' \<Longrightarrow> pending_differ ts ts''"
  unfolding pending_differ_def
proof
  fix a
  assume "\<forall>a. \<exists>p. ts' a = map_option (\<lambda>t. t\<lparr>pending_signals := p\<rparr>) (ts a)"
    "\<forall>a. \<exists>p. ts'' a = map_option (\<lambda>t. t\<lparr>pending_signals := p\<rparr>) (ts' a)"
  then obtain p q where "ts' a = map_option (\<lambda>t. t\<lparr>pending_signals := p\<rparr>) (ts a)"
    "ts'' a = map_option (\<lambda>t. t\<lparr>pending_signals := q\<rparr>) (ts' a)" by blast
  then show "\<exists>p. ts'' a = map_option (\<lambda>t. t\<lparr>pending_signals := p\<rparr>) (ts a)"
    by (intro exI [of _ q]) (simp add: option.map_comp comp_def)
qed

lemma do_send_signal_pending:
  assumes "do_send_signal k a n = Some k'"
  shows "\<exists>ts. k' = k\<lparr>tasks := ts\<rparr> \<and> pending_differ (tasks k) ts"
proof -
  from assms have "k' = k \<or> (\<exists>p. k' = update_task k a (\<lambda>t. t\<lparr>pending_signals := p\<rparr>))"
    by (auto simp: do_send_signal_def option_bind_Some_iff Let_def split: option.splits)
  then show ?thesis
  proof
    assume "k' = k"
    then show ?thesis by (intro exI [of _ "tasks k"]) (simp add: pending_differ_refl)
  next
    assume "\<exists>p. k' = update_task k a (\<lambda>t. t\<lparr>pending_signals := p\<rparr>)"
    then obtain p where p: "k' = update_task k a (\<lambda>t. t\<lparr>pending_signals := p\<rparr>)" ..
    have "pending_differ (tasks k) (tasks k')"
      using pending_differ_refl [of "tasks k"] p by (auto simp: pending_differ_def)
    with p show ?thesis by (auto simp: update_task_def)
  qed
qed

lemma send_loop_pending:
  "send_loop k as pid n flags f = Some (b, k') \<Longrightarrow> \<exists>ts. k' = k\<lparr>tasks := ts\<rparr> \<and> pending_differ (tasks k) ts"
proof (induction as arbitrary: k f)
  case Nil
  then show ?case by (intro exI [of _ "tasks k"]) (simp add: pending_differ_refl)
next
  case (Cons a as)
  then obtain t where t: "tasks k a = Some t" by (auto simp: option_bind_Some_iff)
  show ?case
  proof (cases "is_signal_dest (current k) a t pid flags \<and> n \<noteq> 0")
    case False
    with Cons t show ?thesis by (auto split: if_splits)
  next
    case True
    with Cons.prems t obtain k1 where k1: "do_send_signal k a n = Some k1" "send_loop k1 as pid n flags True = Some (b, k')"
      by (auto simp: option_bind_Some_iff)
    from do_send_signal_pending [OF k1(1)] obtain ts where ts: "k1 = k\<lparr>tasks := ts\<rparr>" "pending_differ (tasks k) ts" by blast
    from Cons.IH [OF k1(2)] ts(1) obtain ts' where "k' = k\<lparr>tasks := ts'\<rparr>" "pending_differ ts ts'" by auto
    with ts(2) show ?thesis by (blast intro: pending_differ_trans)
  qed
qed

lemma notify_parent:
  assumes "kernel_wf k" "0 < n" "n < NSIG" "0 \<le> pid" "list_ex (dest_at k pid 0) (all_tasks k)"
  shows "\<exists>ts. task_send_signal k pid (int n) 0 = Some (Inr (), k\<lparr>tasks := ts\<rparr>) \<and> pending_differ (tasks k) ts"
proof -
  have "distinct (all_tasks k)" "\<forall>a\<in>set (all_tasks k). \<exists>t. tasks k a = Some t \<and> sighand_ok k t"
    using assms(1) kernel_wf_task by (auto simp: kernel_wf_def) blast
  from send_loop_delivers [OF this assms(2,3), of pid 0 False] assms(5)
  obtain k' where k': "send_loop k (all_tasks k) pid n 0 False = Some (True, k')" by (auto simp: list_ex_iff)
  from send_loop_pending [OF this] obtain ts where "k' = k\<lparr>tasks := ts\<rparr>" "pending_differ (tasks k) ts" by blast
  with k' assms show ?thesis by (intro exI [of _ ts]) (simp add: task_send_signal_def c_assert_def)
qed

text \<open>What the end of one task leaves of another: who it is, its state and the references on it.\<close>

definition same_identity :: "task option \<Rightarrow> task option \<Rightarrow> bool" where
  "same_identity = rel_option (\<lambda>t t'. tid t' = tid t \<and> tgid t' = tgid t \<and> pgid t' = pgid t \<and> state t' = state t
     \<and> exit_status t' = exit_status t \<and> task_ref_count t' = task_ref_count t)"

lemma same_identity_pending: "pending_differ ts ts' \<Longrightarrow> same_identity (ts a) (ts' a)"
proof -
  assume "pending_differ ts ts'"
  then obtain p where "ts' a = map_option (\<lambda>t. t\<lparr>pending_signals := p\<rparr>) (ts a)" by (auto simp: pending_differ_def)
  then show ?thesis by (cases "ts a") (simp_all add: same_identity_def)
qed

lemma sighand_ok_cong: "task_sighand t' = task_sighand t \<Longrightarrow> sighands k' = sighands k \<Longrightarrow> sighand_ok k' t' = sighand_ok k t"
  unfolding sighand_ok_def by (simp split: option.split)

lemma kernel_wf_status:
  assumes "kernel_wf k" "tasks k c = Some t" "tasks k' = (tasks k)(c \<mapsto> t\<lparr>exit_status := st\<rparr>)"
    and "sighands k' = sighands k" "all_tasks k' = all_tasks k"
  shows "kernel_wf k'"
proof -
  have "case tasks k' a of None \<Rightarrow> False | Some u \<Rightarrow> sighand_ok k' u" if a: "a \<in> set (all_tasks k)" for a
  proof -
    obtain u where u: "tasks k a = Some u" "sighand_ok k u" using kernel_wf_task [OF assms(1) a] .
    show ?thesis
    proof (cases "a = c")
      case True
      with u assms(2-4) show ?thesis by (simp add: sighand_ok_cong [of "u\<lparr>exit_status := st\<rparr>" u k' k])
    next
      case False
      with u assms(3,4) show ?thesis by (simp add: sighand_ok_cong [of u u k' k])
    qed
  qed
  with assms(1,5) show ?thesis by (simp add: kernel_wf_def list_all_iff)
qed

text \<open>The first part of \<^verbatim>\<open>exit\<close>: the status, the count of the thread group and the signal to the parent.\<close>

definition exit_notify :: "kernel \<Rightarrow> task \<Rightarrow> nat \<Rightarrow> kernel option" where
  "exit_notify k1 cur n =
     (if n = 0 \<and> ppid cur \<noteq> 0 \<and> exit_signal cur \<noteq> 0
      then do {
        (rc, k') \<leftarrow> task_send_signal k1 (ppid cur) (int (exit_signal cur)) 0;
        c_assert (\<not> isl rc);
        Some k'
      }
      else Some k1)"

lemma exit_notifies:
  assumes "exit_ready k" "tasks k (current k) = Some t" "task_group t = Some ga" "groups k ga = Some g"
  shows "\<exists>ts. pending_differ ((tasks k)(current k \<mapsto> t\<lparr>exit_status := st\<rparr>)) ts
     \<and> exit_notify (k\<lparr>tasks := (tasks k)(current k \<mapsto> t\<lparr>exit_status := st\<rparr>),
                       groups := (groups k)(ga \<mapsto> g\<lparr>num_running := num_running g - 1\<rparr>)\<rparr>) t (num_running g - 1) =
         Some (k\<lparr>tasks := ts, groups := (groups k)(ga \<mapsto> g\<lparr>num_running := num_running g - 1\<rparr>)\<rparr>)"
proof -
  let ?ts = "(tasks k)(current k \<mapsto> t\<lparr>exit_status := st\<rparr>)"
  let ?k = "k\<lparr>tasks := ?ts, groups := (groups k)(ga \<mapsto> g\<lparr>num_running := num_running g - 1\<rparr>)\<rparr>"
  have wf: "kernel_wf ?k"
    by (rule kernel_wf_status [OF _ assms(2)]) (use assms(1) in \<open>simp_all add: exit_ready_def\<close>)
  have dest: "dest_at ?k p 0 = dest_at k p 0" for p
    using assms(2) by (intro ext) (simp add: dest_at_def is_signal_dest_def split: option.split)
  show ?thesis
  proof (cases "num_running g - 1 = 0 \<and> ppid t \<noteq> 0 \<and> exit_signal t \<noteq> 0")
    case True
    with assms have "0 < exit_signal t \<and> exit_signal t < NSIG \<and> 0 \<le> ppid t \<and> list_ex (dest_at k (ppid t) 0) (all_tasks k)"
      by (simp add: exit_ready_def)
    then have sig: "0 < exit_signal t" "exit_signal t < NSIG" "0 \<le> ppid t" "list_ex (dest_at ?k (ppid t) 0) (all_tasks ?k)"
      unfolding dest by simp_all
    from notify_parent [OF wf sig] obtain ts where
      "task_send_signal ?k (ppid t) (int (exit_signal t)) 0 = Some (Inr (), ?k\<lparr>tasks := ts\<rparr>)" "pending_differ ?ts ts" by auto
    with True show ?thesis by (intro exI [of _ ts]) (simp add: exit_notify_def c_assert_def)
  next
    case False
    then show ?thesis by (intro exI [of _ ?ts]) (simp add: exit_notify_def pending_differ_refl if_not_P)
  qed
qed

text \<open>The rest of it: the references are given back, the children get a new parent, and the task is dead.\<close>

definition exit_rest :: "kernel \<Rightarrow> task \<Rightarrow> (release list \<times> kernel) option" where
  "exit_rest k2 cur =
     do {
       k3 \<leftarrow> thread_group_unref k2 (task_group cur);
       let k3 = update_current k3 (\<lambda>t. t\<lparr>task_group := None\<rparr>);
       k4 \<leftarrow> sighand_unref k3 (task_sighand cur);
       let k4 = update_current k4 (\<lambda>t. t\<lparr>task_sighand := None\<rparr>);
       (rs, k5) \<leftarrow> files_unref k4 (task_files cur);
       let k5 = update_current k5 (\<lambda>t. t\<lparr>task_files := None\<rparr>);
       (rs', k6) \<leftarrow> fs_unref k5 (task_fs cur);
       let k6 = update_current k6 (\<lambda>t. t\<lparr>task_fs := None\<rparr>);
       let k7 = adopt_orphans k6 (tgid cur);
       Some (rs @ rs', update_current k7 (\<lambda>t. t\<lparr>state := TASK_DEAD\<rparr>))
     }"

lemma exit_rest_returns:
  assumes "counted (groups k) group_ref_count (task_group t)" "counted (sighands k) sighand_ref_count (task_sighand t)"
    and "counted (file_tables k) files_ref_count (task_files t)" "counted (fss k) fs_ref_count (task_fs t)"
  shows "\<exists>rs gs hs fts fs. exit_rest k t = Some (rs, update_current (adopt_orphans
       (update_current (k\<lparr>groups := gs, sighands := hs, file_tables := fts, fss := fs\<rparr>)
          (\<lambda>t. t\<lparr>task_group := None, task_sighand := None, task_files := None, task_fs := None\<rparr>)) (tgid t))
       (\<lambda>t. t\<lparr>state := TASK_DEAD\<rparr>))"
proof -
  from thread_group_unref_counted [OF assms(1)] obtain gs where 1: "thread_group_unref k (task_group t) = Some (k\<lparr>groups := gs\<rparr>)" ..
  define k3 where "k3 = update_current (k\<lparr>groups := gs\<rparr>) (\<lambda>t. t\<lparr>task_group := None\<rparr>)"
  have "counted (sighands k3) sighand_ref_count (task_sighand t)" using assms(2) by (simp add: k3_def update_current_def)
  from sighand_unref_counted [OF this] obtain hs where 2: "sighand_unref k3 (task_sighand t) = Some (k3\<lparr>sighands := hs\<rparr>)" ..
  define k4 where "k4 = update_current (k3\<lparr>sighands := hs\<rparr>) (\<lambda>t. t\<lparr>task_sighand := None\<rparr>)"
  have "counted (file_tables k4) files_ref_count (task_files t)" using assms(3) by (simp add: k3_def k4_def update_current_def)
  from files_unref_counted [OF this] obtain rs fts where 3: "files_unref k4 (task_files t) = Some (rs, k4\<lparr>file_tables := fts\<rparr>)" by blast
  define k5 where "k5 = update_current (k4\<lparr>file_tables := fts\<rparr>) (\<lambda>t. t\<lparr>task_files := None\<rparr>)"
  have "counted (fss k5) fs_ref_count (task_fs t)" using assms(4) by (simp add: k3_def k4_def k5_def update_current_def)
  from fs_unref_counted [OF this] obtain rs' fs where 4: "fs_unref k5 (task_fs t) = Some (rs', k5\<lparr>fss := fs\<rparr>)" by blast
  have k6: "update_current (k5\<lparr>fss := fs\<rparr>) (\<lambda>t. t\<lparr>task_fs := None\<rparr>) =
      update_current (k\<lparr>groups := gs, sighands := hs, file_tables := fts, fss := fs\<rparr>)
          (\<lambda>t. t\<lparr>task_group := None, task_sighand := None, task_files := None, task_fs := None\<rparr>)"
    by (simp add: k3_def k4_def k5_def update_current_def update_task_def option.map_comp comp_def)
  show ?thesis
    by (intro exI [of _ "rs @ rs'"] exI [of _ gs] exI [of _ hs] exI [of _ fts] exI [of _ fs])
      (simp add: exit_rest_def 1 2 3 4 Let_def k3_def [symmetric] k4_def [symmetric] k5_def [symmetric] k6)
qed

lemma task_do_exit_split:
  "task_do_exit k status =
     do {
       cur \<leftarrow> tasks k (current k);
       c_assert (tid cur \<noteq> 1);
       let k0 = update_current k (\<lambda>t. t\<lparr>exit_status := status\<rparr>);
       ga \<leftarrow> task_group cur;
       g \<leftarrow> groups k0 ga;
       c_assert (num_running g > 0);
       let k1 = k0\<lparr>groups := (groups k0)(ga \<mapsto> g\<lparr>num_running := num_running g - 1\<rparr>)\<rparr>;
       k2 \<leftarrow> exit_notify k1 cur (num_running g - 1);
       exit_rest k2 cur
     }"
  unfolding task_do_exit_def exit_rest_def exit_notify_def ..

lemma task_do_exit_dies:
  assumes "exit_ready k" "tasks k (current k) = Some t"
  shows "\<exists>rs k' t'. task_do_exit k st = Some (rs, k') \<and> all_tasks k' = all_tasks k \<and> current k' = current k
     \<and> tasks k' (current k) = Some t' \<and> tid t' = tid t \<and> tgid t' = tgid t \<and> task_ref_count t' = task_ref_count t
     \<and> exit_status t' = st \<and> state t' = TASK_DEAD
     \<and> task_group t' = None \<and> task_sighand t' = None \<and> task_files t' = None \<and> task_fs t' = None
     \<and> (\<forall>a. a \<noteq> current k \<longrightarrow> same_identity (tasks k a) (tasks k' a))"
proof -
  from assms obtain ga g where g: "task_group t = Some ga" "groups k ga = Some g" "num_running g > 0" "group_ref_count g > 0"
    "tid t \<noteq> 1" by (auto simp: exit_ready_def split: option.splits)
  let ?gs = "(groups k)(ga \<mapsto> g\<lparr>num_running := num_running g - 1\<rparr>)"
  from exit_notifies [OF assms g(1,2), of st] obtain ts where
    ts: "pending_differ ((tasks k)(current k \<mapsto> t\<lparr>exit_status := st\<rparr>)) ts"
    and sent: "exit_notify (k\<lparr>tasks := (tasks k)(current k \<mapsto> t\<lparr>exit_status := st\<rparr>), groups := ?gs\<rparr>) t (num_running g - 1) =
      Some (k\<lparr>tasks := ts, groups := ?gs\<rparr>)" by blast
  have rest: "task_do_exit k st = exit_rest (k\<lparr>tasks := ts, groups := ?gs\<rparr>) t"
    using assms(2) g sent by (simp add: task_do_exit_split update_current_def update_task_def c_assert_def)
  have "counted (groups (k\<lparr>tasks := ts, groups := ?gs\<rparr>)) group_ref_count (task_group t)"
    "counted (sighands (k\<lparr>tasks := ts, groups := ?gs\<rparr>)) sighand_ref_count (task_sighand t)"
    "counted (file_tables (k\<lparr>tasks := ts, groups := ?gs\<rparr>)) files_ref_count (task_files t)"
    "counted (fss (k\<lparr>tasks := ts, groups := ?gs\<rparr>)) fs_ref_count (task_fs t)"
    using assms g by (simp_all add: exit_ready_def) (simp add: counted_def)
  from exit_rest_returns [OF this] obtain rs gs hs fts fs where
    "task_do_exit k st = Some (rs, update_current (adopt_orphans
       (update_current (k\<lparr>tasks := ts, groups := ?gs, groups := gs, sighands := hs, file_tables := fts, fss := fs\<rparr>)
          (\<lambda>t. t\<lparr>task_group := None, task_sighand := None, task_files := None, task_fs := None\<rparr>)) (tgid t))
       (\<lambda>t. t\<lparr>state := TASK_DEAD\<rparr>))" unfolding rest by blast
  moreover from ts obtain p where "ts (current k) = Some (t\<lparr>exit_status := st, pending_signals := p\<rparr>)"
    by (auto simp: pending_differ_def dest: spec [of _ "current k"])
  moreover have "same_identity (tasks k a) (ts a)" if "a \<noteq> current k" for a
    using same_identity_pending [OF ts, of a] that by simp
  ultimately show ?thesis
    by (auto simp: update_current_def adopt_orphans_def same_identity_def option.rel_map elim!: option.rel_mono_strong)
qed

section \<open>The status a parent reads\<close>

text \<open>The macros take apart what \<^verbatim>\<open>exit\<close> and \<^verbatim>\<open>task_crash\<close> put into the status.\<close>

lemma exited_status:
  fixes s :: int
  defines "w \<equiv> word_of_int (exit_code s) :: u32"
  shows "WIFEXITED w" "\<not> WIFSIGNALED w" "WEXITSTATUS w = word_of_int s AND 0xff"
proof -
  have masks: "(0xff :: u32) = mask 8" "(0x7f :: u32) = mask 7" "(0xff00 :: u32) = push_bit 8 (mask 8)" "(0xff :: int) = mask 8"
    by (simp_all add: mask_eq_exp_minus_1 push_bit_eq_mult)
  have w: "w = push_bit 8 (word_of_int s AND mask 8)"
    unfolding w_def exit_code_def masks(4) by (rule bit_word_eqI) (auto simp: bit_simps)
  have t: "WTERMSIG w = 0"
    unfolding w WTERMSIG_def masks(2) by (rule bit_word_eqI) (auto simp: bit_simps)
  show "WIFEXITED w" "\<not> WIFSIGNALED w" using t by (simp_all add: WIFEXITED_def WIFSIGNALED_def)
  show "WEXITSTATUS w = word_of_int s AND 0xff"
    unfolding w WEXITSTATUS_def masks(1,3) by (rule bit_word_eqI) (auto simp: bit_simps)
qed

text \<open>A look that finds the condition true ends a wait in which the earlier ones did not and no signal came.\<close>

lemma wait_unblock_skip:
  assumes "\<forall>ob\<in>set pre. \<not> obs_signal ob \<and> u (obs_world ob) = Some False" "\<not> obs_signal ob" "u (obs_world ob) = Some True"
  shows "wait_unblock u (pre @ ob # post) = Some (Woke (Inr (), post))"
  using assms by (induction pre) auto

lemma sched_wait_skip:
  assumes "\<forall>ob\<in>set pre. \<not> obs_signal ob \<and> u (obs_world ob) = Some False" "\<not> obs_signal ob" "u (obs_world ob) = Some True"
  shows "sched_wait u (pre @ ob # post) = Some (Woke (Inr (), post))"
  using assms wait_unblock_skip [of "tl pre" u ob post] by (cases pre) auto

lemma waitpid_loop_passes:
  assumes "\<forall>a\<in>set pre. \<exists>t. tasks k a = Some t \<and> \<not> (is_wait_target b t \<and> state t = TASK_DEAD)"
  shows "waitpid_loop k b (pre @ as) any =
    waitpid_loop k b as (any \<or> (\<exists>a\<in>set pre. \<exists>t. tasks k a = Some t \<and> is_wait_target b t))"
  using assms
proof (induction pre arbitrary: any)
  case (Cons a pre)
  then obtain t where t: "tasks k a = Some t" "\<not> (is_wait_target b t \<and> state t = TASK_DEAD)" by auto
  from t(1) have "(\<exists>a\<in>set (a # pre). \<exists>t. tasks k a = Some t \<and> is_wait_target b t) \<longleftrightarrow>
      is_wait_target b t \<or> (\<exists>a\<in>set pre. \<exists>t. tasks k a = Some t \<and> is_wait_target b t)" by auto
  with t Cons.prems Cons.IH [of "any \<or> is_wait_target b t"] show ?case
    by (cases "is_wait_target b t") (simp_all add: Let_def disj_assoc)
qed simp

text \<open>A process of one thread that is waited for by its number: no other task has that number.\<close>

definition sole_task :: "kernel \<Rightarrow> nat \<Rightarrow> int \<Rightarrow> bool" where
  "sole_task k c pid \<longleftrightarrow> distinct (all_tasks k) \<and> c \<in> set (all_tasks k)
     \<and> list_all (\<lambda>a. case tasks k a of None \<Rightarrow> False | Some t \<Rightarrow> (tgid t = pid \<longleftrightarrow> a = c)) (all_tasks k)"

lemma unblock_waitpid_sole:
  assumes "sole_task k c pid" "0 < pid" "tasks k c = Some t" "param_pid b = pid"
  shows "unblock_waitpid k b =
    Some (if state t = TASK_DEAD then (True, b\<lparr>waited_task := Some c\<rparr>, k\<lparr>all_tasks := remove1 c (all_tasks k)\<rparr>) else (False, b, k))"
proof -
  have target: "is_wait_target b u \<longleftrightarrow> tgid u = pid" for u using assms(2,4) by (simp add: is_wait_target_def)
  from assms(1) obtain xs ys where split: "all_tasks k = xs @ c # ys" "c \<notin> set xs" "c \<notin> set ys"
    unfolding sole_task_def by (metis distinct.simps(2) distinct_append not_distinct_conv_prefix split_list disjoint_insert(1) list.simps(15))
  have other: "\<exists>u. tasks k a = Some u \<and> \<not> is_wait_target b u" if "a \<in> set xs \<union> set ys" for a
    using assms(1) that split by (fastforce simp: sole_task_def target list_all_iff split: option.splits)
  have t: "is_wait_target b t" using assms(1,3) split by (simp add: sole_task_def target)
  have pass: "\<forall>a\<in>set zs. \<exists>u. tasks k a = Some u \<and> \<not> (is_wait_target b u \<and> state u = TASK_DEAD)"
    "\<not> (\<exists>a\<in>set zs. \<exists>u. tasks k a = Some u \<and> is_wait_target b u)" if "set zs \<subseteq> set xs \<union> set ys" for zs
    using other that by (meson subsetD, metis option.inject subsetD)
  have xs: "waitpid_loop k b (xs @ c # ys) False = waitpid_loop k b (c # ys) False"
    using waitpid_loop_passes [of xs k b "c # ys" False] pass [of xs] by simp
  have ys: "waitpid_loop k b ys True = Some (True, None)"
    using waitpid_loop_passes [of ys k b "[]" True] pass [of ys] by simp
  show ?thesis
    using t xs ys assms(3) by (simp add: unblock_waitpid_def split)
qed

lemma sole_task_exit:
  assumes "sole_task k c pid" "tasks k c = Some t" "tasks k' c = Some t'" "tgid t' = tgid t" "all_tasks k' = all_tasks k"
    and "\<forall>a. a \<noteq> c \<longrightarrow> same_identity (tasks k a) (tasks k' a)"
  shows "sole_task k' c pid"
proof -
  have "case tasks k' a of None \<Rightarrow> False | Some u \<Rightarrow> (tgid u = pid \<longleftrightarrow> a = c)" if "a \<in> set (all_tasks k)" for a
  proof (cases "a = c")
    case True
    with assms(1-4) that show ?thesis by (auto simp: sole_task_def list_all_iff split: option.splits)
  next
    case False
    from assms(1) that False obtain u where "tasks k a = Some u" "tgid u \<noteq> pid"
      by (fastforce simp: sole_task_def list_all_iff split: option.splits)
    moreover from assms(6) False have "same_identity (tasks k a) (tasks k' a)" by simp
    ultimately show ?thesis using False by (auto simp: same_identity_def option_rel_Some1)
  qed
  with assms(1,5) show ?thesis by (simp add: sole_task_def list_all_iff)
qed

text \<open>The dead task has nothing left to give back, and its last reference frees it.\<close>

lemma wait4_result_dead:
  assumes "tasks k c = Some t" "task_ref_count t = 1" "tid t \<noteq> 0" "c \<noteq> current k"
    and "task_group t = None" "task_sighand t = None" "task_files t = None" "task_fs t = None"
    and "ws \<noteq> 0" "is_user_range ws 4" "writable_bytes m ws 4" "waited_task b = Some c"
  shows "wait4_result k m ws b =
    Some (Inr (tid t), [], k\<lparr>tasks := (tasks k)(c := None)\<rparr>, store_bytes m ws (word_bytes (word_of_int (exit_status t))))"
proof -
  have "put_user m ws (word_bytes (word_of_int (exit_status t))) = (Inr (), store_bytes m ws (word_bytes (word_of_int (exit_status t))))"
    using assms(10,11) by (intro put_user_store) simp_all
  with assms show ?thesis
    by (simp add: wait4_result_def task_unref_def c_assert_def thread_group_unref_def sighand_unref_def files_unref_def fs_unref_def
        update_task_def)
qed

text \<open>
  A running task is counted twice, for the list of all tasks and for its processor. The second reference is dropped by the
  \<^verbatim>\<open>sched_yield(false)\<close> at the end of \<^verbatim>\<open>exit\<close>.
\<close>

lemma exit_leaves_processor:
  assumes "exit_ready k" "c = current k" "tasks k c = Some t" "task_ref_count t = 2" "sole_task k c (tgid t)"
  obtains rs k1 k2 t2 where "task_exit k s = Some (rs, k1)" "task_unref k1 (Some c) = Some ([], k2)"
    "k2 = k1\<lparr>tasks := (tasks k1)(c \<mapsto> t2)\<rparr>" "all_tasks k2 = all_tasks k" "tid t2 = tid t" "task_ref_count t2 = 1"
    "exit_status t2 = exit_code s" "state t2 = TASK_DEAD" "task_group t2 = None" "task_sighand t2 = None" "task_files t2 = None"
    "task_fs t2 = None" "sole_task k2 c (tgid t)" "tasks k1 c = Some (t2\<lparr>task_ref_count := 2\<rparr>)" "current k1 = c"
proof -
  from task_do_exit_dies [OF assms(1) assms(3) [unfolded assms(2)], of "exit_code s"] obtain rs k1 t1 where
    ex: "task_exit k s = Some (rs, k1)" "current k1 = c" and all: "all_tasks k1 = all_tasks k" and t1: "tasks k1 c = Some t1"
    "tid t1 = tid t" "tgid t1 = tgid t" "task_ref_count t1 = task_ref_count t" "exit_status t1 = exit_code s" "state t1 = TASK_DEAD"
    "task_group t1 = None" "task_sighand t1 = None" "task_files t1 = None" "task_fs t1 = None"
    and others: "\<forall>a. a \<noteq> c \<longrightarrow> same_identity (tasks k a) (tasks k1 a)"
    unfolding task_exit_def assms(2) by blast
  define t2 where "t2 = t1\<lparr>task_ref_count := 1\<rparr>"
  define k2 where "k2 = k1\<lparr>tasks := (tasks k1)(c \<mapsto> t2)\<rparr>"
  have sole: "sole_task k2 c (tgid t)"
    using all t1(3) others by (intro sole_task_exit [OF assms(5,3), of k2 t2]) (simp_all add: k2_def t2_def)
  have unref: "task_unref k1 (Some c) = Some ([], k2)"
    using t1(1,4) assms(4) by (simp add: task_unref_def c_assert_def update_task_def k2_def t2_def Let_def)
  have "tasks k1 c = Some (t2\<lparr>task_ref_count := 2\<rparr>)" using t1(1,4) assms(4) by (simp add: t2_def)
  from that [OF ex(1) unref k2_def _ _ _ _ _ _ _ _ _ sole this ex(2)] show thesis
    using t1 all by (simp add: k2_def t2_def)
qed

text \<open>
  C37. A process of one thread ends with \<^verbatim>\<open>exit\<close> and leaves its processor, while its parent is in \<^verbatim>\<open>wait4\<close> on its number, without
  options and without a signal, or before the parent calls it. Neither call panics; \<^verbatim>\<open>wait4\<close> sleeps through the looks at which
  the child was alive and returns its thread id at a look after the child has left its processor; it stores the status, from
  which \<^verbatim>\<open>WEXITSTATUS\<close> reads the low eight bits of the argument of \<^verbatim>\<open>exit\<close>; and it takes exactly this task off the list and frees
  it. A look between the death of the child and its leaving the processor is left out: then the kernel panics
  (\<open>wait_before_yield_panics\<close>).
\<close>

theorem exit_wait_round_trip:
  assumes "exit_ready k" "c = current k" "tasks k c = Some t" "state t \<noteq> TASK_DEAD" "task_ref_count t = 2" "tid t \<noteq> 0"
    and "sole_task k c (tgid t)" "0 < tgid t" "tasks k parent = Some q" "parent \<noteq> c"
    and "\<forall>ob\<in>set pre. obs_world ob = k \<and> \<not> obs_signal ob"
    and "ws \<noteq> 0" "is_user_range ws 4" "writable_bytes m ws 4"
  shows "\<exists>rs k1 k2 w. task_exit k s = Some (rs, k1) \<and> task_unref k1 (Some c) = Some ([], k2)
     \<and> sys_wait4 (k\<lparr>current := parent\<rparr>) (pre @ \<lparr>obs_world = k2, obs_signal = False\<rparr> # post) m (tgid t) ws 0 0 =
         Some (Woke (Inr (tid t), [],
           k2\<lparr>current := parent, all_tasks := remove1 c (all_tasks k), tasks := (tasks k2)(c := None)\<rparr>,
           store_bytes m ws (word_bytes w)))
     \<and> WIFEXITED w \<and> WEXITSTATUS w = word_of_int s AND 0xff"
proof -
  obtain rs k1 k2 t2 where ex: "task_exit k s = Some (rs, k1)" "task_unref k1 (Some c) = Some ([], k2)"
    and k2: "tasks k2 c = Some t2" "all_tasks k2 = all_tasks k" "sole_task k2 c (tgid t)"
    and t2: "tid t2 = tid t" "task_ref_count t2 = 1" "exit_status t2 = exit_code s" "state t2 = TASK_DEAD"
      "task_group t2 = None" "task_sighand t2 = None" "task_files t2 = None" "task_fs t2 = None"
    by (rule exit_leaves_processor [OF assms(1-3,5,7), of s]) simp
  let ?b = "\<lparr>param_pid = tgid t, current_tgid = tgid q, current_pgid = pgid q, waited_task = None\<rparr>"
  let ?k2 = "k2\<lparr>current := parent\<rparr>"
  have sole: "sole_task ?k2 c (tgid t)" using k2(3) by (simp add: sole_task_def)
  have before: "unblock_waitpid k ?b = Some (False, ?b, k)"
    using unblock_waitpid_sole [OF assms(7,8,3), of ?b] assms(4) by simp
  have after: "unblock_waitpid k2 ?b = Some (True, ?b\<lparr>waited_task := Some c\<rparr>, k2\<lparr>all_tasks := remove1 c (all_tasks k)\<rparr>)"
    using unblock_waitpid_sole [OF k2(3) assms(8) k2(1), of ?b] t2(4) k2(2) by simp
  have resumed: "unblock_waitpid ?k2 ?b = Some (True, ?b\<lparr>waited_task := Some c\<rparr>, ?k2\<lparr>all_tasks := remove1 c (all_tasks k)\<rparr>)"
    using unblock_waitpid_sole [OF sole assms(8), of t2 ?b] k2(1,2) t2(4) by simp
  have wait: "sched_wait (\<lambda>k. map_option fst (unblock_waitpid k ?b)) (pre @ \<lparr>obs_world = k2, obs_signal = False\<rparr> # post) =
      Some (Woke (Inr (), post))"
    using assms(11) before after by (intro sched_wait_skip) auto
  have look: "last_look (pre @ \<lparr>obs_world = k2, obs_signal = False\<rparr> # post) post = k2"
    by (simp add: last_look_def)
  have "wait4_result (?k2\<lparr>all_tasks := remove1 c (all_tasks k)\<rparr>) m ws (?b\<lparr>waited_task := Some c\<rparr>) =
    Some (Inr (tid t2), [], ?k2\<lparr>all_tasks := remove1 c (all_tasks k), tasks := (tasks k2)(c := None)\<rparr>,
          store_bytes m ws (word_bytes (word_of_int (exit_status t2))))"
    using k2(1) t2 assms(6,10) by (subst wait4_result_dead [of _ c t2, OF _ _ _ _ _ _ _ _ assms(12-14)]) simp_all
  with wait look resumed assms(9) t2(1,3) exited_status [of s] ex show ?thesis
    by (intro exI [of _ rs] exI [of _ k1] exI [of _ k2] exI [of _ "word_of_int (exit_code s)"])
      (simp add: sys_wait4_def current_task_of_def)
qed

definition exit_kernel :: kernel where
  "exit_kernel = example_kernel\<lparr>current := 6, tasks := [5 \<mapsto> example_task,
     6 \<mapsto> example_task\<lparr>tid := 3, tgid := 3, ppid := 2, task_ref_count := 2\<rparr>]\<rparr>"

theorem exit_wait_round_trip_witness:
  "\<exists>rs k1 k2 w. task_exit exit_kernel 7 = Some (rs, k1) \<and> task_unref k1 (Some 6) = Some ([], k2)
     \<and> sys_wait4 (exit_kernel\<lparr>current := 5\<rparr>)
         [\<lparr>obs_world = exit_kernel, obs_signal = False\<rparr>, \<lparr>obs_world = k2, obs_signal = False\<rparr>]
         (\<lambda>_. Some (0, True)) 3 0x1000 0 0 =
         Some (Woke (Inr 3, [], k2\<lparr>current := 5, all_tasks := [5], tasks := (tasks k2)(6 := None)\<rparr>,
           store_bytes (\<lambda>_. Some (0, True)) 0x1000 (word_bytes w)))
     \<and> WIFEXITED w \<and> WEXITSTATUS w = 7"
proof -
  let ?t = "example_task\<lparr>tid := 3, tgid := 3, ppid := 2, task_ref_count := 2\<rparr>"
  have ready: "exit_ready exit_kernel"
    by (simp add: exit_ready_def kernel_wf_def exit_kernel_def example_kernel_def example_task_def sighand_ok_def counted_def
        dest_at_def is_signal_dest_def)
  have sole: "sole_task exit_kernel 6 (tgid ?t)" by (simp add: sole_task_def exit_kernel_def example_kernel_def example_task_def)
  have user: "is_user_range 0x1000 4" by (simp add: is_user_range_def is_user_address_def KERNEL_VIRT_ADDR_def)
  have mem: "writable_bytes (\<lambda>_. Some (0, True)) a n" for a n by (induction n arbitrary: a) auto
  have t: "tasks exit_kernel 6 = Some ?t" "tasks exit_kernel 5 = Some example_task" "all_tasks exit_kernel = [5, 6]"
    "current exit_kernel = 6"
    by (simp_all add: exit_kernel_def example_kernel_def)
  show ?thesis
    using exit_wait_round_trip [where pre = "[\<lparr>obs_world = exit_kernel, obs_signal = False\<rparr>]" and post = "[]" and ws = "0x1000"
        and s = 7 and m = "\<lambda>_. Some (0, True)", OF ready _ t(1) _ _ _ sole _ t(2)] user mem t(3,4)
    by (simp add: example_task_def)
qed

section \<open>Three ways in which waiting goes wrong\<close>

text \<open>\<^verbatim>\<open>WNOHANG\<close> on a child that is still alive: the answer is that there is no such child, not zero.\<close>

lemma wait4_nohang_alive:
  assumes "sole_task k c pid" "0 < pid" "tasks k c = Some t" "state t \<noteq> TASK_DEAD" "tasks k (current k) = Some q"
  shows "sys_wait4 k os m pid ws WNOHANG 0 = Some (Woke (Inl ECHILD, [], k, m))"
  using assms unblock_waitpid_sole [OF assms(1-3)] by (simp add: sys_wait4_def current_task_of_def)

text \<open>A dead task is taken by its number whoever its parent is: the number is all that \<open>unblock_waitpid_sole\<close> asks for.\<close>

lemma wait4_takes_any_dead:
  assumes "sole_task k c pid" "0 < pid" "tasks k c = Some t" "state t = TASK_DEAD" "tasks k (current k) = Some q" "c \<noteq> current k"
    and "task_ref_count t = 1" "tid t \<noteq> 0" "task_group t = None" "task_sighand t = None" "task_files t = None" "task_fs t = None"
    and "ws \<noteq> 0" "is_user_range ws 4" "writable_bytes m ws 4" "ppid t \<noteq> tgid q"
  shows "\<exists>k' m'. sys_wait4 k os m pid ws WNOHANG 0 = Some (Woke (Inr (tid t), [], k', m')) \<and> tasks k' c = None"
proof -
  let ?b = "\<lparr>param_pid = pid, current_tgid = tgid q, current_pgid = pgid q, waited_task = Some c\<rparr>"
  have "wait4_result (k\<lparr>all_tasks := remove1 c (all_tasks k)\<rparr>) m ws ?b =
    Some (Inr (tid t), [], k\<lparr>all_tasks := remove1 c (all_tasks k), tasks := (tasks k)(c := None)\<rparr>,
      store_bytes m ws (word_bytes (word_of_int (exit_status t))))"
    using assms by (subst wait4_result_dead [of _ c t, OF _ _ _ _ _ _ _ _ assms(13-15)]) simp_all
  with assms(4,5) unblock_waitpid_sole [OF assms(1-3)] show ?thesis
    by (simp add: sys_wait4_def current_task_of_def)
qed


text \<open>
  Between the assignment of \<^verbatim>\<open>TASK_DEAD\<close> and the \<^verbatim>\<open>sched_yield(false)\<close> of the child, a parent on another processor can collect
  it. The reference that the yield drops is then the last one, and \<^verbatim>\<open>task_unref\<close> asserts that the task is not the current one.
\<close>

lemma wait_before_yield_panics:
  assumes "exit_ready k" "c = current k" "tasks k c = Some t" "task_ref_count t = 2" "tid t \<noteq> 0"
    and "sole_task k c (tgid t)" "0 < tgid t" "tasks k parent = Some q"
  shows "\<exists>rs k1 k3. task_exit k s = Some (rs, k1)
     \<and> sys_wait4 (k\<lparr>current := parent\<rparr>) [\<lparr>obs_world = k1, obs_signal = False\<rparr>] m (tgid t) 0 0 0 = Some (Woke (Inr (tid t), [], k3, m))
     \<and> task_unref (k3\<lparr>current := c\<rparr>) (Some c) = None"
proof -
  obtain rs k1 k2 t2 where ex: "task_exit k s = Some (rs, k1)" "k2 = k1\<lparr>tasks := (tasks k1)(c \<mapsto> t2)\<rparr>"
    and t2: "tid t2 = tid t" "state t2 = TASK_DEAD" "task_ref_count t2 = 1" "sole_task k2 c (tgid t)"
      "tasks k1 c = Some (t2\<lparr>task_ref_count := 2\<rparr>)"
    by (rule exit_leaves_processor [OF assms(1-4,6), of s]) simp
  let ?k1 = "k1\<lparr>current := parent\<rparr>"
  have sole: "sole_task k1 c (tgid t)" 
    by (rule sole_task_exit [OF t2(4), of t2 _ "t2\<lparr>task_ref_count := 2\<rparr>"]) (use ex t2 in \<open>auto simp: same_identity_def option.rel_refl\<close>)
  then have sole': "sole_task ?k1 c (tgid t)" by (simp add: sole_task_def)
  show ?thesis
    using ex(1) assms(5,8) t2(1,2,5) unblock_waitpid_sole [OF sole assms(7) t2(5)]
      unblock_waitpid_sole [OF sole' assms(7), of "t2\<lparr>task_ref_count := 2\<rparr>"]
    by (simp add: sys_wait4_def current_task_of_def last_look_def wait4_result_def task_unref_def c_assert_def)
qed

section \<open>Segments\<close>

text \<open>What \<^verbatim>\<open>set_thread_area\<close> stores \<^verbatim>\<open>get_thread_area\<close> reads back, but for the twelve high bits of a limit.\<close>

lemma bit1_cases: "(x :: 1 word) = 0 \<or> x = 1"
  by (cases x) (simp, case_tac n, auto)

lemma base_parts:
  fixes a :: u32
  shows "ucast (ucast (a AND 0xffff) :: u16) OR push_bit 16 (ucast (ucast (drop_bit 16 a AND 0xff) :: u8))
    OR push_bit 24 (ucast (ucast (drop_bit 24 a AND 0xff) :: u8)) = a"
proof -
  have m: "(0xffff :: u32) = mask 16" "(0xff :: u32) = mask 8" by (simp_all add: mask_eq_exp_minus_1)
  show ?thesis
    unfolding m
  proof (rule bit_word_eqI)
    fix n assume "n < LENGTH(32)"
    then show "bit (ucast (ucast (a AND mask 16) :: u16) OR push_bit 16 (ucast (ucast (drop_bit 16 a AND mask 8) :: u8))
        OR push_bit 24 (ucast (ucast (drop_bit 24 a AND mask 8) :: u8)) :: u32) n = bit a n"
      by (cases "n < 24") (auto simp: bit_simps not_less)
  qed
qed

lemma limit_parts:
  fixes a :: u32
  shows "ucast (ucast (a AND 0xffff) :: u16) OR push_bit 16 (ucast (ucast (drop_bit 16 a AND 0xf) :: 4 word)) = a AND 0xfffff"
proof -
  have m: "(0xffff :: u32) = mask 16" "(0xf :: u32) = mask 4" "(0xfffff :: u32) = mask 20" by (simp_all add: mask_eq_exp_minus_1)
  show ?thesis unfolding m by (intro bit_word_eqI) (auto simp: bit_simps not_less)
qed

lemma contents_part: "ucast (drop_bit 2 (push_bit 2 (ucast c) :: 4 word)) = (c :: 2 word)"
  by (rule bit_word_eqI) (auto simp: bit_simps)

lemma write_part:
  fixes c :: "2 word"
  shows "((if b then 2 else 0) OR push_bit 2 (ucast c) OR 1 :: 4 word) AND 2 = 0 \<longleftrightarrow> \<not> b"
proof -
  have "(2 :: 4 word) = push_bit 1 1" by simp
  then have "((if b then 2 else 0) OR push_bit 2 (ucast c) OR 1 :: 4 word) AND 2 = (if b then 2 else 0)"
    by (intro bit_word_eqI) (auto simp: bit_simps bit_1_iff)
  then show ?thesis by simp
qed

lemma get_set_tls_entry:
  assumes "length segs = 3" "set_tls_entry segs u = Inr segs'" "is_user_desc_valid u" "\<not> is_user_desc_empty u"
    and "entry_number v = entry_number u"
  shows "get_tls_entry segs' v = Inr (u\<lparr>limit := limit u AND 0xfffff\<rparr>)"
proof -
  from assms(2) have ok: "tls_index_ok (entry_number u)" by (auto simp: set_tls_entry_def split: if_splits)
  then have "nat (sint (entry_number u) - 6) < length segs" using assms(1) by (auto simp: tls_index_ok_def)
  moreover have "seg_not_present u = 0" using assms(3,4) by (simp add: is_user_desc_valid_def split: if_splits)
  moreover have "of_bool (read_exec_only u \<noteq> 0) = read_exec_only u" using bit1_cases [of "read_exec_only u"] by auto
  ultimately show ?thesis
    using assms(2,4,5) ok
    by (cases u, cases v) (auto simp: set_tls_entry_def get_tls_entry_def Let_def base_parts limit_parts contents_part write_part)
qed

end
