(* ===== verification/Vec.thy ===== *)
theory Vec
  imports Prelude
begin

text \<open>
  The growable byte buffer of \<^verbatim>\<open>kernel/containers/vec.c\<close>, in which tmpfs keeps the content of its files.

  Sizes and offsets are 64-bit words while \<^verbatim>\<open>size_t\<close> and pointers have 32 bits: a conversion cuts the high half off, as in
  the source. The block of memory is the list of its bytes, and an access outside it is wild. Whether the allocator finds
  memory is an argument of the operations that grow the buffer. Below four gigabytes the buffer is an array of bytes that is
  extended with zeroes; the last section shows what happens above.
\<close>

unbundle bit_operations_syntax

record vec =
  v_data :: "u8 list"
  v_capacity :: u64
  v_size :: u64

definition vec_empty :: vec where
  "vec_empty = \<lparr>v_data = [], v_capacity = 0, v_size = 0\<rparr>"

text \<open>\<^verbatim>\<open>memcpy\<close> from the block, \<^verbatim>\<open>memcpy\<close> to it and \<^verbatim>\<open>memset\<close> to zero in it, with a position of 32 bits.\<close>

definition block_read :: "u8 list \<Rightarrow> u32 \<Rightarrow> u32 \<Rightarrow> u8 list option" where
  "block_read xs pos n =
     (if unat pos + unat n \<le> length xs then Some (take (unat n) (drop (unat pos) xs)) else None)"

definition block_write :: "u8 list \<Rightarrow> u32 \<Rightarrow> u8 list \<Rightarrow> u8 list option" where
  "block_write xs pos bytes =
     (if unat pos + length bytes \<le> length xs
      then Some (take (unat pos) xs @ bytes @ drop (unat pos + length bytes) xs) else None)"

definition block_zero :: "u8 list \<Rightarrow> u32 \<Rightarrow> u32 \<Rightarrow> u8 list option" where
  "block_zero xs pos n = block_write xs pos (replicate (unat n) 0)"

definition vec_pread :: "vec \<Rightarrow> u32 \<Rightarrow> u64 \<Rightarrow> u8 list option" where
  "vec_pread v count offset =
     (if offset \<ge> v_size v then Some []
      else let count = (if offset + ucast count \<ge> v_size v then ucast (v_size v - offset) else count)
      in block_read (v_data v) (ucast offset) count)"

text \<open>
  \<^verbatim>\<open>krealloc\<close> keeps the bytes that fit into the new block; the bytes behind the size, which it does not define, are cleared
  right after it.
\<close>

definition grow_capacity :: "bool \<Rightarrow> vec \<Rightarrow> u32 \<Rightarrow> (unit result \<times> vec) option" where
  "grow_capacity mem v requested_size =
     (let new_capacity = ucast (v_capacity v * 2) :: u32
      in if (ucast new_capacity :: u64) < v_capacity v then Some (Inl EOVERFLOW, v)
      else let new_capacity = max new_capacity requested_size;
               new_capacity = (if new_capacity = 0 then 4096 else new_capacity);
               new_capacity = ROUND_UP new_capacity 4096
      in if new_capacity = 0 then Some (Inl EOVERFLOW, v)
      else do {
        c_assert ((ucast new_capacity :: u64) > v_capacity v);
        if \<not> mem then Some (Inl ENOMEM, v)
        else do {
          let new_buf = take (unat new_capacity) (v_data v @ replicate (unat new_capacity) 0);
          new_buf \<leftarrow> block_zero new_buf (ucast (v_size v)) (ucast (ucast new_capacity - v_size v));
          Some (Inr (), v\<lparr>v_data := new_buf, v_capacity := ucast new_capacity\<rparr>)
        }
      })"

definition vec_reserve :: "bool \<Rightarrow> vec \<Rightarrow> u64 \<Rightarrow> (unit result \<times> vec) option" where
  "vec_reserve mem v additional =
     (let new_size = ucast (v_size v + additional) :: u32
      in if (ucast new_size :: u64) < v_size v then Some (Inl EOVERFLOW, v)
      else if (ucast new_size :: u64) \<le> v_capacity v then Some (Inr (), v)
      else grow_capacity mem v new_size)"

definition vec_resize :: "bool \<Rightarrow> vec \<Rightarrow> u64 \<Rightarrow> (unit result \<times> vec) option" where
  "vec_resize mem v new_size =
     (if new_size = v_size v then Some (Inr (), v)
      else if new_size \<le> v_size v then do {
        xs \<leftarrow> block_zero (v_data v) (ucast new_size) (ucast (v_size v - new_size));
        Some (Inr (), v\<lparr>v_data := xs, v_size := new_size\<rparr>)
      }
      else if (ucast (ucast new_size :: u32) :: u64) \<le> v_capacity v then do {
        xs \<leftarrow> block_zero (v_data v) (ucast (v_size v)) (ucast (new_size - v_size v));
        Some (Inr (), v\<lparr>v_data := xs, v_size := new_size\<rparr>)
      }
      else do {
        (rc, v) \<leftarrow> grow_capacity mem v (ucast new_size);
        case rc of Inl e \<Rightarrow> Some (Inl e, v) | Inr _ \<Rightarrow> Some (Inr (), v\<lparr>v_size := new_size\<rparr>)
      })"

text \<open>The number of bytes is the length of the list, which a \<^verbatim>\<open>size_t\<close> holds.\<close>

definition vec_pwrite :: "bool \<Rightarrow> vec \<Rightarrow> u8 list \<Rightarrow> u64 \<Rightarrow> (u32 result \<times> vec) option" where
  "vec_pwrite mem v bytes offset =
     (let count = of_nat (length bytes) :: u32; end = offset + ucast count
      in do {
        (rc, v) \<leftarrow> (if end > v_capacity v then grow_capacity mem v (ucast end) else Some (Inr (), v));
        case rc of
          Inl e \<Rightarrow> Some (Inl e, v)
        | Inr _ \<Rightarrow> do {
            xs \<leftarrow> block_write (v_data v) (ucast offset) bytes;
            Some (Inr count, v\<lparr>v_data := xs, v_size := if v_size v < end then end else v_size v\<rparr>)
          }
      })"

definition vec_append :: "bool \<Rightarrow> vec \<Rightarrow> u8 list \<Rightarrow> (u32 result \<times> vec) option" where
  "vec_append mem v bytes = vec_pwrite mem v bytes (v_size v)"

text \<open>The checks of \<^verbatim>\<open>vec_mmap\<close>; \<open>vm_virt_map\<close> is the call that maps the block.\<close>

definition vec_mmap :: "(u32 \<Rightarrow> nat result) \<Rightarrow> vec \<Rightarrow> u32 \<Rightarrow> u64 \<Rightarrow> nat result" where
  "vec_mmap vm_virt_map v len offset =
     (if offset \<noteq> 0 then Inl EOPNOTSUPP
      else if ucast len > v_size v then Inl EINVAL
      else vm_virt_map len)"

section \<open>Arithmetic of growth\<close>

lemma round_down_page: "unat ((y :: u32) AND NOT 4095) = unat y div 4096 * 4096"
proof -
  have m: "(4095 :: u32) = mask 12" by (simp add: mask_eq_exp_minus_1)
  have "y AND NOT 4095 = push_bit 12 (drop_bit 12 y)"
    unfolding m by (rule bit_word_eqI) (auto simp: bit_simps)
  moreover have "unat (push_bit 12 (drop_bit 12 y)) = unat y div 4096 * 4096"
  proof -
    have "unat y div 4096 * 4096 \<le> unat y" by (rule div_times_less_eq_dividend)
    also have "\<dots> < 2 ^ 32" by (rule unat_u32_less)
    finally show ?thesis
      by (simp add: push_bit_eq_mult drop_bit_eq_div unat_word_ariths unat_div_distrib mult.commute)
  qed
  ultimately show ?thesis by simp
qed

lemma round_up_page:
  "unat (ROUND_UP x 4096) = (if unat x \<le> 2 ^ 32 - 4096 then (unat x + 4095) div 4096 * 4096 else 0)"
proof -
  have x: "unat x < 2 ^ 32" by (rule unat_u32_less)
  have "unat (x + 4095) = (if unat x \<le> 2 ^ 32 - 4096 then unat x + 4095 else unat x + 4095 - 2 ^ 32)"
    using x by (auto simp: unat_word_ariths mod_if)
  moreover have "(unat x + 4095 - 2 ^ 32) div 4096 = 0" if "\<not> unat x \<le> 2 ^ 32 - 4096"
    using x that by (intro div_less) linarith
  moreover have "ROUND_UP x 4096 = (x + 4095) AND NOT 4095" by (simp add: ROUND_UP_def)
  then have "unat (ROUND_UP x 4096) = unat (x + 4095) div 4096 * 4096" by (simp only: round_down_page)
  ultimately show ?thesis by simp
qed

lemma unat_ucast_up: "unat (ucast (x :: u32) :: u64) = unat x"
  using unat_u32_less [of x] by (simp add: unsigned_ucast_eq take_bit_eq_mod)

lemma unat_ucast_down: "unat (x :: u64) < 2 ^ 32 \<Longrightarrow> unat (ucast x :: u32) = unat x"
  by (simp add: unsigned_ucast_eq take_bit_eq_mod)

text \<open>The block has the size the capacity says, and the bytes behind the content are zero.\<close>

definition vec_ok :: "vec \<Rightarrow> bool" where
  "vec_ok v \<longleftrightarrow> length (v_data v) = unat (v_capacity v) \<and> unat (v_size v) \<le> unat (v_capacity v) \<and> unat (v_capacity v) < 2 ^ 32
     \<and> list_all (\<lambda>b. b = 0) (drop (unat (v_size v)) (v_data v))"

definition vec_bytes :: "vec \<Rightarrow> u8 list" where
  "vec_bytes v = take (unat (v_size v)) (v_data v)"

lemma vec_data_split:
  assumes "vec_ok v"
  shows "v_data v = vec_bytes v @ replicate (unat (v_capacity v) - unat (v_size v)) 0" "length (vec_bytes v) = unat (v_size v)"
proof -
  have "drop (unat (v_size v)) (v_data v) = replicate (length (drop (unat (v_size v)) (v_data v))) 0"
    using assms by (intro replicate_length_same [symmetric]) (auto simp: vec_ok_def list_all_iff)
  with assms show "v_data v = vec_bytes v @ replicate (unat (v_capacity v) - unat (v_size v)) 0"
    by (metis append_take_drop_id length_drop vec_bytes_def vec_ok_def)
  show "length (vec_bytes v) = unat (v_size v)" using assms by (simp add: vec_bytes_def vec_ok_def)
qed

lemma vec_okI:
  assumes "v_data v = xs @ replicate n 0" "length xs = unat (v_size v)" "unat (v_capacity v) = length xs + n" "length xs + n < 2 ^ 32"
  shows "vec_ok v" "vec_bytes v = xs"
  using assms by (simp_all add: vec_ok_def vec_bytes_def list_all_iff)


lemma double_capacity:
  assumes "unat (c :: u64) < 2 ^ 32"
  shows "unat (ucast (c * 2) :: u32) = (if unat c < 2 ^ 31 then 2 * unat c else 2 * unat c - 2 ^ 32)"
proof -
  have "unat (c * 2) = 2 * unat c" using assms by (simp add: unat_word_ariths mult.commute)
  with assms show ?thesis by (simp add: unsigned_ucast_eq take_bit_eq_mod mod_if)
qed

text \<open>The capacity that \<^verbatim>\<open>grow_capacity\<close> asks for.\<close>

definition wanted :: "vec \<Rightarrow> u32 \<Rightarrow> u32" where
  "wanted v n = (let m = max (ucast (v_capacity v * 2)) n in if m = 0 then 4096 else m)"

lemma wanted_bounds:
  assumes "unat (v_capacity v) < 2 ^ 31"
  shows "unat (v_capacity v) < unat (wanted v n)" "unat n \<le> unat (wanted v n)"
    "unat (v_capacity v) \<le> 2 ^ 31 - 4096 \<Longrightarrow> unat n \<le> 2 ^ 32 - 4096 \<Longrightarrow> unat (wanted v n) \<le> 2 ^ 32 - 4096"
proof -
  have "unat (max (ucast (v_capacity v * 2)) n) = max (2 * unat (v_capacity v)) (unat n)"
    using double_capacity [of "v_capacity v"] assms by (simp add: max_def word_le_nat_alt)
  moreover have "max (ucast (v_capacity v * 2)) n = 0 \<longleftrightarrow> unat (max (ucast (v_capacity v * 2)) n) = 0"
    by (simp add: unat_eq_0)
  ultimately show "unat (v_capacity v) < unat (wanted v n)" "unat n \<le> unat (wanted v n)"
    "unat (v_capacity v) \<le> 2 ^ 31 - 4096 \<Longrightarrow> unat n \<le> 2 ^ 32 - 4096 \<Longrightarrow> unat (wanted v n) \<le> 2 ^ 32 - 4096"
    unfolding wanted_def Let_def by (auto simp: max_def split: if_splits)
qed

lemma round_up_ge: "unat x \<le> 2 ^ 32 - 4096 \<Longrightarrow> unat x \<le> unat (ROUND_UP x 4096)"
  by (simp add: round_up_page)

lemma grow_capacity_overflow:
  assumes "vec_ok v" "\<not> unat (v_capacity v) < 2 ^ 31"
  shows "grow_capacity mem v n = Some (Inl EOVERFLOW, v)"
proof -
  let ?a = "ucast (v_capacity v * 2) :: u32"
  have c: "unat (v_capacity v) < 2 ^ 32" using assms by (simp add: vec_ok_def)
  have "unat ?a = 2 * unat (v_capacity v) - 2 ^ 32" using double_capacity [OF c] assms(2) by simp
  then have "unat (ucast ?a :: u64) < unat (v_capacity v)" using c assms(2) by (simp add: unat_ucast_up)
  then have "(ucast ?a :: u64) < v_capacity v" by (simp add: word_less_nat_alt)
  then show ?thesis by (simp add: grow_capacity_def Let_def)
qed

lemma grow_capacity_eq:
  fixes n :: u32
  assumes "unat (v_capacity v) < 2 ^ 31"
  defines "m \<equiv> ROUND_UP (wanted v n) 4096"
  shows "grow_capacity mem v n =
    (if m = 0 then Some (Inl EOVERFLOW, v)
     else do {
        c_assert ((ucast m :: u64) > v_capacity v);
        if \<not> mem then Some (Inl ENOMEM, v)
        else do {
          new_buf \<leftarrow> block_zero (take (unat m) (v_data v @ replicate (unat m) 0)) (ucast (v_size v)) (ucast (ucast m - v_size v));
          Some (Inr (), v\<lparr>v_data := new_buf, v_capacity := ucast m\<rparr>)
        } })"
proof -
  let ?a = "ucast (v_capacity v * 2) :: u32"
  have "unat (v_capacity v) \<le> unat (ucast ?a :: u64)"
    using double_capacity [of "v_capacity v"] assms(1) unfolding unat_ucast_up by simp
  then have "\<not> (ucast ?a :: u64) < v_capacity v" by (simp add: word_less_nat_alt)
  then show ?thesis by (simp add: grow_capacity_def wanted_def m_def Let_def)
qed

lemma grown_block:
  fixes m :: u32
  assumes "vec_ok v" "unat (v_capacity v) < unat m"
  defines "xs \<equiv> vec_bytes v @ replicate (unat m - unat (v_size v)) 0"
  shows "block_zero (take (unat m) (v_data v @ replicate (unat m) 0)) (ucast (v_size v)) (ucast (ucast m - v_size v)) = Some xs"
    and "vec_ok (v\<lparr>v_data := xs, v_capacity := ucast m\<rparr>)" "vec_bytes (v\<lparr>v_data := xs, v_capacity := ucast m\<rparr>) = vec_bytes v"
proof -
  let ?s = "unat (v_size v)"
  have s: "?s \<le> unat (v_capacity v)" "unat (v_capacity v) < 2 ^ 32" using assms(1) by (simp_all add: vec_ok_def)
  have "unat (ucast m - v_size v) = unat m - ?s" using s assms(2) by (simp add: unat_sub word_le_nat_alt unat_ucast_up)
  then have z: "unat (ucast (ucast m - v_size v) :: u32) = unat m - ?s" "unat (ucast (v_size v) :: u32) = ?s"
    using s unat_u32_less [of m] by (simp_all add: unat_ucast_down)
  show "block_zero (take (unat m) (v_data v @ replicate (unat m) 0)) (ucast (v_size v)) (ucast (ucast m - v_size v)) = Some xs"
    using s assms(2) vec_data_split [OF assms(1)] by (simp add: block_zero_def block_write_def z xs_def)
  show "vec_ok (v\<lparr>v_data := xs, v_capacity := ucast m\<rparr>)" "vec_bytes (v\<lparr>v_data := xs, v_capacity := ucast m\<rparr>) = vec_bytes v"
    using s assms(2) vec_data_split(2) [OF assms(1)] unat_u32_less [of m]
      vec_okI [of "v\<lparr>v_data := xs, v_capacity := ucast m\<rparr>" "vec_bytes v" "unat m - ?s"]
    by (simp_all add: unat_ucast_up xs_def)
qed

text \<open>
  Growing either fails and leaves the buffer alone, or gives it a larger block with the same content; the assertion holds.
\<close>

lemma grow_capacity_cases:
  assumes "vec_ok v"
  shows "(\<exists>e\<in>{EOVERFLOW, ENOMEM}. grow_capacity mem v n = Some (Inl e, v)
       \<and> (e = EOVERFLOW \<longrightarrow> \<not> (unat (v_capacity v) \<le> 2 ^ 31 - 4096 \<and> unat n \<le> 2 ^ 32 - 4096)) \<and> (e = ENOMEM \<longrightarrow> \<not> mem))
    \<or> (\<exists>v'. grow_capacity mem v n = Some (Inr (), v') \<and> vec_ok v' \<and> v_size v' = v_size v \<and> vec_bytes v' = vec_bytes v
       \<and> unat n \<le> unat (v_capacity v'))"
proof (cases "unat (v_capacity v) < 2 ^ 31")
  case False
  then show ?thesis by (intro disjI1 bexI [of _ EOVERFLOW]) (simp_all add: grow_capacity_overflow [OF assms False])
next
  case True
  note w = wanted_bounds [OF True] and g = grow_capacity_eq [OF True, of mem n]
  let ?n = "ROUND_UP (wanted v n) 4096"
  show ?thesis
  proof (cases "unat (wanted v n) \<le> 2 ^ 32 - 4096")
    case False
    then have "?n = 0" using round_up_page [of "wanted v n"] by (simp add: unat_eq_0)
    with False w(3) [of n] show ?thesis by (intro disjI1 bexI [of _ EOVERFLOW]) (auto simp: g)
  next
    case True
    from round_up_ge [OF this] w(1,2) [of n] have n: "unat (v_capacity v) < unat ?n" "unat n \<le> unat ?n" by linarith+
    then have n0: "?n \<noteq> 0" "(ucast ?n :: u64) > v_capacity v" by (auto simp: word_less_nat_alt unat_ucast_up)
    show ?thesis
    proof (cases mem)
      case False
      with n0 show ?thesis unfolding g by (intro disjI1 bexI [of _ ENOMEM]) (simp_all add: c_assert_def)
    next
      case True
      with n0 n(2) grown_block [OF assms n(1)] show ?thesis
        unfolding g by (intro disjI2) (simp add: c_assert_def unat_ucast_up)
    qed
  qed
qed

section \<open>The contract of a file content\<close>

text \<open>Writing at a position behind the end fills the gap with zeroes.\<close>

definition file_put :: "u8 list \<Rightarrow> nat \<Rightarrow> u8 list \<Rightarrow> u8 list" where
  "file_put xs pos bytes =
     (let ys = xs @ replicate (pos + length bytes - length xs) 0 in take pos ys @ bytes @ drop (pos + length bytes) ys)"

definition file_get :: "u8 list \<Rightarrow> nat \<Rightarrow> nat \<Rightarrow> u8 list" where
  "file_get xs pos n = take n (drop pos xs)"

definition file_cut :: "u8 list \<Rightarrow> nat \<Rightarrow> u8 list" where
  "file_cut xs n = take n xs @ replicate (n - length xs) 0"

lemma length_file_put: "length (file_put xs pos bytes) = max (length xs) (pos + length bytes)"
  by (simp add: file_put_def)

lemma file_put_get: "file_get (file_put xs pos bytes) pos (length bytes) = bytes"
  by (simp add: file_get_def file_put_def)

lemma file_put_other:
  assumes "p + n \<le> pos \<or> pos + length bytes \<le> p" "p + n \<le> length xs"
  shows "file_get (file_put xs pos bytes) p n = file_get xs p n"
proof (rule nth_equalityI)
  show "length (file_get (file_put xs pos bytes) p n) = length (file_get xs p n)"
    using assms by (auto simp: file_get_def length_file_put)
  fix i assume "i < length (file_get (file_put xs pos bytes) p n)"
  then have "i < n" by (simp add: file_get_def)
  with assms show "file_get (file_put xs pos bytes) p n ! i = file_get xs p n ! i"
    by (auto simp: file_get_def file_put_def nth_append)
qed

lemma file_put_gap:
  assumes "length xs \<le> p" "p + n \<le> pos"
  shows "file_get (file_put xs pos bytes) p n = replicate n 0"
proof (rule nth_equalityI)
  show "length (file_get (file_put xs pos bytes) p n) = length (replicate n (0 :: u8))"
    using assms by (auto simp: file_get_def length_file_put)
  fix i assume "i < length (file_get (file_put xs pos bytes) p n)"
  then have "i < n" by (simp add: file_get_def)
  with assms show "file_get (file_put xs pos bytes) p n ! i = replicate n 0 ! i"
    by (auto simp: file_get_def file_put_def nth_append)
qed

text \<open>
  What a user of file content relies on: below four gigabytes a write fails and changes nothing, or writes everything; a
  read returns what is there.
\<close>

locale byte_file =
  fixes ok :: "'f \<Rightarrow> bool"
    and content :: "'f \<Rightarrow> u8 list"
    and pread :: "'f \<Rightarrow> u32 \<Rightarrow> u64 \<Rightarrow> u8 list option"
    and pwrite :: "bool \<Rightarrow> 'f \<Rightarrow> u8 list \<Rightarrow> u64 \<Rightarrow> (u32 result \<times> 'f) option"
  assumes pread_content: "ok f \<Longrightarrow> pread f count offset = Some (file_get (content f) (unat offset) (unat count))"
    and pwrite_content: "ok f \<Longrightarrow> unat offset + length bytes \<le> 2 ^ 32 - 4096 \<Longrightarrow>
      (\<exists>e. pwrite mem f bytes offset = Some (Inl e, f))
      \<or> (\<exists>f'. pwrite mem f bytes offset = Some (Inr (of_nat (length bytes)), f') \<and> ok f'
           \<and> content f' = file_put (content f) (unat offset) bytes)"
begin

lemma written_is_read:
  assumes "ok f" "unat offset + length bytes \<le> 2 ^ 32 - 4096" "pwrite mem f bytes offset = Some (Inr n, f')"
  shows "pread f' (of_nat (length bytes)) offset = Some bytes"
proof -
  from pwrite_content [OF assms(1,2), of mem] assms(3) have f': "ok f'" "content f' = file_put (content f) (unat offset) bytes" by auto
  have "unat (of_nat (length bytes) :: u32) = length bytes" using assms(2) by (intro unat_of_nat_u32) simp
  with pread_content [OF f'(1)] f'(2) show ?thesis by (simp add: file_put_get)
qed

lemma rest_is_kept:
  assumes "ok f" "unat offset + length bytes \<le> 2 ^ 32 - 4096" "pwrite mem f bytes offset = Some (Inr n, f')"
    and "unat pos + unat count \<le> unat offset \<or> unat offset + length bytes \<le> unat pos"
    and "unat pos + unat count \<le> length (content f)"
  shows "pread f' count pos = pread f count pos"
proof -
  from pwrite_content [OF assms(1,2), of mem] assms(3) have f': "ok f'" "content f' = file_put (content f) (unat offset) bytes" by auto
  with pread_content [OF f'(1)] pread_content [OF assms(1)] file_put_other [OF assms(4,5)] show ?thesis by simp
qed

lemma gap_is_zero:
  assumes "ok f" "unat offset + length bytes \<le> 2 ^ 32 - 4096" "pwrite mem f bytes offset = Some (Inr n, f')"
    and "length (content f) \<le> unat pos" "unat pos + unat count \<le> unat offset"
  shows "pread f' count pos = Some (replicate (unat count) 0)"
proof -
  from pwrite_content [OF assms(1,2), of mem] assms(3) have f': "ok f'" "content f' = file_put (content f) (unat offset) bytes" by auto
  with pread_content [OF f'(1)] file_put_gap [OF assms(4,5)] show ?thesis by simp
qed

end

section \<open>The buffer implements the contract\<close>

lemma vec_pread_content:
  assumes "vec_ok v"
  shows "vec_pread v count offset = Some (file_get (vec_bytes v) (unat offset) (unat count))"
proof (cases "offset \<ge> v_size v")
  case True
  then have "unat (v_size v) \<le> unat offset" by (simp add: word_le_nat_alt)
  with True vec_data_split(2) [OF assms] show ?thesis by (simp add: vec_pread_def file_get_def)
next
  case False
  let ?o = "unat offset" and ?s = "unat (v_size v)"
  have s: "?s \<le> unat (v_capacity v)" "unat (v_capacity v) < 2 ^ 32" "length (v_data v) = unat (v_capacity v)"
    using assms by (simp_all add: vec_ok_def)
  have o: "?o < ?s" using False by (simp add: word_le_nat_alt)
  have o32: "unat (ucast offset :: u32) = ?o" using o s by (intro unat_ucast_down) simp
  have sub: "unat (v_size v - offset) = ?s - ?o" using o by (simp add: unat_sub word_le_nat_alt)
  then have sub32: "unat (ucast (v_size v - offset) :: u32) = ?s - ?o" using s by (simp add: unat_ucast_down)
  have "unat (offset + ucast count) = ?o + unat count"
    using o s unat_u32_less [of count] by (simp add: unat_word_ariths unat_ucast_up)
  then have ge: "offset + ucast count \<ge> v_size v \<longleftrightarrow> ?s \<le> ?o + unat count" by (simp add: word_le_nat_alt)
  let ?c = "if offset + ucast count \<ge> v_size v then ucast (v_size v - offset) else count"
  have c: "unat ?c = min (unat count) (?s - ?o)" using o by (auto simp: ge sub32)
  have "take (min (unat count) (?s - ?o)) (drop ?o (v_data v)) = file_get (vec_bytes v) ?o (unat count)"
    by (simp add: file_get_def vec_bytes_def drop_take)
  with False c o32 o s show ?thesis by (simp add: vec_pread_def block_read_def Let_def)
qed

text \<open>The store into a block that is large enough.\<close>

lemma store_content:
  assumes "vec_ok v" "unat offset + length bytes \<le> unat (v_capacity v)"
  defines "n \<equiv> offset + ucast (of_nat (length bytes) :: u32)"
  shows "\<exists>xs. block_write (v_data v) (ucast offset) bytes = Some xs
     \<and> vec_ok (v\<lparr>v_data := xs, v_size := if v_size v < n then n else v_size v\<rparr>)
     \<and> vec_bytes (v\<lparr>v_data := xs, v_size := if v_size v < n then n else v_size v\<rparr>) = file_put (vec_bytes v) (unat offset) bytes"
proof -
  let ?o = "unat offset" and ?s = "unat (v_size v)" and ?c = "unat (v_capacity v)"
  let ?xs = "take ?o (v_data v) @ bytes @ drop (?o + length bytes) (v_data v)"
  let ?v = "v\<lparr>v_data := ?xs, v_size := if v_size v < n then n else v_size v\<rparr>"
  have s: "?s \<le> ?c" "?c < 2 ^ 32" "length (v_data v) = ?c" using assms(1) by (simp_all add: vec_ok_def)
  have "unat n = ?o + length bytes"
    using assms(2) s by (simp add: n_def unat_word_ariths unat_ucast_up unat_of_nat_u32)
  then have size: "unat (v_size ?v) = max ?s (?o + length bytes)" by (auto simp: word_less_nat_alt)
  note split = vec_data_split [OF assms(1)]
  have "?xs = file_put (vec_bytes v) ?o bytes @ replicate (?c - max ?s (?o + length bytes)) 0"
  proof (cases "?o + length bytes \<le> ?s")
    case True
    with s split(2) show ?thesis by (subst (1 2) split(1)) (simp add: file_put_def Let_def)
  next
    case False
    let ?ys = "vec_bytes v @ replicate (?o + length bytes - ?s) 0"
    from False have "?c - ?s = (?o + length bytes - ?s) + (?c - (?o + length bytes))" using assms(2) s by simp
    then have "v_data v = ?ys @ replicate (?c - (?o + length bytes)) 0" using split(1) by (simp only: replicate_add append_assoc)
    moreover have "length ?ys = ?o + length bytes" "max ?s (?o + length bytes) = ?o + length bytes" using False split(2) by simp_all
    moreover have "file_put (vec_bytes v) ?o bytes = take ?o ?ys @ bytes @ drop (?o + length bytes) ?ys"
      using split(2) by (simp add: file_put_def)
    ultimately show ?thesis by simp
  qed
  then have "v_data ?v = file_put (vec_bytes v) ?o bytes @ replicate (?c - max ?s (?o + length bytes)) 0" by simp
  from vec_okI [OF this] size split(2) s assms(2)
  have "vec_ok ?v" "vec_bytes ?v = file_put (vec_bytes v) ?o bytes" by (simp_all add: length_file_put)
  moreover have "block_write (v_data v) (ucast offset) bytes = Some ?xs"
    using assms(2) s by (simp add: block_write_def unat_ucast_down)
  ultimately show ?thesis by blast
qed

lemma vec_pwrite_content:
  assumes "vec_ok v" "unat offset + length bytes \<le> 2 ^ 32 - 4096"
  shows "(\<exists>e\<in>{EOVERFLOW, ENOMEM}. vec_pwrite mem v bytes offset = Some (Inl e, v)
       \<and> (e = EOVERFLOW \<longrightarrow> unat (v_capacity v) > 2 ^ 31 - 4096) \<and> (e = ENOMEM \<longrightarrow> \<not> mem))
    \<or> (\<exists>v'. vec_pwrite mem v bytes offset = Some (Inr (of_nat (length bytes)), v') \<and> vec_ok v'
       \<and> vec_bytes v' = file_put (vec_bytes v) (unat offset) bytes)"
proof -
  let ?n = "offset + ucast (of_nat (length bytes) :: u32)"
  have "unat (of_nat (length bytes) :: u32) = length bytes" using assms(2) by (intro unat_of_nat_u32) simp
  then have n: "unat ?n = unat offset + length bytes" using assms(2) by (simp add: unat_word_ariths unat_ucast_up)
  then have n32: "unat (ucast ?n :: u32) = unat offset + length bytes" using assms(2) by (simp add: unat_ucast_down)
  have store: "\<exists>v'. vec_pwrite mem v bytes offset = Some (Inr (of_nat (length bytes)), v') \<and> vec_ok v'
       \<and> vec_bytes v' = file_put (vec_bytes v) (unat offset) bytes"
    if "(if ?n > v_capacity v then grow_capacity mem v (ucast ?n) else Some (Inr (), v)) = Some (Inr (), w)"
      "vec_ok w" "vec_bytes w = vec_bytes v" "unat offset + length bytes \<le> unat (v_capacity w)" for w
    using store_content [OF that(2,4)] that(1,3) by (auto simp: vec_pwrite_def Let_def simp del: if_split)
  show ?thesis
  proof (cases "?n > v_capacity v")
    case False
    then have "unat offset + length bytes \<le> unat (v_capacity v)" using n by (simp add: word_less_nat_alt)
    with store [of v] False assms(1) show ?thesis by simp
  next
    case True
    from grow_capacity_cases [OF assms(1), of mem "ucast ?n"] show ?thesis
    proof (elim disjE bexE exE conjE)
      fix e assume "e \<in> {EOVERFLOW, ENOMEM}" "grow_capacity mem v (ucast ?n) = Some (Inl e, v)"
        "e = EOVERFLOW \<longrightarrow> \<not> (unat (v_capacity v) \<le> 2 ^ 31 - 4096 \<and> unat (ucast ?n :: u32) \<le> 2 ^ 32 - 4096)" "e = ENOMEM \<longrightarrow> \<not> mem"
      with True n32 assms(2) show ?thesis by (intro disjI1 bexI [of _ e]) (auto simp: vec_pwrite_def Let_def)
    next
      fix w assume "grow_capacity mem v (ucast ?n) = Some (Inr (), w)" "vec_ok w" "vec_bytes w = vec_bytes v"
        "unat (ucast ?n :: u32) \<le> unat (v_capacity w)"
      with store [of w] True n32 show ?thesis by simp
    qed
  qed
qed

interpretation vf: byte_file vec_ok vec_bytes vec_pread vec_pwrite
proof unfold_locales
  fix v count offset
  assume "vec_ok v"
  then show "vec_pread v count offset = Some (file_get (vec_bytes v) (unat offset) (unat count))" by (rule vec_pread_content)
next
  fix v mem and offset :: u64 and bytes :: "u8 list"
  assume "vec_ok v" "unat offset + length bytes \<le> 2 ^ 32 - 4096"
  from vec_pwrite_content [OF this, of mem]
  show "(\<exists>e. vec_pwrite mem v bytes offset = Some (Inl e, v))
      \<or> (\<exists>f'. vec_pwrite mem v bytes offset = Some (Inr (of_nat (length bytes)), f') \<and> vec_ok f'
           \<and> vec_bytes f' = file_put (vec_bytes v) (unat offset) bytes)" by blast
qed

lemma vec_empty_ok: "vec_ok vec_empty" "vec_bytes vec_empty = []"
  by (simp_all add: vec_ok_def vec_bytes_def vec_empty_def)

lemma resize_shrinks:
  assumes "vec_ok v" "unat new_size < unat (v_size v)"
  shows "\<exists>v'. vec_resize mem v new_size = Some (Inr (), v') \<and> vec_ok v' \<and> vec_bytes v' = file_cut (vec_bytes v) (unat new_size)"
proof -
  let ?s = "unat (v_size v)" and ?c = "unat (v_capacity v)" and ?n = "unat new_size"
  note split = vec_data_split [OF assms(1)]
  have s: "?s \<le> ?c" "?c < 2 ^ 32" "length (v_data v) = ?c" using assms(1) by (simp_all add: vec_ok_def)
  have n32: "unat (ucast new_size :: u32) = ?n" using assms(2) s by (simp add: unat_ucast_down)
  let ?v = "v\<lparr>v_data := take ?n (vec_bytes v) @ replicate (?c - ?n) 0, v_size := new_size\<rparr>"
  have "unat (ucast (v_size v - new_size) :: u32) = ?s - ?n"
    using assms(2) s by (simp add: unat_ucast_down unat_sub word_le_nat_alt)
  moreover have "take ?n (v_data v) @ replicate (?s - ?n) 0 @ drop ?s (v_data v) = take ?n (vec_bytes v) @ replicate (?c - ?n) 0"
    using assms(2) s split(2) replicate_add [of "?s - ?n" "?c - ?s" "0 :: u8"] by (subst (1 2) split(1)) simp
  ultimately have "vec_resize mem v new_size = Some (Inr (), ?v)"
    using assms(2) s by (auto simp: vec_resize_def block_zero_def block_write_def n32 word_le_nat_alt)
  with vec_okI [of ?v "take ?n (vec_bytes v)" "?c - ?n"] assms(2) s split(2) show ?thesis by (simp add: file_cut_def)
qed

lemma resize_fits:
  assumes "vec_ok v" "unat (v_size v) < unat new_size" "unat new_size \<le> unat (v_capacity v)"
  shows "\<exists>v'. vec_resize mem v new_size = Some (Inr (), v') \<and> vec_ok v' \<and> vec_bytes v' = file_cut (vec_bytes v) (unat new_size)"
proof -
  let ?s = "unat (v_size v)" and ?c = "unat (v_capacity v)" and ?n = "unat new_size"
  note split = vec_data_split [OF assms(1)]
  have s: "?c < 2 ^ 32" "length (v_data v) = ?c" using assms(1) by (simp_all add: vec_ok_def)
  have n32: "unat (ucast new_size :: u32) = ?n" "unat (ucast (v_size v) :: u32) = ?s" using assms(2,3) s by (simp_all add: unat_ucast_down)
  let ?v = "v\<lparr>v_data := v_data v, v_size := new_size\<rparr>"
  have "unat (ucast (new_size - v_size v) :: u32) = ?n - ?s"
    using assms(2,3) s by (simp add: unat_ucast_down unat_sub word_le_nat_alt)
  moreover have data: "v_data v = (vec_bytes v @ replicate (?n - ?s) 0) @ replicate (?c - ?n) 0"
    using assms(2,3) replicate_add [of "?n - ?s" "?c - ?n" "0 :: u8"] by (subst split(1)) simp
  then have "take ?s (v_data v) @ replicate (?n - ?s) 0 @ drop ?n (v_data v) = v_data v"
    using split(2) assms(2)
    by (metis (no_types, lifting) append.assoc append_eq_conv_conj length_append length_replicate le_add_diff_inverse less_imp_le)
  ultimately have "vec_resize mem v new_size = Some (Inr (), ?v)"
    using assms(2,3) s by (auto simp: vec_resize_def block_zero_def block_write_def n32 word_le_nat_alt unat_ucast_up)
  with vec_okI [of ?v "vec_bytes v @ replicate (?n - ?s) 0" "?c - ?n"] data assms(2,3) s split(2) show ?thesis
    by (simp add: file_cut_def)
qed

lemma resize_grows:
  assumes "vec_ok v" "unat (v_capacity v) < unat new_size" "unat new_size \<le> 2 ^ 32 - 4096"
  shows "(\<exists>e\<in>{EOVERFLOW, ENOMEM}. vec_resize mem v new_size = Some (Inl e, v))
    \<or> (\<exists>v'. vec_resize mem v new_size = Some (Inr (), v') \<and> vec_ok v' \<and> vec_bytes v' = file_cut (vec_bytes v) (unat new_size))"
proof -
  let ?s = "unat (v_size v)" and ?n = "unat new_size"
  have s: "?s \<le> unat (v_capacity v)" using assms(1) by (simp add: vec_ok_def)
  have n32: "unat (ucast new_size :: u32) = ?n" using assms(3) by (simp add: unat_ucast_down)
  have r: "vec_resize mem v new_size = (do {
      (rc, v) \<leftarrow> grow_capacity mem v (ucast new_size);
      case rc of Inl e \<Rightarrow> Some (Inl e, v) | Inr _ \<Rightarrow> Some (Inr (), v\<lparr>v_size := new_size\<rparr>) })"
    using s assms(2) by (auto simp: vec_resize_def word_le_nat_alt unat_ucast_up n32)
  from grow_capacity_cases [OF assms(1), of mem "ucast new_size"] show ?thesis
  proof (elim disjE bexE exE conjE)
    fix e assume "e \<in> {EOVERFLOW, ENOMEM}" "grow_capacity mem v (ucast new_size) = Some (Inl e, v)"
    with r show ?thesis by auto
  next
    fix w assume w: "grow_capacity mem v (ucast new_size) = Some (Inr (), w)" "vec_ok w" "vec_bytes w = vec_bytes v"
      "v_size w = v_size v" "unat (ucast new_size :: u32) \<le> unat (v_capacity w)"
    let ?v = "w\<lparr>v_size := new_size\<rparr>"
    have "v_data w = (vec_bytes v @ replicate (?n - ?s) 0) @ replicate (unat (v_capacity w) - ?n) 0"
      using assms(2) s w n32 replicate_add [of "?n - ?s" "unat (v_capacity w) - ?n" "0 :: u8"] vec_data_split(1) [OF w(2)] by simp
    with vec_okI [of ?v "vec_bytes v @ replicate (?n - ?s) 0" "unat (v_capacity w) - ?n"] r w assms(2) s n32
      vec_data_split(2) [OF assms(1)]
    show ?thesis by (simp add: file_cut_def vec_ok_def)
  qed
qed

lemma vec_resize_content:
  assumes "vec_ok v" "unat new_size \<le> 2 ^ 32 - 4096"
  shows "(\<exists>e\<in>{EOVERFLOW, ENOMEM}. vec_resize mem v new_size = Some (Inl e, v))
    \<or> (\<exists>v'. vec_resize mem v new_size = Some (Inr (), v') \<and> vec_ok v' \<and> vec_bytes v' = file_cut (vec_bytes v) (unat new_size))"
proof -
  consider (same) "new_size = v_size v" | (shrink) "unat new_size < unat (v_size v)"
    | (fits) "unat (v_size v) < unat new_size" "unat new_size \<le> unat (v_capacity v)" | (grow) "unat (v_capacity v) < unat new_size"
    using unsigned_word_eqI [of new_size "v_size v"] by (meson linorder_less_linear not_le)
  then show ?thesis
  proof cases
    case same
    with assms(1) vec_data_split(2) [OF assms(1)] show ?thesis by (simp add: vec_resize_def file_cut_def)
  qed (use resize_shrinks resize_fits resize_grows assms in blast)+
qed

text \<open>
  C38. Below four gigabytes the buffer is an array of bytes that grows with zeroes: a read returns the bytes of the content,
  a write either fails, with ENOMEM only when the allocator has no memory and EOVERFLOW only above half the address space,
  and then changes nothing, or replaces the bytes and fills a gap with zeroes, and a resize cuts or extends the content.
  The bytes behind the content stay zero.
\<close>

theorem vec_refines_file:
  assumes "vec_ok v" "unat offset + length bytes \<le> 2 ^ 32 - 4096" "unat new_size \<le> 2 ^ 32 - 4096"
  shows "vec_pread v count pos = Some (file_get (vec_bytes v) (unat pos) (unat count))
    \<and> ((\<exists>e\<in>{EOVERFLOW, ENOMEM}. vec_pwrite mem v bytes offset = Some (Inl e, v)
          \<and> (e = EOVERFLOW \<longrightarrow> unat (v_capacity v) > 2 ^ 31 - 4096) \<and> (e = ENOMEM \<longrightarrow> \<not> mem))
       \<or> (\<exists>v'. vec_pwrite mem v bytes offset = Some (Inr (of_nat (length bytes)), v') \<and> vec_ok v'
          \<and> vec_bytes v' = file_put (vec_bytes v) (unat offset) bytes))
    \<and> ((\<exists>e\<in>{EOVERFLOW, ENOMEM}. vec_resize mem v new_size = Some (Inl e, v))
       \<or> (\<exists>v'. vec_resize mem v new_size = Some (Inr (), v') \<and> vec_ok v' \<and> vec_bytes v' = file_cut (vec_bytes v) (unat new_size)))"
  using vec_pread_content [OF assms(1)] vec_pwrite_content [OF assms(1,2)] vec_resize_content [OF assms(1,3)] by blast

theorem vec_refines_file_witness:
  "\<exists>v'. vec_pwrite True vec_empty [7] 3 = Some (Inr 1, v') \<and> vec_ok v' \<and> vec_bytes v' = [0, 0, 0, 7]"
proof -
  have "file_put [] 3 [7] = [0, 0, 0, 7]" by (simp add: file_put_def eval_nat_numeral)
  with vec_refines_file [OF vec_empty_ok(1), of 3 "[7]" 0 0 0 True] show ?thesis
    by (auto simp: vec_empty_ok(2)) (simp_all add: vec_empty_def)
qed

section \<open>Above four gigabytes\<close>

text \<open>
  \<^verbatim>\<open>vec_resize\<close> compares the new size cut to 32 bits: extending a file to four gigabytes clears memory from the end of its
  content around the whole address space.
\<close>

lemma resize_to_four_gigabytes:
  assumes "vec_ok v" "v_size v \<noteq> 0"
  shows "vec_resize mem v 0x100000000 = None"
proof -
  let ?s = "unat (v_size v)"
  have s: "?s < 2 ^ 32" "0 < ?s" using assms by (auto simp: vec_ok_def unat_eq_0 intro: gr0I)
  then have "unat (0x100000000 - v_size v) = 2 ^ 32 - ?s" by (simp add: unat_sub word_le_nat_alt)
  then have n: "unat (ucast (0x100000000 - v_size v) :: u32) = 2 ^ 32 - ?s" using s by (simp add: unat_ucast_down)
  have "\<not> (0x100000000 :: u64) \<le> v_size v" "(0x100000000 :: u64) \<noteq> v_size v" using s by (auto simp: word_le_nat_alt)
  then have "vec_resize mem v 0x100000000 = do {
        xs \<leftarrow> block_zero (v_data v) (ucast (v_size v)) (ucast (0x100000000 - v_size v));
        Some (Inr (), v\<lparr>v_data := xs, v_size := 0x100000000\<rparr>) }"
    by (simp add: vec_resize_def)
  also have "\<dots> = None"
    using s assms(1) n by (simp add: block_zero_def block_write_def unat_ucast_down vec_ok_def)
  finally show ?thesis .
qed

text \<open>
  \<^verbatim>\<open>vec_pwrite\<close> passes the end of the write to \<^verbatim>\<open>grow_capacity\<close> cut to 32 bits: a write across the end of the address space
  grows the block by a page at most and then stores at its far end.
\<close>

lemma write_across_four_gigabytes:
  assumes "vec_ok v" "unat (v_capacity v) \<le> 2 ^ 31 - 4096"
  shows "vec_pwrite True v [a, b] 0xffffffff = None"
proof -
  have low: "(4294967297 :: u32) = 1" "ucast (4294967295 :: u64) = (4294967295 :: u32)"
    by (rule unsigned_word_eqI, simp)+
  have "v_capacity v < 0x100000001" using assms by (simp add: word_less_nat_alt)
  then have pw: "vec_pwrite True v [a, b] 0xffffffff = do {
      (rc, v) \<leftarrow> grow_capacity True v 1;
      case rc of
          Inl e \<Rightarrow> Some (Inl e, v)
        | Inr _ \<Rightarrow> do {
            xs \<leftarrow> block_write (v_data v) (ucast (0xffffffff :: u64)) [a, b];
            Some (Inr 2, v\<lparr>v_data := xs, v_size := if v_size v < 0x100000001 then 0x100000001 else v_size v\<rparr>)
          } }"
    by (simp add: vec_pwrite_def low)
  from grow_capacity_cases [OF assms(1), of True 1] assms(2) obtain w where
    w: "grow_capacity True v 1 = Some (Inr (), w)" "vec_ok w" by auto
  then have "block_write (v_data w) (ucast (0xffffffff :: u64)) [a, b] = None" by (auto simp: block_write_def vec_ok_def low)
  with pw w show ?thesis by simp
qed

end
