(* ===== verification/Fs.thy ===== *)
theory Fs
  imports Vec Blocking
begin

text \<open>
  Inodes and open files: \<^verbatim>\<open>kernel/fs/fs.c\<close>, directory entries (\<^verbatim>\<open>kernel/fs/dentry.c\<close>) and the file system in memory
  (\<^verbatim>\<open>kernel/fs/tmpfs.c\<close>).

  An inode is a number, its address; the map of the state holds the inodes that are allocated, so a use after free is a wild
  access. A name is the list of its bytes without the terminator. The kernel finds the operations of an inode through its
  table \<^verbatim>\<open>fops\<close>. The two tables of tmpfs are modelled here; those of devices, pipes, sockets and proc files are the argument
  \<open>drv\<close> of the functions of \<^verbatim>\<open>fs.c\<close>. Whether an allocation finds memory is a function of its number in the state. Mutexes
  make each operation one step. Reference and link counts are natural numbers; that the machine counters do not overflow is
  taken for granted.
\<close>

section \<open>The state\<close>

type_synonym fname = "u8 list"

datatype fops = Dir_fops | Non_dir_fops | Other_fops nat

text \<open>\<^verbatim>\<open>struct inode\<close> with the fields \<^verbatim>\<open>content\<close> and \<^verbatim>\<open>children\<close> of \<^verbatim>\<open>tmpfs_inode\<close>; a bound socket is named by its inode.\<close>

record inode =
  i_fops :: fops
  i_dev :: u32
  i_rdev :: u32
  i_fifo :: "nat option"
  i_bound_socket :: "nat option"
  i_mode :: u32
  i_num_links :: nat
  i_ref_count :: nat
  i_content :: vec
  i_children :: "(fname \<times> nat) list"

record open_file =
  f_inode :: nat
  f_flags :: u32
  f_offset :: u64
  f_ref_count :: nat

record vfs =
  inodes :: "nat \<rightharpoonup> inode"
  open_files :: "nat \<rightharpoonup> open_file"
  next_addr :: nat
  oom :: "nat \<Rightarrow> bool"
  destroyed :: "nat list"
  root_inode :: "nat option"
  mount_points :: "(nat \<times> nat) list"
  devices :: "(fname \<times> nat) list"
  next_dev_id :: u32

definition set_inode :: "vfs \<Rightarrow> nat \<Rightarrow> inode \<Rightarrow> vfs" where
  "set_inode s a i = s\<lparr>inodes := (inodes s)(a \<mapsto> i)\<rparr>"

definition alloc :: "vfs \<Rightarrow> nat option \<times> vfs" where
  "alloc s = (if oom s (next_addr s) then None else Some (next_addr s), s\<lparr>next_addr := next_addr s + 1\<rparr>)"

abbreviation (input) S_IFMT :: u32 where "S_IFMT \<equiv> 0xf000"
abbreviation (input) S_IFDIR :: u32 where "S_IFDIR \<equiv> 0x4000"
abbreviation (input) S_IFCHR :: u32 where "S_IFCHR \<equiv> 0x2000"
abbreviation (input) S_IFBLK :: u32 where "S_IFBLK \<equiv> 0x6000"
abbreviation (input) S_IFREG :: u32 where "S_IFREG \<equiv> 0x8000"
abbreviation (input) S_IFIFO :: u32 where "S_IFIFO \<equiv> 0x1000"
abbreviation (input) S_IFLNK :: u32 where "S_IFLNK \<equiv> 0xa000"
abbreviation (input) S_IFSOCK :: u32 where "S_IFSOCK \<equiv> 0xc000"

definition S_ISDIR :: "u32 \<Rightarrow> bool" where "S_ISDIR m \<longleftrightarrow> m AND S_IFMT = S_IFDIR"
definition S_ISCHR :: "u32 \<Rightarrow> bool" where "S_ISCHR m \<longleftrightarrow> m AND S_IFMT = S_IFCHR"
definition S_ISBLK :: "u32 \<Rightarrow> bool" where "S_ISBLK m \<longleftrightarrow> m AND S_IFMT = S_IFBLK"
definition S_ISFIFO :: "u32 \<Rightarrow> bool" where "S_ISFIFO m \<longleftrightarrow> m AND S_IFMT = S_IFIFO"
definition S_ISLNK :: "u32 \<Rightarrow> bool" where "S_ISLNK m \<longleftrightarrow> m AND S_IFMT = S_IFLNK"

section \<open>References\<close>

definition inode_ref :: "vfs \<Rightarrow> nat \<Rightarrow> vfs option" where
  "inode_ref s a = do { i \<leftarrow> inodes s a; Some (set_inode s a (i\<lparr>i_ref_count := i_ref_count i + 1\<rparr>)) }"

text \<open>
  \<^verbatim>\<open>inode_unref\<close>, \<^verbatim>\<open>inode_destroy\<close>, \<^verbatim>\<open>tmpfs_destroy_inode\<close> and \<^verbatim>\<open>dentry_clear\<close> call each other. The calls that are still to be
  made are the list of jobs: to drop a reference, to remove a directory entry, or to free an inode once it is taken apart.
  An inode of another kind is handed to its driver, which the field \<^const>\<open>destroyed\<close> records.
\<close>

datatype unref_job = Unref nat | Unlink nat | Free nat

definition dentry_clear :: "(fname \<times> nat) list \<Rightarrow> unref_job list" where
  "dentry_clear head = map (\<lambda>d. Unlink (snd d)) head"

definition inode_destroy :: "nat \<Rightarrow> inode \<Rightarrow> unref_job list" where
  "inode_destroy a i =
     (case i_fifo i of None \<Rightarrow> [] | Some f \<Rightarrow> [Unref f])
     @ (case i_bound_socket i of None \<Rightarrow> [] | Some b \<Rightarrow> [Unref b])
     @ (case i_fops i of Other_fops _ \<Rightarrow> [] | _ \<Rightarrow> dentry_clear (i_children i)) @ [Free a]"

definition drop_ref :: "vfs \<Rightarrow> nat \<Rightarrow> (unref_job list \<times> vfs) option" where
  "drop_ref s a =
     do {
       i \<leftarrow> inodes s a;
       c_assert (i_ref_count i > 0);
       let i = i\<lparr>i_ref_count := i_ref_count i - 1\<rparr>;
       Some (if i_ref_count i = 0 \<and> i_num_links i = 0 then inode_destroy a i else [], set_inode s a i)
     }"

definition drop_link :: "vfs \<Rightarrow> nat \<Rightarrow> vfs option" where
  "drop_link s a =
     do {
       i \<leftarrow> inodes s a;
       c_assert (i_num_links i > 0);
       Some (set_inode s a (i\<lparr>i_num_links := i_num_links i - 1\<rparr>))
     }"

definition free_inode :: "vfs \<Rightarrow> nat \<Rightarrow> vfs option" where
  "free_inode s a =
     do {
       i \<leftarrow> inodes s a;
       Some (s\<lparr>inodes := (inodes s)(a := None),
               destroyed := (case i_fops i of Other_fops _ \<Rightarrow> a # destroyed s | _ \<Rightarrow> destroyed s)\<rparr>)
     }"

partial_function (option) unref_loop :: "unref_job list \<Rightarrow> vfs \<Rightarrow> vfs option" where
  "unref_loop jobs s =
     (case jobs of
        [] \<Rightarrow> Some s
      | Unref a # jobs \<Rightarrow> do { (more, s) \<leftarrow> drop_ref s a; unref_loop (more @ jobs) s }
      | Unlink a # jobs \<Rightarrow> do { s \<leftarrow> drop_link s a; unref_loop (Unref a # jobs) s }
      | Free a # jobs \<Rightarrow> do { s \<leftarrow> free_inode s a; unref_loop jobs s })"

text \<open>\<open>None\<close> in the place of an inode stands for the null pointer.\<close>

definition inode_unref :: "vfs \<Rightarrow> nat option \<Rightarrow> vfs option" where
  "inode_unref s r = (case r of None \<Rightarrow> Some s | Some a \<Rightarrow> unref_loop [Unref a] s)"

section \<open>Directory entries\<close>

definition mode_to_dirent_type :: "u32 \<Rightarrow> u8 option" where
  "mode_to_dirent_type m =
     (let t = m AND S_IFMT
      in if t = S_IFDIR then Some 4 else if t = S_IFCHR then Some 2 else if t = S_IFBLK then Some 6
      else if t = S_IFREG then Some 8 else if t = S_IFIFO then Some 1 else if t = S_IFLNK then Some 10
      else if t = S_IFSOCK then Some 12 else None)"

definition dentry_find :: "vfs \<Rightarrow> (fname \<times> nat) list \<Rightarrow> fname \<Rightarrow> (nat result \<times> vfs) option" where
  "dentry_find s head name =
     (case map_of head name of
        Some a \<Rightarrow> do { s \<leftarrow> inode_ref s a; Some (Inr a, s) }
      | None \<Rightarrow> Some (Inl ENOENT, s))"

text \<open>
  \<^verbatim>\<open>dentry_getdents\<close>: the entries from the offset on, handed to the callback until it refuses one; \<open>ctx\<close> is the callback's
  own state. The result has the offset of the file behind the last accepted entry.
\<close>

fun getdents_loop :: "vfs \<Rightarrow> (fname \<times> nat) list \<Rightarrow> (fname \<Rightarrow> u8 \<Rightarrow> 'c \<Rightarrow> bool \<times> 'c) \<Rightarrow> 'c \<Rightarrow> u64 \<Rightarrow> ('c \<times> u64) option" where
  "getdents_loop s [] callback ctx offset = Some (ctx, offset)"
| "getdents_loop s ((name, a) # ds) callback ctx offset =
     do {
       i \<leftarrow> inodes s a;
       type \<leftarrow> mode_to_dirent_type (i_mode i);
       let (go, ctx) = callback name type ctx;
       if \<not> go then Some (ctx, offset) else getdents_loop s ds callback ctx (offset + 1)
     }"

definition dentry_getdents ::
    "vfs \<Rightarrow> (fname \<times> nat) list \<Rightarrow> (fname \<Rightarrow> u8 \<Rightarrow> 'c \<Rightarrow> bool \<times> 'c) \<Rightarrow> 'c \<Rightarrow> u64 \<Rightarrow> ('c \<times> u64) option" where
  "dentry_getdents s head callback ctx offset = getdents_loop s (drop (unat offset) head) callback ctx offset"

definition dentry_append ::
    "vfs \<Rightarrow> (fname \<times> nat) list \<Rightarrow> fname \<Rightarrow> nat \<Rightarrow> (unit result \<times> (fname \<times> nat) list \<times> vfs) option" where
  "dentry_append s head name child =
     (if map_of head name \<noteq> None then do { s \<leftarrow> inode_unref s (Some child); Some (Inl EEXIST, head, s) }
      else let (new_dentry, s) = alloc s
      in if new_dentry = None then do { s \<leftarrow> inode_unref s (Some child); Some (Inl ENOMEM, head, s) }
      else let (new_name, s) = alloc s
      in if new_name = None then do { s \<leftarrow> inode_unref s (Some child); Some (Inl ENOMEM, head, s) }
      else do {
        i \<leftarrow> inodes s child;
        Some (Inr (), head @ [(name, child)], set_inode s child (i\<lparr>i_num_links := i_num_links i + 1\<rparr>))
      })"

definition dentry_remove :: "vfs \<Rightarrow> (fname \<times> nat) list \<Rightarrow> fname \<Rightarrow> (nat result \<times> (fname \<times> nat) list \<times> vfs) option" where
  "dentry_remove s head name =
     (case map_of head name of
        Some a \<Rightarrow> do { s \<leftarrow> drop_link s a; Some (Inr a, remove1 (name, a) head, s) }
      | None \<Rightarrow> Some (Inl ENOENT, head, s))"

section \<open>The file system in memory\<close>

text \<open>The fields of \<^verbatim>\<open>struct kstat\<close> that a file system sets; the others stay zero.\<close>

record kstat =
  st_dev :: u32
  st_mode :: u32
  st_nlink :: nat
  st_rdev :: u32
  st_size :: u64

definition tmpfs_lookup_child :: "vfs \<Rightarrow> nat \<Rightarrow> fname \<Rightarrow> (nat result \<times> vfs) option" where
  "tmpfs_lookup_child s a name =
     do {
       node \<leftarrow> inodes s a;
       (child, s) \<leftarrow> dentry_find s (i_children node) name;
       s \<leftarrow> inode_unref s (Some a);
       Some (child, s)
     }"

definition tmpfs_stat :: "vfs \<Rightarrow> nat \<Rightarrow> kstat \<Rightarrow> (kstat result \<times> vfs) option" where
  "tmpfs_stat s a buf =
     do {
       node \<leftarrow> inodes s a;
       s \<leftarrow> inode_unref s (Some a);
       Some (Inr (buf\<lparr>st_size := v_size (i_content node)\<rparr>), s)
     }"

definition tmpfs_pread :: "vfs \<Rightarrow> nat \<Rightarrow> u32 \<Rightarrow> u64 \<Rightarrow> (u8 list result \<times> vfs) option" where
  "tmpfs_pread s f count offset =
     do {
       fl \<leftarrow> open_files s f;
       node \<leftarrow> inodes s (f_inode fl);
       bytes \<leftarrow> vec_pread (i_content node) count offset;
       Some (Inr bytes, s)
     }"

definition tmpfs_pwrite :: "vfs \<Rightarrow> nat \<Rightarrow> u8 list \<Rightarrow> u64 \<Rightarrow> (u32 result \<times> vfs) option" where
  "tmpfs_pwrite s f bytes offset =
     do {
       fl \<leftarrow> open_files s f;
       node \<leftarrow> inodes s (f_inode fl);
       let (mem, s) = alloc s;
       (n, v) \<leftarrow> vec_pwrite (mem \<noteq> None) (i_content node) bytes offset;
       Some (n, set_inode s (f_inode fl) (node\<lparr>i_content := v\<rparr>))
     }"

definition tmpfs_truncate :: "vfs \<Rightarrow> nat \<Rightarrow> u64 \<Rightarrow> (unit result \<times> vfs) option" where
  "tmpfs_truncate s f len =
     do {
       fl \<leftarrow> open_files s f;
       node \<leftarrow> inodes s (f_inode fl);
       let (mem, s) = alloc s;
       (rc, v) \<leftarrow> vec_resize (mem \<noteq> None) (i_content node) len;
       Some (rc, set_inode s (f_inode fl) (node\<lparr>i_content := v\<rparr>))
     }"

definition tmpfs_getdents ::
    "vfs \<Rightarrow> nat \<Rightarrow> (fname \<Rightarrow> u8 \<Rightarrow> 'c \<Rightarrow> bool \<times> 'c) \<Rightarrow> 'c \<Rightarrow> (unit result \<times> 'c \<times> vfs) option" where
  "tmpfs_getdents s f callback ctx =
     do {
       fl \<leftarrow> open_files s f;
       node \<leftarrow> inodes s (f_inode fl);
       (ctx, offset) \<leftarrow> dentry_getdents s (i_children node) callback ctx (f_offset fl);
       Some (Inr (), ctx, s\<lparr>open_files := (open_files s)(f \<mapsto> fl\<lparr>f_offset := offset\<rparr>)\<rparr>)
     }"

definition tmpfs_link_child :: "vfs \<Rightarrow> nat \<Rightarrow> fname \<Rightarrow> nat \<Rightarrow> (unit result \<times> vfs) option" where
  "tmpfs_link_child s a name child =
     do {
       node \<leftarrow> inodes s a;
       (rc, head, s) \<leftarrow> dentry_append s (i_children node) name child;
       node \<leftarrow> inodes s a;
       s \<leftarrow> inode_unref (set_inode s a (node\<lparr>i_children := head\<rparr>)) (Some a);
       Some (rc, s)
     }"

definition tmpfs_unlink_child :: "vfs \<Rightarrow> nat \<Rightarrow> fname \<Rightarrow> (nat result \<times> vfs) option" where
  "tmpfs_unlink_child s a name =
     do {
       node \<leftarrow> inodes s a;
       (child, head, s) \<leftarrow> dentry_remove s (i_children node) name;
       node \<leftarrow> inodes s a;
       s \<leftarrow> inode_unref (set_inode s a (node\<lparr>i_children := head\<rparr>)) (Some a);
       Some (child, s)
     }"

text \<open>When there is no memory for the new inode the reference on the directory is not dropped.\<close>

definition tmpfs_create_child :: "vfs \<Rightarrow> nat \<Rightarrow> fname \<Rightarrow> u32 \<Rightarrow> (nat result \<times> vfs) option" where
  "tmpfs_create_child s a name m =
     (let (child, s) = alloc s
      in case child of
        None \<Rightarrow> Some (Inl ENOMEM, s)
      | Some c \<Rightarrow> do {
          node \<leftarrow> inodes s a;
          let s = set_inode s c
            \<lparr>i_fops = (if S_ISDIR m then Dir_fops else Non_dir_fops), i_dev = i_dev node, i_rdev = 0, i_fifo = None,
             i_bound_socket = None, i_mode = m, i_num_links = 0, i_ref_count = 1, i_content = vec_empty, i_children = []\<rparr>;
          s \<leftarrow> inode_ref s c;
          (rc, s) \<leftarrow> tmpfs_link_child s a name c;
          case rc of
            Inl e \<Rightarrow> do { s \<leftarrow> inode_unref s (Some c); Some (Inl e, s) }
          | Inr _ \<Rightarrow> Some (Inr c, s)
        })"

definition vfs_generate_unnamed_block_device_number :: "vfs \<Rightarrow> u32 \<times> vfs" where
  "vfs_generate_unnamed_block_device_number s =
     (let id = next_dev_id s
      in ((id AND 0xff) OR push_bit 12 (id AND NOT 0xff), s\<lparr>next_dev_id := id + 1\<rparr>))"

definition tmpfs_mount :: "vfs \<Rightarrow> nat result \<times> vfs" where
  "tmpfs_mount s =
     (let (r, s) = alloc s
      in case r of
        None \<Rightarrow> (Inl ENOMEM, s)
      | Some a \<Rightarrow>
          let (d, s) = vfs_generate_unnamed_block_device_number s
          in (Inr a, set_inode s a
               \<lparr>i_fops = Dir_fops, i_dev = d, i_rdev = 0, i_fifo = None, i_bound_socket = None, i_mode = S_IFDIR,
                i_num_links = 0, i_ref_count = 1, i_content = vec_empty, i_children = []\<rparr>))"

text \<open>A table of operations; \<open>None\<close> is the null pointer.\<close>

record file_ops =
  op_lookup_child :: "(vfs \<Rightarrow> nat \<Rightarrow> fname \<Rightarrow> (nat result \<times> vfs) option) option"
  op_create_child :: "(vfs \<Rightarrow> nat \<Rightarrow> fname \<Rightarrow> u32 \<Rightarrow> (nat result \<times> vfs) option) option"
  op_link_child :: "(vfs \<Rightarrow> nat \<Rightarrow> fname \<Rightarrow> nat \<Rightarrow> (unit result \<times> vfs) option) option"
  op_unlink_child :: "(vfs \<Rightarrow> nat \<Rightarrow> fname \<Rightarrow> (nat result \<times> vfs) option) option"
  op_open :: "(vfs \<Rightarrow> nat \<Rightarrow> u32 \<Rightarrow> (unit result \<times> vfs) option) option"
  op_stat :: "(vfs \<Rightarrow> nat \<Rightarrow> kstat \<Rightarrow> (kstat result \<times> vfs) option) option"
  op_close :: "(vfs \<Rightarrow> nat \<Rightarrow> (unit result \<times> vfs) option) option"
  op_pread :: "(vfs \<Rightarrow> nat \<Rightarrow> u32 \<Rightarrow> u64 \<Rightarrow> (u8 list result \<times> vfs) option) option"
  op_pwrite :: "(vfs \<Rightarrow> nat \<Rightarrow> u8 list \<Rightarrow> u64 \<Rightarrow> (u32 result \<times> vfs) option) option"
  op_truncate :: "(vfs \<Rightarrow> nat \<Rightarrow> u64 \<Rightarrow> (unit result \<times> vfs) option) option"

definition dir_fops :: file_ops where
  "dir_fops =
     \<lparr>op_lookup_child = Some tmpfs_lookup_child, op_create_child = Some tmpfs_create_child,
      op_link_child = Some tmpfs_link_child, op_unlink_child = Some tmpfs_unlink_child, op_open = None,
      op_stat = Some tmpfs_stat, op_close = None, op_pread = None, op_pwrite = None, op_truncate = None\<rparr>"

definition non_dir_fops :: file_ops where
  "non_dir_fops =
     \<lparr>op_lookup_child = None, op_create_child = None, op_link_child = None, op_unlink_child = None, op_open = None,
      op_stat = Some tmpfs_stat, op_close = None, op_pread = Some tmpfs_pread, op_pwrite = Some tmpfs_pwrite,
      op_truncate = Some tmpfs_truncate\<rparr>"

definition ops_of :: "(nat \<Rightarrow> file_ops) \<Rightarrow> inode \<Rightarrow> file_ops" where
  "ops_of drv i = (case i_fops i of Dir_fops \<Rightarrow> dir_fops | Non_dir_fops \<Rightarrow> non_dir_fops | Other_fops n \<Rightarrow> drv n)"

section \<open>Operations on inodes\<close>

definition inode_lookup_child :: "(nat \<Rightarrow> file_ops) \<Rightarrow> vfs \<Rightarrow> nat \<Rightarrow> fname \<Rightarrow> (nat result \<times> vfs) option" where
  "inode_lookup_child drv s a name =
     do {
       i \<leftarrow> inodes s a;
       case op_lookup_child (ops_of drv i) of
         Some f \<Rightarrow> if S_ISDIR (i_mode i) then f s a name else do { s \<leftarrow> inode_unref s (Some a); Some (Inl ENOTDIR, s) }
       | None \<Rightarrow> do { s \<leftarrow> inode_unref s (Some a); Some (Inl ENOTDIR, s) }
     }"

definition inode_create_child :: "(nat \<Rightarrow> file_ops) \<Rightarrow> vfs \<Rightarrow> nat \<Rightarrow> fname \<Rightarrow> u32 \<Rightarrow> (nat result \<times> vfs) option" where
  "inode_create_child drv s a name m =
     do {
       i \<leftarrow> inodes s a;
       case op_create_child (ops_of drv i) of
         Some f \<Rightarrow>
           if S_ISDIR (i_mode i) then do { c_assert (m AND S_IFMT \<noteq> 0); f s a name m }
           else do { s \<leftarrow> inode_unref s (Some a); Some (Inl ENOTDIR, s) }
       | None \<Rightarrow> do { s \<leftarrow> inode_unref s (Some a); Some (Inl ENOTDIR, s) }
     }"

definition unref_both :: "vfs \<Rightarrow> nat \<Rightarrow> nat \<Rightarrow> errno \<Rightarrow> (unit result \<times> vfs) option" where
  "unref_both s a child e =
     do { s \<leftarrow> inode_unref s (Some a); s \<leftarrow> inode_unref s (Some child); Some (Inl e, s) }"

definition inode_link_child :: "(nat \<Rightarrow> file_ops) \<Rightarrow> vfs \<Rightarrow> nat \<Rightarrow> fname \<Rightarrow> nat \<Rightarrow> (unit result \<times> vfs) option" where
  "inode_link_child drv s a name child =
     do {
       i \<leftarrow> inodes s a;
       case op_link_child (ops_of drv i) of
         None \<Rightarrow> unref_both s a child ENOTDIR
       | Some f \<Rightarrow>
           if \<not> S_ISDIR (i_mode i) then unref_both s a child ENOTDIR
           else do {
             c \<leftarrow> inodes s child;
             if i_dev i \<noteq> i_dev c then unref_both s a child EXDEV else f s a name child
           }
     }"

definition inode_unlink_child :: "(nat \<Rightarrow> file_ops) \<Rightarrow> vfs \<Rightarrow> nat \<Rightarrow> fname \<Rightarrow> (unit result \<times> vfs) option" where
  "inode_unlink_child drv s a name =
     do {
       i \<leftarrow> inodes s a;
       case (if S_ISDIR (i_mode i) then op_unlink_child (ops_of drv i) else None) of
         None \<Rightarrow> do { s \<leftarrow> inode_unref s (Some a); Some (Inl ENOTDIR, s) }
       | Some f \<Rightarrow> do {
           (r, s) \<leftarrow> f s a name;
           case r of
             Inl e \<Rightarrow> Some (Inl e, s)
           | Inr child \<Rightarrow> do { s \<leftarrow> inode_unref s (Some child); Some (Inr (), s) }
         }
     }"

definition file_close :: "(nat \<Rightarrow> file_ops) \<Rightarrow> vfs \<Rightarrow> nat \<Rightarrow> (unit result \<times> vfs) option" where
  "file_close drv s f =
     do {
       fl \<leftarrow> open_files s f;
       c_assert (f_ref_count fl > 0);
       let s = s\<lparr>open_files := (open_files s)(f \<mapsto> fl\<lparr>f_ref_count := f_ref_count fl - 1\<rparr>)\<rparr>;
       if f_ref_count fl - 1 > 0 then Some (Inr (), s)
       else do {
         i \<leftarrow> inodes s (f_inode fl);
         (rc, s) \<leftarrow> (case op_close (ops_of drv i) of None \<Rightarrow> Some (Inr (), s) | Some c \<Rightarrow> c s f);
         s \<leftarrow> inode_unref (s\<lparr>open_files := (open_files s)(f := None)\<rparr>) (Some (f_inode fl));
         Some (rc, s)
       }
     }"

text \<open>The truncation at the end of \<^verbatim>\<open>inode_open\<close>; for a directory the open file is neither returned nor closed.\<close>

definition open_trunc :: "(nat \<Rightarrow> file_ops) \<Rightarrow> vfs \<Rightarrow> nat \<Rightarrow> inode \<Rightarrow> nat \<Rightarrow> (nat result \<times> vfs) option" where
  "open_trunc drv s a i f =
     (if S_ISDIR (i_mode i) then Some (Inl EISDIR, s)
      else case op_truncate (ops_of drv i) of
        None \<Rightarrow> Some (Inr f, s)
      | Some t \<Rightarrow> do {
          (rc, s) \<leftarrow> t s f 0;
          case rc of
            Inl e \<Rightarrow> do { (_, s) \<leftarrow> file_close drv s f; Some (Inl e, s) }
          | Inr _ \<Rightarrow> Some (Inr f, s)
        })"

definition inode_open :: "(nat \<Rightarrow> file_ops) \<Rightarrow> vfs \<Rightarrow> nat \<Rightarrow> u32 \<Rightarrow> u32 \<Rightarrow> (nat result \<times> vfs) option" where
  "inode_open drv s a flags m =
     do {
       i \<leftarrow> inodes s a;
       let acc = flags AND O_ACCMODE;
       if acc = 3 then do { s \<leftarrow> inode_unref s (Some a); Some (Inl EINVAL, s) }
       else if acc \<noteq> O_RDONLY \<and> S_ISDIR (i_mode i) then do { s \<leftarrow> inode_unref s (Some a); Some (Inl EISDIR, s) }
       else let (r, s) = alloc s
       in case r of
         None \<Rightarrow> do { s \<leftarrow> inode_unref s (Some a); Some (Inl ENOMEM, s) }
       | Some f \<Rightarrow> do {
           let s = s\<lparr>open_files := (open_files s)(f \<mapsto> \<lparr>f_inode = a, f_flags = flags, f_offset = 0, f_ref_count = 1\<rparr>)\<rparr>;
           (rc, s) \<leftarrow> (case op_open (ops_of drv i) of None \<Rightarrow> Some (Inr (), s) | Some op \<Rightarrow> op s f m);
           case rc of
             Inl e \<Rightarrow> do {
               s \<leftarrow> inode_unref s (Some a);
               Some (Inl e, s\<lparr>open_files := (open_files s)(f := None)\<rparr>)
             }
           | Inr _ \<Rightarrow> if flags AND O_TRUNC \<noteq> 0 then open_trunc drv s a i f else Some (Inr f, s)
         }
     }"

definition inode_stat :: "(nat \<Rightarrow> file_ops) \<Rightarrow> vfs \<Rightarrow> nat \<Rightarrow> (kstat result \<times> vfs) option" where
  "inode_stat drv s a =
     do {
       i \<leftarrow> inodes s a;
       let buf = \<lparr>st_dev = i_dev i, st_mode = i_mode i, st_nlink = i_num_links i, st_rdev = i_rdev i, st_size = 0\<rparr>;
       case op_stat (ops_of drv i) of
         Some f \<Rightarrow> f s a buf
       | None \<Rightarrow> do { s \<leftarrow> inode_unref s (Some a); Some (Inr buf, s) }
     }"

section \<open>Operations on open files\<close>

definition inode_is_seekable :: "inode \<Rightarrow> bool" where
  "inode_is_seekable i \<longleftrightarrow> i_mode i AND S_IFMT \<in> {S_IFREG, S_IFBLK, S_IFLNK}"

definition file_pread :: "(nat \<Rightarrow> file_ops) \<Rightarrow> vfs \<Rightarrow> nat \<Rightarrow> u32 \<Rightarrow> u64 \<Rightarrow> (u8 list result \<times> vfs) option" where
  "file_pread drv s f count offset =
     do {
       fl \<leftarrow> open_files s f;
       i \<leftarrow> inodes s (f_inode fl);
       if S_ISDIR (i_mode i) then Some (Inl EISDIR, s)
       else case op_pread (ops_of drv i) of
         None \<Rightarrow> Some (Inl EINVAL, s)
       | Some op \<Rightarrow> if f_flags fl AND O_ACCMODE = O_WRONLY then Some (Inl EBADF, s) else op s f count offset
     }"

definition file_pwrite :: "(nat \<Rightarrow> file_ops) \<Rightarrow> vfs \<Rightarrow> nat \<Rightarrow> u8 list \<Rightarrow> u64 \<Rightarrow> (u32 result \<times> vfs) option" where
  "file_pwrite drv s f bytes offset =
     do {
       fl \<leftarrow> open_files s f;
       i \<leftarrow> inodes s (f_inode fl);
       if S_ISDIR (i_mode i) then Some (Inl EISDIR, s)
       else case op_pwrite (ops_of drv i) of
         None \<Rightarrow> Some (Inl EINVAL, s)
       | Some op \<Rightarrow> if f_flags fl AND O_ACCMODE = O_RDONLY then Some (Inl EBADF, s) else op s f bytes offset
     }"

definition advance :: "vfs \<Rightarrow> nat \<Rightarrow> u64 \<Rightarrow> vfs option" where
  "advance s f n =
     do {
       fl \<leftarrow> open_files s f;
       Some (s\<lparr>open_files := (open_files s)(f \<mapsto> fl\<lparr>f_offset := f_offset fl + n\<rparr>)\<rparr>)
     }"

definition file_read :: "(nat \<Rightarrow> file_ops) \<Rightarrow> vfs \<Rightarrow> nat \<Rightarrow> u32 \<Rightarrow> (u8 list result \<times> vfs) option" where
  "file_read drv s f count =
     do {
       fl \<leftarrow> open_files s f;
       i \<leftarrow> inodes s (f_inode fl);
       if \<not> inode_is_seekable i then file_pread drv s f count 0
       else do {
         (r, s) \<leftarrow> file_pread drv s f count (f_offset fl);
         case r of
           Inl e \<Rightarrow> Some (Inl e, s)
         | Inr bytes \<Rightarrow> do { s \<leftarrow> advance s f (of_nat (length bytes)); Some (Inr bytes, s) }
       }
     }"

definition file_write :: "(nat \<Rightarrow> file_ops) \<Rightarrow> vfs \<Rightarrow> nat \<Rightarrow> u8 list \<Rightarrow> (u32 result \<times> vfs) option" where
  "file_write drv s f bytes =
     do {
       fl \<leftarrow> open_files s f;
       i \<leftarrow> inodes s (f_inode fl);
       if \<not> inode_is_seekable i then file_pwrite drv s f bytes 0
       else do {
         (r, s) \<leftarrow> file_pwrite drv s f bytes (f_offset fl);
         case r of
           Inl e \<Rightarrow> Some (Inl e, s)
         | Inr n \<Rightarrow> do { s \<leftarrow> advance s f (ucast n); Some (Inr n, s) }
       }
     }"

text \<open>The loops of \<^verbatim>\<open>file_read_to_end\<close> and \<^verbatim>\<open>file_write_all\<close>; \<open>acc\<close> is what has been read.\<close>

function read_to_end_loop :: "(nat \<Rightarrow> file_ops) \<Rightarrow> vfs \<Rightarrow> nat \<Rightarrow> nat \<Rightarrow> u8 list \<Rightarrow> (u8 list result \<times> vfs) option" where
  "read_to_end_loop drv s f count acc =
     (if length acc < count then do {
        (r, s) \<leftarrow> file_read drv s f (of_nat (count - length acc));
        case r of
          Inl e \<Rightarrow> Some (Inl e, s)
        | Inr bytes \<Rightarrow> if bytes = [] then Some (Inr acc, s) else read_to_end_loop drv s f count (acc @ bytes)
      }
      else Some (Inr acc, s))"
  by auto
termination
  by (relation "measure (\<lambda>(drv, s, f, count, acc). count - length acc)") (auto simp: less_diff_conv2 diff_less_mono2)

definition file_read_to_end :: "(nat \<Rightarrow> file_ops) \<Rightarrow> vfs \<Rightarrow> nat \<Rightarrow> u32 \<Rightarrow> (u8 list result \<times> vfs) option" where
  "file_read_to_end drv s f count = read_to_end_loop drv s f (unat count) []"

function write_all_loop :: "(nat \<Rightarrow> file_ops) \<Rightarrow> vfs \<Rightarrow> nat \<Rightarrow> u8 list \<Rightarrow> nat \<Rightarrow> (nat result \<times> vfs) option" where
  "write_all_loop drv s f bytes cursor =
     (if cursor < length bytes then do {
        (r, s) \<leftarrow> file_write drv s f (drop cursor bytes);
        case r of
          Inl e \<Rightarrow> Some (Inl e, s)
        | Inr n \<Rightarrow> if n = 0 then Some (Inr cursor, s) else write_all_loop drv s f bytes (cursor + unat n)
      }
      else Some (Inr cursor, s))"
  by auto
termination
  by (relation "measure (\<lambda>(drv, s, f, bytes, cursor). length bytes - cursor)") (auto simp: unat_gt_0 intro!: diff_less_mono2)

definition file_write_all :: "(nat \<Rightarrow> file_ops) \<Rightarrow> vfs \<Rightarrow> nat \<Rightarrow> u8 list \<Rightarrow> (nat result \<times> vfs) option" where
  "file_write_all drv s f bytes = write_all_loop drv s f bytes 0"

definition file_truncate :: "(nat \<Rightarrow> file_ops) \<Rightarrow> vfs \<Rightarrow> nat \<Rightarrow> u64 \<Rightarrow> (unit result \<times> vfs) option" where
  "file_truncate drv s f len =
     do {
       fl \<leftarrow> open_files s f;
       i \<leftarrow> inodes s (f_inode fl);
       if S_ISDIR (i_mode i) then Some (Inl EISDIR, s)
       else case op_truncate (ops_of drv i) of
         None \<Rightarrow> Some (Inl EINVAL, s)
       | Some op \<Rightarrow> if f_flags fl AND O_ACCMODE = O_RDONLY then Some (Inl EINVAL, s) else op s f len
     }"

definition set_offset :: "vfs \<Rightarrow> nat \<Rightarrow> int \<Rightarrow> (int result \<times> vfs) option" where
  "set_offset s f new_offset =
     do {
       fl \<leftarrow> open_files s f;
       Some (Inr new_offset, s\<lparr>open_files := (open_files s)(f \<mapsto> fl\<lparr>f_offset := word_of_int new_offset\<rparr>)\<rparr>)
     }"

text \<open>\<^verbatim>\<open>loff_t\<close> is a signed word of 64 bits; the sums wrap around.\<close>

definition file_seek :: "(nat \<Rightarrow> file_ops) \<Rightarrow> vfs \<Rightarrow> nat \<Rightarrow> u64 \<Rightarrow> int \<Rightarrow> (int result \<times> vfs) option" where
  "file_seek drv s f offset whence =
     do {
       fl \<leftarrow> open_files s f;
       i \<leftarrow> inodes s (f_inode fl);
       if \<not> inode_is_seekable i then Some (Inl ESPIPE, s)
       else if whence = 0 then
         if sint offset < 0 then Some (Inl EINVAL, s) else set_offset s f (sint offset)
       else if whence = 1 then
         let new_offset = sint (f_offset fl + offset)
         in if new_offset < 0 then Some (Inl EINVAL, s) else set_offset s f new_offset
       else if whence = 2 then do {
         s \<leftarrow> inode_ref s (f_inode fl);
         (r, s) \<leftarrow> inode_stat drv s (f_inode fl);
         case r of
           Inl e \<Rightarrow> Some (Inl e, s)
         | Inr stat \<Rightarrow>
             let new_offset = sint (st_size stat + offset)
             in if new_offset < 0 then Some (Inl EINVAL, s) else set_offset s f new_offset
       }
       else Some (Inl EINVAL, s)
     }"

section \<open>References that are taken and dropped\<close>

text \<open>The state with one more reference for each occurrence of an inode in a list.\<close>

definition plus_refs :: "nat list \<Rightarrow> vfs \<Rightarrow> vfs" where
  "plus_refs as s =
     s\<lparr>inodes := (\<lambda>a. map_option (\<lambda>i. i\<lparr>i_ref_count := i_ref_count i + count_list as a\<rparr>) (inodes s a))\<rparr>"

text \<open>No inode waits to be destroyed.\<close>

definition live :: "vfs \<Rightarrow> bool" where
  "live s \<longleftrightarrow> (\<forall>a i. inodes s a = Some i \<longrightarrow> 0 < i_ref_count i \<or> 0 < i_num_links i)"

lemma inodes_plus_refs:
  "inodes (plus_refs as s) a = map_option (\<lambda>i. i\<lparr>i_ref_count := i_ref_count i + count_list as a\<rparr>) (inodes s a)"
  by (simp add: plus_refs_def)

lemma plus_refs_Nil [simp]: "plus_refs [] s = s"
  by (simp add: plus_refs_def option.map_ident)

lemma plus_refs_select [simp]:
  "open_files (plus_refs as s) = open_files s" "next_addr (plus_refs as s) = next_addr s" "oom (plus_refs as s) = oom s"
  "root_inode (plus_refs as s) = root_inode s" "mount_points (plus_refs as s) = mount_points s"
  "devices (plus_refs as s) = devices s" "destroyed (plus_refs as s) = destroyed s"
  by (simp_all add: plus_refs_def)

lemma plus_refs_next_addr: "(plus_refs as s)\<lparr>next_addr := n\<rparr> = plus_refs as (s\<lparr>next_addr := n\<rparr>)"
  by (simp add: plus_refs_def)

lemma live_next_addr [simp]: "live (s\<lparr>next_addr := n\<rparr>) \<longleftrightarrow> live s"
  by (simp add: live_def)

lemma inode_ref_plus:
  assumes "inodes s a = Some i"
  shows "inode_ref (plus_refs as s) a = Some (plus_refs (a # as) s)"
proof -
  have "(inodes (plus_refs as s))(a \<mapsto> i\<lparr>i_ref_count := i_ref_count i + count_list as a + 1\<rparr>) = inodes (plus_refs (a # as) s)"
    using assms by (intro ext) (simp add: inodes_plus_refs)
  with assms show ?thesis by (simp add: inode_ref_def set_inode_def inodes_plus_refs) (simp add: plus_refs_def)
qed

lemma unref_loop_Nil [simp]: "unref_loop [] s = Some s"
  by (subst unref_loop.simps) simp

lemma inode_unref_plus:
  assumes "live s" "inodes s a = Some i"
  shows "inode_unref (plus_refs (a # as) s) (Some a) = Some (plus_refs as s)"
proof -
  have "(inodes (plus_refs (a # as) s))(a \<mapsto> i\<lparr>i_ref_count := i_ref_count i + count_list as a\<rparr>) = inodes (plus_refs as s)"
    using assms by (intro ext) (simp add: inodes_plus_refs)
  then have "set_inode (plus_refs (a # as) s) a (i\<lparr>i_ref_count := i_ref_count i + count_list as a\<rparr>) = plus_refs as s"
    by (simp add: set_inode_def) (simp add: plus_refs_def)
  moreover have "\<not> (i_ref_count i = 0 \<and> i_num_links i = 0)" using assms by (auto simp: live_def)
  ultimately have "drop_ref (plus_refs (a # as) s) a = Some ([], plus_refs as s)"
    using assms(2) by (auto simp: drop_ref_def inodes_plus_refs c_assert_def)
  then show ?thesis by (simp add: inode_unref_def) (subst unref_loop.simps, simp)
qed

lemma plus_refs_cong: "(\<And>a. count_list as a = count_list bs a) \<Longrightarrow> plus_refs as s = plus_refs bs s"
  by (simp add: plus_refs_def)

text \<open>The reference to drop need not be the one that was taken last.\<close>

lemma inode_unref_plus_mid:
  assumes "live s" "inodes s a = Some i"
  shows "inode_unref (plus_refs (as @ a # bs) s) (Some a) = Some (plus_refs (as @ bs) s)"
proof -
  have "plus_refs (as @ a # bs) s = plus_refs (a # as @ bs) s" by (rule plus_refs_cong) (simp add: count_list_append)
  with inode_unref_plus [OF assms, of "as @ bs"] show ?thesis by simp
qed

section \<open>Trees in memory\<close>

text \<open>
  A state in which every inode is one of tmpfs with the table its mode asks for, and every entry of a directory leads to an
  inode.
\<close>

definition tmpfs_node :: "inode \<Rightarrow> bool" where
  "tmpfs_node i \<longleftrightarrow> i_fops i = (if S_ISDIR (i_mode i) then Dir_fops else Non_dir_fops)"

definition tree_ok :: "vfs \<Rightarrow> bool" where
  "tree_ok s \<longleftrightarrow> live s \<and> (\<forall>a i. inodes s a = Some i \<longrightarrow> tmpfs_node i \<and> (\<forall>name c. map_of (i_children i) name = Some c \<longrightarrow> inodes s c \<noteq> None))"

lemma tree_okD:
  assumes "tree_ok s" "inodes s a = Some i"
  shows "live s" "i_fops i = (if S_ISDIR (i_mode i) then Dir_fops else Non_dir_fops)"
    "map_of (i_children i) name = Some c \<Longrightarrow> \<exists>ci. inodes s c = Some ci"
  using assms by (auto simp: tree_ok_def tmpfs_node_def)

text \<open>What a lookup finds: the entry of a directory.\<close>

definition child_of :: "vfs \<Rightarrow> nat \<Rightarrow> fname \<Rightarrow> nat result" where
  "child_of s a name =
     (case inodes s a of
        None \<Rightarrow> Inl ENOTDIR
      | Some i \<Rightarrow>
          if S_ISDIR (i_mode i) then (case map_of (i_children i) name of None \<Rightarrow> Inl ENOENT | Some c \<Rightarrow> Inr c) else Inl ENOTDIR)"

text \<open>The lookup consumes the reference on the directory and takes one on the inode it finds.\<close>

lemma lookup_child_tree:
  assumes "tree_ok s" "inodes s a = Some i"
  shows "inode_lookup_child drv (plus_refs (a # as) s) a name =
    Some (child_of s a name, plus_refs (case child_of s a name of Inl _ \<Rightarrow> as | Inr c \<Rightarrow> c # as) s)"
proof -
  note ok = tree_okD [OF assms]
  note un = inode_unref_plus [OF ok(1) assms(2)]
  have i: "inodes (plus_refs (a # as) s) a = Some (i\<lparr>i_ref_count := i_ref_count i + (count_list as a + 1)\<rparr>)"
    using assms(2) by (simp add: inodes_plus_refs)
  show ?thesis
  proof (cases "S_ISDIR (i_mode i)")
    case False
    with un assms(2) i ok(2) show ?thesis by (simp add: inode_lookup_child_def ops_of_def non_dir_fops_def child_of_def)
  next
    case dir: True
    show ?thesis
    proof (cases "map_of (i_children i) name")
      case None
      with dir un assms(2) i ok(2) show ?thesis
        by (simp add: inode_lookup_child_def ops_of_def dir_fops_def child_of_def tmpfs_lookup_child_def dentry_find_def)
    next
      case (Some c)
      then obtain ci where c: "inodes s c = Some ci" using ok(3) by blast
      have "inode_ref (plus_refs (a # as) s) c = Some (plus_refs (c # a # as) s)" by (rule inode_ref_plus [OF c])
      moreover have "inode_unref (plus_refs (c # a # as) s) (Some a) = Some (plus_refs (c # as) s)"
        using inode_unref_plus_mid [OF ok(1) assms(2), of "[c]" as] by simp
      ultimately show ?thesis
        using dir Some assms(2) i ok(2)
        by (simp add: inode_lookup_child_def ops_of_def dir_fops_def child_of_def tmpfs_lookup_child_def dentry_find_def)
    qed
  qed
qed

end
