(* ===== verification/Vfs.thy ===== *)
theory Vfs
  imports Fs
begin

text \<open>
  The name space: paths (\<^verbatim>\<open>kernel/fs/path.c\<close>) and their resolution, creation and opening of files (\<^verbatim>\<open>kernel/fs/vfs.c\<close>).

  A path is the list of its nodes from the last component to the root; the empty list is the null pointer. The loop over the
  components of a path name works on the string that is left, as \<^verbatim>\<open>strtok_r\<close> does with its saved pointer, of which \<open>None\<close> is
  the null pointer. A symbolic link starts the resolution anew with a smaller allowance, so no fuel is needed.
\<close>

section \<open>Paths\<close>

record path_node =
  p_inode :: "nat option"
  p_basename :: "fname option"

type_synonym path = "path_node list"

abbreviation (input) PATH_SEPARATOR :: u8 where "PATH_SEPARATOR \<equiv> 47"

text \<open>\<^verbatim>\<open>path_to_string\<close> up to the allocation: the names are put before the string that is there, from the last component on.\<close>

fun path_render :: "path \<Rightarrow> fname \<Rightarrow> fname option" where
  "path_render [] acc = Some acc"
| "path_render (n # parent) acc =
     (case p_basename n of
        None \<Rightarrow> do { c_assert (parent = []); Some acc }
      | Some name \<Rightarrow> path_render parent (PATH_SEPARATOR # name @ acc))"

definition path_to_string :: "path \<Rightarrow> fname option" where
  "path_to_string path = (case path of [] \<Rightarrow> None | [n] \<Rightarrow> Some [PATH_SEPARATOR] | _ \<Rightarrow> path_render path [])"

text \<open>When the copy of the parent fails, \<^verbatim>\<open>path_dup\<close> reads the error out of the node it has just freed: a wild access.\<close>

fun path_dup :: "vfs \<Rightarrow> path \<Rightarrow> (path result \<times> vfs) option" where
  "path_dup s [] = Some (Inr [], s)"
| "path_dup s (n # parent) =
     (let (new_path, s) = alloc s
      in if new_path = None then Some (Inl ENOMEM, s)
      else let (name, s) = (if p_basename n = None then (Some 0, s) else alloc s)
      in if name = None then Some (Inl ENOMEM, s)
      else do {
        (r, s) \<leftarrow> path_dup s parent;
        case r of
          Inl _ \<Rightarrow> None
        | Inr new_parent \<Rightarrow> do {
            a \<leftarrow> p_inode n;
            s \<leftarrow> inode_ref s a;
            Some (Inr (n # new_parent), s)
          }
      })"

definition path_join :: "vfs \<Rightarrow> path \<Rightarrow> nat option \<Rightarrow> fname \<Rightarrow> (path result \<times> vfs) option" where
  "path_join s parent i basename =
     (let (path, s) = alloc s
      in if path = None then do { s \<leftarrow> inode_unref s i; Some (Inl ENOMEM, s) }
      else let (name, s) = alloc s
      in if name = None then do { s \<leftarrow> inode_unref s i; Some (Inl ENOMEM, s) }
      else Some (Inr (\<lparr>p_inode = i, p_basename = Some basename\<rparr> # parent), s))"

definition path_destroy_last :: "vfs \<Rightarrow> path_node \<Rightarrow> vfs option" where
  "path_destroy_last s n = inode_unref s (p_inode n)"

fun path_destroy_recursive :: "vfs \<Rightarrow> path \<Rightarrow> vfs option" where
  "path_destroy_recursive s [] = Some s"
| "path_destroy_recursive s (n # parent) = do { s \<leftarrow> path_destroy_last s n; path_destroy_recursive s parent }"

definition path_into_inode :: "vfs \<Rightarrow> path \<Rightarrow> (nat option \<times> vfs) option" where
  "path_into_inode s path =
     (case path of
        [] \<Rightarrow> Some (None, s)
      | n # parent \<Rightarrow> do { s \<leftarrow> path_destroy_recursive s (n\<lparr>p_inode := None\<rparr> # parent); Some (p_inode n, s) })"

section \<open>The root, mounts and devices\<close>

definition vfs_get_root :: "vfs \<Rightarrow> (path result \<times> vfs) option" where
  "vfs_get_root s =
     do {
       a \<leftarrow> root_inode s;
       let (path, s) = alloc s;
       if path = None then Some (Inl ENOMEM, s)
       else do { s \<leftarrow> inode_ref s a; Some (Inr [\<lparr>p_inode = Some a, p_basename = None\<rparr>], s) }
     }"

definition mount_at :: "vfs \<Rightarrow> nat \<Rightarrow> nat \<Rightarrow> (unit result \<times> vfs) option" where
  "mount_at s host guest =
     do {
       h \<leftarrow> inodes s host;
       if \<not> S_ISDIR (i_mode h) then unref_both s host guest ENOTDIR
       else let (mp, s) = alloc s
       in if mp = None then unref_both s host guest ENOMEM
       else Some (Inr (), s\<lparr>mount_points := (host, guest) # mount_points s\<rparr>)
     }"

partial_function (option) mounted_on :: "(nat \<times> nat) list \<Rightarrow> nat \<Rightarrow> nat option" where
  "mounted_on mps needle = (case map_of mps needle of None \<Rightarrow> Some needle | Some guest \<Rightarrow> mounted_on mps guest)"

definition resolve_mounts :: "vfs \<Rightarrow> nat \<Rightarrow> (nat \<times> vfs) option" where
  "resolve_mounts s host =
     do {
       needle \<leftarrow> mounted_on (mount_points s) host;
       if needle \<noteq> host then do { s \<leftarrow> inode_ref s needle; Some (needle, s) } else Some (needle, s)
     }"

fun device_loop :: "vfs \<Rightarrow> (fname \<times> nat) list \<Rightarrow> u32 \<Rightarrow> u32 \<Rightarrow> nat option option" where
  "device_loop s [] m rd = Some None"
| "device_loop s ((name, a) # ds) m rd =
     do {
       i \<leftarrow> inodes s a;
       if i_mode i AND S_IFMT = m AND S_IFMT \<and> i_rdev i = rd then Some (Some a) else device_loop s ds m rd
     }"

definition find_device :: "vfs \<Rightarrow> u32 \<Rightarrow> u32 \<Rightarrow> (nat option \<times> vfs) option" where
  "find_device s m rd =
     (if \<not> S_ISCHR m \<and> \<not> S_ISBLK m then Some (None, s)
      else do {
        r \<leftarrow> device_loop s (devices s) m rd;
        case r of None \<Rightarrow> Some (None, s) | Some a \<Rightarrow> do { s \<leftarrow> inode_ref s a; Some (Some a, s) }
      })"

section \<open>Resolution of a path name\<close>

abbreviation (input) O_ALLOW_NOENT :: u32 where "O_ALLOW_NOENT \<equiv> 0x4000"
abbreviation (input) O_NOFOLLOW :: u32 where "O_NOFOLLOW \<equiv> 0x20000"
abbreviation (input) O_NOFOLLOW_NOERROR :: u32 where "O_NOFOLLOW_NOERROR \<equiv> 0x2000"

definition is_absolute_path :: "fname \<Rightarrow> bool" where
  "is_absolute_path path \<longleftrightarrow> (case path of [] \<Rightarrow> False | c # _ \<Rightarrow> c = PATH_SEPARATOR)"

text \<open>One call of \<^verbatim>\<open>strtok_r\<close> with the separator: the component and the new saved pointer.\<close>

definition next_component :: "fname option \<Rightarrow> (fname \<times> fname option) option" where
  "next_component saved =
     (case saved of
        None \<Rightarrow> None
      | Some str \<Rightarrow>
          let str = dropWhile (\<lambda>c. c = PATH_SEPARATOR) str
          in if str = [] then None
             else let component = takeWhile (\<lambda>c. c \<noteq> PATH_SEPARATOR) str; rest = drop (length component) str
             in Some (component, if rest = [] then None else Some (tl rest)))"

definition has_more_components :: "fname option \<Rightarrow> bool" where
  "has_more_components saved \<longleftrightarrow> (case saved of None \<Rightarrow> False | Some str \<Rightarrow> list_ex (\<lambda>c. c \<noteq> PATH_SEPARATOR) str)"

text \<open>The rest of the name behind a symbolic link: \<^verbatim>\<open>strtok_r\<close> without separators, or the name of the directory itself.\<close>

definition rest_pathname :: "fname option \<Rightarrow> fname" where
  "rest_pathname saved = (case saved of Some (c # cs) \<Rightarrow> c # cs | _ \<Rightarrow> [46])"

lemma next_component_shorter:
  "next_component saved = Some (component, saved') \<Longrightarrow>
   (case saved' of None \<Rightarrow> 0 | Some str \<Rightarrow> Suc (length str)) < (case saved of None \<Rightarrow> 0 | Some str \<Rightarrow> Suc (length str))"
proof (cases saved)
  case (Some str)
  let ?str = "dropWhile (\<lambda>c. c = PATH_SEPARATOR) str"
  assume "next_component saved = Some (component, saved')"
  with Some have "saved' = None \<or> (\<exists>n. saved' = Some (tl (drop n ?str)) \<and> drop n ?str \<noteq> [])"
    by (auto simp: next_component_def Let_def split: if_splits)
  moreover have "length ?str \<le> length str" by (rule length_dropWhile_le)
  ultimately show ?thesis using Some by auto
qed (simp add: next_component_def)

text \<open>The error exits of the loop: the path built so far is given back.\<close>

definition give_up :: "vfs \<Rightarrow> path \<Rightarrow> errno \<Rightarrow> (path result \<times> vfs) option" where
  "give_up s path e = do { s \<leftarrow> path_destroy_recursive s path; Some (Inl e, s) }"

text \<open>\<^verbatim>\<open>path_join\<close> at the end of a round.\<close>

definition join_or_give_up :: "vfs \<Rightarrow> path \<Rightarrow> nat option \<Rightarrow> fname \<Rightarrow> (path result \<times> vfs) option" where
  "join_or_give_up s path i component =
     do {
       (r, s) \<leftarrow> path_join s path i component;
       case r of Inl e \<Rightarrow> give_up s path e | Inr joined \<Rightarrow> Some (Inr joined, s)
     }"

text \<open>
  The part of a round after the lookup: \<open>Inl\<close> ends the loop with a result, \<open>Inr\<close> goes on with the longer path. The argument
  \<open>follow\<close> is \<^verbatim>\<open>follow_symlink\<close>, and \<open>None\<close> when the depth of links has reached its bound.
\<close>

definition resolve_found ::
    "(vfs \<Rightarrow> path \<Rightarrow> nat \<Rightarrow> fname \<Rightarrow> (path result \<times> vfs) option) option \<Rightarrow> u32 \<Rightarrow> vfs \<Rightarrow> path \<Rightarrow> fname \<Rightarrow> fname option
      \<Rightarrow> nat \<Rightarrow> ((path result, path) sum \<times> vfs) option" where
  "resolve_found follow flags s path component saved i =
     do {
       (i, s) \<leftarrow> resolve_mounts s i;
       node \<leftarrow> inodes s i;
       let stop = (\<lambda>r. do { (r, s) \<leftarrow> r; Some (Inl r, s) });
       let go_on = do {
         (r, s) \<leftarrow> join_or_give_up s path (Some i) component;
         Some (case r of Inl e \<Rightarrow> Inl (Inl e) | Inr joined \<Rightarrow> Inr joined, s) };
       let refuse = do { s \<leftarrow> inode_unref s (Some i); stop (give_up s path ELOOP) };
       if \<not> S_ISLNK (i_mode node) then go_on
       else case follow of
         None \<Rightarrow> refuse
       | Some follow_symlink \<Rightarrow>
           if has_more_components saved \<or> flags AND O_NOFOLLOW = 0 then do {
             (dest, s) \<leftarrow> follow_symlink s path i (rest_pathname saved);
             s \<leftarrow> path_destroy_recursive s path;
             Some (Inl dest, s)
           }
           else if flags AND O_NOFOLLOW_NOERROR = 0 then refuse
           else go_on
     }"

definition resolve_missing ::
    "u32 \<Rightarrow> vfs \<Rightarrow> path \<Rightarrow> fname \<Rightarrow> fname option \<Rightarrow> errno \<Rightarrow> (path result \<times> vfs) option" where
  "resolve_missing flags s path component saved e =
     (if flags AND O_ALLOW_NOENT \<noteq> 0 \<and> e = ENOENT then
        if has_more_components saved then give_up s path ENOENT
        else join_or_give_up s path None component
      else give_up s path e)"

function resolve_components ::
    "(nat \<Rightarrow> file_ops) \<Rightarrow> (vfs \<Rightarrow> path \<Rightarrow> nat \<Rightarrow> fname \<Rightarrow> (path result \<times> vfs) option) option \<Rightarrow> u32 \<Rightarrow> vfs \<Rightarrow> path
      \<Rightarrow> fname option \<Rightarrow> (path result \<times> vfs) option" where
  "resolve_components drv follow flags s path saved =
     (case next_component saved of
        None \<Rightarrow> Some (Inr path, s)
      | Some (component, saved') \<Rightarrow>
          (case path of
             [] \<Rightarrow> None
           | n # parent \<Rightarrow>
               if component = [] \<or> component = [46] then resolve_components drv follow flags s path saved'
               else if component = [46, 46] then
                 if parent = [] then resolve_components drv follow flags s path saved'
                 else do {
                   s \<leftarrow> path_destroy_last s n;
                   resolve_components drv follow flags s parent saved'
                 }
               else do {
                 a \<leftarrow> p_inode n;
                 s \<leftarrow> inode_ref s a;
                 (r, s) \<leftarrow> inode_lookup_child drv s a component;
                 case r of
                   Inl e \<Rightarrow> resolve_missing flags s path component saved' e
                 | Inr i \<Rightarrow> do {
                     (r, s) \<leftarrow> resolve_found follow flags s path component saved' i;
                     case r of
                       Inl result \<Rightarrow> Some (result, s)
                     | Inr joined \<Rightarrow> resolve_components drv follow flags s joined saved'
                   }
               }))"
  by pat_completeness auto
termination
  by (relation "measure (\<lambda>(drv, follow, flags, s, path, saved). case saved of None \<Rightarrow> 0 | Some str \<Rightarrow> Suc (length str))")
    (auto dest: next_component_shorter)

definition follow_symlink ::
    "(nat \<Rightarrow> file_ops) \<Rightarrow> (vfs \<Rightarrow> path \<Rightarrow> fname \<Rightarrow> (path result \<times> vfs) option) \<Rightarrow> vfs \<Rightarrow> path \<Rightarrow> nat \<Rightarrow> fname
      \<Rightarrow> (path result \<times> vfs) option" where
  "follow_symlink drv resolve s parent i rest =
     do {
       node \<leftarrow> inodes s i;
       c_assert (S_ISLNK (i_mode node));
       (r, s) \<leftarrow> inode_open drv s i O_RDONLY 0;
       case r of
         Inl e \<Rightarrow> Some (Inl e, s)
       | Inr f \<Rightarrow> do {
           (target, s) \<leftarrow> file_read_to_end drv s f 255;
           (_, s) \<leftarrow> file_close drv s f;
           case target of
             Inl e \<Rightarrow> Some (Inl e, s)
           | Inr target \<Rightarrow>
               let (pathname, s) = alloc s
               in if pathname = None then Some (Inl ENOMEM, s)
               else resolve s parent (takeWhile (\<lambda>c. c \<noteq> 0) (target @ PATH_SEPARATOR # rest))
         }
     }"

definition resolve_from ::
    "(nat \<Rightarrow> file_ops) \<Rightarrow> (vfs \<Rightarrow> path \<Rightarrow> nat \<Rightarrow> fname \<Rightarrow> (path result \<times> vfs) option) option \<Rightarrow> u32 \<Rightarrow> vfs \<Rightarrow> path \<Rightarrow> fname
      \<Rightarrow> (path result \<times> vfs) option" where
  "resolve_from drv follow flags s base pathname =
     do {
       (r, s) \<leftarrow> (if is_absolute_path pathname then vfs_get_root s else path_dup s base);
       case r of
         Inl e \<Rightarrow> Some (Inl e, s)
       | Inr path \<Rightarrow>
           let (dup_pathname, s) = alloc s
           in if dup_pathname = None then give_up s path ENOMEM
           else resolve_components drv follow flags s path (Some pathname)
     }"

text \<open>\<open>left\<close> is the number of links that may still be followed: \<^verbatim>\<open>SYMLOOP_MAX + 1 - symlink_depth\<close>.\<close>

fun resolve_path_at :: "nat \<Rightarrow> (nat \<Rightarrow> file_ops) \<Rightarrow> u32 \<Rightarrow> vfs \<Rightarrow> path \<Rightarrow> fname \<Rightarrow> (path result \<times> vfs) option" where
  "resolve_path_at 0 drv flags s base pathname = resolve_from drv None flags s base pathname"
| "resolve_path_at (Suc left) drv flags s base pathname =
     resolve_from drv (Some (follow_symlink drv (resolve_path_at left drv flags))) flags s base pathname"

abbreviation (input) SYMLOOP_MAX :: nat where "SYMLOOP_MAX \<equiv> 8"

definition vfs_resolve_path_at :: "(nat \<Rightarrow> file_ops) \<Rightarrow> vfs \<Rightarrow> path \<Rightarrow> fname \<Rightarrow> u32 \<Rightarrow> (path result \<times> vfs) option" where
  "vfs_resolve_path_at drv s base pathname flags = resolve_path_at (SYMLOOP_MAX + 1) drv flags s base pathname"

section \<open>Creating and opening\<close>

text \<open>
  The loop of \<^verbatim>\<open>create_at\<close>, which tries again when another task creates the file first and removes it before the lookup.
\<close>

partial_function (option) create_loop ::
    "(nat \<Rightarrow> file_ops) \<Rightarrow> vfs \<Rightarrow> nat \<Rightarrow> fname \<Rightarrow> u32 \<Rightarrow> bool \<Rightarrow> (nat result \<times> vfs) option" where
  "create_loop drv s parent name m exclusive =
     do {
       s \<leftarrow> inode_ref s parent;
       (r, s) \<leftarrow> inode_create_child drv s parent name m;
       if r \<noteq> Inl EEXIST \<or> exclusive then Some (r, s)
       else do {
         s \<leftarrow> inode_ref s parent;
         (r, s) \<leftarrow> inode_lookup_child drv s parent name;
         if r \<noteq> Inl ENOENT then Some (r, s) else create_loop drv s parent name m exclusive
       }
     }"

definition create_at ::
    "(nat \<Rightarrow> file_ops) \<Rightarrow> vfs \<Rightarrow> path \<Rightarrow> fname \<Rightarrow> u32 \<Rightarrow> bool \<Rightarrow> (path result \<times> vfs) option" where
  "create_at drv s base pathname m exclusive =
     do {
       (r, s) \<leftarrow> vfs_resolve_path_at drv s base pathname O_ALLOW_NOENT;
       case r of
         Inl e \<Rightarrow> Some (Inl e, s)
       | Inr path \<Rightarrow>
           (case path of
              [] \<Rightarrow> None
            | n # parent \<Rightarrow>
                if p_inode n \<noteq> None then if exclusive then give_up s path EEXIST else Some (Inr path, s)
                else do {
                  pn \<leftarrow> (case parent of [] \<Rightarrow> None | pn # _ \<Rightarrow> Some pn);
                  a \<leftarrow> p_inode pn;
                  name \<leftarrow> p_basename n;
                  (r, s) \<leftarrow> create_loop drv s a name m exclusive;
                  case r of
                    Inl e \<Rightarrow> give_up s path e
                  | Inr i \<Rightarrow> Some (Inr (n\<lparr>p_inode := Some i\<rparr> # parent), s)
                })
     }"

text \<open>\<open>mk_fifo\<close> is \<^verbatim>\<open>fifo_create\<close>.\<close>

definition resolve_special_file ::
    "(vfs \<Rightarrow> nat result \<times> vfs) \<Rightarrow> vfs \<Rightarrow> nat \<Rightarrow> (nat result \<times> vfs) option" where
  "resolve_special_file mk_fifo s a =
     do {
       i \<leftarrow> inodes s a;
       if S_ISBLK (i_mode i) \<or> S_ISCHR (i_mode i) then do {
         (r, s) \<leftarrow> find_device s (i_mode i) (i_rdev i);
         s \<leftarrow> inode_unref s (Some a);
         Some (case r of None \<Rightarrow> Inl ENODEV | Some d \<Rightarrow> Inr d, s)
       }
       else if S_ISFIFO (i_mode i) then
         (case i_fifo i of
            Some fifo \<Rightarrow> do { s \<leftarrow> inode_ref s fifo; s \<leftarrow> inode_unref s (Some a); Some (Inr fifo, s) }
          | None \<Rightarrow>
              let (r, s) = mk_fifo s
              in case r of
                Inl e \<Rightarrow> Some (Inl e, s)
              | Inr new_fifo \<Rightarrow> do {
                  fi \<leftarrow> inodes s new_fifo;
                  s \<leftarrow> inode_ref (set_inode s new_fifo (fi\<lparr>i_dev := i_dev i\<rparr>)) new_fifo;
                  i \<leftarrow> inodes s a;
                  case i_fifo i of
                    None \<Rightarrow> do {
                      s \<leftarrow> inode_unref (set_inode s a (i\<lparr>i_fifo := Some new_fifo\<rparr>)) (Some a);
                      Some (Inr new_fifo, s)
                    }
                  | Some expected \<Rightarrow> do {
                      s \<leftarrow> inode_ref s expected;
                      s \<leftarrow> inode_unref s (Some new_fifo);
                      Some (Inr expected, s)
                    }
                })
       else Some (Inr a, s)
     }"

definition vfs_open_at ::
    "(nat \<Rightarrow> file_ops) \<Rightarrow> (vfs \<Rightarrow> nat result \<times> vfs) \<Rightarrow> vfs \<Rightarrow> path \<Rightarrow> fname \<Rightarrow> u32 \<Rightarrow> u32 \<Rightarrow> (nat result \<times> vfs) option" where
  "vfs_open_at drv mk_fifo s base pathname flags m =
     do {
       (r, s) \<leftarrow> (if flags AND O_CREAT \<noteq> 0 then create_at drv s base pathname m (flags AND O_EXCL \<noteq> 0)
                  else vfs_resolve_path_at drv s base pathname flags);
       case r of
         Inl e \<Rightarrow> Some (Inl e, s)
       | Inr path \<Rightarrow> do {
           (r, s) \<leftarrow> path_into_inode s path;
           a \<leftarrow> r;
           (r, s) \<leftarrow> resolve_special_file mk_fifo s a;
           case r of Inl e \<Rightarrow> Some (Inl e, s) | Inr a \<Rightarrow> inode_open drv s a flags m
         }
     }"

definition vfs_stat_at :: "(nat \<Rightarrow> file_ops) \<Rightarrow> vfs \<Rightarrow> path \<Rightarrow> fname \<Rightarrow> u32 \<Rightarrow> (kstat result \<times> vfs) option" where
  "vfs_stat_at drv s base pathname flags =
     do {
       (r, s) \<leftarrow> vfs_resolve_path_at drv s base pathname flags;
       case r of
         Inl e \<Rightarrow> Some (Inl e, s)
       | Inr path \<Rightarrow> do { (r, s) \<leftarrow> path_into_inode s path; a \<leftarrow> r; inode_stat drv s a }
     }"

definition vfs_create_at :: "(nat \<Rightarrow> file_ops) \<Rightarrow> vfs \<Rightarrow> path \<Rightarrow> fname \<Rightarrow> u32 \<Rightarrow> (nat option result \<times> vfs) option" where
  "vfs_create_at drv s base pathname m =
     do {
       (r, s) \<leftarrow> create_at drv s base pathname m True;
       case r of
         Inl e \<Rightarrow> Some (Inl e, s)
       | Inr path \<Rightarrow> do { (r, s) \<leftarrow> path_into_inode s path; Some (Inr r, s) }
     }"

section \<open>Components of a name\<close>

text \<open>The parts between separators, as a list.\<close>

function components :: "fname \<Rightarrow> fname list" where
  "components str =
     (case dropWhile (\<lambda>c. c = PATH_SEPARATOR) str of
        [] \<Rightarrow> []
      | c # cs \<Rightarrow> takeWhile (\<lambda>c. c \<noteq> PATH_SEPARATOR) (c # cs) # components (dropWhile (\<lambda>c. c \<noteq> PATH_SEPARATOR) (c # cs)))"
  by auto
termination
proof (relation "measure length")
  fix str x and cs :: fname
  assume x: "dropWhile (\<lambda>c. c = PATH_SEPARATOR) str = x # cs"
  have "x \<noteq> PATH_SEPARATOR" using hd_dropWhile [of "\<lambda>c. c = PATH_SEPARATOR" str] x by simp
  then have "length (dropWhile (\<lambda>c. c \<noteq> PATH_SEPARATOR) (x # cs)) \<le> length cs" by (simp add: length_dropWhile_le)
  also have "\<dots> < length str" using x length_dropWhile_le [of "\<lambda>c. c = PATH_SEPARATOR" str] by simp
  finally show "(dropWhile (\<lambda>c. c \<noteq> PATH_SEPARATOR) (x # cs), str) \<in> measure length" by simp
qed simp

declare components.simps [simp del]

definition comps_of :: "fname option \<Rightarrow> fname list" where
  "comps_of saved = (case saved of None \<Rightarrow> [] | Some str \<Rightarrow> components str)"

lemma components_separator: "components (PATH_SEPARATOR # str) = components str"
  by (subst (1 2) components.simps) simp

lemma components_Nil [simp]: "components [] = []"
  by (subst components.simps) simp

lemma components_empty: "dropWhile (\<lambda>c. c = PATH_SEPARATOR) str = [] \<Longrightarrow> components str = []"
  by (subst components.simps) (simp only: list.case)

lemma comps_next:
  "comps_of saved = (case next_component saved of None \<Rightarrow> [] | Some (c, saved') \<Rightarrow> c # comps_of saved')"
proof (cases saved)
  case (Some str)
  show ?thesis
  proof (cases "dropWhile (\<lambda>c. c = PATH_SEPARATOR) str")
    case Nil
    with Some components_empty [OF Nil] show ?thesis by (simp add: comps_of_def next_component_def)
  next
    case (Cons x cs)
    let ?rest = "dropWhile (\<lambda>c. c \<noteq> PATH_SEPARATOR) (x # cs)"
    have rest: "drop (length (takeWhile (\<lambda>c. c \<noteq> PATH_SEPARATOR) (x # cs))) (x # cs) = ?rest"
      by (rule dropWhile_eq_drop [symmetric])
    have "components ?rest = (case (if ?rest = [] then None else Some (tl ?rest)) of None \<Rightarrow> [] | Some str \<Rightarrow> components str)"
    proof (cases ?rest)
      case (Cons y ys)
      then have "y = PATH_SEPARATOR" using hd_dropWhile [of "\<lambda>c. c \<noteq> PATH_SEPARATOR" "x # cs"] by (simp split: if_splits)
      with Cons show ?thesis using components_separator [of ys] by simp
    qed simp
    with Some Cons rest show ?thesis
      by (simp only: comps_of_def next_component_def Let_def option.case list.simps if_False prod.case)
        (subst components.simps, simp)
  qed
qed (simp add: comps_of_def next_component_def)

lemma has_more_iff: "has_more_components saved \<longleftrightarrow> comps_of saved \<noteq> []"
proof (cases saved)
  case (Some str)
  have "components str = [] \<longleftrightarrow> dropWhile (\<lambda>c. c = PATH_SEPARATOR) str = []"
  proof
    assume "components str = []"
    then show "dropWhile (\<lambda>c. c = PATH_SEPARATOR) str = []"
      by (subst (asm) components.simps) (simp split: list.splits del: dropWhile_eq_Nil_conv)
  qed (rule components_empty)
  with Some show ?thesis by (simp add: has_more_components_def comps_of_def list_ex_iff)
qed (simp add: has_more_components_def comps_of_def)

section \<open>Resolution is a walk through the tree\<close>

text \<open>
  The reference: a walk from a path along the components, without states and reference counts. With \<open>allow\<close> the last
  component may be missing.
\<close>

fun walk_path :: "bool \<Rightarrow> vfs \<Rightarrow> path \<Rightarrow> fname list \<Rightarrow> path result" where
  "walk_path allow s path [] = Inr path"
| "walk_path allow s path (c # cs) =
     (if c = [46] then walk_path allow s path cs
      else if c = [46, 46] then walk_path allow s (if tl path = [] then path else tl path) cs
      else case child_of s (the (p_inode (hd path))) c of
        Inl e \<Rightarrow> if allow \<and> e = ENOENT \<and> cs = [] then Inr (\<lparr>p_inode = None, p_basename = Some c\<rparr> # path) else Inl e
      | Inr i \<Rightarrow> walk_path allow s (\<lparr>p_inode = Some i, p_basename = Some c\<rparr> # path) cs)"

text \<open>The inodes a path holds references on, and a path whose nodes all have their inode.\<close>

definition held :: "path \<Rightarrow> nat list" where
  "held path = List.map_filter p_inode path"

definition path_ok :: "vfs \<Rightarrow> path \<Rightarrow> bool" where
  "path_ok s path \<longleftrightarrow> path \<noteq> [] \<and> list_all (\<lambda>n. p_inode n \<noteq> None \<and> inodes s (the (p_inode n)) \<noteq> None) path"

text \<open>A tree of directories and files, without links and mounts, in a kernel that has memory.\<close>

definition plain :: "vfs \<Rightarrow> bool" where
  "plain s \<longleftrightarrow> tree_ok s \<and> mount_points s = [] \<and> (\<forall>n. \<not> oom s n) \<and> (\<forall>a i. inodes s a = Some i \<longrightarrow> \<not> S_ISLNK (i_mode i))"

lemma held_Cons [simp]: "held (n # path) = (case p_inode n of None \<Rightarrow> held path | Some a \<Rightarrow> a # held path)"
  by (simp add: held_def List.map_filter_simps split: option.split)

lemma held_Nil [simp]: "held [] = []"
  by (simp add: held_def List.map_filter_simps)

lemma next_addr_irrelevant [simp]:
  "tree_ok (s\<lparr>next_addr := n\<rparr>) = tree_ok s" "child_of (s\<lparr>next_addr := n\<rparr>) = child_of s" "path_ok (s\<lparr>next_addr := n\<rparr>) = path_ok s"
  "plain (s\<lparr>next_addr := n\<rparr>) = plain s"
  by (auto simp: tree_ok_def child_of_def path_ok_def plain_def live_def intro!: ext)

lemma path_okD:
  assumes "path_ok s (n # parent)"
  obtains a i where "p_inode n = Some a" "inodes s a = Some i" "parent \<noteq> [] \<longrightarrow> path_ok s parent"
  using assms by (auto simp: path_ok_def)

lemma alloc_plain:
  assumes "plain s"
  shows "alloc (plus_refs as (s\<lparr>next_addr := n\<rparr>)) = (Some n, plus_refs as (s\<lparr>next_addr := n + 1\<rparr>))"
  using assms by (simp add: alloc_def plain_def plus_refs_def)

lemma destroy_path:
  assumes "tree_ok s" "\<forall>n\<in>set path. \<forall>a. p_inode n = Some a \<longrightarrow> inodes s a \<noteq> None"
  shows "path_destroy_recursive (plus_refs (held path @ as) s) path = Some (plus_refs as s)"
  using assms(2)
proof (induction path)
  case (Cons n path)
  show ?case
  proof (cases "p_inode n")
    case None
    with Cons show ?thesis by (simp add: path_destroy_last_def inode_unref_def)
  next
    case (Some a)
    with Cons.prems obtain i where "inodes s a = Some i" by auto
    with assms(1) have "inode_unref (plus_refs (a # held path @ as) s) (Some a) = Some (plus_refs (held path @ as) s)"
      by (intro inode_unref_plus) (auto simp: tree_ok_def)
    with Some Cons show ?thesis by (simp add: path_destroy_last_def)
  qed
qed simp

lemma path_ok_nodes: "path_ok s path \<Longrightarrow> \<forall>n\<in>set path. \<forall>a. p_inode n = Some a \<longrightarrow> inodes s a \<noteq> None"
  by (fastforce simp: path_ok_def list_all_iff)

lemma give_up_plain:
  assumes "plain s" "path_ok s path"
  shows "give_up (plus_refs (held path) (s\<lparr>next_addr := n\<rparr>)) path e = Some (Inl e, s\<lparr>next_addr := n\<rparr>)"
  using destroy_path [of "s\<lparr>next_addr := n\<rparr>" path "[]"] assms path_ok_nodes [OF assms(2)] by (simp add: give_up_def plain_def)

lemma join_plain:
  assumes "plain s"
  shows "join_or_give_up (plus_refs as (s\<lparr>next_addr := n\<rparr>)) path i c =
    Some (Inr (\<lparr>p_inode = i, p_basename = Some c\<rparr> # path), plus_refs as (s\<lparr>next_addr := n + 2\<rparr>))"
  using assms by (simp add: join_or_give_up_def path_join_def alloc_plain)

lemma found_plain:
  assumes "plain s" "inodes s i = Some node"
  shows "resolve_found follow flags (plus_refs as (s\<lparr>next_addr := n\<rparr>)) path c saved i =
    Some (Inr (\<lparr>p_inode = Some i, p_basename = Some c\<rparr> # path), plus_refs as (s\<lparr>next_addr := n + 2\<rparr>))"
proof -
  have "mounted_on [] i = Some i" by (subst mounted_on.simps) simp
  moreover have "\<not> S_ISLNK (i_mode node)" "mount_points s = []" using assms by (auto simp: plain_def)
  ultimately show ?thesis
    using assms by (simp add: resolve_found_def resolve_mounts_def inodes_plus_refs join_plain)
qed

text \<open>What the loop leaves: the references of the path it returns, and none after an error.\<close>

definition resolved :: "vfs \<Rightarrow> nat \<Rightarrow> path result \<Rightarrow> (path result \<times> vfs) option" where
  "resolved s n r =
     Some (r, case r of Inl _ \<Rightarrow> s\<lparr>next_addr := n\<rparr> | Inr p \<Rightarrow> plus_refs (held p) (s\<lparr>next_addr := n\<rparr>))"

lemma missing_plain:
  assumes "plain s" "path_ok s path"
  shows "\<exists>n'\<ge>n. resolve_missing flags (plus_refs (held path) (s\<lparr>next_addr := n\<rparr>)) path c saved e =
    resolved s n' (if flags AND O_ALLOW_NOENT \<noteq> 0 \<and> e = ENOENT \<and> comps_of saved = []
      then Inr (\<lparr>p_inode = None, p_basename = Some c\<rparr> # path) else Inl e)"
proof (cases "flags AND O_ALLOW_NOENT \<noteq> 0 \<and> e = ENOENT \<and> comps_of saved = []")
  case True
  then show ?thesis
    using join_plain [OF assms(1)] by (intro exI [of _ "n + 2"]) (simp add: resolve_missing_def has_more_iff resolved_def)
next
  case False
  then show ?thesis
    using give_up_plain [OF assms] by (intro exI [of _ n]) (auto simp: resolve_missing_def has_more_iff resolved_def)
qed


declare resolve_components.simps [simp del]

lemma next_component_nonempty: "next_component saved = Some (c, saved') \<Longrightarrow> c \<noteq> []"
  using hd_dropWhile [of "\<lambda>c. c = PATH_SEPARATOR"]
  by (auto simp: next_component_def Let_def takeWhile_eq_Nil_iff split: option.splits if_splits simp del: dropWhile_eq_Nil_conv)

lemma child_exists:
  assumes "tree_ok s" "child_of s a c = Inr i"
  shows "\<exists>ci. inodes s i = Some ci"
proof -
  from assms(2) obtain x where "inodes s a = Some x" "map_of (i_children x) c = Some i"
    by (auto simp: child_of_def split: option.splits if_splits)
  with tree_okD(3) [OF assms(1)] show ?thesis by blast
qed

lemma lookup_plain:
  assumes "plain s" "path_ok s (n # parent)"
  shows "\<exists>a s1. p_inode n = Some a \<and> inode_ref (plus_refs (held (n # parent)) (s\<lparr>next_addr := k\<rparr>)) a = Some s1
    \<and> inode_lookup_child drv s1 a c = Some (child_of s (the (p_inode n)) c,
      plus_refs (case child_of s (the (p_inode n)) c of Inl _ \<Rightarrow> held (n # parent) | Inr i \<Rightarrow> i # held (n # parent)) (s\<lparr>next_addr := k\<rparr>))"
proof -
  obtain a i where a: "p_inode n = Some a" "inodes s a = Some i" using assms(2) by (rule path_okD)
  then have i: "inodes (s\<lparr>next_addr := k\<rparr>) a = Some i" by simp
  have "tree_ok (s\<lparr>next_addr := k\<rparr>)" using assms(1) by (simp add: plain_def)
  from lookup_child_tree [OF this i, of drv "held (n # parent)" c] a(1) inode_ref_plus [OF i]
  show ?thesis by simp
qed

lemma resolve_components_walk:
  assumes "plain s" "path_ok s path"
  shows "\<exists>n'\<ge>n. resolve_components drv follow flags (plus_refs (held path) (s\<lparr>next_addr := n\<rparr>)) path saved =
    resolved s n' (walk_path (flags AND O_ALLOW_NOENT \<noteq> 0) s path (comps_of saved))"
  using assms(2)
proof (induction "comps_of saved" arbitrary: saved path n)
  case Nil
  then have "next_component saved = None" using comps_next [of saved] by (auto split: option.splits)
  with Nil(1) show ?case by (intro exI [of _ n]) (simp add: resolve_components.simps resolved_def Nil(1) [symmetric])
next
  case (Cons c cs)
  from Cons(2) obtain saved' where sv: "next_component saved = Some (c, saved')" "cs = comps_of saved'"
    using comps_next [of saved] by (auto split: option.splits)
  obtain m parent where path: "path = m # parent" using Cons.prems by (cases path) (auto simp: path_ok_def)
  note IH = Cons.hyps(1) [OF sv(2)]
  have comps: "comps_of saved = c # cs" using Cons(2) by simp
  have c0: "c \<noteq> []" using next_component_nonempty [OF sv(1)] .
  note unfold = resolve_components.simps [of drv follow flags _ path saved, unfolded sv(1) path option.case prod.case list.case]
  consider (dot) "c = [46]" | (top) "c = [46, 46]" "parent = []" | (up) "c = [46, 46]" "parent \<noteq> []"
    | (name) "c \<noteq> [46]" "c \<noteq> [46, 46]" by blast
  then show ?case
  proof cases
    case dot
    with IH [OF Cons.prems, of n] show ?thesis by (simp add: unfold comps sv(2) path)
  next
    case top
    with IH [OF Cons.prems, of n] show ?thesis unfolding path unfold by (simp add: comps sv(2))
  next
    case up
    obtain a i where a: "p_inode m = Some a" "inodes s a = Some i" "path_ok s parent"
      using Cons.prems up(2) unfolding path by (elim path_okD) simp
    have "inode_unref (plus_refs (a # held parent) (s\<lparr>next_addr := n\<rparr>)) (Some a) = Some (plus_refs (held parent) (s\<lparr>next_addr := n\<rparr>))"
      using a(2) assms(1) by (intro inode_unref_plus) (auto simp: plain_def tree_ok_def)
    with up a(1) IH [OF a(3), of n] show ?thesis by (simp add: unfold comps sv(2) path path_destroy_last_def)
  next
    case name
    let ?r = "child_of s (the (p_inode m)) c"
    from lookup_plain [OF assms(1) Cons.prems [unfolded path], of n drv c] obtain a s1 where
      look: "p_inode m = Some a" "inode_ref (plus_refs (held (m # parent)) (s\<lparr>next_addr := n\<rparr>)) a = Some s1"
        "inode_lookup_child drv s1 a c = Some (?r, plus_refs (case ?r of Inl _ \<Rightarrow> held (m # parent) | Inr i \<Rightarrow> i # held (m # parent)) (s\<lparr>next_addr := n\<rparr>))"
      by blast
    show ?thesis
    proof (cases ?r)
      case (Inl e)
      have "walk_path (flags AND O_ALLOW_NOENT \<noteq> 0) s path (comps_of saved) =
          (if flags AND O_ALLOW_NOENT \<noteq> 0 \<and> e = ENOENT \<and> comps_of saved' = []
           then Inr (\<lparr>p_inode = None, p_basename = Some c\<rparr> # path) else Inl e)"
        using name Inl by (simp add: comps sv(2) path)
      with missing_plain [OF assms(1) Cons.prems, of n flags c saved' e] look name c0 Inl show ?thesis
        by (auto simp: unfold path simp del: walk_path.simps if_split)
    next
      case (Inr i)
      from child_exists [OF _ Inr] assms(1) obtain ci where ci: "inodes s i = Some ci" by (auto simp: plain_def)
      let ?p = "\<lparr>p_inode = Some i, p_basename = Some c\<rparr> # path"
      have "path_ok s ?p" using Cons.prems ci by (simp add: path_ok_def)
      from IH [OF this, of "n + 2"] obtain n' where "n' \<ge> n + 2"
        "resolve_components drv follow flags (plus_refs (held ?p) (s\<lparr>next_addr := n + 2\<rparr>)) ?p saved' =
          resolved s n' (walk_path (flags AND O_ALLOW_NOENT \<noteq> 0) s ?p (comps_of saved'))" by blast
      with look name c0 Inr found_plain [OF assms(1) ci] show ?thesis
        by (intro exI [of _ n']) (auto simp: unfold path comps sv(2))
    qed
  qed
qed

lemma path_dup_plain:
  assumes "plain s" "\<forall>m\<in>set path. p_inode m \<noteq> None \<and> inodes s (the (p_inode m)) \<noteq> None"
  shows "\<exists>n'\<ge>n. path_dup (s\<lparr>next_addr := n\<rparr>) path = Some (Inr path, plus_refs (held path) (s\<lparr>next_addr := n'\<rparr>))"
  using assms(2)
proof (induction path arbitrary: n)
  case (Cons m path)
  then obtain a i where a: "p_inode m = Some a" "inodes s a = Some i" by auto
  have alloc: "alloc (s\<lparr>next_addr := k\<rparr>) = (Some k, s\<lparr>next_addr := k + 1\<rparr>)" for k using alloc_plain [OF assms(1), of "[]" k] by simp
  define k where "k = (if p_basename m = None then n + 1 else n + 2)"
  from Cons obtain n' where "n' \<ge> k" "path_dup (s\<lparr>next_addr := k\<rparr>) path = Some (Inr path, plus_refs (held path) (s\<lparr>next_addr := n'\<rparr>))" by fastforce
  moreover have "inode_ref (plus_refs (held path) (s\<lparr>next_addr := n'\<rparr>)) a = Some (plus_refs (a # held path) (s\<lparr>next_addr := n'\<rparr>))"
    using a(2) by (intro inode_ref_plus) simp
  ultimately show ?case using a(1) by (intro exI [of _ n']) (auto simp: alloc k_def split: if_splits)
qed (auto intro: exI [of _ n])

lemma resolve_walks:
  assumes "plain s" "path_ok s base" "root_inode s = Some r" "inodes s r \<noteq> None"
  shows "\<exists>n\<ge>next_addr s. vfs_resolve_path_at drv s base pathname flags =
    resolved s n (walk_path (flags AND O_ALLOW_NOENT \<noteq> 0) s
      (if is_absolute_path pathname then [\<lparr>p_inode = Some r, p_basename = None\<rparr>] else base) (components pathname))"
proof -
  let ?root = "[\<lparr>p_inode = Some r, p_basename = None\<rparr>]"
  let ?start = "if is_absolute_path pathname then ?root else base"
  obtain ri where r: "inodes s r = Some ri" using assms(4) by auto
  have self: "s = s\<lparr>next_addr := next_addr s\<rparr>" by simp
  have start: "path_ok s ?start" using assms(2) r by (simp add: path_ok_def)
  have alloc: "alloc s = (Some (next_addr s), s\<lparr>next_addr := next_addr s + 1\<rparr>)"
    using assms(1) by (simp add: alloc_def plain_def)
  have "inode_ref (s\<lparr>next_addr := next_addr s + 1\<rparr>) r = Some (plus_refs [r] (s\<lparr>next_addr := next_addr s + 1\<rparr>))"
    using inode_ref_plus [of "s\<lparr>next_addr := next_addr s + 1\<rparr>" r ri "[]"] r by simp
  then have "vfs_get_root s = Some (Inr ?root, plus_refs (held ?root) (s\<lparr>next_addr := next_addr s + 1\<rparr>))"
    using assms(3) alloc by (simp add: vfs_get_root_def)
  moreover obtain n where "n \<ge> next_addr s" "path_dup s base = Some (Inr base, plus_refs (held base) (s\<lparr>next_addr := n\<rparr>))"
    using path_dup_plain [OF assms(1), of base "next_addr s"] assms(2) by (auto simp: path_ok_def list_all_iff)
  ultimately have "\<exists>n\<ge>next_addr s.
    (if is_absolute_path pathname then vfs_get_root s else path_dup s base) = Some (Inr ?start, plus_refs (held ?start) (s\<lparr>next_addr := n\<rparr>))"
    by (cases "is_absolute_path pathname") (intro exI [of _ "next_addr s + 1"], simp, intro exI [of _ n], simp)
  then obtain n where n: "n \<ge> next_addr s"
    "(if is_absolute_path pathname then vfs_get_root s else path_dup s base) = Some (Inr ?start, plus_refs (held ?start) (s\<lparr>next_addr := n\<rparr>))"
    by blast
  moreover obtain n' where n': "n' \<ge> n + 1"
    "resolve_components drv (Some (follow_symlink drv (resolve_path_at 8 drv flags))) flags
       (plus_refs (held ?start) (s\<lparr>next_addr := n + 1\<rparr>)) ?start (Some pathname) =
     resolved s n' (walk_path (flags AND O_ALLOW_NOENT \<noteq> 0) s ?start (components pathname))"
    using resolve_components_walk [OF assms(1) start, of "n + 1" drv _ flags "Some pathname"] by (fastforce simp: comps_of_def)
  ultimately show ?thesis
    using n(1) n'(1) alloc_plain [OF assms(1)] by (intro exI [of _ n']) (simp add: vfs_resolve_path_at_def resolve_from_def eval_nat_numeral)
qed

text \<open>
  C39. In a tmpfs tree without symbolic links and mounts, in a kernel that
  has memory, path resolution is the walk along the components of the name: \<^verbatim>\<open>.\<close> stays,
  \<^verbatim>\<open>..\<close> goes to the parent and stays at the root, a name goes to the entry of the directory, and the first component that
  is missing or not in a directory gives ENOENT or ENOTDIR. It never panics; it leaves exactly one new reference on each
  inode of the path it returns, and none after an error.
\<close>

theorem resolve_path_walks:
  assumes "plain s" "path_ok s base" "root_inode s = Some r" "inodes s r \<noteq> None"
  shows "\<exists>n. vfs_resolve_path_at drv s base pathname flags =
    resolved s n (walk_path (flags AND O_ALLOW_NOENT \<noteq> 0) s
      (if is_absolute_path pathname then [\<lparr>p_inode = Some r, p_basename = None\<rparr>] else base) (components pathname))"
  using resolve_walks [OF assms] by blast

definition example_node :: inode where
  "example_node = \<lparr>i_fops = Dir_fops, i_dev = 0, i_rdev = 0, i_fifo = None, i_bound_socket = None, i_mode = 0x41ed, i_num_links = 1,
     i_ref_count = 1, i_content = vec_empty, i_children = []\<rparr>"

text \<open>A root directory with a directory \<^verbatim>\<open>a\<close> that has a file \<^verbatim>\<open>b\<close>.\<close>

definition example_vfs :: vfs where
  "example_vfs = \<lparr>inodes = [0 \<mapsto> example_node\<lparr>i_children := [([97], 1)]\<rparr>, 1 \<mapsto> example_node\<lparr>i_children := [([98], 2)]\<rparr>,
       2 \<mapsto> example_node\<lparr>i_fops := Non_dir_fops, i_mode := 0x81a4\<rparr>],
     open_files = (\<lambda>_. None), next_addr = 3, oom = (\<lambda>_. False), destroyed = [], root_inode = Some 0, mount_points = [],
     devices = [], next_dev_id = 1\<rparr>"

lemma example_vfs_plain: "plain example_vfs"
  by (auto simp: plain_def tree_ok_def live_def tmpfs_node_def example_vfs_def example_node_def S_ISDIR_def S_ISLNK_def split: if_splits)

lemma example_vfs_root:
  "root_inode example_vfs = Some 0" "inodes example_vfs 0 \<noteq> None" "path_ok example_vfs [\<lparr>p_inode = Some 0, p_basename = None\<rparr>]"
  by (simp_all add: example_vfs_def path_ok_def)

theorem resolve_path_walks_witness:
  "\<exists>n. vfs_resolve_path_at (\<lambda>_. non_dir_fops) example_vfs [\<lparr>p_inode = Some 0, p_basename = None\<rparr>] [97, 47, 46, 46, 47, 97, 47, 98] 0 =
    resolved example_vfs n (Inr [\<lparr>p_inode = Some 2, p_basename = Some [98]\<rparr>, \<lparr>p_inode = Some 1, p_basename = Some [97]\<rparr>,
      \<lparr>p_inode = Some 0, p_basename = None\<rparr>])"
proof -
  have c: "components [97, 47, 46, 46, 47, 97, 47, 98] = [[97], [46, 46], [97], [98]]" by (simp add: components.simps)
  have "child_of example_vfs 0 [97] = Inr 1" "child_of example_vfs 1 [98] = Inr 2"
    by (simp_all add: child_of_def example_vfs_def example_node_def S_ISDIR_def)
  then have "walk_path False example_vfs [\<lparr>p_inode = Some 0, p_basename = None\<rparr>] [[97], [46, 46], [97], [98]] =
    Inr [\<lparr>p_inode = Some 2, p_basename = Some [98]\<rparr>, \<lparr>p_inode = Some 1, p_basename = Some [97]\<rparr>, \<lparr>p_inode = Some 0, p_basename = None\<rparr>]"
    by simp
  with resolve_path_walks [OF example_vfs_plain example_vfs_root(3,1,2), of "\<lambda>_. non_dir_fops" "[97, 47, 46, 46, 47, 97, 47, 98]" 0] c
  show ?thesis by (simp add: is_absolute_path_def)
qed

text \<open>
  A user can pass the flag \<^verbatim>\<open>O_ALLOW_NOENT\<close> to \<^verbatim>\<open>open\<close>, which hands its flags on. For a name whose last component is missing the
  path then has no inode, and the assertion in \<^verbatim>\<open>vfs_open_at\<close> fails.
\<close>

lemma open_allow_noent_panics:
  assumes "plain s" "path_ok s base" "root_inode s = Some r" "inodes s r \<noteq> None" "\<not> is_absolute_path pathname"
    and "walk_path True s base (components pathname) = Inr (\<lparr>p_inode = None, p_basename = Some c\<rparr> # parent)"
  shows "vfs_open_at drv mk_fifo s base pathname O_ALLOW_NOENT m = None"
proof -
  from resolve_walks [OF assms(1-4), of drv pathname O_ALLOW_NOENT] assms(5,6) obtain n where
    "vfs_resolve_path_at drv s base pathname O_ALLOW_NOENT =
      Some (Inr (\<lparr>p_inode = None, p_basename = Some c\<rparr> # parent), plus_refs (held parent) (s\<lparr>next_addr := n\<rparr>))"
    by (auto simp: resolved_def)
  then show ?thesis by (simp add: vfs_open_at_def path_into_inode_def)
qed

section \<open>A new file\<close>

text \<open>The state with a new inode \<open>c\<close> under a name of the directory \<open>a\<close>: one reference is the entry's, one the caller's.\<close>

definition created :: "vfs \<Rightarrow> nat \<Rightarrow> inode \<Rightarrow> fname \<Rightarrow> nat \<Rightarrow> u32 \<Rightarrow> vfs" where
  "created s a i name c m =
     s\<lparr>inodes := (inodes s)(a \<mapsto> i\<lparr>i_children := i_children i @ [(name, c)]\<rparr>,
        c \<mapsto> \<lparr>i_fops = (if S_ISDIR m then Dir_fops else Non_dir_fops), i_dev = i_dev i, i_rdev = 0, i_fifo = None,
             i_bound_socket = None, i_mode = m, i_num_links = 1, i_ref_count = 2, i_content = vec_empty, i_children = []\<rparr>)\<rparr>"

lemma created_plain:
  assumes "plain s" "inodes s a = Some i" "inodes s c = None" "S_ISDIR (i_mode i)" "\<not> S_ISLNK m"
  shows "plain (created s a i name c m)"
proof -
  let ?s = "created s a i name c m"
  have ac: "a \<noteq> c" using assms(2,3) by auto
  have node: "tmpfs_node x \<and> (\<forall>name d. map_of (i_children x) name = Some d \<longrightarrow> inodes ?s d \<noteq> None) \<and> \<not> S_ISLNK (i_mode x)
      \<and> (0 < i_ref_count x \<or> 0 < i_num_links x)"
    if x: "inodes ?s b = Some x" for b x
  proof -
    have dom: "inodes s d \<noteq> None \<Longrightarrow> inodes ?s d \<noteq> None" "inodes ?s c \<noteq> None" for d by (auto simp: created_def)
    consider (new) "b = c" | (dir) "b = a" | (other) "b \<noteq> a" "b \<noteq> c" "inodes s b = Some x" using x by (auto simp: created_def split: if_splits)
    then show ?thesis
    proof cases
      case new
      with x assms(5) show ?thesis by (auto simp: created_def tmpfs_node_def)
    next
      case dir
      with x ac have "x = i\<lparr>i_children := i_children i @ [(name, c)]\<rparr>" by (simp add: created_def)
      moreover have "tmpfs_node i" "\<not> S_ISLNK (i_mode i)" "0 < i_ref_count i \<or> 0 < i_num_links i"
        "\<And>name d. map_of (i_children i) name = Some d \<Longrightarrow> inodes s d \<noteq> None"
        using assms(1,2) by (auto simp: plain_def tree_ok_def live_def)
      ultimately show ?thesis using dom by (auto simp: tmpfs_node_def map_add_Some_iff split: if_splits)
    next
      case other
      with assms(1) dom show ?thesis by (auto simp: plain_def tree_ok_def live_def)
    qed
  qed
  have "live ?s" unfolding live_def using node by meson
  moreover have "\<forall>b x. inodes ?s b = Some x \<longrightarrow> tmpfs_node x \<and> (\<forall>name d. map_of (i_children x) name = Some d \<longrightarrow> inodes ?s d \<noteq> None)"
    using node by meson
  moreover have "\<forall>b x. inodes ?s b = Some x \<longrightarrow> \<not> S_ISLNK (i_mode x)" using node by meson
  moreover have "mount_points ?s = []" "\<forall>n. \<not> oom ?s n" using assms(1) by (simp_all add: created_def plain_def)
  ultimately show ?thesis unfolding plain_def tree_ok_def by simp
qed

lemma create_child_plain:
  assumes "plain s" "inodes s a = Some i" "S_ISDIR (i_mode i)" "map_of (i_children i) name = None" "inodes s n = None"
    and "m AND S_IFMT \<noteq> 0" "\<not> S_ISLNK m" "n \<notin> set as"
  shows "inode_create_child drv (plus_refs (a # as) (s\<lparr>next_addr := n\<rparr>)) a name m =
    Some (Inr n, plus_refs as (created s a i name n m\<lparr>next_addr := n + 3\<rparr>))"
proof -
  let ?s = "created s a i name n m\<lparr>next_addr := n + 3\<rparr>"
  have an: "a \<noteq> n" using assms(2,5) by auto
  have ok: "live ?s" "i_fops i = Dir_fops"
    using created_plain [OF assms(1,2,5,3,7)] assms(1-3) by (auto simp: plain_def tree_ok_def tmpfs_node_def)
  have a: "inodes ?s a = Some (i\<lparr>i_children := i_children i @ [(name, n)]\<rparr>)" using an by (simp add: created_def)
  have mem: "oom s = (\<lambda>_. False)" using assms(1) by (auto simp: plain_def)
  have n0: "count_list as n = 0" using assms(8) by (simp add: count_list_0_iff)
  have state: "(plus_refs (a # as) (s\<lparr>next_addr := n\<rparr>))\<lparr>next_addr := Suc (Suc (Suc n)),
        inodes := (inodes (plus_refs (a # as) (s\<lparr>next_addr := n\<rparr>)))
          (n \<mapsto> \<lparr>i_fops = fo, i_dev = i_dev i, i_rdev = 0, i_fifo = None, i_bound_socket = None, i_mode = m, i_num_links = Suc 0,
             i_ref_count = Suc (Suc 0), i_content = vec_empty, i_children = []\<rparr>,
           a \<mapsto> i\<lparr>i_ref_count := Suc (i_ref_count i + count_list as a), i_children := i_children i @ [(name, n)]\<rparr>)\<rparr> =
      plus_refs (a # as) ?s" if "fo = (if S_ISDIR m then Dir_fops else Non_dir_fops)" for fo
    using an n0 that by (auto simp: plus_refs_def created_def fun_eq_iff)
  have "inode_create_child drv (plus_refs (a # as) (s\<lparr>next_addr := n\<rparr>)) a name m =
      do { s \<leftarrow> inode_unref (plus_refs (a # as) ?s) (Some a); Some (Inr n, s) }"
    using assms an ok(2) mem n0
    by (simp add: inode_create_child_def ops_of_def dir_fops_def c_assert_def tmpfs_create_child_def alloc_def inodes_plus_refs
        tmpfs_link_child_def dentry_append_def inode_ref_def set_inode_def state)
  with inode_unref_plus [OF ok(1) a, of as] show ?thesis by simp
qed

text \<open>A walk that ends with a missing name ends in a directory that does not have it.\<close>

lemma walk_missing:
  assumes "tree_ok s" "path_ok s path" "walk_path True s path cs = Inr (\<lparr>p_inode = None, p_basename = Some name\<rparr> # parent)"
  shows "path_ok s parent \<and> child_of s (the (p_inode (hd parent))) name = Inl ENOENT"
  using assms(2,3)
proof (induction cs arbitrary: path)
  case Nil
  then show ?case by (simp add: path_ok_def)
next
  case (Cons c cs)
  consider (dots) "c = [46]" | (up) "c = [46, 46]" | (name) "c \<noteq> [46]" "c \<noteq> [46, 46]" by blast
  then show ?case
  proof cases
    case dots
    with Cons show ?thesis by simp
  next
    case up
    have "path_ok s (if tl path = [] then path else tl path)" using Cons.prems(1) by (cases path) (auto simp: path_ok_def)
    with Cons.IH up Cons.prems(2) show ?thesis by simp
  next
    case name
    show ?thesis
    proof (cases "child_of s (the (p_inode (hd path))) c")
      case (Inl e)
      with name Cons.prems show ?thesis by (auto split: if_splits)
    next
      case (Inr i)
      from child_exists [OF assms(1) Inr] have "path_ok s (\<lparr>p_inode = Some i, p_basename = Some c\<rparr> # path)"
        using Cons.prems(1) by (auto simp: path_ok_def)
      from Cons.IH [OF this] name Inr Cons.prems(2) show ?thesis by simp
    qed
  qed
qed

lemma held_exist: "path_ok s path \<Longrightarrow> a \<in> set (held path) \<Longrightarrow> inodes s a \<noteq> None"
proof -
  assume "path_ok s path" "a \<in> set (held path)"
  moreover have "a \<in> set (held path) \<longleftrightarrow> (\<exists>n\<in>set path. p_inode n = Some a)"
    by (induction path) (auto split: option.splits)
  ultimately show ?thesis by (fastforce simp: path_ok_def list_all_iff)
qed

text \<open>\<^verbatim>\<open>create_at\<close> for a name that is not there.\<close>

lemma create_at_missing:
  assumes "plain s" "path_ok s base" "root_inode s = Some r" "inodes s r \<noteq> None" "\<forall>k\<ge>next_addr s. inodes s k = None"
    and "walk_path True s (if is_absolute_path pathname then [\<lparr>p_inode = Some r, p_basename = None\<rparr>] else base) (components pathname) =
      Inr (\<lparr>p_inode = None, p_basename = Some name\<rparr> # parent)"
    and "m AND S_IFMT \<noteq> 0" "\<not> S_ISLNK m"
  obtains a i c n where "inodes s a = Some i" "S_ISDIR (i_mode i)" "inodes s c = None" "c < n"
    "create_at drv s base pathname m exclusive =
      Some (Inr (\<lparr>p_inode = Some c, p_basename = Some name\<rparr> # parent), plus_refs (held parent) (created s a i name c m\<lparr>next_addr := n\<rparr>))"
    "path_ok s parent" "p_inode (hd parent) = Some a" "map_of (i_children i) name = None"
proof -
  from resolve_walks [OF assms(1-4), of drv pathname O_ALLOW_NOENT] assms(6) obtain n where n: "n \<ge> next_addr s"
    and res: "vfs_resolve_path_at drv s base pathname O_ALLOW_NOENT =
      Some (Inr (\<lparr>p_inode = None, p_basename = Some name\<rparr> # parent), plus_refs (held parent) (s\<lparr>next_addr := n\<rparr>))"
    by (auto simp: resolved_def)
  have start: "path_ok s (if is_absolute_path pathname then [\<lparr>p_inode = Some r, p_basename = None\<rparr>] else base)"
    using assms(2,4) by (auto simp: path_ok_def)
  have tree: "tree_ok s" using assms(1) by (simp add: plain_def)
  from walk_missing [OF tree start assms(6)] have parent: "path_ok s parent" "child_of s (the (p_inode (hd parent))) name = Inl ENOENT"
    by simp_all
  then obtain pn rest where pn: "parent = pn # rest" by (cases parent) (auto simp: path_ok_def)
  obtain a i where a: "p_inode pn = Some a" "inodes s a = Some i" using parent(1) unfolding pn by (rule path_okD)
  have dir: "S_ISDIR (i_mode i)" "map_of (i_children i) name = None"
    using parent(2) a by (auto simp: pn child_of_def split: if_splits option.splits)
  have fresh: "inodes s n = None" using assms(5) n by simp
  then have "n \<notin> set (held parent)" using held_exist [OF parent(1)] by blast
  from create_child_plain [OF assms(1) a(2) dir fresh assms(7,8) this, of drv] inode_ref_plus [of "s\<lparr>next_addr := n\<rparr>" a i "held parent"] a(2)
  have "create_loop drv (plus_refs (held parent) (s\<lparr>next_addr := n\<rparr>)) a name m exclusive =
      Some (Inr n, plus_refs (held parent) (created s a i name n m\<lparr>next_addr := n + 3\<rparr>))"
    by (subst create_loop.simps) simp
  with res a pn have "create_at drv s base pathname m exclusive =
      Some (Inr (\<lparr>p_inode = Some n, p_basename = Some name\<rparr> # parent), plus_refs (held parent) (created s a i name n m\<lparr>next_addr := n + 3\<rparr>))"
    by (simp add: create_at_def)
  from that [OF a(2) dir(1) fresh _ this parent(1)] a(1) dir(2) show thesis by (simp add: pn)
qed

text \<open>Reading and writing a regular file of tmpfs.\<close>

definition regular_file :: "vfs \<Rightarrow> nat \<Rightarrow> open_file \<Rightarrow> inode \<Rightarrow> bool" where
  "regular_file s f fl i \<longleftrightarrow> open_files s f = Some fl \<and> inodes s (f_inode fl) = Some i \<and> i_fops i = Non_dir_fops
     \<and> i_mode i AND S_IFMT = S_IFREG \<and> f_flags fl AND O_ACCMODE = O_RDWR"

lemma file_write_regular:
  assumes "regular_file s f fl i" "\<not> oom s (next_addr s)" "vec_pwrite True (i_content i) bytes (f_offset fl) = Some (Inr n, v)"
  shows "file_write drv s f bytes =
    Some (Inr n, s\<lparr>next_addr := next_addr s + 1, inodes := (inodes s)(f_inode fl \<mapsto> i\<lparr>i_content := v\<rparr>),
      open_files := (open_files s)(f \<mapsto> fl\<lparr>f_offset := f_offset fl + ucast n\<rparr>)\<rparr>)"
  using assms
  by (simp add: regular_file_def file_write_def inode_is_seekable_def file_pwrite_def S_ISDIR_def ops_of_def non_dir_fops_def
      tmpfs_pwrite_def alloc_def set_inode_def advance_def)

lemma file_read_regular:
  assumes "open_files s f = Some fl" "inodes s (f_inode fl) = Some i" "i_fops i = Non_dir_fops" "i_mode i AND S_IFMT = S_IFREG"
    and "f_flags fl AND O_ACCMODE \<noteq> O_WRONLY" "vec_pread (i_content i) count (f_offset fl) = Some bytes"
  shows "file_read drv s f count =
    Some (Inr bytes, s\<lparr>open_files := (open_files s)(f \<mapsto> fl\<lparr>f_offset := f_offset fl + of_nat (length bytes)\<rparr>)\<rparr>)"
  using assms
  by (simp add: file_read_def inode_is_seekable_def file_pread_def S_ISDIR_def ops_of_def non_dir_fops_def
      tmpfs_pread_def advance_def)

lemma file_rewind_regular:
  assumes "regular_file s f fl i"
  shows "file_seek drv s f 0 0 = Some (Inr 0, s\<lparr>open_files := (open_files s)(f \<mapsto> fl\<lparr>f_offset := 0\<rparr>)\<rparr>)"
  using assms by (simp add: regular_file_def file_seek_def inode_is_seekable_def set_offset_def)

lemma write_rewind_read:
  assumes "regular_file s f fl i" "\<not> oom s (next_addr s)" "f_offset fl = 0" "vec_ok (i_content i)"
    and "unat (v_capacity (i_content i)) \<le> 2 ^ 31 - 4096" "length bytes \<le> 2 ^ 32 - 4096"
  shows "\<exists>s2 s3 s4 v n fs. file_write drv s f bytes = Some (Inr (of_nat (length bytes)), s2) \<and> file_seek drv s2 f 0 0 = Some (Inr 0, s3)
     \<and> file_read drv s3 f (of_nat (length bytes)) = Some (Inr bytes, s4)
     \<and> s4 = s\<lparr>next_addr := n, inodes := (inodes s)(f_inode fl \<mapsto> i\<lparr>i_content := v\<rparr>), open_files := fs\<rparr>
     \<and> vec_pread v (of_nat (length bytes)) 0 = Some bytes"
proof -
  from vec_pwrite_content [OF assms(4), of 0 bytes True] assms(5,6) obtain v where
    w: "vec_pwrite True (i_content i) bytes 0 = Some (Inr (of_nat (length bytes)), v)" by fastforce
  have r: "vec_pread v (of_nat (length bytes)) 0 = Some bytes"
    using vf.written_is_read [OF assms(4) _ w] assms(6) by simp
  let ?i = "i\<lparr>i_content := v\<rparr>" and ?fl = "fl\<lparr>f_offset := f_offset fl + ucast (of_nat (length bytes) :: u32)\<rparr>"
  let ?s2 = "s\<lparr>next_addr := next_addr s + 1, inodes := (inodes s)(f_inode fl \<mapsto> ?i), open_files := (open_files s)(f \<mapsto> ?fl)\<rparr>"
  let ?s3 = "?s2\<lparr>open_files := (open_files ?s2)(f \<mapsto> ?fl\<lparr>f_offset := 0\<rparr>)\<rparr>"
  have "file_write drv s f bytes = Some (Inr (of_nat (length bytes)), ?s2)"
    using file_write_regular [OF assms(1,2)] w assms(3) by simp
  moreover have reg2: "regular_file ?s2 f ?fl ?i" using assms(1) by (simp add: regular_file_def)
  then have "file_seek drv ?s2 f 0 0 = Some (Inr 0, ?s3)" by (rule file_rewind_regular)
  moreover have "\<exists>fs. file_read drv ?s3 f (of_nat (length bytes)) = Some (Inr bytes, ?s3\<lparr>open_files := fs\<rparr>)"
    using file_read_regular [of ?s3 f "?fl\<lparr>f_offset := 0\<rparr>" ?i "of_nat (length bytes)" bytes drv] r assms(1)
    by (auto simp: regular_file_def)
  ultimately show ?thesis using r by force
qed

text \<open>The new entry is the only change to what a lookup finds, and writing to a file changes nothing of it.\<close>

lemma child_of_created:
  assumes "inodes s a = Some i" "S_ISDIR (i_mode i)" "map_of (i_children i) name = None" "inodes s c = None"
  shows "child_of (created s a i name c m) a name = Inr c"
    and "b \<noteq> c \<Longrightarrow> (b, x) \<noteq> (a, name) \<Longrightarrow> child_of (created s a i name c m) b x = child_of s b x"
proof -
  have "a \<noteq> c" using assms(1,4) by auto
  with assms show "child_of (created s a i name c m) a name = Inr c"
    "b \<noteq> c \<Longrightarrow> (b, x) \<noteq> (a, name) \<Longrightarrow> child_of (created s a i name c m) b x = child_of s b x"
    by (auto simp: child_of_def created_def map_add_def split: option.splits)
qed

lemma content_irrelevant:
  assumes "inodes s c = Some i"
  shows "child_of (s\<lparr>next_addr := n, inodes := (inodes s)(c \<mapsto> i\<lparr>i_content := v\<rparr>), open_files := fs\<rparr>) = child_of s"
    and "plain (s\<lparr>next_addr := n, inodes := (inodes s)(c \<mapsto> i\<lparr>i_content := v\<rparr>), open_files := fs\<rparr>) = plain s"
    and "path_ok (s\<lparr>next_addr := n, inodes := (inodes s)(c \<mapsto> i\<lparr>i_content := v\<rparr>), open_files := fs\<rparr>) = path_ok s"
proof -
  let ?s = "s\<lparr>next_addr := n, inodes := (inodes s)(c \<mapsto> i\<lparr>i_content := v\<rparr>), open_files := fs\<rparr>"
  have dom: "inodes ?s d \<noteq> None \<longleftrightarrow> inodes s d \<noteq> None" for d using assms by simp
  have all: "(\<forall>b x. inodes ?s b = Some x \<longrightarrow> P x) \<longleftrightarrow> (\<forall>b x. inodes s b = Some x \<longrightarrow> P x)"
    if "\<And>x w. P (x\<lparr>i_content := w\<rparr>) = P x" for P
    using assms that by (auto split: if_splits)
  show "child_of ?s = child_of s" using assms by (auto simp: child_of_def fun_eq_iff)
  have "live ?s = live s" unfolding live_def by (rule all) simp
  moreover have "(\<forall>b x. inodes ?s b = Some x \<longrightarrow> tmpfs_node x \<and> (\<forall>name d. map_of (i_children x) name = Some d \<longrightarrow> inodes ?s d \<noteq> None))
    \<longleftrightarrow> (\<forall>b x. inodes s b = Some x \<longrightarrow> tmpfs_node x \<and> (\<forall>name d. map_of (i_children x) name = Some d \<longrightarrow> inodes s d \<noteq> None))"
    unfolding dom by (rule all) (simp add: tmpfs_node_def)
  moreover have "(\<forall>b x. inodes ?s b = Some x \<longrightarrow> \<not> S_ISLNK (i_mode x)) \<longleftrightarrow> (\<forall>b x. inodes s b = Some x \<longrightarrow> \<not> S_ISLNK (i_mode x))"
    by (rule all) simp
  ultimately show "plain ?s = plain s" unfolding plain_def tree_ok_def by simp
  show "path_ok ?s = path_ok s" unfolding path_ok_def dom ..
qed

text \<open>The walk that ended at a missing name finds it once the entry is there.\<close>

lemma walk_found:
  assumes "tree_ok s" "path_ok s path" "walk_path True s path cs = Inr (\<lparr>p_inode = None, p_basename = Some name\<rparr> # parent)"
    and "child_of s' (the (p_inode (hd parent))) name = Inr c"
    and "\<And>b x. inodes s b \<noteq> None \<Longrightarrow> (b, x) \<noteq> (the (p_inode (hd parent)), name) \<Longrightarrow> child_of s' b x = child_of s b x"
  shows "walk_path allow s' path cs = Inr (\<lparr>p_inode = Some c, p_basename = Some name\<rparr> # parent)"
  using assms(2,3)
proof (induction cs arbitrary: path)
  case Nil
  then show ?case by (simp add: path_ok_def)
next
  case (Cons x cs)
  have missing: "child_of s (the (p_inode (hd parent))) name = Inl ENOENT" using walk_missing [OF assms(1) Cons.prems] by simp
  have up: "path_ok s (if tl path = [] then path else tl path)" using Cons.prems(1) by (cases path) (auto simp: path_ok_def)
  consider (dots) "x = [46]" | (up) "x = [46, 46]" | (missing) e where "x \<noteq> [46]" "x \<noteq> [46, 46]" "child_of s (the (p_inode (hd path))) x = Inl e"
    | (found) i where "x \<noteq> [46]" "x \<noteq> [46, 46]" "child_of s (the (p_inode (hd path))) x = Inr i"
    by (cases "child_of s (the (p_inode (hd path))) x") blast+
  then show ?case
  proof cases
    case dots
    with Cons show ?thesis by simp
  next
    case up
    with Cons.IH [OF \<open>path_ok s (if tl path = [] then path else tl path)\<close>] Cons.prems(2) show ?thesis by simp
  next
    case missing
    with Cons.prems(2) assms(4) show ?thesis by (auto split: if_splits)
  next
    case found
    have "inodes s (the (p_inode (hd path))) \<noteq> None" using Cons.prems(1) by (cases path) (auto simp: path_ok_def)
    moreover have "(the (p_inode (hd path)), x) \<noteq> (the (p_inode (hd parent)), name)" using missing found by auto
    ultimately have "child_of s' (the (p_inode (hd path))) x = Inr i" using assms(5) found by simp
    moreover have "path_ok s (\<lparr>p_inode = Some i, p_basename = Some x\<rparr> # path)"
      using child_exists [OF assms(1) found(3)] Cons.prems(1) by (auto simp: path_ok_def)
    ultimately show ?thesis using Cons.IH found Cons.prems(2) by simp
  qed
qed

lemma open_new_file:
  assumes "plain s" "path_ok s base" "root_inode s = Some r" "inodes s r \<noteq> None" "\<forall>k\<ge>next_addr s. inodes s k = None"
    and "walk_path True s (if is_absolute_path pathname then [\<lparr>p_inode = Some r, p_basename = None\<rparr>] else base) (components pathname) =
      Inr (\<lparr>p_inode = None, p_basename = Some name\<rparr> # parent)"
    and "m AND S_IFMT = S_IFREG"
  obtains a i c n f fl new where "inodes s a = Some i" "S_ISDIR (i_mode i)" "map_of (i_children i) name = None" "inodes s c = None"
    "p_inode (hd parent) = Some a"
    "vfs_open_at drv mk_fifo s base pathname (O_CREAT OR O_RDWR) m =
      Some (Inr f, created s a i name c m\<lparr>next_addr := n, open_files := (open_files s)(f \<mapsto> fl)\<rparr>)"
    "f_inode fl = c" "f_offset fl = 0" "f_flags fl = O_CREAT OR O_RDWR"
    "inodes (created s a i name c m) c = Some new" "i_fops new = Non_dir_fops" "i_mode new = m" "i_content new = vec_empty"
proof -
  have m: "m AND S_IFMT \<noteq> 0" "\<not> S_ISLNK m" "\<not> S_ISDIR m" "\<not> S_ISBLK m" "\<not> S_ISCHR m" "\<not> S_ISFIFO m"
    using assms(7) by (simp_all add: S_ISLNK_def S_ISDIR_def S_ISBLK_def S_ISCHR_def S_ISFIFO_def)
  obtain a i c n where c: "inodes s a = Some i" "S_ISDIR (i_mode i)" "inodes s c = None" "c < n"
    "create_at drv s base pathname m False =
      Some (Inr (\<lparr>p_inode = Some c, p_basename = Some name\<rparr> # parent), plus_refs (held parent) (created s a i name c m\<lparr>next_addr := n\<rparr>))"
    "path_ok s parent" "p_inode (hd parent) = Some a" "map_of (i_children i) name = None"
    by (rule create_at_missing [OF assms(1-6) m(1,2), of drv False])
  let ?s = "created s a i name c m\<lparr>next_addr := n\<rparr>"
  have pl: "plain ?s" using created_plain [OF assms(1) c(1,3,2) m(2)] by simp
  have mem: "oom ?s = (\<lambda>_. False)" using pl by (auto simp: plain_def)
  have "path_ok ?s parent" using c(6) by (auto simp: path_ok_def created_def list_all_iff)
  then have "path_destroy_recursive (plus_refs (held parent) ?s) parent = Some ?s"
    using destroy_path [of ?s parent "[]"] path_ok_nodes pl by (simp add: plain_def)
  then have into: "path_into_inode (plus_refs (held parent) ?s) (\<lparr>p_inode = Some c, p_basename = Some name\<rparr> # parent) = Some (Some c, ?s)"
    by (simp add: path_into_inode_def path_destroy_last_def inode_unref_def)
  let ?new = "\<lparr>i_fops = Non_dir_fops, i_dev = i_dev i, i_rdev = 0, i_fifo = None, i_bound_socket = None, i_mode = m, i_num_links = 1,
      i_ref_count = 2, i_content = vec_empty, i_children = []\<rparr>"
  have new: "inodes ?s c = Some ?new" using m(3) by (simp add: created_def)
  let ?fl = "\<lparr>f_inode = c, f_flags = O_CREAT OR O_RDWR, f_offset = 0, f_ref_count = 1\<rparr>"
  let ?s1 = "?s\<lparr>next_addr := n + 1, open_files := (open_files s)(n \<mapsto> ?fl)\<rparr>"
  have special: "resolve_special_file mk_fifo ?s c = Some (Inr c, ?s)"
    using new m by (simp add: resolve_special_file_def)
  have files: "open_files ?s = open_files s" by (simp add: created_def)
  have "inode_open drv ?s c (O_CREAT OR O_RDWR) m = Some (Inr n, ?s1)"
    using new m(3) mem files by (simp add: inode_open_def alloc_def ops_of_def non_dir_fops_def)
  then have "vfs_open_at drv mk_fifo s base pathname (O_CREAT OR O_RDWR) m = Some (Inr n, ?s1)"
    using c(5) into special by (simp add: vfs_open_at_def)
  with that [of a i c n ?fl "n + 1" ?new] c(1,2,8,3,7) new show thesis by simp
qed

lemma open_existing_file:
  assumes "plain s" "path_ok s base" "root_inode s = Some r" "inodes s r \<noteq> None"
    and "walk_path False s (if is_absolute_path pathname then [\<lparr>p_inode = Some r, p_basename = None\<rparr>] else base) (components pathname) =
      Inr (\<lparr>p_inode = Some c, p_basename = Some name\<rparr> # parent)"
    and "path_ok s parent" "inodes s c = Some i" "i_fops i = Non_dir_fops" "i_mode i AND S_IFMT = S_IFREG"
    and "vec_pread (i_content i) count 0 = Some bytes"
  shows "\<exists>f s1 s2. vfs_open_at drv mk_fifo s base pathname O_RDONLY m = Some (Inr f, s1)
    \<and> file_read drv s1 f count = Some (Inr bytes, s2)"
proof -
  have mode: "\<not> S_ISDIR (i_mode i)" "\<not> S_ISBLK (i_mode i)" "\<not> S_ISCHR (i_mode i)" "\<not> S_ISFIFO (i_mode i)"
    using assms(9) by (simp_all add: S_ISDIR_def S_ISBLK_def S_ISCHR_def S_ISFIFO_def)
  from resolve_walks [OF assms(1-4), of drv pathname O_RDONLY] assms(5) obtain n where
    res: "vfs_resolve_path_at drv s base pathname O_RDONLY =
      Some (Inr (\<lparr>p_inode = Some c, p_basename = Some name\<rparr> # parent), plus_refs (c # held parent) (s\<lparr>next_addr := n\<rparr>))"
    by (auto simp: resolved_def)
  let ?s = "plus_refs [c] (s\<lparr>next_addr := n\<rparr>)"
  have "plus_refs (c # held parent) (s\<lparr>next_addr := n\<rparr>) = plus_refs (held parent @ [c]) (s\<lparr>next_addr := n\<rparr>)"
    by (rule plus_refs_cong) simp
  then have into: "path_into_inode (plus_refs (c # held parent) (s\<lparr>next_addr := n\<rparr>)) (\<lparr>p_inode = Some c, p_basename = Some name\<rparr> # parent) =
      Some (Some c, ?s)"
    using destroy_path [of "s\<lparr>next_addr := n\<rparr>" parent "[c]"] path_ok_nodes [OF assms(6)] assms(1)
    by (simp add: path_into_inode_def path_destroy_last_def inode_unref_def plain_def)
  have node: "inodes ?s c = Some (i\<lparr>i_ref_count := i_ref_count i + 1\<rparr>)" using assms(7) by (simp add: inodes_plus_refs)
  have mem: "oom ?s = (\<lambda>_. False)" "next_addr ?s = n" using assms(1) by (auto simp: plain_def plus_refs_def)
  have special: "resolve_special_file mk_fifo ?s c = Some (Inr c, ?s)" using node mode by (simp add: resolve_special_file_def)
  let ?fl = "\<lparr>f_inode = c, f_flags = O_RDONLY, f_offset = 0, f_ref_count = 1\<rparr>"
  let ?s1 = "?s\<lparr>next_addr := n + 1, open_files := (open_files ?s)(n \<mapsto> ?fl)\<rparr>"
  have "inode_open drv ?s c O_RDONLY m = Some (Inr n, ?s1)"
    using node mode(1) mem assms(8) by (simp add: inode_open_def alloc_def ops_of_def non_dir_fops_def)
  then have "vfs_open_at drv mk_fifo s base pathname O_RDONLY m = Some (Inr n, ?s1)"
    using res into special by (simp add: vfs_open_at_def)
  moreover have "\<exists>s2. file_read drv ?s1 n count = Some (Inr bytes, s2)"
    using file_read_regular [of ?s1 n ?fl "i\<lparr>i_ref_count := i_ref_count i + 1\<rparr>" count bytes drv] node assms(8-10) by simp
  ultimately show ?thesis by blast
qed

text \<open>
  C40. In a tmpfs tree without symbolic links and mounts, in a kernel that has memory, opening a name that is not there with
  \<^verbatim>\<open>O_CREAT | O_RDWR\<close> and the mode of a regular file creates one. A new inode with this mode is the entry of the name in its
  directory, so that the walk along the path name now ends there, and no other entry of a directory changes. The bytes
  written through the new file, up to 4 GiB less a page, are what it reads after a seek to the beginning, and what is read
  after a second \<^verbatim>\<open>open\<close> of the path name. None of the calls fails or panics.
\<close>

theorem created_file_is_read:
  assumes "plain s" "path_ok s base" "root_inode s = Some r" "inodes s r \<noteq> None" "\<forall>k\<ge>next_addr s. inodes s k = None"
    and "start = (if is_absolute_path pathname then [\<lparr>p_inode = Some r, p_basename = None\<rparr>] else base)"
    and "walk_path True s start (components pathname) = Inr (\<lparr>p_inode = None, p_basename = Some name\<rparr> # parent)"
    and "m AND S_IFMT = S_IFREG" "length bytes \<le> 2 ^ 32 - 4096"
  shows "\<exists>f c i s1 s2 s3 s4 f' s5 s6. vfs_open_at drv mk_fifo s base pathname (O_CREAT OR O_RDWR) m = Some (Inr f, s1)
     \<and> inodes s c = None \<and> inodes s1 c = Some i \<and> i_mode i = m
     \<and> walk_path False s1 start (components pathname) = Inr (\<lparr>p_inode = Some c, p_basename = Some name\<rparr> # parent)
     \<and> (\<forall>b x. b \<noteq> c \<and> (b, x) \<noteq> (the (p_inode (hd parent)), name) \<longrightarrow> child_of s1 b x = child_of s b x)
     \<and> file_write drv s1 f bytes = Some (Inr (of_nat (length bytes)), s2) \<and> file_seek drv s2 f 0 0 = Some (Inr 0, s3)
     \<and> file_read drv s3 f (of_nat (length bytes)) = Some (Inr bytes, s4)
     \<and> vfs_open_at drv mk_fifo s4 base pathname O_RDONLY 0 = Some (Inr f', s5)
     \<and> file_read drv s5 f' (of_nat (length bytes)) = Some (Inr bytes, s6)"
proof -
  have nolnk: "\<not> S_ISLNK m" using assms(8) by (simp add: S_ISLNK_def)
  have tree: "tree_ok s" using assms(1) by (simp add: plain_def)
  have start: "path_ok s start" using assms(2,4,6) by (auto simp: path_ok_def)
  obtain a i c n f fl new where o: "inodes s a = Some i" "S_ISDIR (i_mode i)" "map_of (i_children i) name = None" "inodes s c = None"
    "p_inode (hd parent) = Some a"
    "vfs_open_at drv mk_fifo s base pathname (O_CREAT OR O_RDWR) m =
      Some (Inr f, created s a i name c m\<lparr>next_addr := n, open_files := (open_files s)(f \<mapsto> fl)\<rparr>)"
    "f_inode fl = c" "f_offset fl = 0" "f_flags fl = O_CREAT OR O_RDWR"
    "inodes (created s a i name c m) c = Some new" "i_fops new = Non_dir_fops" "i_mode new = m" "i_content new = vec_empty"
    by (rule open_new_file [OF assms(1-5) assms(7) [unfolded assms(6)] assms(8)])
  let ?c = "created s a i name c m"
  let ?s1 = "?c\<lparr>next_addr := n, open_files := (open_files s)(f \<mapsto> fl)\<rparr>"
  have pl: "plain ?c" by (rule created_plain [OF assms(1) o(1,4,2) nolnk])
  have ch1: "child_of ?s1 = child_of ?c" by (simp add: child_of_def fun_eq_iff)
  have regular: "regular_file ?s1 f fl new" using o(7,9-12) assms(8) by (simp add: regular_file_def)
  have "\<not> oom ?s1 (next_addr ?s1)" using pl by (simp add: plain_def)
  from write_rewind_read [OF regular this o(8), of bytes drv] o(13) vec_empty_ok(1) assms(9) obtain s2 s3 v n' fs where
    w: "file_write drv ?s1 f bytes = Some (Inr (of_nat (length bytes)), s2)" "file_seek drv s2 f 0 0 = Some (Inr 0, s3)"
      "file_read drv s3 f (of_nat (length bytes)) =
        Some (Inr bytes, ?s1\<lparr>next_addr := n', inodes := (inodes ?s1)(c \<mapsto> new\<lparr>i_content := v\<rparr>), open_files := fs\<rparr>)"
      "vec_pread v (of_nat (length bytes)) 0 = Some bytes"
    by (auto simp: vec_empty_def o(7))
  let ?s4 = "?s1\<lparr>next_addr := n', inodes := (inodes ?s1)(c \<mapsto> new\<lparr>i_content := v\<rparr>), open_files := fs\<rparr>"
  have s4: "?s4 = ?c\<lparr>next_addr := n', inodes := (inodes ?c)(c \<mapsto> new\<lparr>i_content := v\<rparr>), open_files := fs\<rparr>" by simp
  note same = content_irrelevant [where n = n' and v = v and fs = fs, OF o(10), folded s4]
  have dir: "child_of ?c (the (p_inode (hd parent))) name = Inr c"
    and rest: "\<And>b x. b \<noteq> c \<Longrightarrow> (b, x) \<noteq> (the (p_inode (hd parent)), name) \<Longrightarrow> child_of ?c b x = child_of s b x"
    using child_of_created [where m = m, OF o(1-4)] o(5) by simp_all
  have old: "b \<noteq> c" if "inodes s b \<noteq> None" for b using that o(4) by blast
  have walk: "walk_path False s' start (components pathname) = Inr (\<lparr>p_inode = Some c, p_basename = Some name\<rparr> # parent)"
    if "child_of s' = child_of ?c" for s'
    unfolding that [symmetric] using dir rest old by (intro walk_found [OF tree start assms(7)]) (simp_all add: that)
  have grow: "path_ok ?c p" if "path_ok s p" for p using that by (auto simp: path_ok_def created_def list_all_iff)
  have parent: "path_ok s parent" using walk_missing [OF tree start assms(7)] by simp
  have roots: "root_inode ?s4 = Some r" "inodes ?s4 r \<noteq> None" using assms(3,4) by (auto simp: created_def)
  have "inodes ?s4 c = Some (new\<lparr>i_content := v\<rparr>)" by simp
  from open_existing_file [where drv = drv and mk_fifo = mk_fifo and m = 0, OF _ _ roots _ _ this _ _ , of base pathname name parent "of_nat (length bytes)" bytes]
  obtain f' s5 s6 where again: "vfs_open_at drv mk_fifo ?s4 base pathname O_RDONLY 0 = Some (Inr f', s5)"
      "file_read drv s5 f' (of_nat (length bytes)) = Some (Inr bytes, s6)"
    using same pl grow assms(2) parent walk [OF same(1)] assms(6,8) o(11,12) w(4) by auto
  have "inodes ?s1 c = Some new" using o(10) by simp
  moreover have "\<forall>b x. b \<noteq> c \<and> (b, x) \<noteq> (the (p_inode (hd parent)), name) \<longrightarrow> child_of ?s1 b x = child_of s b x"
    using rest unfolding ch1 by blast
  ultimately show ?thesis using o(4,6,12) walk [OF ch1] w(1-3) again by (intro exI conjI)
qed

theorem created_file_is_read_witness:
  "\<exists>f c i s1 s2 s3 s4 f' s5 s6. vfs_open_at (\<lambda>_. non_dir_fops) tmpfs_mount example_vfs [\<lparr>p_inode = Some 0, p_basename = None\<rparr>]
       [97, 47, 99] (O_CREAT OR O_RDWR) 0x81a4 = Some (Inr f, s1)
     \<and> inodes s1 c = Some i \<and> i_mode i = 0x81a4
     \<and> walk_path False s1 [\<lparr>p_inode = Some 0, p_basename = None\<rparr>] [[97], [99]] =
         Inr [\<lparr>p_inode = Some c, p_basename = Some [99]\<rparr>, \<lparr>p_inode = Some 1, p_basename = Some [97]\<rparr>, \<lparr>p_inode = Some 0, p_basename = None\<rparr>]
     \<and> file_write (\<lambda>_. non_dir_fops) s1 f [104, 105] = Some (Inr 2, s2) \<and> file_seek (\<lambda>_. non_dir_fops) s2 f 0 0 = Some (Inr 0, s3)
     \<and> file_read (\<lambda>_. non_dir_fops) s3 f 2 = Some (Inr [104, 105], s4)
     \<and> vfs_open_at (\<lambda>_. non_dir_fops) tmpfs_mount s4 [\<lparr>p_inode = Some 0, p_basename = None\<rparr>] [97, 47, 99] O_RDONLY 0 = Some (Inr f', s5)
     \<and> file_read (\<lambda>_. non_dir_fops) s5 f' 2 = Some (Inr [104, 105], s6)"
proof -
  let ?base = "[\<lparr>p_inode = Some 0, p_basename = None\<rparr>]"
  have c: "components [97, 47, 99] = [[97], [99]]" by (simp add: components.simps)
  have "child_of example_vfs 0 [97] = Inr 1" "child_of example_vfs 1 [99] = Inl ENOENT"
    by (simp_all add: child_of_def example_vfs_def example_node_def S_ISDIR_def)
  then have w: "walk_path True example_vfs ?base (components [97, 47, 99]) =
    Inr (\<lparr>p_inode = None, p_basename = Some [99]\<rparr> # [\<lparr>p_inode = Some 1, p_basename = Some [97]\<rparr>, \<lparr>p_inode = Some 0, p_basename = None\<rparr>])"
    by (simp add: c)
  have fresh: "\<forall>k\<ge>next_addr example_vfs. inodes example_vfs k = None" by (simp add: example_vfs_def)
  have start: "?base = (if is_absolute_path [97, 47, 99] then [\<lparr>p_inode = Some 0, p_basename = None\<rparr>] else ?base)" by simp
  have k: "of_nat (length ([104, 105] :: u8 list)) = (2 :: 'a :: semiring_1)" by simp
  have m: "(0x81a4 :: u32) AND S_IFMT = S_IFREG" "length ([104, 105] :: u8 list) \<le> 2 ^ 32 - 4096" by simp_all
  from created_file_is_read [OF example_vfs_plain example_vfs_root(3,1,2) fresh start w m, of "\<lambda>_. non_dir_fops" tmpfs_mount]
  obtain f ci i s1 s2 s3 s4 f' s5 s6 where
    "vfs_open_at (\<lambda>_. non_dir_fops) tmpfs_mount example_vfs ?base [97, 47, 99] (O_CREAT OR O_RDWR) 0x81a4 = Some (Inr f, s1)"
    "inodes s1 ci = Some i" "i_mode i = 0x81a4"
    "walk_path False s1 ?base (components [97, 47, 99]) =
      Inr (\<lparr>p_inode = Some ci, p_basename = Some [99]\<rparr> # [\<lparr>p_inode = Some 1, p_basename = Some [97]\<rparr>, \<lparr>p_inode = Some 0, p_basename = None\<rparr>])"
    "file_write (\<lambda>_. non_dir_fops) s1 f [104, 105] = Some (Inr (of_nat (length ([104, 105] :: u8 list))), s2)"
    "file_seek (\<lambda>_. non_dir_fops) s2 f 0 0 = Some (Inr 0, s3)"
    "file_read (\<lambda>_. non_dir_fops) s3 f (of_nat (length ([104, 105] :: u8 list))) = Some (Inr [104, 105], s4)"
    "vfs_open_at (\<lambda>_. non_dir_fops) tmpfs_mount s4 ?base [97, 47, 99] O_RDONLY 0 = Some (Inr f', s5)"
    "file_read (\<lambda>_. non_dir_fops) s5 f' (of_nat (length ([104, 105] :: u8 list))) = Some (Inr [104, 105], s6)"
    by (elim exE conjE)
  then show ?thesis
    unfolding c k by blast
qed

section \<open>References that are not dropped\<close>

text \<open>\<^verbatim>\<open>O_TRUNC\<close> on a directory: the call fails, but the open file it made stays, with its reference on the directory.\<close>

lemma trunc_directory_leaks:
  assumes "inodes s a = Some i" "S_ISDIR (i_mode i)" "i_fops i = Dir_fops" "\<not> oom s (next_addr s)"
  shows "\<exists>s'. inode_open drv s a (O_RDONLY OR O_TRUNC) m = Some (Inl EISDIR, s') \<and> inodes s' = inodes s
    \<and> open_files s' (next_addr s) \<noteq> None"
  using assms by (simp add: inode_open_def alloc_def ops_of_def dir_fops_def open_trunc_def)

text \<open>Going over a mount point takes a reference on the mounted root and keeps the one on the directory below it.\<close>

lemma resolve_mounts_keeps_host:
  assumes "mounted_on (mount_points s) host = Some guest" "guest \<noteq> host" "inodes s guest = Some g"
  shows "resolve_mounts s host = Some (guest, plus_refs [guest] s)"
  using assms inode_ref_plus [OF assms(3), of "[]"] by (simp add: resolve_mounts_def)

text \<open>The string of a path has each name behind a separator, from the root on.\<close>

lemma path_to_string_names:
  assumes "list_all (\<lambda>n. p_basename n \<noteq> None) path" "path \<noteq> []" "p_basename root = None"
  shows "path_to_string (path @ [root]) = Some (concat (map (\<lambda>n. PATH_SEPARATOR # the (p_basename n)) (rev path)))"
proof -
  have "path_render (path @ [root]) acc = Some (concat (map (\<lambda>n. PATH_SEPARATOR # the (p_basename n)) (rev path)) @ acc)" for acc
    using assms(1)
  proof (induction path arbitrary: acc)
    case Nil
    then show ?case using assms(3) by (simp add: c_assert_def)
  next
    case (Cons n path)
    then show ?case by auto
  qed
  from this [of "[]"] show ?thesis
    using assms(2) by (cases path) (auto simp: path_to_string_def split: list.split simp del: path_render.simps)
qed

end
