(* ===== verification/Spec2Isabelle.thy ===== *)
theory Spec2Isabelle
  imports Sched Fifo Vm Stdio Lock Unix_Socket Tty Clock Task_Sys Vfs
begin

text \<open>
  A verification library for the yagura kernel and the C routines it shares with its user programs.

  \<^bold>\<open>The program.\<close> yagura is a Unix-like operating system for 32-bit x86 machines with several processors.
  Under \<^verbatim>\<open>src/kernel\<close> a scheduler (\<^verbatim>\<open>sched.c\<close>) hands the processors to tasks (\<^verbatim>\<open>task.c\<close>). A task owns an address
  space (\<^verbatim>\<open>memory/vm.c\<close>) whose regions are backed by page tables (\<^verbatim>\<open>memory/page_table.c\<close>) and counted page frames
  (\<^verbatim>\<open>memory/page.c\<close>), and shares with its threads a table of open files and a table of signal actions. Tasks talk
  through signals (\<^verbatim>\<open>task.c\<close>, \<^verbatim>\<open>syscall/signal.c\<close>), pipes (\<^verbatim>\<open>fs/fifo.c\<close>) and sockets (\<^verbatim>\<open>unix_socket.c\<close>), which keep
  their bytes in ring buffers (\<^verbatim>\<open>containers/ring_buf.h\<close>). System calls move data between user and kernel memory with
  the checked copies of \<^verbatim>\<open>safe_string.c\<close>. \<^verbatim>\<open>src/common\<close> holds the string, sorting and formatting routines.

  \<^bold>\<open>Conventions.\<close> A C function is a function of the state it reads to its result and the new state, in the option
  type. \<^term>\<open>None\<close> is a kernel panic: a failed \<^verbatim>\<open>ASSERT\<close>, \<^verbatim>\<open>UNREACHABLE\<close> or \<^verbatim>\<open>UNIMPLEMENTED\<close>, or a wild access. An
  error number is the value \<^term>\<open>Inl e\<close> of the type \<^typ>\<open>'a result\<close>. Unsigned integers and addresses are
  words of their width; \<^verbatim>\<open>pid_t\<close> and \<^verbatim>\<open>int\<close> are integers where the code does no arithmetic that could overflow
  without saying so. An object of the kernel heap is a number, its address, and a partial map gives its contents. A
  critical section under a lock is one step. A call that may sleep takes the list of states it sees each time the
  scheduler looks at its condition; it ends in \<^term>\<open>Asleep\<close> when the list ends first.

  \<^bold>\<open>The theories.\<close>
  \<^item> \<^verbatim>\<open>Prelude\<close>: widths, error numbers, assertions, checked array access, \<^verbatim>\<open>ffs\<close> and the rounding macros.
  \<^item> \<^verbatim>\<open>Ring_Buf\<close>: \<^verbatim>\<open>containers/ring_buf.h\<close>. The buffer refines a bounded queue of bytes; the locale of that
    contract is interpreted on the model of the buffer.
  \<^item> \<^verbatim>\<open>User_Mem\<close>: \<^verbatim>\<open>safe_string.c\<close> on a memory whose bytes may be unmapped or read-only. Copies to user memory
    change nothing outside the user range.
  \<^item> \<^verbatim>\<open>Task\<close>: the tables of \<^verbatim>\<open>task.c\<close>, sending of signals, exit, file descriptors. Exactly the addressed tasks get a
    signal; a new descriptor is the lowest free one; an exit signal out of range panics the kernel when the last
    thread of a process with a parent ends.
  \<^item> \<^verbatim>\<open>Signal\<close>: taking a signal, the frame of a handler and the return from it, \<^verbatim>\<open>syscall/signal.c\<close>. The lowest
    deliverable signal is taken, a handler that returns gives the interrupted registers back, and \<^verbatim>\<open>sigprocmask\<close>
    and the entry of a handler never block SIGKILL or SIGSTOP, which \<^verbatim>\<open>sigreturn\<close> and \<^verbatim>\<open>sigsuspend\<close> do when they are told to.
  \<^item> \<^verbatim>\<open>Blocking\<close>: \<^verbatim>\<open>sched_block\<close> and \<^verbatim>\<open>file_block\<close> as seen by the caller.
  \<^item> \<^verbatim>\<open>Sched\<close>: \<^verbatim>\<open>sched.c\<close>. An invariant ties the ready queue, the running tasks and the task states; yielding is
    round robin, a ready task runs after as many yields as its place in the queue, and a blocked task stays off the
    processors until its condition holds or a signal comes.
  \<^item> \<^verbatim>\<open>Fifo\<close>: \<^verbatim>\<open>fs/fifo.c\<close>. A pipe is a reliable stream, with end of file and EPIPE as the other end closes.
  \<^item> \<^verbatim>\<open>Page\<close>, \<^verbatim>\<open>Page_Table\<close>, \<^verbatim>\<open>Vm\<close>: \<^verbatim>\<open>memory/\<close> from the bitmap of frames to \<^verbatim>\<open>munmap\<close>. Page counts equal the
    references held, page tables map what the sorted and disjoint regions say, and each operation keeps this.
  \<^item> \<^verbatim>\<open>Lock\<close>: \<^verbatim>\<open>lock.c\<close> as an interleaving of steps; mutual exclusion of the recursive mutex.
  \<^item> \<^verbatim>\<open>Unix_Socket\<close>: \<^verbatim>\<open>unix_socket.c\<close>. Connections are accepted in the order in which they were made.
  \<^item> \<^verbatim>\<open>Tty\<close>: the line discipline of \<^verbatim>\<open>console/tty.c\<close>, from a typed character through editing and echo to a reader. The
    operations keep the buffers well-formed as long as a line fits, and a typed line is read as it was edited; a line of
    more than 1024 characters is written behind its buffer.
  \<^item> \<^verbatim>\<open>Clock\<close>: \<^verbatim>\<open>common/calendar.h\<close>, the clock chip of \<^verbatim>\<open>drivers/rtc.c\<close>, \<^verbatim>\<open>time.c\<close>, \<^verbatim>\<open>syscall/time.c\<close> and \<^verbatim>\<open>gmtime_r\<close> of the
    user library. A date in the registers of the chip, by its data sheet, survives the way to the user but for the afternoon of
    the 12-hour mode, and a sleep lasts until its deadline or a signal.
  \<^item> \<^verbatim>\<open>Task_Sys\<close>: \<^verbatim>\<open>syscall/task.c\<close> with \<^verbatim>\<open>clone\<close>, thread-local segments and \<^verbatim>\<open>wait4\<close>. The low eight bits that
    a child passes to \<^verbatim>\<open>exit\<close> are what its parent reads; a parent that collects the child before it has left its processor panics the kernel.
  \<^item> \<^verbatim>\<open>Vec\<close>: \<^verbatim>\<open>containers/vec.c\<close>. Below four gigabytes the buffer meets the contract of a file content, a locale; above,
    sizes are cut to 32 bits and memory outside the buffer is written.
  \<^item> \<^verbatim>\<open>Fs\<close>: \<^verbatim>\<open>fs/fs.c\<close>, \<^verbatim>\<open>fs/dentry.c\<close> and \<^verbatim>\<open>fs/tmpfs.c\<close>. Counted inodes, directory entries, the file system in memory and
    open files; the operations of other file systems and devices are an argument.
  \<^item> \<^verbatim>\<open>Vfs\<close>: \<^verbatim>\<open>fs/path.c\<close> and \<^verbatim>\<open>fs/vfs.c\<close>. Without links and mounts and while memory lasts, resolution of a path name is
    the walk along its components and keeps the reference counts exact, and a new file is found under its name with
    what was written to it.
    Links and mounts are modelled; the theorems about them are only those on references that are not dropped.
  \<^item> \<^verbatim>\<open>Cstring\<close>, \<^verbatim>\<open>Stdlib\<close>, \<^verbatim>\<open>Stdio\<close>: \<^verbatim>\<open>src/common\<close> on a flat memory of bytes. \<^verbatim>\<open>memmove\<close> copies overlapping areas,
    \<^verbatim>\<open>qsort\<close> ends with a sorted permutation, \<^verbatim>\<open>vsnprintf\<close> writes what the directives say and \<^verbatim>\<open>atoi\<close> reads it back.

  \<^bold>\<open>Bounds.\<close> No definition has a fuel parameter; the number in \<^verbatim>\<open>resolve_path_at\<close> is the bound of the code on followed
  links, nine of them, after which it returns ELOOP. Loops are structural recursion or functions with a termination
  proof; loops that may not end are partial functions into the option type, and the theorems show that
  they return for the inputs they speak of. One does not: \<^verbatim>\<open>tty_keeps_well_formed\<close> is about a read that returns, since a reader that finds a
  ring of zeros can go round it for ever.

  \<^bold>\<open>Not modelled.\<close> Hardware set-up, drivers and assembly code, whose meaning is the machine's; the file
  system calls, the boot archive and \<^verbatim>\<open>/proc\<close>; program loading; the terminal emulator; floating point; the shell and the other user
  programs. The inventory of the manifest gives a reason for each.
\<close>

end
